(* ===== verification/Base.thy ===== *)
theory Base
  imports Main "HOL-Library.Word"
begin

text \<open>
  Prelude of the development: bytes, the memory of the receive buffer, big-endian and
  little-endian encodings (\<open>htons\<close>, \<open>ntohs\<close>, \<open>htobe64\<close>, \<open>be64toh\<close> of a little-endian
  host), and the facts on bytes that the protocol theories share.
\<close>

unbundle bit_operations_syntax

named_theorems byte_simps \<open>bit tests on a byte as bounds on its value\<close>
named_theorems mem_simps \<open>reading and writing the buffer memory\<close>

type_synonym byte = "8 word"

section \<open>Bytes\<close>

lemma byte_cases:
  obtains n where "n < 256" "b = (word_of_nat n :: byte)"
proof
  show "unat b < 256" using unsigned_less [of b] by simp
  show "b = word_of_nat (unat b)" by simp
qed

lemma all_bytes: "(\<forall>b::byte. P b) \<longleftrightarrow> (\<forall>n\<in>set [0..<256]. P (word_of_nat n))"
proof
  assume all: "\<forall>n\<in>set [0..<256]. P (word_of_nat n)"
  show "\<forall>b. P b"
  proof
    fix b :: byte
    obtain n where "n < 256" "b = word_of_nat n" by (rule byte_cases)
    with all show "P b" by auto
  qed
qed auto

lemma unat_byte_less [simp]: "unat (b::byte) < 256"
  using unsigned_less [of b] by simp

lemma byte_eq_iff: "(a::byte) = b \<longleftrightarrow> unat a = unat b"
  by (simp add: word_unat_eq_iff)

lemma unat_and_mask: "unat ((b::byte) AND mask k) = unat b mod 2 ^ k"
proof -
  have "unat (take_bit k b) = take_bit k (unat b)" by (rule unsigned_take_bit_eq)
  then show ?thesis by (simp only: take_bit_eq_mask [symmetric] take_bit_eq_mod)
qed

lemma unat_and_not_mask: "unat ((b::byte) AND NOT (mask k)) = unat b div 2 ^ k * 2 ^ k"
proof -
  let ?h = "b AND NOT (mask k)"
  have "drop_bit k ?h = drop_bit k b" "take_bit k ?h = 0"
    by (auto simp: bit_eq_iff bit_simps dest: bit_imp_le_length)
  moreover have "unat (drop_bit k c) = unat c div 2 ^ k" for c :: byte
    by (simp only: drop_bit_eq_div [where 'a = nat, symmetric] unsigned_drop_bit_eq)
       (simp add: drop_bit_eq_div take_bit_eq_mod)
  moreover have "unat (take_bit k c) = unat c mod 2 ^ k" for c :: byte
    by (simp only: take_bit_eq_mod [where 'a = nat, symmetric] unsigned_take_bit_eq)
  ultimately have "unat ?h div 2 ^ k = unat b div 2 ^ k" "unat ?h mod 2 ^ k = 0"
    by (metis, metis unsigned_0)
  then show ?thesis
    by (metis add.right_neutral div_mult_mod_eq)
qed

lemma mask_bytes:
  "mask 4 = (15::byte)" "mask 7 = (127::byte)"
  "NOT (mask 7) = (128::byte)" "NOT (mask 6) = (192::byte)" "NOT (mask 5) = (224::byte)"
  "NOT (mask 4) = (240::byte)" "NOT (mask 3) = (248::byte)" "NOT (mask 1) = (254::byte)"
  by (simp_all add: mask_eq_exp_minus_1)

lemma unat_and_bytes [byte_simps]:
  fixes b :: byte
  shows "unat (b AND 15) = unat b mod 16" "unat (b AND 127) = unat b mod 128"
    "unat (b AND 128) = unat b div 128 * 128" "unat (b AND 192) = unat b div 64 * 64"
    "unat (b AND 224) = unat b div 32 * 32" "unat (b AND 240) = unat b div 16 * 16"
    "unat (b AND 248) = unat b div 8 * 8" "unat (b AND 254) = unat b div 2 * 2"
  by (simp_all only: mask_bytes [symmetric] unat_and_mask unat_and_not_mask) simp_all

lemma unat_numeral_byte:
  "unat (0::byte) = 0" "unat (128::byte) = 128" "unat (160::byte) = 160" "unat (192::byte) = 192"
  "unat (224::byte) = 224" "unat (240::byte) = 240" "unat (64::byte) = 64"
  by simp_all

lemma div_times_eq_iff: "0 < k \<Longrightarrow> n div k * k = q * k \<longleftrightarrow> q * k \<le> n \<and> n < q * k + (k::nat)"
proof
  assume "0 < k" "n div k * k = q * k"
  then show "q * k \<le> n \<and> n < q * k + k"
    using div_mult_mod_eq [of n k] mod_less_divisor [of k n] by linarith
next
  assume "0 < k" "q * k \<le> n \<and> n < q * k + k"
  then have "n div k = q" by (intro div_nat_eqI) (simp_all add: mult.commute)
  then show "n div k * k = q * k" by simp
qed

lemma byte_range:
  fixes b :: byte
  shows "b AND 128 = 0 \<longleftrightarrow> unat b < 128"
    and "b AND 192 = 128 \<longleftrightarrow> 128 \<le> unat b \<and> unat b < 192"
    and "b AND 224 = 128 \<longleftrightarrow> 128 \<le> unat b \<and> unat b < 160"
    and "b AND 224 = 160 \<longleftrightarrow> 160 \<le> unat b \<and> unat b < 192"
    and "b AND 240 = 128 \<longleftrightarrow> 128 \<le> unat b \<and> unat b < 144"
    and "b AND 240 = 224 \<longleftrightarrow> 224 \<le> unat b \<and> unat b < 240"
    and "b AND 248 = 240 \<longleftrightarrow> 240 \<le> unat b \<and> unat b < 248"
    and "b AND 254 = 192 \<longleftrightarrow> 192 \<le> unat b \<and> unat b < 194"
  using unat_byte_less [of b] by (simp_all only: byte_eq_iff byte_simps unat_numeral_byte)
   (use div_times_eq_iff [of 128 "unat b" 0] div_times_eq_iff [of 64 "unat b" 2]
      div_times_eq_iff [of 32 "unat b" 4] div_times_eq_iff [of 32 "unat b" 5]
      div_times_eq_iff [of 16 "unat b" 8] div_times_eq_iff [of 16 "unat b" 14]
      div_times_eq_iff [of 8 "unat b" 30] div_times_eq_iff [of 2 "unat b" 96] in simp_all)

lemma byte_60: "(b::byte) AND 96 = 64 \<longleftrightarrow> unat b div 32 mod 4 = 2"
proof -
  have "b AND 96 = (b AND 224) AND 127" by (simp only: and.assoc) simp
  then have "unat (b AND 96) = unat b div 32 * 32 mod 128" by (simp only: byte_simps)
  also have "\<dots> = (unat b div 32 mod 4) * 32"
    using mod_mult_mult2 [of "unat b div 32" 32 4] by simp
  finally show ?thesis by (simp only: byte_eq_iff unat_numeral_byte) simp
qed

lemmas byte_tests = byte_range byte_60

section \<open>Big-endian and little-endian numbers\<close>

text \<open>
  \<open>be_bytes n v\<close> is what \<open>htons\<close> (n = 2) and \<open>htobe64\<close> (n = 8) store, \<open>be_val\<close> what
  \<open>ntohs\<close> and \<open>be64toh\<close> read back; \<open>le_bytes\<close> and \<open>le_word32\<close> are the host's own order.
\<close>

fun be_bytes :: "nat \<Rightarrow> nat \<Rightarrow> byte list" where
  "be_bytes 0 v = []"
| "be_bytes (Suc n) v = word_of_nat (v div 256 ^ n) # be_bytes n v"

fun be_val :: "byte list \<Rightarrow> nat" where
  "be_val [] = 0"
| "be_val (b # bs) = unat b * 256 ^ length bs + be_val bs"

fun le_bytes :: "nat \<Rightarrow> nat \<Rightarrow> byte list" where
  "le_bytes 0 v = []"
| "le_bytes (Suc n) v = word_of_nat v # le_bytes n (v div 256)"

definition le_word32 :: "byte list \<Rightarrow> 32 word" where
  "le_word32 bs = ucast (bs ! 0) OR push_bit 8 (ucast (bs ! 1)) OR
     push_bit 16 (ucast (bs ! 2)) OR push_bit 24 (ucast (bs ! 3))"

lemma length_be_bytes [simp]: "length (be_bytes n v) = n"
  by (induction n) auto

lemma length_le_bytes [simp]: "length (le_bytes n v) = n"
  by (induction n arbitrary: v) auto

lemma unat_of_nat_byte [simp]: "unat (word_of_nat n :: byte) = n mod 256"
  by (simp add: unsigned_of_nat take_bit_eq_mod)

lemma be_val_be_bytes: "be_val (be_bytes n v) = v mod 256 ^ n"
proof (induction n)
  case (Suc n)
  have "v mod (256 ^ n * 256) = 256 ^ n * (v div 256 ^ n mod 256) + v mod 256 ^ n"
    by (rule mod_mult2_eq)
  with Suc show ?case by (simp add: mult.commute)
qed simp

lemma be_val_bound: "be_val bs < 256 ^ length bs"
proof (induction bs)
  case (Cons b bs)
  have "unat b * 256 ^ length bs \<le> 255 * 256 ^ length bs"
    using unat_byte_less [of b] by (intro mult_right_mono) linarith+
  with Cons show ?case
    by (simp only: be_val.simps list.size power_Suc add.right_neutral plus_1_eq_Suc add_Suc_right)
qed simp

section \<open>The buffer memory\<close>

text \<open>
  A receive buffer is addressed memory; a pointer is an address. \<open>rd m a n\<close> are the \<open>n\<close>
  bytes at \<open>a\<close>, \<open>wr m a bs\<close> is the memory after a \<open>memcpy\<close> of \<open>bs\<close> to \<open>a\<close>.
\<close>

type_synonym mem = "nat \<Rightarrow> byte"

definition rd :: "mem \<Rightarrow> nat \<Rightarrow> nat \<Rightarrow> byte list" where
  "rd m a n = map m [a..<a + n]"

definition wr :: "mem \<Rightarrow> nat \<Rightarrow> byte list \<Rightarrow> mem" where
  "wr m a bs = (\<lambda>i. if a \<le> i \<and> i < a + length bs then bs ! (i - a) else m i)"

definition agree_off :: "mem \<Rightarrow> mem \<Rightarrow> nat \<Rightarrow> nat \<Rightarrow> bool" where
  "agree_off m m' lo hi \<longleftrightarrow> (\<forall>i. i < lo \<or> hi \<le> i \<longrightarrow> m' i = m i)"

lemma length_rd [simp]: "length (rd m a n) = n"
  by (simp add: rd_def)

lemma nth_rd [mem_simps]: "i < n \<Longrightarrow> rd m a n ! i = m (a + i)"
  by (simp add: rd_def)

lemma rd_0 [simp]: "rd m a 0 = []"
  by (simp add: rd_def)

lemma rd_Suc: "rd m a (Suc n) = m a # rd m (Suc a) n"
  by (simp add: rd_def upt_rec)

lemma rd_add: "rd m a (n + k) = rd m a n @ rd m (a + n) k"
  by (rule nth_equalityI) (auto simp: nth_append mem_simps)

lemma rd_cong: "(\<And>i. a \<le> i \<Longrightarrow> i < a + n \<Longrightarrow> m i = m' i) \<Longrightarrow> rd m a n = rd m' a n"
  by (auto simp: rd_def)

lemma take_rd: "k \<le> n \<Longrightarrow> take k (rd m a n) = rd m a k"
  by (rule nth_equalityI) (auto simp: mem_simps)

lemma drop_rd: "drop k (rd m a n) = rd m (a + k) (n - k)"
  by (rule nth_equalityI) (auto simp: mem_simps add.assoc)

lemma wr_in [mem_simps]: "a \<le> i \<Longrightarrow> i < a + length bs \<Longrightarrow> wr m a bs i = bs ! (i - a)"
  by (simp add: wr_def)

lemma wr_out [mem_simps]: "i < a \<or> a + length bs \<le> i \<Longrightarrow> wr m a bs i = m i"
  by (auto simp: wr_def)

lemma rd_wr [simp]: "rd (wr m a bs) a (length bs) = bs"
  by (rule nth_equalityI) (auto simp: mem_simps)

lemma rd_wr_out: "a + n \<le> b \<or> b + length bs \<le> a \<Longrightarrow> rd (wr m b bs) a n = rd m a n"
  by (rule rd_cong) (auto simp: wr_def)

lemma rd_wr_left: "rd (wr m a bs) a (length bs + n) = bs @ rd m (a + length bs) n"
  by (simp add: rd_add rd_wr_out)

lemma agree_off_refl [simp]: "agree_off m m lo hi"
  by (simp add: agree_off_def)

lemma agree_off_trans: "agree_off m m' lo hi \<Longrightarrow> agree_off m' m'' lo hi \<Longrightarrow> agree_off m m'' lo hi"
  by (simp add: agree_off_def)

lemma agree_off_mono: "agree_off m m' lo hi \<Longrightarrow> lo' \<le> lo \<Longrightarrow> hi \<le> hi' \<Longrightarrow> agree_off m m' lo' hi'"
  by (auto simp: agree_off_def)

lemma agree_off_wr: "lo \<le> a \<Longrightarrow> a + length bs \<le> hi \<Longrightarrow> agree_off m (wr m a bs) lo hi"
  by (auto simp: agree_off_def wr_def)

end
