(* ===== verification/Utf8.thy ===== *)
theory Utf8
  imports Base
begin

text \<open>
  \<^verbatim>\<open>WebSocketProtocol<isServer, Impl>::isValidUtf8\<close> (uWebSockets \<open>WebSocketProtocol.h\<close>): the check
  every text message and every close reason goes through, and its meaning: the bytes are
  the concatenated UTF-8 encodings of Unicode scalar values (no overlong forms, no
  surrogates, nothing above U+10FFFF).
\<close>

section \<open>The code\<close>

text \<open>
  The pointer pair \<open>s\<close>, \<open>e\<close> is the list of bytes from \<open>s\<close> up to \<open>e\<close>; \<open>s + k \<ge> e\<close> is
  \<open>length s \<le> k\<close>. The inner loop that skips ASCII returns \<open>[]\<close> where the code returns \<open>true\<close>.
\<close>

fun skip_ascii :: "byte list \<Rightarrow> byte list" where
  "skip_ascii [] = []"
| "skip_ascii (b # s) = (if b AND 128 = 0 then skip_ascii s else b # s)"

lemma length_skip_ascii: "length (skip_ascii s) \<le> length s"
  by (induction s) auto

text \<open>
  The three branches for a multi-byte sequence: \<open>None\<close> is \<open>return false\<close>, \<open>Some k\<close> is
  \<open>s += k\<close>.
\<close>

definition utf8_seq :: "byte list \<Rightarrow> nat option" where
  "utf8_seq s =
     (if s ! 0 AND 0x60 = 0x40 then
        (if length s \<le> 1 \<or> s ! 1 AND 0xc0 \<noteq> 0x80 \<or> s ! 0 AND 0xfe = 0xc0 then None else Some 2)
      else if s ! 0 AND 0xf0 = 0xe0 then
        (if length s \<le> 2 \<or> s ! 1 AND 0xc0 \<noteq> 0x80 \<or> s ! 2 AND 0xc0 \<noteq> 0x80 \<or>
            s ! 0 = 0xe0 \<and> s ! 1 AND 0xe0 = 0x80 \<or> s ! 0 = 0xed \<and> s ! 1 AND 0xe0 = 0xa0 then None
         else Some 3)
      else if s ! 0 AND 0xf8 = 0xf0 then
        (if length s \<le> 3 \<or> s ! 1 AND 0xc0 \<noteq> 0x80 \<or> s ! 2 AND 0xc0 \<noteq> 0x80 \<or> s ! 3 AND 0xc0 \<noteq> 0x80 \<or>
            s ! 0 = 0xf0 \<and> s ! 1 AND 0xf0 = 0x80 \<or> s ! 0 = 0xf4 \<and> s ! 1 > 0x8f \<or> s ! 0 > 0xf4 then None
         else Some 4)
      else None)"

lemma utf8_seq_pos: "utf8_seq s = Some k \<Longrightarrow> 0 < k \<and> k \<le> length s"
  by (auto simp: utf8_seq_def split: if_splits)

function isValidUtf8 :: "byte list \<Rightarrow> bool" where
  "isValidUtf8 s0 =
     (if s0 = [] then True
      else if 4 \<le> length s0 \<and> le_word32 (take 4 s0) AND 0x80808080 = 0 then isValidUtf8 (drop 4 s0)
      else let s = skip_ascii s0 in
        if s = [] then True
        else case utf8_seq s of None \<Rightarrow> False | Some k \<Rightarrow> isValidUtf8 (drop k s))"
  by pat_completeness auto
termination
proof (relation "measure length")
  fix s0 s :: "byte list" and k
  assume "s = skip_ascii s0" "utf8_seq s = Some k"
  then show "(drop k s, s0) \<in> measure length"
    using utf8_seq_pos [of s k] length_skip_ascii [of s0] by auto
qed auto

declare isValidUtf8.simps [simp del]

section \<open>The specification\<close>

definition scalar_value :: "nat \<Rightarrow> bool" where
  "scalar_value c \<longleftrightarrow> c < 0xD800 \<or> 0xE000 \<le> c \<and> c < 0x110000"

definition utf8_encode :: "nat \<Rightarrow> byte list" where
  "utf8_encode c =
     (if c < 0x80 then [word_of_nat c]
      else if c < 0x800 then [word_of_nat (0xC0 + c div 64), word_of_nat (0x80 + c mod 64)]
      else if c < 0x10000 then
        [word_of_nat (0xE0 + c div 4096), word_of_nat (0x80 + c div 64 mod 64), word_of_nat (0x80 + c mod 64)]
      else [word_of_nat (0xF0 + c div 262144), word_of_nat (0x80 + c div 4096 mod 64),
            word_of_nat (0x80 + c div 64 mod 64), word_of_nat (0x80 + c mod 64)])"

definition utf8_text :: "byte list \<Rightarrow> bool" where
  "utf8_text s \<longleftrightarrow> (\<exists>cs. (\<forall>c \<in> set cs. scalar_value c) \<and> s = concat (map utf8_encode cs))"

lemma split64: "c = a * 64 + l \<Longrightarrow> l < 64 \<Longrightarrow> c div 64 = a \<and> c mod 64 = (l::nat)"
  by simp

lemma div64_chain: "(c::nat) div 4096 = c div 64 div 64" "c div 262144 = c div 64 div 64 div 64"
  by (simp_all flip: div_mult2_eq)

lemma utf8_encode_2:
  assumes "c = q * 64 + l" "l < 64" "q < 32" "2 \<le> q"
  shows "utf8_encode c = [word_of_nat (192 + q), word_of_nat (128 + l)]"
proof -
  have "c div 64 = q" "c mod 64 = l" "\<not> c < 128" "c < 2048" using assms by simp_all
  then show ?thesis by (simp add: utf8_encode_def)
qed

lemma utf8_encode_3:
  assumes c: "c = q * 4096 + m * 64 + l" and "l < 64" "m < 64" "q < 16" "0 < q \<or> 32 \<le> m"
  shows "utf8_encode c = [word_of_nat (224 + q), word_of_nat (128 + m), word_of_nat (128 + l)]"
proof -
  have "c div 64 = q * 64 + m \<and> c mod 64 = l"
    by (rule split64) (use c \<open>l < 64\<close> in simp_all)
  moreover have "\<not> c < 2048" "c < 65536" using assms by auto
  ultimately show ?thesis using assms by (simp add: utf8_encode_def div64_chain)
qed

lemma utf8_encode_4:
  assumes c: "c = q * 262144 + k * 4096 + m * 64 + l" and "l < 64" "m < 64" "k < 64" "0 < q \<or> 16 \<le> k"
  shows "utf8_encode c =
    [word_of_nat (240 + q), word_of_nat (128 + k), word_of_nat (128 + m), word_of_nat (128 + l)]"
proof -
  have 1: "c div 64 = q * 4096 + k * 64 + m \<and> c mod 64 = l"
    by (rule split64) (use c \<open>l < 64\<close> in simp_all)
  have 2: "(q * 4096 + k * 64 + m) div 64 = q * 64 + k \<and> (q * 4096 + k * 64 + m) mod 64 = m"
    by (rule split64) (use \<open>m < 64\<close> in simp_all)
  have "\<not> c < 65536" using assms by auto
  with 1 2 show ?thesis using \<open>k < 64\<close> by (simp add: utf8_encode_def div64_chain)
qed

lemma utf8_digits:
  obtains q k m l where "c = q * 262144 + k * 4096 + m * 64 + l" "l < 64" "m < 64" "k < (64::nat)"
proof
  show "c = c div 64 div 64 div 64 * 262144 + c div 64 div 64 mod 64 * 4096 + c div 64 mod 64 * 64 + c mod 64"
    using div_mult_mod_eq [of c 64] div_mult_mod_eq [of "c div 64" 64]
      div_mult_mod_eq [of "c div 64 div 64" 64] by linarith
qed simp_all

lemma utf8_text_Nil [simp]: "utf8_text []"
  by (auto simp: utf8_text_def intro: exI [of _ "[]"])

lemma utf8_text_encode: "scalar_value c \<Longrightarrow> utf8_text r \<Longrightarrow> utf8_text (utf8_encode c @ r)"
  unfolding utf8_text_def by (elim exE, rule_tac x = "c # cs" in exI) auto

lemma utf8_text_cases:
  assumes "utf8_text s" "s \<noteq> []"
  obtains c r where "scalar_value c" "s = utf8_encode c @ r" "utf8_text r"
proof -
  from assms obtain cs where cs: "\<forall>c \<in> set cs. scalar_value c" "s = concat (map utf8_encode cs)"
    by (auto simp: utf8_text_def)
  with \<open>s \<noteq> []\<close> obtain c cs' where "cs = c # cs'" by (cases cs) auto
  with cs show thesis by (intro that [of c "concat (map utf8_encode cs')"]) (auto simp: utf8_text_def)
qed

text \<open>The encodings by their number of bytes: the leading byte decides the length.\<close>

lemma utf8_encode_shape:
  assumes "scalar_value c"
  obtains (one) x where "utf8_encode c = [x]" "unat x < 128"
  | (two) x y where "utf8_encode c = [x, y]" "194 \<le> unat x" "unat x < 224" "128 \<le> unat y" "unat y < 192"
  | (three) x y z where "utf8_encode c = [x, y, z]" "224 \<le> unat x" "unat x < 240"
      "128 \<le> unat y" "unat y < 192" "128 \<le> unat z" "unat z < 192"
      "unat x = 224 \<longrightarrow> 160 \<le> unat y" "unat x = 237 \<longrightarrow> unat y < 160"
  | (four) x y z w where "utf8_encode c = [x, y, z, w]" "240 \<le> unat x" "unat x \<le> 244"
      "128 \<le> unat y" "unat y < 192" "128 \<le> unat z" "unat z < 192" "128 \<le> unat w" "unat w < 192"
      "unat x = 240 \<longrightarrow> 144 \<le> unat y" "unat x = 244 \<longrightarrow> unat y < 144"
proof -
  obtain q k m l where c: "c = q * 262144 + k * 4096 + m * 64 + l" "l < 64" "m < 64" "k < 64"
    by (rule utf8_digits)
  have sv: "c < 55296 \<or> 57344 \<le> c \<and> c < 1114112" using assms by (simp add: scalar_value_def)
  consider "c < 128" | "128 \<le> c" "c < 2048" | "2048 \<le> c" "c < 65536" | "65536 \<le> c" by linarith
  then show thesis
  proof cases
    case 1
    then show thesis by (intro one [of "word_of_nat c"]) (simp_all add: utf8_encode_def)
  next
    case 2
    with c have "q = 0" "k = 0" by auto
    with c 2 have "2 \<le> m" "m < 32" "c = m * 64 + l" by simp_all
    then show thesis
      using c by (intro two [OF utf8_encode_2 [of c m l]]) (simp_all del: of_nat_add)
  next
    case 3
    with c have "q = 0" by auto
    with c 3 have k: "k < 16" "0 < k \<or> 32 \<le> m" "c = k * 4096 + m * 64 + l" by auto
    with sv c have "k = 13 \<longrightarrow> m < 32" by linarith
    with k c show thesis
      by (intro three [OF utf8_encode_3 [of c k m l]]) (auto simp del: of_nat_add)
  next
    case 4
    with c sv have q: "q \<le> 4" "0 < q \<or> 16 \<le> k" by linarith+
    moreover from sv c have "q = 4 \<longrightarrow> k < 16" by linarith
    ultimately show thesis
      using c by (intro four [OF utf8_encode_4 [of c q k m l]]) (auto simp del: of_nat_add)
  qed
qed

lemma utf8_text_Cons:
  "utf8_text (b # s) \<Longrightarrow> \<exists>c r. scalar_value c \<and> b # s = utf8_encode c @ r \<and> utf8_text r"
  by (rule utf8_text_cases [of "b # s"]) auto

lemma utf8_text_ascii: "unat b < 128 \<Longrightarrow> utf8_text (b # s) \<longleftrightarrow> utf8_text s"
proof
  assume b: "unat b < 128" and "utf8_text (b # s)"
  then obtain c r where c: "scalar_value c" "b # s = utf8_encode c @ r" "utf8_text r"
    by (metis utf8_text_Cons)
  from c(1) show "utf8_text s"
    by (cases rule: utf8_encode_shape) (use b c(2,3) in auto)
next
  assume "unat b < 128" "utf8_text s"
  then show "utf8_text (b # s)"
    using utf8_text_encode [of "unat b" s] by (simp add: scalar_value_def utf8_encode_def)
qed

lemma utf8_text_2:
  assumes "192 \<le> unat b" "unat b < 224"
  shows "utf8_text (b # s) \<longleftrightarrow>
    (\<exists>b1 t. s = b1 # t \<and> 194 \<le> unat b \<and> 128 \<le> unat b1 \<and> unat b1 < 192 \<and> utf8_text t)"
proof
  assume "utf8_text (b # s)"
  then obtain c r where c: "scalar_value c" "b # s = utf8_encode c @ r" "utf8_text r"
    by (metis utf8_text_Cons)
  from c(1) show "\<exists>b1 t. s = b1 # t \<and> 194 \<le> unat b \<and> 128 \<le> unat b1 \<and> unat b1 < 192 \<and> utf8_text t"
    by (cases rule: utf8_encode_shape) (use assms c(2,3) in auto)
next
  assume "\<exists>b1 t. s = b1 # t \<and> 194 \<le> unat b \<and> 128 \<le> unat b1 \<and> unat b1 < 192 \<and> utf8_text t"
  then obtain b1 t where s: "s = b1 # t" "194 \<le> unat b" "128 \<le> unat b1" "unat b1 < 192" "utf8_text t"
    by blast
  let ?c = "(unat b - 192) * 64 + (unat b1 - 128)"
  have "utf8_encode ?c = [b, b1]"
    using utf8_encode_2 [OF refl, of "unat b1 - 128" "unat b - 192"] s assms by simp
  moreover have "scalar_value ?c" unfolding scalar_value_def using s assms by linarith
  ultimately show "utf8_text (b # s)" using utf8_text_encode [of ?c t] s by simp
qed

lemma utf8_text_3:
  assumes "224 \<le> unat b" "unat b < 240"
  shows "utf8_text (b # s) \<longleftrightarrow>
    (\<exists>b1 b2 t. s = b1 # b2 # t \<and> 128 \<le> unat b1 \<and> unat b1 < 192 \<and> 128 \<le> unat b2 \<and> unat b2 < 192 \<and>
       (unat b = 224 \<longrightarrow> 160 \<le> unat b1) \<and> (unat b = 237 \<longrightarrow> unat b1 < 160) \<and> utf8_text t)" (is "_ \<longleftrightarrow> ?R")
proof
  assume "utf8_text (b # s)"
  then obtain c r where c: "scalar_value c" "b # s = utf8_encode c @ r" "utf8_text r"
    by (metis utf8_text_Cons)
  from c(1) show ?R
    by (cases rule: utf8_encode_shape) (use assms c(2,3) in auto)
next
  assume ?R
  then obtain b1 b2 t where s: "s = b1 # b2 # t" "128 \<le> unat b1" "unat b1 < 192" "128 \<le> unat b2"
    "unat b2 < 192" "unat b = 224 \<longrightarrow> 160 \<le> unat b1" "unat b = 237 \<longrightarrow> unat b1 < 160" "utf8_text t"
    by blast
  let ?c = "(unat b - 224) * 4096 + (unat b1 - 128) * 64 + (unat b2 - 128)"
  have "utf8_encode ?c = [b, b1, b2]"
    using utf8_encode_3 [OF refl, of "unat b2 - 128" "unat b1 - 128" "unat b - 224"] s assms by force
  moreover have "scalar_value ?c"
  proof -
    consider "unat b < 237" | "unat b = 237" | "237 < unat b" by linarith
    then show ?thesis
      by cases (unfold scalar_value_def, use s assms in \<open>simp_all, linarith+\<close>)
  qed
  ultimately show "utf8_text (b # s)" using utf8_text_encode [of ?c t] s by simp
qed

lemma utf8_text_4:
  assumes "240 \<le> unat b"
  shows "utf8_text (b # s) \<longleftrightarrow>
    (\<exists>b1 b2 b3 t. s = b1 # b2 # b3 # t \<and> unat b \<le> 244 \<and> 128 \<le> unat b1 \<and> unat b1 < 192 \<and>
       128 \<le> unat b2 \<and> unat b2 < 192 \<and> 128 \<le> unat b3 \<and> unat b3 < 192 \<and>
       (unat b = 240 \<longrightarrow> 144 \<le> unat b1) \<and> (unat b = 244 \<longrightarrow> unat b1 < 144) \<and> utf8_text t)" (is "_ \<longleftrightarrow> ?R")
proof
  assume "utf8_text (b # s)"
  then obtain c r where c: "scalar_value c" "b # s = utf8_encode c @ r" "utf8_text r"
    by (metis utf8_text_Cons)
  from c(1) show ?R
    by (cases rule: utf8_encode_shape) (use assms c(2,3) in auto)
next
  assume ?R
  then obtain b1 b2 b3 t where s: "s = b1 # b2 # b3 # t" "unat b \<le> 244" "128 \<le> unat b1" "unat b1 < 192"
    "128 \<le> unat b2" "unat b2 < 192" "128 \<le> unat b3" "unat b3 < 192"
    "unat b = 240 \<longrightarrow> 144 \<le> unat b1" "unat b = 244 \<longrightarrow> unat b1 < 144" "utf8_text t"
    by blast
  let ?c = "(unat b - 240) * 262144 + (unat b1 - 128) * 4096 + (unat b2 - 128) * 64 + (unat b3 - 128)"
  have "utf8_encode ?c = [b, b1, b2, b3]"
    using utf8_encode_4 [OF refl, of "unat b3 - 128" "unat b2 - 128" "unat b1 - 128" "unat b - 240"] s assms
    by force
  moreover have "scalar_value ?c" unfolding scalar_value_def using s assms by linarith
  ultimately show "utf8_text (b # s)" using utf8_text_encode [of ?c t] s by simp
qed

lemma utf8_text_cont: "128 \<le> unat b \<Longrightarrow> unat b < 192 \<Longrightarrow> \<not> utf8_text (b # s)"
proof
  assume b: "128 \<le> unat b" "unat b < 192" and "utf8_text (b # s)"
  then obtain c r where c: "scalar_value c" "b # s = utf8_encode c @ r" "utf8_text r"
    by (metis utf8_text_Cons)
  from c(1) show False
    by (cases rule: utf8_encode_shape) (use b c(2,3) in auto)
qed

lemma bit7: "unat (b::byte) < 128 \<longleftrightarrow> \<not> bit b 7"
  using and_exp_eq_0_iff_not_bit [of b 7] by (simp add: byte_tests)
lemma high_bits_clear:
  assumes "length s = 4"
  shows "le_word32 s AND 0x80808080 = 0 \<longleftrightarrow> (\<forall>b \<in> set s. unat b < 128)"
proof -
  obtain a b c d where s: "s = [a, b, c, d]"
   using assms by (auto simp: numeral_eq_Suc length_Suc_conv)
  have m: "(0x80808080 :: 32 word) = 2 ^ 7 OR 2 ^ 15 OR 2 ^ 23 OR 2 ^ 31" by simp
  have "le_word32 s AND 0x80808080 = 0 \<longleftrightarrow> (\<forall>n \<in> {7, 15, 23, 31}. \<not> bit (le_word32 s) n)"
    unfolding m by (simp only: bit.conj_disj_distrib or_eq_0_iff and_exp_eq_0_iff_not_bit) simp
  also have "\<dots> \<longleftrightarrow> \<not> bit a 7 \<and> \<not> bit b 7 \<and> \<not> bit c 7 \<and> \<not> bit d 7"
    by (simp add: s le_word32_def bit_or_iff bit_push_bit_iff bit_ucast_iff; auto dest: bit_imp_le_length)
  finally show ?thesis by (simp add: s bit7)
qed

text \<open>Skipping ASCII bytes, one at a time or four at a time, keeps the verdict.\<close>

lemma utf8_text_ascii_append: "\<forall>b \<in> set a. unat b < 128 \<Longrightarrow> utf8_text (a @ s) \<longleftrightarrow> utf8_text s"
  by (induction a) (auto simp: utf8_text_ascii)

lemma utf8_text_skip_ascii: "utf8_text (skip_ascii s) \<longleftrightarrow> utf8_text s"
  by (induction s) (auto simp: byte_tests utf8_text_ascii)

lemma skip_ascii_hd: "skip_ascii s = b # t \<Longrightarrow> 128 \<le> unat b"
  by (induction s) (auto simp: byte_tests split: if_splits)

lemma isValidUtf8_lead:
  assumes "skip_ascii s = b # t"
  shows "utf8_text s \<longleftrightarrow> utf8_text (b # t)" "128 \<le> unat b"
  using assms utf8_text_skip_ascii [of s] skip_ascii_hd by auto

lemma lead_60:
  assumes "128 \<le> unat b"
  shows "b AND 0x60 = 0x40 \<longleftrightarrow> 192 \<le> unat b \<and> unat (b::byte) < 224"
proof -
  consider "unat b < 160" | "160 \<le> unat b" "unat b < 192" | "192 \<le> unat b" "unat b < 224" | "224 \<le> unat b"
    by linarith
  then show ?thesis
    using assms unat_byte_less [of b] div_nat_eqI [of 32 4 "unat b"] div_nat_eqI [of 32 5 "unat b"]
      div_nat_eqI [of 32 6 "unat b"] div_nat_eqI [of 32 7 "unat b"]
    by cases (simp_all add: byte_60)
qed

lemma byte_num:
  "b = 224 \<longleftrightarrow> unat b = 224" "b = 237 \<longleftrightarrow> unat b = 237" "b = 240 \<longleftrightarrow> unat b = 240"
  "b = 244 \<longleftrightarrow> unat b = 244" "244 < b \<longleftrightarrow> 244 < unat b" "143 < b \<longleftrightarrow> 143 < unat (b::byte)"
  by (simp_all add: byte_eq_iff word_less_nat_alt)

text \<open>One multi-byte sequence: the branches of the code against the specification.\<close>

lemma utf8_seq_3:
  assumes "224 \<le> unat b" "unat b < 240"
  shows "utf8_seq (b # x # y # r) =
    (if 128 \<le> unat x \<and> unat x < 192 \<and> 128 \<le> unat y \<and> unat y < 192 \<and>
        (unat b = 224 \<longrightarrow> 160 \<le> unat x) \<and> (unat b = 237 \<longrightarrow> unat x < 160) then Some 3 else None)"
    "utf8_seq [b] = None" "utf8_seq [b, x] = None"
proof -
  have b: "b AND 0x60 \<noteq> 0x40" "b AND 0xf0 = 0xe0" using assms by (simp_all add: lead_60 byte_range)
  show "utf8_seq [b] = None" "utf8_seq [b, x] = None" by (simp_all add: utf8_seq_def b)
  show "utf8_seq (b # x # y # r) =
    (if 128 \<le> unat x \<and> unat x < 192 \<and> 128 \<le> unat y \<and> unat y < 192 \<and>
        (unat b = 224 \<longrightarrow> 160 \<le> unat x) \<and> (unat b = 237 \<longrightarrow> unat x < 160) then Some 3 else None)"
    by (simp add: utf8_seq_def b byte_range byte_num) linarith
qed

lemma utf8_seq_4:
  assumes "240 \<le> unat b"
  shows "utf8_seq (b # x # y # z # r) =
    (if unat b \<le> 244 \<and> 128 \<le> unat x \<and> unat x < 192 \<and> 128 \<le> unat y \<and> unat y < 192 \<and>
        128 \<le> unat z \<and> unat z < 192 \<and>
        (unat b = 240 \<longrightarrow> 144 \<le> unat x) \<and> (unat b = 244 \<longrightarrow> unat x < 144) then Some 4 else None)"
    "utf8_seq [b] = None" "utf8_seq [b, x] = None" "utf8_seq [b, x, y] = None"
proof -
  have b: "b AND 0x60 \<noteq> 0x40" "b AND 0xf0 \<noteq> 0xe0" using assms by (simp_all add: lead_60 byte_range)
  show "utf8_seq [b] = None" "utf8_seq [b, x] = None" "utf8_seq [b, x, y] = None"
    by (simp_all add: utf8_seq_def b)
  have f8: "b AND 0xf8 = 0xf0" if "unat b \<le> 244" using assms that by (simp add: byte_range)
  have r: "utf8_seq (b # x # y # z # r) =
    (if b AND 0xf8 = 0xf0 then
       (if \<not> (128 \<le> unat x \<and> unat x < 192) \<or> \<not> (128 \<le> unat y \<and> unat y < 192) \<or>
           \<not> (128 \<le> unat z \<and> unat z < 192) \<or> unat b = 240 \<and> 128 \<le> unat x \<and> unat x < 144 \<or>
           unat b = 244 \<and> 143 < unat x \<or> 244 < unat b then None else Some 4)
     else None)"
    by (simp add: utf8_seq_def b byte_num(3-) byte_range(2,5))
  show "utf8_seq (b # x # y # z # r) =
    (if unat b \<le> 244 \<and> 128 \<le> unat x \<and> unat x < 192 \<and> 128 \<le> unat y \<and> unat y < 192 \<and>
        128 \<le> unat z \<and> unat z < 192 \<and>
        (unat b = 240 \<longrightarrow> 144 \<le> unat x) \<and> (unat b = 244 \<longrightarrow> unat x < 144) then Some 4 else None)"
    using f8 by (cases "unat b \<le> 244") (auto simp: r)
qed

lemma utf8_seq_step:
  assumes "128 \<le> unat b"
  shows "utf8_text (b # t) \<longleftrightarrow>
    (case utf8_seq (b # t) of None \<Rightarrow> False | Some k \<Rightarrow> utf8_text (drop k (b # t)))"
proof -
  consider "unat b < 192" | "192 \<le> unat b" "unat b < 224" | "224 \<le> unat b" "unat b < 240" | "240 \<le> unat b"
    by linarith
  then show ?thesis
  proof cases
    case 1
    with assms show ?thesis
      by (simp add: utf8_text_cont utf8_seq_def lead_60 byte_range)
  next
    case 2
    with assms show ?thesis
      by (cases t) (auto simp: utf8_text_2 utf8_seq_def lead_60 byte_range not_less)
  next
    case 3
    consider "t = []" | x where "t = [x]" | x y r where "t = x # y # r"
      by (metis list.exhaust)
    then show ?thesis
      by cases (auto simp: utf8_text_3 [OF 3] utf8_seq_3 [OF 3])
  next
    case 4
    consider "t = []" | x where "t = [x]" | x y where "t = [x, y]" | x y z r where "t = x # y # z # r"
      by (metis list.exhaust)
    then show ?thesis
      by cases (auto simp: utf8_text_4 [OF 4] utf8_seq_4 [OF 4])
  qed
qed

text \<open>The check accepts exactly the UTF-8 texts.\<close>

lemma isValidUtf8_iff: "isValidUtf8 s \<longleftrightarrow> utf8_text s"
proof (induction s rule: length_induct)
  case (1 s0)
  let ?four = "4 \<le> length s0 \<and> le_word32 (take 4 s0) AND 0x80808080 = 0"
  consider "s0 = []" | "s0 \<noteq> []" ?four | "s0 \<noteq> []" "\<not> ?four" "skip_ascii s0 = []"
    | b t where "s0 \<noteq> []" "\<not> ?four" "skip_ascii s0 = b # t"
    by (cases "skip_ascii s0") auto
  then show ?case
  proof cases
    case 1
    then show ?thesis by (simp add: isValidUtf8.simps)
  next
    case 2
    then have "utf8_text s0 \<longleftrightarrow> utf8_text (drop 4 s0)"
      using utf8_text_ascii_append [of "take 4 s0" "drop 4 s0"] high_bits_clear [of "take 4 s0"] by simp
    with 2 1 show ?thesis by (subst isValidUtf8.simps) simp
  next
    case 3
    then have "isValidUtf8 s0" by (subst isValidUtf8.simps) (simp only: if_False if_True Let_def simp_thms)
    with 3 show ?thesis using utf8_text_skip_ascii [of s0] by simp
  next
    case (4 b t)
    have "utf8_text s0 \<longleftrightarrow> utf8_text (b # t)" "128 \<le> unat b"
      by (rule isValidUtf8_lead [OF 4(3)])+
    moreover have "isValidUtf8 s0 = (case utf8_seq (b # t) of None \<Rightarrow> False | Some k \<Rightarrow> isValidUtf8 (drop k (b # t)))"
      by (subst isValidUtf8.simps) (simp only: 4 if_False Let_def list.distinct)
    moreover have "length (drop k (b # t)) < length s0" if "utf8_seq (b # t) = Some k" for k
      using utf8_seq_pos [OF that] length_skip_ascii [of s0] 4 by auto
    ultimately show ?thesis
      using 1 utf8_seq_step [of b t] by (auto split: option.splits)
  qed
qed

text \<open>
  C31: \<open>isValidUtf8\<close> accepts exactly the well-formed UTF-8 texts: the concatenations of
  encodings of Unicode scalar values (no overlong forms, no surrogates, nothing above U+10FFFF,
  nothing cut short), although it skips four ASCII bytes at a time with one 32-bit test.
\<close>

theorem isValidUtf8_correct: "isValidUtf8 s \<longleftrightarrow> utf8_text s"
  by (rule isValidUtf8_iff)

end
