(* ===== verification/Frame.thy ===== *)
theory Frame
  imports Utf8
begin

text \<open>
  Frames of the WebSocket protocol (uWebSockets \<open>WebSocketProtocol.h\<close>): the header
  accessors, the four unmasking routines on the receive buffer, \<open>formatMessage\<close>, and the
  payload of close frames. \<open>isServer\<close> is the template argument; \<open>CLIENT\<close> is \<open>False\<close>.
\<close>

section \<open>Header\<close>

definition TEXT :: byte where "TEXT = 1"
definition BINARY :: byte where "BINARY = 2"
definition CLOSE :: byte where "CLOSE = 8"
definition PING :: byte where "PING = 9"
definition PONG :: byte where "PONG = 10"

lemmas opcode_defs = TEXT_def BINARY_def CLOSE_def PING_def PONG_def

definition SHORT_MESSAGE_HEADER :: "bool \<Rightarrow> nat" where
  "SHORT_MESSAGE_HEADER isServer = (if isServer then 6 else 2)"

definition MEDIUM_MESSAGE_HEADER :: "bool \<Rightarrow> nat" where
  "MEDIUM_MESSAGE_HEADER isServer = (if isServer then 8 else 4)"

definition LONG_MESSAGE_HEADER :: "bool \<Rightarrow> nat" where
  "LONG_MESSAGE_HEADER isServer = (if isServer then 14 else 10)"

lemmas header_defs = SHORT_MESSAGE_HEADER_def MEDIUM_MESSAGE_HEADER_def LONG_MESSAGE_HEADER_def

definition isFin :: "mem \<Rightarrow> nat \<Rightarrow> bool" where
  "isFin m frame \<longleftrightarrow> m frame AND 128 \<noteq> 0"

definition getOpCode :: "mem \<Rightarrow> nat \<Rightarrow> byte" where
  "getOpCode m frame = m frame AND 15"

definition payloadLength :: "mem \<Rightarrow> nat \<Rightarrow> nat" where
  "payloadLength m frame = unat (m (frame + 1) AND 127)"

definition rsv23 :: "mem \<Rightarrow> nat \<Rightarrow> bool" where
  "rsv23 m frame \<longleftrightarrow> m frame AND 48 \<noteq> 0"

definition rsv1 :: "mem \<Rightarrow> nat \<Rightarrow> bool" where
  "rsv1 m frame \<longleftrightarrow> m frame AND 64 \<noteq> 0"

section \<open>Masking\<close>

text \<open>
  \<open>unmaskImprecise\<close> works on whole groups of four bytes, one group more than fits into
  \<open>length\<close>; \<open>unmaskInplace\<close> runs until it has passed \<open>stop\<close>. The mask is a value of its
  own: \<open>unmaskImpreciseCopyMask\<close> reads it out of the buffer first.
\<close>

fun unmask_groups :: "nat \<Rightarrow> mem \<Rightarrow> nat \<Rightarrow> nat \<Rightarrow> byte list \<Rightarrow> mem" where
  "unmask_groups 0 m dst src msk = m"
| "unmask_groups (Suc n) m dst src msk =
     (let m0 = m(dst := m src XOR msk ! 0);
          m1 = m0(dst + 1 := m0 (src + 1) XOR msk ! 1);
          m2 = m1(dst + 2 := m1 (src + 2) XOR msk ! 2);
          m3 = m2(dst + 3 := m2 (src + 3) XOR msk ! 3)
      in unmask_groups n m3 (dst + 4) (src + 4) msk)"

definition unmaskImprecise :: "mem \<Rightarrow> nat \<Rightarrow> nat \<Rightarrow> byte list \<Rightarrow> nat \<Rightarrow> mem" where
  "unmaskImprecise m dst src msk len = unmask_groups (len div 4 + 1) m dst src msk"

definition unmaskImpreciseCopyMask :: "mem \<Rightarrow> nat \<Rightarrow> nat \<Rightarrow> nat \<Rightarrow> nat \<Rightarrow> mem" where
  "unmaskImpreciseCopyMask m dst src maskPtr len =
     (let msk = [m maskPtr, m (maskPtr + 1), m (maskPtr + 2), m (maskPtr + 3)]
      in unmaskImprecise m dst src msk len)"

definition rotateMask :: "nat \<Rightarrow> byte list \<Rightarrow> byte list" where
  "rotateMask offset msk =
     (let originalMask = msk
      in msk[(0 + offset) mod 4 := originalMask ! 0,
              (1 + offset) mod 4 := originalMask ! 1,
              (2 + offset) mod 4 := originalMask ! 2,
              (3 + offset) mod 4 := originalMask ! 3])"

function unmaskInplace :: "mem \<Rightarrow> nat \<Rightarrow> nat \<Rightarrow> byte list \<Rightarrow> mem" where
  "unmaskInplace m data stop msk =
     (if data < stop then
        unmaskInplace
          (m(data := m data XOR msk ! 0, data + 1 := m (data + 1) XOR msk ! 1,
             data + 2 := m (data + 2) XOR msk ! 2, data + 3 := m (data + 3) XOR msk ! 3))
          (data + 4) stop msk
      else m)"
  by pat_completeness auto
termination
  by (relation "measure (\<lambda>(m, data, stop, msk). stop - data)") auto

declare unmaskInplace.simps [simp del]

text \<open>What masking means: byte \<open>i\<close> of the payload is xored with byte \<open>i mod 4\<close> of the mask.\<close>

fun mask_from :: "nat \<Rightarrow> byte list \<Rightarrow> byte list \<Rightarrow> byte list" where
  "mask_from i msk [] = []"
| "mask_from i msk (b # bs) = (b XOR msk ! (i mod 4)) # mask_from (Suc i) msk bs"

lemma length_mask_from [simp]: "length (mask_from i msk bs) = length bs"
  by (induction bs arbitrary: i) auto

lemma nth_mask_from: "j < length bs \<Longrightarrow> mask_from i msk bs ! j = bs ! j XOR msk ! ((i + j) mod 4)"
  by (induction bs arbitrary: i j) (auto simp: nth_Cons' gr0_conv_Suc)

lemma mask_from_involutive [simp]: "mask_from i msk (mask_from i msk bs) = bs"
  by (induction bs arbitrary: i) (auto simp: xor.assoc)

lemma mask_from_append: "mask_from i msk (a @ b) = mask_from i msk a @ mask_from (i + length a) msk b"
  by (induction a arbitrary: i) auto

lemma mod_4_shift: "k + 4 \<le> (i::nat) \<Longrightarrow> (i - (k + 4)) mod 4 = (i - k) mod 4"
  by (auto simp: le_iff_add add.assoc)

lemma unmask_groups_nth:
  "dst \<le> src \<Longrightarrow> unmask_groups n m dst src msk i =
    (if dst \<le> i \<and> i < dst + 4 * n then m (src + (i - dst)) XOR msk ! ((i - dst) mod 4) else m i)"
proof (induction n arbitrary: m dst src)
  case (Suc n)
  let ?m = "m(dst := m src XOR msk ! 0, dst + 1 := m (src + 1) XOR msk ! 1,
    dst + 2 := m (src + 2) XOR msk ! 2, dst + 3 := m (src + 3) XOR msk ! 3)"
  have step: "unmask_groups (Suc n) m dst src msk = unmask_groups n ?m (dst + 4) (src + 4) msk"
    using Suc.prems by (simp add: Let_def)
  have IH: "unmask_groups n ?m (dst + 4) (src + 4) msk i =
    (if dst + 4 \<le> i \<and> i < dst + 4 + 4 * n then ?m (src + 4 + (i - (dst + 4))) XOR msk ! ((i - (dst + 4)) mod 4)
     else ?m i)"
    using Suc.prems by (intro Suc.IH) simp
  consider "i < dst" | "i = dst" | "i = dst + 1" | "i = dst + 2" | "i = dst + 3" | "dst + 4 \<le> i"
    by linarith
  then show ?case
    unfolding step IH using Suc.prems by cases (auto simp: mod_4_shift le_add_diff_inverse2)
qed auto

lemma rd_unmask_groups:
  assumes "dst \<le> src" "len \<le> 4 * n"
  shows "rd (unmask_groups n m dst src msk) dst len = mask_from 0 msk (rd m src len)"
  by (rule nth_equalityI) (use assms in \<open>auto simp: mem_simps unmask_groups_nth nth_mask_from\<close>)

lemma unmaskImprecise_rd:
  "dst \<le> src \<Longrightarrow> rd (unmaskImprecise m dst src msk len) dst len = mask_from 0 msk (rd m src len)"
  unfolding unmaskImprecise_def by (rule rd_unmask_groups) (assumption, presburger)

lemma unmaskImprecise_frame:
  "dst \<le> src \<Longrightarrow> agree_off m (unmaskImprecise m dst src msk len) dst (dst + len + 4)"
  unfolding unmaskImprecise_def agree_off_def by (auto simp: unmask_groups_nth)

text \<open>
  In a whole message the destination lies four bytes before the payload, so the surplus
  bytes that \<open>unmaskImprecise\<close> writes end where the payload ends: the next frame is intact.
\<close>

lemma unmaskImprecise_tight:
  "agree_off m (unmaskImprecise m dst (dst + 4) msk len) dst (dst + 4 + len)"
  unfolding unmaskImprecise_def agree_off_def by (auto simp: unmask_groups_nth)

lemma groups_step: "0 < (x::nat) \<Longrightarrow> (x + 3) div 4 = Suc ((x - 4 + 3) div 4)"
proof (cases "4 \<le> x")
  case True
  then obtain y where "x = 4 + y" by (auto simp: le_iff_add)
  then show ?thesis using div_add_self1 [of 4 "y + 3"] by (simp add: add.commute)
next
  case False
  assume "0 < x"
  with False have "x = 1 \<or> x = 2 \<or> x = 3" by auto
  then show ?thesis by auto
qed

lemma unmaskInplace_nth:
  "unmaskInplace m data stop msk i =
    (if data \<le> i \<and> i < data + 4 * ((stop - data + 3) div 4) then m i XOR msk ! ((i - data) mod 4) else m i)"
proof (induction m data stop msk rule: unmaskInplace.induct)
  case (1 m data stop msk)
  let ?m = "m(data := m data XOR msk ! 0, data + 1 := m (data + 1) XOR msk ! 1,
    data + 2 := m (data + 2) XOR msk ! 2, data + 3 := m (data + 3) XOR msk ! 3)"
  show ?case
  proof (cases "data < stop")
    case False
    then show ?thesis by (subst unmaskInplace.simps) auto
  next
    case True
    then have "(stop - data + 3) div 4 = Suc ((stop - (data + 4) + 3) div 4)"
      using groups_step [of "stop - data"] by simp
    then obtain K where K: "(stop - (data + 4) + 3) div 4 = K" "(stop - data + 3) div 4 = Suc K" by blast
    have IH: "unmaskInplace ?m (data + 4) stop msk i =
      (if data + 4 \<le> i \<and> i < data + 4 + 4 * K then ?m i XOR msk ! ((i - (data + 4)) mod 4) else ?m i)"
      using 1 [OF True] by (simp only: K)
    consider "i < data" | "i = data" | "i = data + 1" | "i = data + 2" | "i = data + 3" | "data + 4 \<le> i"
      by linarith
    then have "unmaskInplace ?m (data + 4) stop msk i =
      (if data \<le> i \<and> i < data + 4 * Suc K then m i XOR msk ! ((i - data) mod 4) else m i)"
      unfolding IH by cases (simp_all add: mod_4_shift)
    then show ?thesis using True K(2) by (subst unmaskInplace.simps) simp
  qed
qed

lemma length_rotateMask [simp]: "length (rotateMask off msk) = length msk"
  by (simp add: rotateMask_def)

lemma length_4: "length msk = 4 \<longleftrightarrow> (\<exists>a b c d. msk = [a, b, c, d])"
  by (auto simp: eval_nat_numeral length_Suc_conv)

lemma mod_4_cases: "(n::nat) mod 4 = 0 \<or> n mod 4 = 1 \<or> n mod 4 = 2 \<or> n mod 4 = 3"
  by presburger

lemma rotateMask_simps:
  "rotateMask 4 [a, b, c, d] = [a, b, c, d]" "rotateMask 3 [a, b, c, d] = [b, c, d, a]"
  "rotateMask 2 [a, b, c, d] = [c, d, a, b]" "rotateMask (Suc 0) [a, b, c, d] = [d, a, b, c]"
  by (simp_all add: rotateMask_def)

text \<open>
  After a partial payload of \<open>len\<close> bytes the mask is rotated so that masking can go on at
  position 0 of the next chunk.
\<close>

lemma rotateMask_nth:
  assumes "length msk = 4"
  shows "rotateMask (4 - len mod 4) msk ! (x mod 4) = msk ! ((x + len) mod 4)"
proof -
  obtain a b c d where msk: "msk = [a, b, c, d]" using assms by (auto simp: length_4)
  have "(x + len) mod 4 = (x mod 4 + len mod 4) mod 4" by (rule mod_add_eq [symmetric])
  moreover obtain r where "x mod 4 = r" "r = 0 \<or> r = 1 \<or> r = 2 \<or> r = 3" using mod_4_cases by blast
  moreover obtain q where "len mod 4 = q" "q = 0 \<or> q = 1 \<or> q = 2 \<or> q = 3" using mod_4_cases by blast
  ultimately show ?thesis
    by (elim disjE) (simp_all add: msk rotateMask_simps)
qed

lemma rotateMask_continues:
  "length msk = 4 \<Longrightarrow> mask_from i (rotateMask (4 - len mod 4) msk) bs = mask_from (i + len) msk bs"
  by (rule nth_equalityI) (auto simp: nth_mask_from rotateMask_nth add.commute add.left_commute)

section \<open>formatMessage\<close>

text \<open>
  The bytes written from \<open>dst\<close> on; their number is the return value. \<open>random\<close> is what
  \<open>rand()\<close> returned; only a client masks.
\<close>

definition SND_CONTINUATION :: byte where "SND_CONTINUATION = 1"
definition SND_NO_FIN :: byte where "SND_NO_FIN = 2"
definition SND_COMPRESSED :: byte where "SND_COMPRESSED = 64"

definition formatMessage :: "bool \<Rightarrow> 32 word \<Rightarrow> byte list \<Rightarrow> byte \<Rightarrow> nat \<Rightarrow> bool \<Rightarrow> byte list" where
  "formatMessage isServer random src opCode reportedLength compressed =
     (let (b1, ext) =
            (if reportedLength < 126 then (word_of_nat reportedLength, [])
             else if reportedLength \<le> 65535 then (126, be_bytes 2 reportedLength)
             else (127, be_bytes 8 reportedLength));
          flags = (0 :: byte);
          b0 = (if flags AND SND_NO_FIN \<noteq> 0 then 0 else 128) OR (if compressed then SND_COMPRESSED else 0);
          b0 = (if flags AND SND_CONTINUATION = 0 then b0 OR opCode else b0)
      in if isServer then b0 # b1 # ext @ src
         else let msk = le_bytes 4 (unat random)
              in b0 # (b1 OR 0x80) # ext @ msk @ mask_from 0 msk src)"

definition format_header_length :: "bool \<Rightarrow> nat \<Rightarrow> nat" where
  "format_header_length isServer n =
     (if n < 126 then 2 else if n \<le> 65535 then 4 else 10) + (if isServer then 0 else 4)"

lemma length_formatMessage:
  "length (formatMessage isServer random src opc n z) = format_header_length isServer n + length src"
  by (simp add: formatMessage_def format_header_length_def Let_def)

lemma format_header_length_le: "format_header_length isServer n \<le> LONG_MESSAGE_HEADER (\<not> isServer)"
  by (simp add: format_header_length_def header_defs)

section \<open>Close frames\<close>

record close_frame =
  cf_code :: nat
  cf_message :: "byte list"

definition no_close_frame :: close_frame where
  "no_close_frame = \<lparr>cf_code = 0, cf_message = []\<rparr>"

definition parseClosePayload :: "byte list \<Rightarrow> close_frame" where
  "parseClosePayload src =
     (if 2 \<le> length src then
        let cf = \<lparr>cf_code = be_val (take 2 src), cf_message = drop 2 src\<rparr>
        in if cf_code cf < 1000 \<or> cf_code cf > 4999 \<or> (cf_code cf > 1011 \<and> cf_code cf < 4000) \<or>
              (cf_code cf \<ge> 1004 \<and> cf_code cf \<le> 1006) \<or> \<not> isValidUtf8 (cf_message cf)
           then no_close_frame else cf
      else no_close_frame)"

definition formatClosePayload :: "nat \<Rightarrow> byte list \<Rightarrow> byte list" where
  "formatClosePayload code message = (if code \<noteq> 0 then be_bytes 2 code @ message else [])"

text \<open>The close codes that may appear on the wire (RFC 6455, section 7.4).\<close>

definition valid_close_code :: "nat \<Rightarrow> bool" where
  "valid_close_code c \<longleftrightarrow> c \<in> {1000..1003} \<or> c \<in> {1007..1011} \<or> c \<in> {4000..4999}"

lemma parseClosePayload_code:
  "cf_code (parseClosePayload src) \<noteq> 0 \<longleftrightarrow>
     2 \<le> length src \<and> valid_close_code (be_val (take 2 src)) \<and> utf8_text (drop 2 src)"
  by (auto simp: parseClosePayload_def Let_def no_close_frame_def valid_close_code_def isValidUtf8_iff)

lemma parse_format_close:
  "valid_close_code c \<Longrightarrow> utf8_text msg \<Longrightarrow>
    parseClosePayload (formatClosePayload c msg) = \<lparr>cf_code = c, cf_message = msg\<rparr>"
  using be_val_be_bytes [of 2 c]
  by (auto simp: parseClosePayload_def formatClosePayload_def Let_def valid_close_code_def isValidUtf8_iff
      simp del: be_bytes.simps)

section \<open>Properties\<close>

text \<open>
  Parsing inverts formatting of close payloads: for every code that may appear on the wire
  and every UTF-8 reason, \<open>parseClosePayload\<close> of \<open>formatClosePayload\<close> gives both back.
\<close>

theorem close_payload_roundtrip:
  assumes "valid_close_code c" "utf8_text msg"
  shows "parseClosePayload (formatClosePayload c msg) = \<lparr>cf_code = c, cf_message = msg\<rparr>"
  using assms by (rule parse_format_close)

theorem close_payload_roundtrip_witness:
  "parseClosePayload (formatClosePayload 1000 [0x68, 0x69]) = \<lparr>cf_code = 1000, cf_message = [0x68, 0x69]\<rparr>"
  by (rule close_payload_roundtrip)
     (simp_all add: valid_close_code_def isValidUtf8_iff [symmetric] isValidUtf8.simps le_word32_def)

text \<open>
  \<open>parseClosePayload\<close> accepts a received close payload (reports a nonzero code) exactly
  when it holds a code that may appear on the wire followed by a UTF-8 reason; every other
  payload, the empty and the one-byte payload included, gives the empty close frame.
\<close>

theorem close_payload_accepts:
  "parseClosePayload src =
     (if 2 \<le> length src \<and> valid_close_code (be_val (take 2 src)) \<and> utf8_text (drop 2 src)
      then \<lparr>cf_code = be_val (take 2 src), cf_message = drop 2 src\<rparr> else no_close_frame)"
  by (auto simp: parseClosePayload_def Let_def valid_close_code_def isValidUtf8_iff)

lemma rd_unmaskInplace:
  "k \<le> 4 * ((stop - data + 3) div 4) \<Longrightarrow> rd (unmaskInplace m data stop msk) data k = mask_from 0 msk (rd m data k)"
  by (rule nth_equalityI) (auto simp: mem_simps unmaskInplace_nth nth_mask_from)

text \<open>
  Unmasking in pieces is unmasking as a whole. When the first \<open>len\<close> payload bytes are
  unmasked by \<open>unmaskImprecise\<close> (moving them to \<open>dst\<close>) and the mask is rotated by
  \<open>rotateMask\<close>, then \<open>unmaskInplace\<close> with the rotated mask, on the next read's buffer,
  yields with them exactly the sender's payload.
\<close>

theorem unmask_resumes:
  assumes "length msk = 4" "dst \<le> src"
    and "rd m src len @ rd m' a k = mask_from 0 msk payload" "k \<le> stop - a"
  shows "rd (unmaskImprecise m dst src msk len) dst len @
      rd (unmaskInplace m' a stop (rotateMask (4 - len mod 4) msk)) a k = payload"
proof -
  have "x \<le> 4 * ((x + 3) div 4)" for x :: nat by presburger
  then have "k \<le> 4 * ((stop - a + 3) div 4)" using assms(4) le_trans by blast
  then have "rd (unmaskInplace m' a stop (rotateMask (4 - len mod 4) msk)) a k = mask_from len msk (rd m' a k)"
    using rd_unmaskInplace [of k stop a m' "rotateMask (4 - len mod 4) msk"] assms(1)
    by (simp add: rotateMask_continues)
  moreover have "rd (unmaskImprecise m dst src msk len) dst len = mask_from 0 msk (rd m src len)"
    using assms(2) by (rule unmaskImprecise_rd)
  ultimately show ?thesis
    using arg_cong [OF assms(3), of "mask_from 0 msk"] by (simp add: mask_from_append)
qed

theorem unmask_resumes_witness:
  "rd (unmaskImprecise (\<lambda>i. [1, 2, 3, 4, 11, 22, 33] ! i) 0 4 [1, 2, 3, 4] 3) 0 3 @
     rd (unmaskInplace (\<lambda>i. if i = 0 then 44 else 51) 0 2 (rotateMask (4 - 3 mod 4) [1, 2, 3, 4])) 0 2
   = [10, 20, 34, 40, 50]"
  using unmask_resumes [of "[1, 2, 3, 4]" 0 4 "\<lambda>i. [1, 2, 3, 4, 11, 22, 33] ! i" 3
      "\<lambda>i. if i = 0 then 44 else 51" 0 2 "[10, 20, 34, 40, 50]" 2]
  by (simp add: rd_def upt_rec)

end
