(* ===== verification/Protocol.thy ===== *)
theory Protocol
  imports Frame
begin

text \<open>
  The incremental frame parser \<^verbatim>\<open>WebSocketProtocol<isServer, Impl>::consume\<close> (uWebSockets
  \<open>WebSocketProtocol.h\<close>). \<open>Impl\<close> is a template argument of the code: here it is a record of
  the four static functions the parser calls, over an arbitrary state \<open>'u\<close>.
  \<open>refusePayloadLength\<close> is kept in the form of its only implementation, a comparison with
  the 32-bit \<open>maxPayload\<close> of the socket's group.
\<close>

section \<open>State\<close>

record wstate =
  wantsHead :: bool
  spillLength :: nat
  opStack :: int
  lastFin :: bool
  spill :: "byte list"
  opCode :: "byte list"
  remainingBytes :: nat
  wmask :: "byte list"

text \<open>The constructor \<open>State()\<close>, applied to the raw memory of the object.\<close>

definition State_init :: "wstate \<Rightarrow> wstate" where
  "State_init raw =
     raw\<lparr>wantsHead := True, spillLength := 0, opStack := -1, lastFin := True, remainingBytes := 0\<rparr>"

record 'u impl =
  forceClose :: "'u \<Rightarrow> 'u"
  maxPayload :: "'u \<Rightarrow> 32 word"
  setCompressed :: "'u \<Rightarrow> bool \<times> 'u"
  handleFragment :: "byte list \<Rightarrow> nat \<Rightarrow> byte \<Rightarrow> bool \<Rightarrow> 'u \<Rightarrow> bool \<times> 'u"

definition refusePayloadLength :: "'u impl \<Rightarrow> nat \<Rightarrow> 'u \<Rightarrow> bool" where
  "refusePayloadLength I n u \<longleftrightarrow> n > unat (maxPayload I u)"

text \<open>The variables of \<open>consume\<close>: the buffer, \<open>src\<close>, \<open>length\<close>, \<open>wState\<close> and the rest of the socket.\<close>

record 'u ctx =
  pm :: mem
  psrc :: nat
  plen :: nat
  pws :: wstate
  pu :: 'u

definition close_ctx :: "'u impl \<Rightarrow> 'u ctx \<Rightarrow> 'u ctx" where
  "close_ctx I c = c\<lparr>pu := forceClose I (pu c)\<rparr>"

section \<open>consumeMessage\<close>

text \<open>
  \<open>H\<close> is \<open>MESSAGE_HEADER\<close>, \<open>w\<close> the width in which \<open>payLength + MESSAGE_HEADER\<close> is computed
  (32 for \<open>uint8_t\<close> and \<open>uint16_t\<close>, 64 for \<open>uint64_t\<close>). The first component of the result
  is the return value: \<open>True\<close> ends \<open>consume\<close>.
\<close>

definition push_opcode :: "byte \<Rightarrow> wstate \<Rightarrow> wstate" where
  "push_opcode opc ws = ws\<lparr>opStack := opStack ws + 1, opCode := (opCode ws)[nat (opStack ws + 1) := opc]\<rparr>"

definition top_opcode :: "wstate \<Rightarrow> byte" where
  "top_opcode ws = opCode ws ! nat (opStack ws)"

definition consume_whole :: "'u impl \<Rightarrow> bool \<Rightarrow> nat \<Rightarrow> nat \<Rightarrow> nat \<Rightarrow> 'u ctx \<Rightarrow> bool \<times> 'u ctx" where
  "consume_whole I isServer H tot payLength c =
     (let m = pm c; src = psrc c; ws = pws c;
          m = (if isServer
               then unmaskImpreciseCopyMask m (src + H - 4) (src + H) (src + H - 4) (payLength mod 2 ^ 32)
               else m);
          data = (if isServer then rd m (src + H - 4) payLength else rd m (src + H) payLength);
          (stop, u) = handleFragment I data 0 (top_opcode ws) (isFin m src) (pu c)
      in if stop then (True, c\<lparr>pm := m, pu := u\<rparr>)
         else (False, c\<lparr>pm := m, psrc := src + tot, plen := plen c - tot,
                 pws := ws\<lparr>opStack := (if isFin m src then opStack ws - 1 else opStack ws), spillLength := 0\<rparr>,
                 pu := u\<rparr>))"

definition consume_part :: "'u impl \<Rightarrow> bool \<Rightarrow> nat \<Rightarrow> nat \<Rightarrow> 'u ctx \<Rightarrow> bool \<times> 'u ctx" where
  "consume_part I isServer H payLength c =
     (let m = pm c; src = psrc c; len = plen c;
          ws = (pws c)\<lparr>spillLength := 0, wantsHead := False, remainingBytes := (payLength + H - len) mod 2 ^ 32\<rparr>;
          fin = isFin m src
      in if isServer then
           let msk = rd m (src + H - 4) 4;
               m = unmaskImprecise m src (src + H) msk (len - H);
               ws = ws\<lparr>wmask := rotateMask (4 - (len - H) mod 4) msk\<rparr>;
               (_, u) = handleFragment I (rd m src (len - H)) (remainingBytes ws) (top_opcode ws) fin (pu c)
           in (True, c\<lparr>pm := m, pws := ws, pu := u\<rparr>)
         else
           let src = src + H;
               (_, u) = handleFragment I (rd m src (len - H)) (remainingBytes ws) (top_opcode ws) fin (pu c)
           in (True, c\<lparr>psrc := src, pws := ws, pu := u\<rparr>))"

text \<open>The first part of \<open>consumeMessage\<close>: \<open>None\<close> where the opcode is refused.\<close>

definition accept_opcode :: "'u ctx \<Rightarrow> 'u ctx option" where
  "accept_opcode c =
     (let opc = getOpCode (pm c) (psrc c); ws = pws c in
      if opc \<noteq> 0 \<and> (opStack ws = 1 \<or> \<not> lastFin ws \<and> opc < 2) then None
      else if opc = 0 \<and> opStack ws = -1 then None
      else Some (c\<lparr>pws := (if opc \<noteq> 0 then push_opcode opc ws else ws)\<lparr>lastFin := isFin (pm c) (psrc c)\<rparr>\<rparr>))"

definition consumeMessage :: "'u impl \<Rightarrow> bool \<Rightarrow> nat \<Rightarrow> nat \<Rightarrow> nat \<Rightarrow> 'u ctx \<Rightarrow> bool \<times> 'u ctx" where
  "consumeMessage I isServer H w payLength c =
     (case accept_opcode c of
        None \<Rightarrow> (True, close_ctx I c)
      | Some c \<Rightarrow>
          if refusePayloadLength I payLength (pu c) then (True, close_ctx I c)
          else let tot = (payLength + H) mod 2 ^ w in
            if tot \<le> plen c then consume_whole I isServer H tot payLength c
            else consume_part I isServer H payLength c)"

section \<open>consumeContinuation\<close>

function xor_tail :: "nat \<Rightarrow> nat \<Rightarrow> mem \<Rightarrow> nat \<Rightarrow> byte list \<Rightarrow> mem" where
  "xor_tail i s m a msk =
     (if i < s then xor_tail (Suc i) s (m(a + i := m (a + i) XOR msk ! i)) a msk else m)"
  by pat_completeness auto
termination
  by (relation "measure (\<lambda>(i, s, m, a, msk). s - i)") auto

declare xor_tail.simps [simp del]

text \<open>The unmasking in the two branches: of all remaining bytes, and of a chunk that ends before them.\<close>

definition unmask_rest :: "bool \<Rightarrow> mem \<Rightarrow> nat \<Rightarrow> wstate \<Rightarrow> mem" where
  "unmask_rest isServer m src ws =
     (if isServer then
        let n = remainingBytes ws div 4; m = unmaskInplace m src (src + n * 4) (wmask ws)
        in xor_tail 0 (remainingBytes ws mod 4) m (src + n * 4) (wmask ws)
      else m)"

definition unmask_chunk :: "bool \<Rightarrow> mem \<Rightarrow> nat \<Rightarrow> nat \<Rightarrow> wstate \<Rightarrow> mem" where
  "unmask_chunk isServer m src len ws =
     (if isServer then unmaskInplace m src (src + (len div 4 + 1) * 4) (wmask ws) else m)"

definition rotate_if :: "bool \<Rightarrow> nat \<Rightarrow> wstate \<Rightarrow> wstate" where
  "rotate_if isServer len ws =
     (if isServer \<and> len mod 4 \<noteq> 0 then ws\<lparr>wmask := rotateMask (4 - len mod 4) (wmask ws)\<rparr> else ws)"

definition consumeContinuation :: "'u impl \<Rightarrow> bool \<Rightarrow> 'u ctx \<Rightarrow> bool \<times> 'u ctx" where
  "consumeContinuation I isServer c =
     (let src = psrc c; len = plen c; ws = pws c; rem = remainingBytes ws in
      if rem \<le> len then
        let m = unmask_rest isServer (pm c) src ws;
            (stop, u) = handleFragment I (rd m src rem) 0 (top_opcode ws) (lastFin ws) (pu c)
        in if stop then (False, c\<lparr>pm := m, pu := u\<rparr>)
           else (True, c\<lparr>pm := m, psrc := src + rem, plen := len - rem,
                   pws := ws\<lparr>opStack := (if lastFin ws then opStack ws - 1 else opStack ws), wantsHead := True\<rparr>,
                   pu := u\<rparr>)
      else
        let m = unmask_chunk isServer (pm c) src len ws;
            ws = ws\<lparr>remainingBytes := rem - len\<rparr>;
            (stop, u) = handleFragment I (rd m src len) (remainingBytes ws) (top_opcode ws) (lastFin ws) (pu c)
        in if stop then (False, c\<lparr>pm := m, pws := ws, pu := u\<rparr>)
           else (False, c\<lparr>pm := m, pws := rotate_if isServer len ws, pu := u\<rparr>))"

lemma consumeContinuation_cases:
  fixes I :: "'u impl"
  obtains (rest_stop) m u where "remainingBytes (pws c) \<le> plen c" "m = unmask_rest isServer (pm c) (psrc c) (pws c)"
      "handleFragment I (rd m (psrc c) (remainingBytes (pws c))) 0 (top_opcode (pws c)) (lastFin (pws c)) (pu c) = (True, u)"
      "consumeContinuation I isServer c = (False, c\<lparr>pm := m, pu := u\<rparr>)"
  | (rest) m u where "remainingBytes (pws c) \<le> plen c" "m = unmask_rest isServer (pm c) (psrc c) (pws c)"
      "handleFragment I (rd m (psrc c) (remainingBytes (pws c))) 0 (top_opcode (pws c)) (lastFin (pws c)) (pu c) = (False, u)"
      "consumeContinuation I isServer c =
        (True, c\<lparr>pm := m, psrc := psrc c + remainingBytes (pws c), plen := plen c - remainingBytes (pws c),
           pws := (pws c)\<lparr>opStack := (if lastFin (pws c) then opStack (pws c) - 1 else opStack (pws c)),
             wantsHead := True\<rparr>, pu := u\<rparr>)"
  | (chunk) m u ws stop where "plen c < remainingBytes (pws c)" "m = unmask_chunk isServer (pm c) (psrc c) (plen c) (pws c)"
      "ws = (pws c)\<lparr>remainingBytes := remainingBytes (pws c) - plen c\<rparr>"
      "handleFragment I (rd m (psrc c) (plen c)) (remainingBytes ws) (top_opcode ws) (lastFin ws) (pu c) = (stop, u)"
      "consumeContinuation I isServer c =
        (False, c\<lparr>pm := m, pws := (if stop then ws else rotate_if isServer (plen c) ws), pu := u\<rparr>)"
proof (cases "remainingBytes (pws c) \<le> plen c")
  case True
  define m where "m = unmask_rest isServer (pm c) (psrc c) (pws c)"
  obtain stop u where hf:
    "handleFragment I (rd m (psrc c) (remainingBytes (pws c))) 0 (top_opcode (pws c)) (lastFin (pws c)) (pu c) = (stop, u)"
    by (cases "handleFragment I (rd m (psrc c) (remainingBytes (pws c))) 0 (top_opcode (pws c)) (lastFin (pws c)) (pu c)")
  show thesis
  proof (cases stop)
    case stop: True
    with True hf show thesis
      by (intro rest_stop [of m u]) (simp_all add: m_def consumeContinuation_def Let_def)
  next
    case False
    with True hf show thesis
      by (intro rest [of m u]) (simp_all add: m_def consumeContinuation_def Let_def)
  qed
next
  case False
  define m where "m = unmask_chunk isServer (pm c) (psrc c) (plen c) (pws c)"
  define ws where "ws = (pws c)\<lparr>remainingBytes := remainingBytes (pws c) - plen c\<rparr>"
  obtain stop u where hf:
    "handleFragment I (rd m (psrc c) (plen c)) (remainingBytes ws) (top_opcode ws) (lastFin ws) (pu c) = (stop, u)"
    by (cases "handleFragment I (rd m (psrc c) (plen c)) (remainingBytes ws) (top_opcode ws) (lastFin ws) (pu c)")
  with False show thesis
    by (intro chunk [of m ws stop u]) (simp_all add: m_def ws_def consumeContinuation_def Let_def)
qed

section \<open>consume\<close>

definition restore_spill :: "'u ctx \<Rightarrow> 'u ctx" where
  "restore_spill c =
     (let k = spillLength (pws c) in
      if k \<noteq> 0 then c\<lparr>psrc := psrc c - k, plen := plen c + k, pm := wr (pm c) (psrc c - k) (take k (spill (pws c)))\<rparr>
      else c)"

definition save_spill :: "'u ctx \<Rightarrow> 'u ctx" where
  "save_spill c =
     (if plen c \<noteq> 0 then c\<lparr>pws := (pws c)\<lparr>spill := rd (pm c) (psrc c) (plen c), spillLength := plen c\<rparr>\<rparr> else c)"

text \<open>The test at the head of a frame; \<open>setCompressed\<close> is called, and has its effect, only when \<open>rsv1\<close> is set.\<close>

definition frame_check :: "'u impl \<Rightarrow> 'u ctx \<Rightarrow> bool \<times> 'u ctx" where
  "frame_check I c =
     (let m = pm c; src = psrc c;
          (ok, u) = (if rsv1 m src then setCompressed I (pu c) else (True, pu c));
          opc = getOpCode m src
      in (\<not> ok \<or> rsv23 m src \<or> (opc > 2 \<and> opc < 8) \<or> opc > 10 \<or>
            (opc > 2 \<and> (\<not> isFin m src \<or> payloadLength m src > 125)),
          c\<lparr>pu := u\<rparr>))"

text \<open>
  The header of a frame as \<open>consume\<close> reads it: \<open>None\<close> when the extended length is not
  complete yet (the two \<open>break\<close>s), else the header length, the arithmetic width and the
  payload length.
\<close>

definition frame_header :: "bool \<Rightarrow> mem \<Rightarrow> nat \<Rightarrow> nat \<Rightarrow> (nat \<times> nat \<times> nat) option" where
  "frame_header isServer m src len =
     (if payloadLength m src < 126 then Some (SHORT_MESSAGE_HEADER isServer, 32, payloadLength m src)
      else if payloadLength m src = 126 then
        (if len < MEDIUM_MESSAGE_HEADER isServer then None
         else Some (MEDIUM_MESSAGE_HEADER isServer, 32, be_val (rd m (src + 2) 2)))
      else if len < LONG_MESSAGE_HEADER isServer then None
      else Some (LONG_MESSAGE_HEADER isServer, 64, be_val (rd m (src + 2) 8)))"

lemma frame_header_bounds:
  assumes "frame_header isServer m src len = Some (H, w, n)"
  shows "2 \<le> H \<and> H \<le> 14 \<and> (w = 64 \<or> w = 32 \<and> n < 65536)" "SHORT_MESSAGE_HEADER isServer \<le> len \<Longrightarrow> H \<le> len"
  using assms be_val_bound [of "rd m (src + 2) 2"]
  by (auto simp: frame_header_def header_defs split: if_splits)

lemma frame_total:
  assumes "frame_header isServer m src len = Some (H, w, n)" "\<not> refusePayloadLength I n u"
  shows "(n + H) mod 2 ^ w = n + H" "n < 2 ^ 32"
proof -
  have "unat (maxPayload I u) < 2 ^ LENGTH(32)" by (rule unsigned_less)
  then have "n < 2 ^ 32"
    using assms(2) by (simp add: refusePayloadLength_def)
  then show "n < 2 ^ 32" "(n + H) mod 2 ^ w = n + H"
    using frame_header_bounds(1) [OF assms(1)] by auto
qed

lemma consume_part_True: "fst (consume_part I isServer H n c)"
  by (simp add: consume_part_def Let_def split: prod.splits)

lemma consume_whole_False:
  "consume_whole I isServer H tot n c = (False, c') \<Longrightarrow> psrc c' = psrc c + tot \<and> plen c' = plen c - tot"
  by (auto simp: consume_whole_def Let_def split: prod.splits if_splits)

lemma accept_opcode_frame:
  "accept_opcode c = Some c1 \<Longrightarrow> pm c1 = pm c \<and> psrc c1 = psrc c \<and> plen c1 = plen c \<and> pu c1 = pu c"
  by (auto simp: accept_opcode_def Let_def split: if_splits)

text \<open>What \<open>consumeMessage\<close> does, once the header is decoded.\<close>

lemma consumeMessage_cases:
  assumes "frame_header isServer m src len = Some (H, w, n)"
  obtains (refused) "consumeMessage I isServer H w n c = (True, close_ctx I c)" "accept_opcode c = None"
  | (too_long) c1 where "accept_opcode c = Some c1" "refusePayloadLength I n (pu c1)"
      "consumeMessage I isServer H w n c = (True, close_ctx I c1)"
  | (whole) c1 where "accept_opcode c = Some c1" "\<not> refusePayloadLength I n (pu c1)" "n + H \<le> plen c" "n < 2 ^ 32"
      "consumeMessage I isServer H w n c = consume_whole I isServer H (n + H) n c1"
  | (part) c1 where "accept_opcode c = Some c1" "\<not> refusePayloadLength I n (pu c1)" "plen c < n + H" "n < 2 ^ 32"
      "consumeMessage I isServer H w n c = consume_part I isServer H n c1"
proof (cases "accept_opcode c")
  case None
  then show thesis by (intro refused) (simp_all add: consumeMessage_def)
next
  case (Some c1)
  then have "plen c1 = plen c" by (simp add: accept_opcode_frame)
  show thesis
  proof (cases "refusePayloadLength I n (pu c1)")
    case True
    with Some show thesis by (intro too_long) (simp_all add: consumeMessage_def)
  next
    case False
    note t = frame_total [OF assms False]
    show thesis
    proof (cases "n + H \<le> plen c")
      case True
      with Some False t \<open>plen c1 = plen c\<close> show thesis
        by (intro whole) (simp_all add: consumeMessage_def Let_def)
    next
      case lt: False
      with Some False t \<open>plen c1 = plen c\<close> show thesis
        by (intro part) (simp_all add: consumeMessage_def Let_def)
    qed
  qed
qed

lemma consumeMessage_False:
  assumes "consumeMessage I isServer H w n c = (False, c')" "frame_header isServer m src len = Some (H, w, n)"
  shows "n + H \<le> plen c" "psrc c' = psrc c + (n + H)" "plen c' = plen c - (n + H)"
proof -
  from assms(2) have "n + H \<le> plen c \<and> psrc c' = psrc c + (n + H) \<and> plen c' = plen c - (n + H)"
  proof (cases rule: consumeMessage_cases [where I = I and c = c])
    case (whole c1)
    then show ?thesis
      using assms(1) consume_whole_False [of I isServer H "n + H" n c1 c'] accept_opcode_frame by fastforce
  next
    case (part c1)
    then show ?thesis using assms(1) consume_part_True [of I isServer H n c1] by (metis fst_conv)
  qed (use assms(1) in simp_all)
  then show "n + H \<le> plen c" "psrc c' = psrc c + (n + H)" "plen c' = plen c - (n + H)" by simp_all
qed

lemma consumeMessage_plen:
  assumes "frame_header isServer m src len = Some (H, w, n)" "consumeMessage I isServer H w n c = (False, c')"
  shows "plen c' < plen c"
  using consumeMessage_False [OF assms(2,1)] frame_header_bounds(1) [OF assms(1)] by linarith

function consume_loop :: "'u impl \<Rightarrow> bool \<Rightarrow> 'u ctx \<Rightarrow> 'u ctx" where
  "consume_loop I isServer c =
     (if plen c \<ge> SHORT_MESSAGE_HEADER isServer then
        (case frame_check I c of (bad, c1) \<Rightarrow>
          if bad then close_ctx I c1
          else case frame_header isServer (pm c1) (psrc c1) (plen c1) of
            None \<Rightarrow> save_spill c1
          | Some (H, w, n) \<Rightarrow>
              (case consumeMessage I isServer H w n c1 of (ret, c2) \<Rightarrow>
                if ret then c2 else consume_loop I isServer c2))
      else save_spill c)"
  by pat_completeness auto
termination
proof (relation "measure (\<lambda>(I, isServer, c). plen c)")
  fix I :: "'u impl" and isServer c bad c1 H w n ret c2 and y z
  assume a: "(bad, c1) = frame_check I c" "frame_header isServer (pm c1) (psrc c1) (plen c1) = Some y"
    "(H, z) = y" "(w, n) = z" "(ret, c2) = consumeMessage I isServer H w n c1" "\<not> ret"
  then have "plen c2 < plen c1" by (intro consumeMessage_plen) auto
  moreover have "plen c1 = plen c"
    using a(1) by (simp add: frame_check_def Let_def split: prod.splits)
  ultimately show "((I, isServer, c2), I, isServer, c) \<in> measure (\<lambda>(I, isServer, c). plen c)" by simp
qed simp

declare consume_loop.simps [simp del]

definition consume :: "'u impl \<Rightarrow> bool \<Rightarrow> 'u ctx \<Rightarrow> 'u ctx" where
  "consume I isServer c0 =
     (let c = restore_spill c0 in
      if wantsHead (pws c) then consume_loop I isServer c
      else case consumeContinuation I isServer c of (ret, c') \<Rightarrow>
        if ret then consume_loop I isServer c' else c')"

definition CONSUME_POST_PADDING :: nat where "CONSUME_POST_PADDING = 4"
definition CONSUME_PRE_PADDING :: "bool \<Rightarrow> nat" where
  "CONSUME_PRE_PADDING isServer = LONG_MESSAGE_HEADER isServer - 1"

end
