(* ===== verification/ProtocolInv.thy ===== *)
theory ProtocolInv
  imports Protocol
begin

text \<open>
  What \<open>consume\<close> keeps true of the parser state whatever the socket does (\<open>wf_wstate\<close>: every
  index into \<open>opCode\<close> and every spill is in range), and which part of the receive buffer it
  writes (\<open>writes_within\<close>: the padding of the buffer is exactly large enough).
\<close>

definition wf_wstate :: "bool \<Rightarrow> wstate \<Rightarrow> bool" where
  "wf_wstate isServer ws \<longleftrightarrow>
     opStack ws \<in> {-1, 0, 1} \<and> length (opCode ws) = 2 \<and>
     spillLength ws < LONG_MESSAGE_HEADER isServer \<and> spillLength ws \<le> length (spill ws) \<and>
     (\<not> wantsHead ws \<longrightarrow> 0 \<le> opStack ws \<and> 0 < remainingBytes ws \<and> remainingBytes ws < 2 ^ 32 \<and>
        spillLength ws = 0 \<and> (isServer \<longrightarrow> length (wmask ws) = 4))"

section \<open>The parser state stays well formed\<close>

lemma accept_opcode_wf:
  "accept_opcode c = Some c1 \<Longrightarrow> wf_wstate isServer (pws c) \<Longrightarrow> wantsHead (pws c) \<Longrightarrow>
    wf_wstate isServer (pws c1) \<and> wantsHead (pws c1) \<and> 0 \<le> opStack (pws c1)"
  by (auto simp: accept_opcode_def Let_def wf_wstate_def push_opcode_def split: if_splits)

lemma consume_whole_wf:
  assumes "wf_wstate isServer (pws c)" "wantsHead (pws c)" "0 \<le> opStack (pws c)"
  shows "wf_wstate isServer (pws (snd (consume_whole I isServer H tot n c)))"
    and "\<not> fst (consume_whole I isServer H tot n c) \<Longrightarrow> wantsHead (pws (snd (consume_whole I isServer H tot n c)))"
  using assms by (auto simp: consume_whole_def Let_def wf_wstate_def header_defs split: prod.splits)

lemma consume_part_wf:
  assumes "wf_wstate isServer (pws c)" "0 \<le> opStack (pws c)" "H \<le> plen c" "plen c < n + H" "n < 2 ^ 32"
  shows "wf_wstate isServer (pws (snd (consume_part I isServer H n c)))"
proof -
  have "(n + H - plen c) mod 2 ^ 32 = n + H - plen c" using assms(3-) by simp
  moreover have "0 < n + H - plen c" "n + H - plen c < 2 ^ 32" using assms(3-) by auto
  ultimately show ?thesis
    using assms(1,2)
    by (auto simp: consume_part_def Let_def wf_wstate_def header_defs split: prod.splits)
qed

lemma consumeMessage_wf:
  assumes "frame_header isServer m src len = Some (H, w, n)" "H \<le> plen c"
    "wf_wstate isServer (pws c)" "wantsHead (pws c)"
  shows "wf_wstate isServer (pws (snd (consumeMessage I isServer H w n c)))"
    and "\<not> fst (consumeMessage I isServer H w n c) \<Longrightarrow> wantsHead (pws (snd (consumeMessage I isServer H w n c)))"
proof -
  let ?r = "consumeMessage I isServer H w n c"
  from assms(1) have "wf_wstate isServer (pws (snd ?r)) \<and> (\<not> fst ?r \<longrightarrow> wantsHead (pws (snd ?r)))"
  proof (cases rule: consumeMessage_cases [where I = I and c = c])
    case refused
    then show ?thesis using assms by (simp add: close_ctx_def)
  next
    case (too_long c1)
    then show ?thesis using accept_opcode_wf [of c c1] assms by (simp add: close_ctx_def)
  next
    case (whole c1)
    then show ?thesis using accept_opcode_wf [of c c1] consume_whole_wf [of isServer c1] assms by simp
  next
    case (part c1)
    then show ?thesis
      using accept_opcode_wf [of c c1] accept_opcode_frame [of c c1] consume_part_wf [of isServer c1]
        consume_part_True [of I isServer H n c1] assms by simp
  qed
  then show "wf_wstate isServer (pws (snd ?r))" "\<not> fst ?r \<Longrightarrow> wantsHead (pws (snd ?r))" by auto
qed

lemma save_spill_wf:
  "plen c < LONG_MESSAGE_HEADER isServer \<Longrightarrow> wf_wstate isServer (pws c) \<Longrightarrow> wantsHead (pws c) \<Longrightarrow>
    wf_wstate isServer (pws (save_spill c))"
  by (auto simp: save_spill_def wf_wstate_def)

lemma frame_check_frame:
  "pm (snd (frame_check I c)) = pm c" "psrc (snd (frame_check I c)) = psrc c"
  "plen (snd (frame_check I c)) = plen c" "pws (snd (frame_check I c)) = pws c"
  by (simp_all add: frame_check_def Let_def split: prod.splits)

lemma frame_header_None:
  "frame_header isServer m src len = None \<Longrightarrow> len < LONG_MESSAGE_HEADER isServer"
  by (auto simp: frame_header_def header_defs split: if_splits)

text \<open>The loop, by one of its four exits.\<close>

lemma consume_loop_cases:
  obtains (short) "plen c < SHORT_MESSAGE_HEADER isServer" "consume_loop I isServer c = save_spill c"
  | (bad) c1 where "frame_check I c = (True, c1)" "consume_loop I isServer c = close_ctx I c1"
  | (more) c1 where "frame_check I c = (False, c1)" "frame_header isServer (pm c) (psrc c) (plen c) = None"
      "consume_loop I isServer c = save_spill c1"
  | (stop) c1 H w n c2 where "frame_check I c = (False, c1)" "SHORT_MESSAGE_HEADER isServer \<le> plen c"
      "frame_header isServer (pm c) (psrc c) (plen c) = Some (H, w, n)"
      "consumeMessage I isServer H w n c1 = (True, c2)" "consume_loop I isServer c = c2"
  | (iter) c1 H w n c2 where "frame_check I c = (False, c1)" "SHORT_MESSAGE_HEADER isServer \<le> plen c"
      "frame_header isServer (pm c) (psrc c) (plen c) = Some (H, w, n)"
      "consumeMessage I isServer H w n c1 = (False, c2)" "consume_loop I isServer c = consume_loop I isServer c2"
      "plen c2 < plen c"
proof (cases "SHORT_MESSAGE_HEADER isServer \<le> plen c")
  case False
  then show thesis by (intro short) (simp_all add: consume_loop.simps)
next
  case True
  obtain b c1 where fc: "frame_check I c = (b, c1)" by (cases "frame_check I c")
  then have c1: "pm c1 = pm c" "psrc c1 = psrc c" "plen c1 = plen c" using frame_check_frame [of I c] by auto
  show thesis
  proof (cases b)
    case True
    with fc \<open>SHORT_MESSAGE_HEADER isServer \<le> plen c\<close> show thesis
      by (intro bad [of c1]) (simp_all add: consume_loop.simps [of I isServer c])
  next
    case False
    show thesis
    proof (cases "frame_header isServer (pm c) (psrc c) (plen c)")
      case None
      with fc False c1 True show thesis
        by (intro more [of c1]) (simp_all add: consume_loop.simps [of I isServer c])
    next
      case (Some x)
      obtain H w n where x: "x = (H, w, n)" by (cases x) auto
      obtain r c2 where cm: "consumeMessage I isServer H w n c1 = (r, c2)" by (cases "consumeMessage I isServer H w n c1")
      have u: "consume_loop I isServer c = (if r then c2 else consume_loop I isServer c2)"
        using fc False c1 True Some x cm by (simp add: consume_loop.simps [of I isServer c])
      show thesis
      proof (cases r)
        case True
        with fc False Some x cm u \<open>SHORT_MESSAGE_HEADER isServer \<le> plen c\<close> show thesis
          by (intro stop [of c1 H w n c2]) simp_all
      next
        case r: False
        then have "plen c2 < plen c"
          using consumeMessage_plen [of isServer "pm c" "psrc c" "plen c" H w n I c1 c2] Some x cm c1 by simp
        with r fc False Some x cm u True show thesis
          by (intro iter [of c1 H w n c2]) simp_all
      qed
    qed
  qed
qed

lemma consume_loop_wf:
  "wf_wstate isServer (pws c) \<Longrightarrow> wantsHead (pws c) \<Longrightarrow> wf_wstate isServer (pws (consume_loop I isServer c))"
proof (induction "plen c" arbitrary: c rule: less_induct)
  case less
  note fr = frame_check_frame [of I c]
  show ?case
  proof (cases rule: consume_loop_cases [of c isServer I])
    case short
    then have "plen c < LONG_MESSAGE_HEADER isServer" by (simp add: header_defs split: if_splits)
    with short show ?thesis using less.prems save_spill_wf [of c isServer] by simp
  next
    case (bad c1)
    then show ?thesis using less.prems fr by (simp add: close_ctx_def)
  next
    case (more c1)
    then show ?thesis using less.prems fr save_spill_wf [of c1 isServer] frame_header_None by simp
  next
    case (stop c1 H w n c2)
    then show ?thesis
      using less.prems fr consumeMessage_wf(1) [of isServer _ _ _ H w n c1 I] frame_header_bounds(2) by fastforce
  next
    case (iter c1 H w n c2)
    have "wf_wstate isServer (pws c2)" "wantsHead (pws c2)"
      using iter less.prems fr consumeMessage_wf [of isServer _ _ _ H w n c1 I] frame_header_bounds(2) by fastforce+
    then show ?thesis using iter less.hyps by simp
  qed
qed

lemma rotate_if_wf [simp]: "wf_wstate isServer (rotate_if isServer' len ws) = wf_wstate isServer ws"
  by (simp add: rotate_if_def wf_wstate_def)

lemma consumeContinuation_wf:
  assumes "wf_wstate isServer (pws c)" "\<not> wantsHead (pws c)"
  shows "wf_wstate isServer (pws (snd (consumeContinuation I isServer c)))"
    and "fst (consumeContinuation I isServer c) \<Longrightarrow> wantsHead (pws (snd (consumeContinuation I isServer c)))"
proof -
  have "wf_wstate isServer (pws (snd (consumeContinuation I isServer c))) \<and>
    (fst (consumeContinuation I isServer c) \<longrightarrow> wantsHead (pws (snd (consumeContinuation I isServer c))))"
  proof (cases rule: consumeContinuation_cases [of c isServer I])
    case (rest m u)
    then show ?thesis using assms by (auto simp: wf_wstate_def)
  next
    case (chunk m u ws stop)
    then have "wf_wstate isServer ws" using assms by (auto simp: wf_wstate_def)
    with chunk show ?thesis by simp
  qed (use assms in simp)
  then show "wf_wstate isServer (pws (snd (consumeContinuation I isServer c)))"
    "fst (consumeContinuation I isServer c) \<Longrightarrow> wantsHead (pws (snd (consumeContinuation I isServer c)))" by auto
qed

lemma restore_spill_frame [simp]: "pws (restore_spill c) = pws c" "pu (restore_spill c) = pu c"
  by (simp_all add: restore_spill_def Let_def)

lemma consume_wf:
  assumes "wf_wstate isServer (pws c)"
  shows "wf_wstate isServer (pws (consume I isServer c))"
proof (cases "wantsHead (pws c)")
  case True
  with assms show ?thesis
    using consume_loop_wf [of isServer "restore_spill c" I] by (simp add: consume_def Let_def)
next
  case False
  with assms show ?thesis
    using consumeContinuation_wf [of isServer "restore_spill c" I]
      consume_loop_wf [of isServer "snd (consumeContinuation I isServer (restore_spill c))" I]
    by (simp add: consume_def Let_def case_prod_beta)
qed

section \<open>Writes to the receive buffer\<close>

definition writes_within :: "'u ctx \<Rightarrow> mem \<Rightarrow> bool" where
  "writes_within c m' \<longleftrightarrow> agree_off (pm c) m' (psrc c) (psrc c + plen c + CONSUME_POST_PADDING)"

lemma consume_whole_writes:
  assumes "4 \<le> H" "n + H \<le> plen c" "n < 2 ^ 32"
  shows "agree_off (pm c) (pm (snd (consume_whole I isServer H tot n c))) (psrc c) (psrc c + plen c)"
proof -
  define d where "d = psrc c + H - 4"
  have d: "psrc c + H = d + 4" "psrc c \<le> d" "d + 4 + n \<le> psrc c + plen c"
    using assms by (simp_all add: d_def)
  have "agree_off (pm c) (unmaskImpreciseCopyMask (pm c) d (d + 4) d (n mod 2 ^ 32)) (psrc c) (psrc c + plen c)"
    unfolding unmaskImpreciseCopyMask_def Let_def
    by (rule agree_off_mono [OF unmaskImprecise_tight]) (use d assms in simp_all)
  then have "agree_off (pm c) (unmaskImpreciseCopyMask (pm c) (psrc c + H - 4) (psrc c + H) (psrc c + H - 4) (n mod 2 ^ 32))
    (psrc c) (psrc c + plen c)"
    by (simp add: d)
  then show ?thesis by (auto simp: consume_whole_def Let_def case_prod_beta)
qed

lemma consume_whole_client [simp]: "pm (snd (consume_whole I False H tot n c)) = pm c"
  by (simp add: consume_whole_def Let_def case_prod_beta)

lemma consume_part_writes:
  "H \<le> plen c \<Longrightarrow> writes_within c (pm (snd (consume_part I isServer H n c)))"
  using unmaskImprecise_frame [of "psrc c" "psrc c + H" "pm c" "rd (pm c) (psrc c + H - 4) 4" "plen c - H"]
  by (auto simp: consume_part_def Let_def case_prod_beta writes_within_def CONSUME_POST_PADDING_def
      intro: agree_off_mono)

lemma xor_tail_nth:
  "xor_tail i s m a msk j = (if a + i \<le> j \<and> j < a + s then m j XOR msk ! (j - a) else m j)"
proof (induction i s m a msk rule: xor_tail.induct)
  case (1 i s m a msk)
  show ?case
  proof (cases "i < s")
    case True
    have "xor_tail i s m a msk j = xor_tail (Suc i) s (m(a + i := m (a + i) XOR msk ! i)) a msk j"
      using True by (subst xor_tail.simps) simp
    moreover consider "j < a + i" | "j = a + i" | "a + Suc i \<le> j" by linarith
    ultimately show ?thesis
      unfolding 1 [OF True] by cases (use True in auto)
  qed (subst xor_tail.simps, auto)
qed

lemma unmask_rest_writes:
  "agree_off m (unmask_rest isServer m src ws) src (src + remainingBytes ws)"
proof -
  have "4 * ((remainingBytes ws div 4 * 4 + 3) div 4) = remainingBytes ws div 4 * 4" by simp
  moreover have "remainingBytes ws div 4 * 4 + remainingBytes ws mod 4 = remainingBytes ws" by simp
  ultimately show ?thesis
    by (auto simp: unmask_rest_def agree_off_def Let_def xor_tail_nth unmaskInplace_nth)
qed

lemma unmask_chunk_writes:
  "agree_off m (unmask_chunk isServer m src len ws) src (src + len + 4)"
proof -
  have "4 * (((len div 4 + 1) * 4 + 3) div 4) \<le> len + 4" by simp
  then show ?thesis by (auto simp: unmask_chunk_def agree_off_def unmaskInplace_nth)
qed

lemma consumeContinuation_writes:
  "writes_within c (pm (snd (consumeContinuation I isServer c)))"
  "fst (consumeContinuation I isServer c) \<Longrightarrow>
    psrc (snd (consumeContinuation I isServer c)) + plen (snd (consumeContinuation I isServer c)) = psrc c + plen c \<and>
    psrc c \<le> psrc (snd (consumeContinuation I isServer c))"
proof -
  have "writes_within c (pm (snd (consumeContinuation I isServer c))) \<and> (fst (consumeContinuation I isServer c) \<longrightarrow>
    psrc (snd (consumeContinuation I isServer c)) + plen (snd (consumeContinuation I isServer c)) = psrc c + plen c \<and>
    psrc c \<le> psrc (snd (consumeContinuation I isServer c)))"
  proof (cases rule: consumeContinuation_cases [of c isServer I])
    case (rest_stop m u)
    then show ?thesis
      using unmask_rest_writes [of "pm c" isServer "psrc c" "pws c"]
      by (auto simp: writes_within_def intro: agree_off_mono)
  next
    case (rest m u)
    then show ?thesis
      using unmask_rest_writes [of "pm c" isServer "psrc c" "pws c"]
      by (auto simp: writes_within_def intro: agree_off_mono)
  next
    case (chunk m u ws stop)
    then show ?thesis
      using unmask_chunk_writes [of "pm c" isServer "psrc c" "plen c" "pws c"]
      by (auto simp: writes_within_def CONSUME_POST_PADDING_def)
  qed
  then show "writes_within c (pm (snd (consumeContinuation I isServer c)))"
    "fst (consumeContinuation I isServer c) \<Longrightarrow>
    psrc (snd (consumeContinuation I isServer c)) + plen (snd (consumeContinuation I isServer c)) = psrc c + plen c \<and>
    psrc c \<le> psrc (snd (consumeContinuation I isServer c))" by auto
qed

lemma consumeMessage_writes:
  assumes "frame_header isServer m src len = Some (H, w, n)" "H \<le> plen c"
  shows "writes_within c (pm (snd (consumeMessage I isServer H w n c)))"
  using assms(1)
proof (cases rule: consumeMessage_cases [where I = I and c = c])
  case refused
  then show ?thesis by (simp add: close_ctx_def writes_within_def)
next
  case (too_long c1)
  then show ?thesis by (simp add: close_ctx_def writes_within_def accept_opcode_frame)
next
  case (whole c1)
  have "isServer \<Longrightarrow> 4 \<le> H" using assms(1) by (auto simp: frame_header_def header_defs split: if_splits)
  with whole show ?thesis
    using consume_whole_writes [of H n c1 I isServer "n + H"] accept_opcode_frame [of c c1]
    by (cases isServer) (auto simp: writes_within_def intro: agree_off_mono)
next
  case (part c1)
  then show ?thesis
    using consume_part_writes [of H c1 I isServer n] accept_opcode_frame [of c c1] assms(2)
    by (simp add: writes_within_def)
qed

lemma consume_loop_writes: "writes_within c (pm (consume_loop I isServer c))"
proof (induction "plen c" arbitrary: c rule: less_induct)
  case less
  note fr = frame_check_frame [of I c]
  show ?case
  proof (cases rule: consume_loop_cases [of c isServer I])
    case (stop c1 H w n c2)
    then show ?thesis
      using fr consumeMessage_writes [of isServer _ _ _ H w n c1 I] frame_header_bounds(2)
      by (fastforce simp: writes_within_def)
  next
    case (iter c1 H w n c2)
    have "psrc c2 = psrc c + (n + H)" "plen c2 = plen c - (n + H)" "n + H \<le> plen c"
      using consumeMessage_False [OF iter(4,3)] iter(1) fr by auto
    moreover have "writes_within c1 (pm c2)"
      using iter fr consumeMessage_writes [of isServer _ _ _ H w n c1 I] frame_header_bounds(2) by fastforce
    moreover have "writes_within c2 (pm (consume_loop I isServer c2))" using less iter by simp
    ultimately have "agree_off (pm c) (pm c2) (psrc c) (psrc c + plen c + CONSUME_POST_PADDING)"
      "agree_off (pm c2) (pm (consume_loop I isServer c2)) (psrc c) (psrc c + plen c + CONSUME_POST_PADDING)"
      using iter(1) fr by (auto simp: writes_within_def elim: agree_off_mono)
    then show ?thesis using iter(5) agree_off_trans by (auto simp: writes_within_def)
  qed (use fr in \<open>auto simp: save_spill_def close_ctx_def writes_within_def\<close>)
qed

lemma consume_writes:
  assumes "wf_wstate isServer (pws c)" "spillLength (pws c) \<le> psrc c"
  shows "agree_off (pm c) (pm (consume I isServer c))
    (psrc c - spillLength (pws c)) (psrc c + plen c + CONSUME_POST_PADDING)"
proof -
  let ?c = "restore_spill c" and ?lo = "psrc c - spillLength (pws c)" and ?hi = "psrc c + plen c + CONSUME_POST_PADDING"
  have src: "psrc ?c = ?lo" "psrc ?c + plen ?c + CONSUME_POST_PADDING = ?hi"
    using assms(2) by (auto simp: restore_spill_def Let_def)
  have m0: "agree_off (pm c) (pm ?c) ?lo ?hi"
    using assms by (auto simp: restore_spill_def Let_def wf_wstate_def intro: agree_off_wr)
  have "agree_off (pm ?c) (pm (consume I isServer c)) ?lo ?hi"
  proof (cases "wantsHead (pws c)")
    case True
    then show ?thesis
      using consume_loop_writes [of ?c I isServer] src by (simp add: consume_def Let_def writes_within_def)
  next
    case False
    let ?r = "consumeContinuation I isServer ?c"
    have 1: "writes_within ?c (pm (snd ?r))" by (rule consumeContinuation_writes)
    show ?thesis
    proof (cases "fst ?r")
      case True
      have "agree_off (pm (snd ?r)) (pm (consume_loop I isServer (snd ?r))) ?lo ?hi"
        using consume_loop_writes [of "snd ?r" I isServer] consumeContinuation_writes(2) [OF True] src
        unfolding writes_within_def by (elim agree_off_mono) linarith+
      with 1 True False src show ?thesis
        by (auto simp: consume_def Let_def case_prod_beta writes_within_def intro: agree_off_trans)
    next
      case r: False
      with 1 False src show ?thesis by (simp add: consume_def Let_def case_prod_beta writes_within_def)
    qed
  qed
  with m0 show ?thesis by (rule agree_off_trans)
qed

section \<open>Properties\<close>

text \<open>An instance of \<open>Impl\<close> for the concrete applications: it records the fragments.\<close>

definition rec_impl :: "32 word \<Rightarrow> (byte list \<times> nat \<times> byte \<times> bool) list impl" where
  "rec_impl limit = \<lparr>forceClose = \<lambda>u. [], maxPayload = \<lambda>u. limit, setCompressed = \<lambda>u. (False, u),
     handleFragment = \<lambda>d r opc fin u. (False, u @ [(d, r, opc, fin)])\<rparr>"

lemma State_init_wf:
  "length (opCode raw) = 2 \<Longrightarrow> wf_wstate isServer (State_init raw)"
  by (simp add: State_init_def wf_wstate_def header_defs)

definition raw0 :: wstate where
  "raw0 = \<lparr>wantsHead = False, spillLength = 9, opStack = 1, lastFin = False, spill = replicate 13 0,
     opCode = [0, 0], remainingBytes = 5, wmask = [0, 0, 0, 0]\<rparr>"

text \<open>
  C32: The parser state stays well formed. Whatever bytes arrive in whatever chunks, and
  whatever the callbacks do, \<open>consume\<close> leaves the operation stack in -1, 0, 1 (so that
  \<open>opCode[opStack]\<close> is an element of the array), the spill within its \<open>LONG_MESSAGE_HEADER - 1\<close>
  bytes (and so within its 4-bit length field), and, inside a frame, a positive 32-bit count of
  outstanding bytes and a four-byte mask.
\<close>

theorem consume_keeps_wf:
  assumes "wf_wstate isServer (pws c)"
  shows "wf_wstate isServer (pws (consume I isServer c))"
  using assms by (rule consume_wf)

theorem consume_keeps_wf_witness:
  "wf_wstate True (pws (consume (rec_impl 100) True
     \<lparr>pm = (\<lambda>i. [0x81, 0x82, 1, 2, 3, 4, 0x69, 0x6b] ! i), psrc = 13, plen = 8, pws = State_init raw0, pu = []\<rparr>))"
  by (rule consume_keeps_wf) (simp add: State_init_wf raw0_def)

text \<open>
  C33: \<open>consume\<close> never writes outside the receive buffer. The buffer is allocated with
  \<open>CONSUME_PRE_PADDING\<close> bytes before and \<open>CONSUME_POST_PADDING\<close> bytes after the \<open>cap\<close> bytes
  a read may fill (\<open>Node.cpp\<close>); restoring a spilled header and unmasking four bytes at a time
  both stay inside that block, for every input, every state and every callback.
\<close>

theorem consume_memory_safe:
  assumes "wf_wstate isServer (pws c)" "psrc c = base + CONSUME_PRE_PADDING isServer" "plen c \<le> cap"
  shows "agree_off (pm c) (pm (consume I isServer c))
    base (base + CONSUME_PRE_PADDING isServer + cap + CONSUME_POST_PADDING)"
proof -
  have "spillLength (pws c) \<le> CONSUME_PRE_PADDING isServer"
    using assms(1) by (auto simp: wf_wstate_def CONSUME_PRE_PADDING_def)
  with assms show ?thesis
    using agree_off_mono [OF consume_writes [OF assms(1), of I]] by simp
qed

theorem consume_memory_safe_witness:
  "agree_off (\<lambda>i. [0x81, 0x82, 1, 2, 3, 4, 0x69, 0x6b] ! (i - 13))
     (pm (consume (rec_impl 100) True
       \<lparr>pm = (\<lambda>i. [0x81, 0x82, 1, 2, 3, 4, 0x69, 0x6b] ! (i - 13)), psrc = 13, plen = 8,
        pws = State_init raw0, pu = []\<rparr>))
     0 (0 + CONSUME_PRE_PADDING True + 8 + CONSUME_POST_PADDING)"
  using consume_memory_safe [of True "\<lparr>pm = (\<lambda>i. [0x81, 0x82, 1, 2, 3, 4, 0x69, 0x6b] ! (i - 13)),
     psrc = 13, plen = 8, pws = State_init raw0, pu = []\<rparr>" 0 8 "rec_impl 100"]
  by (simp add: State_init_wf raw0_def CONSUME_PRE_PADDING_def header_defs)

end
