(* ===== verification/TcpClient.thy ===== *)
theory TcpClient
  imports Base
begin

text \<open>
  The framed TCP client \<open>TcpClient\<close> (\<open>src/src/tcpclient.h\<close>, \<open>tcpclient.cpp\<close>). The object is a
  record; the operating system and the virtual functions an application overrides are
  parameters. Every system call and every virtual callback is an event of the trace \<open>ev\<close>, and
  a system call's answer is a function of the trace so far. Undefined behaviour and
  exceptions of the code are values of \<open>tcp_error\<close>.
\<close>

section \<open>State, events, environment\<close>

datatype tcp_event =
    T_sleep nat
  | T_close int
  | T_socket int
  | T_connect int "64 word" "16 word"
  | T_resolve string
  | T_send int "byte list"
  | T_recv int nat
  | T_select int
  | T_on_connected
  | T_on_disconnect
  | T_on_recv "byte list"
  | T_thread_start
  | T_thread_join

datatype tcp_error =
    No_host            \<comment> \<open>\<open>m_hosts[0]\<close> of an empty vector\<close>
  | Buffer_overrun     \<comment> \<open>the write to \<open>recv_buf[MAX_RECV_BUF]\<close>\<close>
  | Thread_joinable    \<comment> \<open>assignment to a joinable \<open>std::thread\<close>: \<open>std::terminate\<close>\<close>
  | Thread_not_joinable \<comment> \<open>\<open>join\<close> of no thread: \<open>std::system_error\<close>\<close>
  | Self_join          \<comment> \<open>\<open>join\<close> on the thread itself: \<open>std::system_error\<close>\<close>
  | Fd_minus_one       \<comment> \<open>\<open>FD_SET\<close> or \<open>FD_ISSET\<close> of descriptor -1: undefined\<close>

definition MAX_RECV_BUF :: nat where "MAX_RECV_BUF = 2048"

record tcp_client =
  is_running :: bool
  is_connected :: bool
  m_recv_thread :: bool  \<comment> \<open>joinable\<close>
  fd :: int
  recv_buf :: "byte list"
  recv_buf_pos :: nat
  m_host :: string
  m_port :: "16 word"
  m_hosts :: "64 word list"
  is_reconnect :: bool
  ev :: "tcp_event list"

definition TcpClient_init :: "byte list \<Rightarrow> 16 word \<Rightarrow> tcp_client" where
  "TcpClient_init raw port =
     \<lparr>is_running = False, is_connected = False, m_recv_thread = False, fd = -1, recv_buf = raw, recv_buf_pos = 0,
      m_host = [], m_port = port, m_hosts = [], is_reconnect = False, ev = []\<rparr>"

record tcp_os =
  os_socket :: "tcp_event list \<Rightarrow> int"
  os_connect :: "tcp_event list \<Rightarrow> int \<Rightarrow> 64 word \<Rightarrow> 16 word \<Rightarrow> int"
  os_gethostbyname :: "tcp_event list \<Rightarrow> string \<Rightarrow> 64 word list option"
  os_send :: "tcp_event list \<Rightarrow> int \<Rightarrow> byte list \<Rightarrow> int"
  os_recv :: "tcp_event list \<Rightarrow> int \<Rightarrow> nat \<Rightarrow> byte list option"
  os_select :: "tcp_event list \<Rightarrow> int \<Rightarrow> int option \<Rightarrow> int \<times> bool \<times> bool"

definition log_ev :: "tcp_event \<Rightarrow> tcp_client \<Rightarrow> tcp_client" where
  "log_ev e c = c\<lparr>ev := ev c @ [e]\<rparr>"

section \<open>connect\<close>

definition close_fd :: "tcp_client \<Rightarrow> tcp_client" where
  "close_fd c = (if fd c \<noteq> -1 then (log_ev (T_close (fd c)) c)\<lparr>fd := -1\<rparr> else c)"

definition do_connect :: "tcp_os \<Rightarrow> tcp_client \<Rightarrow> tcp_error + int \<times> tcp_client" where
  "do_connect os c0 =
     (let c = close_fd (log_ev (T_sleep 1) c0);
          s = os_socket os (ev c);
          c = (log_ev (T_socket s) c)\<lparr>fd := s\<rparr>
      in if s = -1 then Inr (-1, c)
         else if m_hosts c = [] then Inl No_host
         else let addr = m_hosts c ! 0; r = os_connect os (ev c) s addr (m_port c);
                  c = log_ev (T_connect s addr (m_port c)) c
           in if r = -1 then Inr (-1, log_ev (T_close s) c)
              else Inr (0, log_ev T_on_connected (c\<lparr>is_connected := True\<rparr>)))"

text \<open>\<open>connect\<close>: every turn of the loop over \<open>h_addr_list\<close> pushes its element 0.\<close>

definition connect :: "tcp_os \<Rightarrow> string \<Rightarrow> 16 word \<Rightarrow> bool \<Rightarrow> tcp_client \<Rightarrow> tcp_error + int \<times> tcp_client" where
  "connect os pHost port reconnect c0 =
     (let c = c0\<lparr>m_port := port, m_host := pHost, is_reconnect := reconnect\<rparr>;
          hp = os_gethostbyname os (ev c) (m_host c);
          c = log_ev (T_resolve (m_host c)) c
      in case hp of None \<Rightarrow> Inr (-1, c)
         | Some addr_list \<Rightarrow>
             let c = c\<lparr>m_hosts := m_hosts c @ map (\<lambda>i. addr_list ! 0) [0..<length addr_list]\<rparr> in
             if \<not> is_running c then
               (case do_connect os (c\<lparr>is_running := True\<rparr>) of
                  Inl e \<Rightarrow> Inl e
                | Inr (ret, c) \<Rightarrow>
                    if m_recv_thread c then Inl Thread_joinable
                    else Inr (ret, log_ev T_thread_start (c\<lparr>m_recv_thread := True\<rparr>)))
             else Inr (0, c))"

section \<open>Receiving\<close>

text \<open>
  The loop of \<open>do_recv\<close>. \<open>rp\<close> is the virtual \<open>read_packet\<close>, \<open>buf\<close> the array, \<open>pos\<close> is
  \<open>recv_buf_pos\<close>, \<open>out\<close> the packages handed to \<open>on_recv\<close>. The result is the array, the
  position and the packages; \<open>None\<close> means that the loop does not end.
\<close>

definition slice :: "byte list \<Rightarrow> nat \<Rightarrow> nat \<Rightarrow> byte list" where
  "slice buf i n = take n (drop i buf)"

definition memmove_front :: "byte list \<Rightarrow> nat \<Rightarrow> nat \<Rightarrow> byte list" where
  "memmove_front buf i n = slice buf i n @ drop n buf"

partial_function (option) recv_loop ::
  "(byte list \<Rightarrow> int) \<Rightarrow> byte list \<Rightarrow> nat \<Rightarrow> nat \<Rightarrow> int \<Rightarrow> byte list list \<Rightarrow>
     (tcp_error + byte list \<times> nat \<times> byte list list) option" where
  "recv_loop rp buf pos readPos pkgLen out =
     (if pkgLen > 0 then
        let fits = readPos + nat pkgLen \<le> pos;
            out' = (if fits then out @ [slice buf readPos (nat pkgLen)] else out);
            readPos' = (if fits then readPos + nat pkgLen else readPos)
        in if readPos' < pos then
             let pkgLen' = rp (slice buf readPos' (pos - readPos')) in
             if pkgLen' \<le> 0 then
               let buf' = memmove_front buf readPos' (pos - readPos'); pos' = pos - readPos'
               in if pos' < MAX_RECV_BUF then Some (Inr (buf'[pos' := 0], pos', out')) else Some (Inl Buffer_overrun)
             else recv_loop rp buf pos readPos' pkgLen' out'
           else Some (Inr (buf, 0, out'))
      else Some (Inr (buf, pos, out)))"

text \<open>\<open>recv\<close> stores what it received at \<open>recv_buf + recv_buf_pos\<close>.\<close>

definition store :: "byte list \<Rightarrow> nat \<Rightarrow> byte list \<Rightarrow> byte list" where
  "store buf pos bs = take pos buf @ bs @ drop (pos + length bs) buf"

definition do_recv :: "tcp_os \<Rightarrow> (byte list \<Rightarrow> int) \<Rightarrow> tcp_client \<Rightarrow> (tcp_error + int \<times> tcp_client) option" where
  "do_recv os rp c0 =
     (let n = MAX_RECV_BUF - recv_buf_pos c0; r = os_recv os (ev c0) (fd c0) n; c = log_ev (T_recv (fd c0) n) c0 in
      case r of
        None \<Rightarrow> Some (Inr (-1, log_ev T_on_disconnect (c\<lparr>is_connected := False\<rparr>)))
      | Some bs \<Rightarrow>
          if bs = [] then Some (Inr (-1, log_ev T_on_disconnect (c\<lparr>is_connected := False\<rparr>)))
          else
            let buf = store (recv_buf c) (recv_buf_pos c) bs; pos = recv_buf_pos c + length bs;
                pkgLen = rp (slice buf 0 pos)
            in (case recv_loop rp buf pos 0 pkgLen [] of
                  None \<Rightarrow> None
                | Some (Inl e) \<Rightarrow> Some (Inl e)
                | Some (Inr (buf, pos, out)) \<Rightarrow>
                    Some (Inr (0, c\<lparr>recv_buf := buf, recv_buf_pos := pos, ev := ev c @ map T_on_recv out\<rparr>))))"

text \<open>The virtual functions as the class defines them.\<close>

definition read_packet :: "byte list \<Rightarrow> int" where
  "read_packet pData = int (length pData)"

section \<open>Framing\<close>

function packets :: "(byte list \<Rightarrow> int) \<Rightarrow> byte list \<Rightarrow> byte list list \<times> byte list" where
  "packets rp bs =
     (if 0 < rp bs \<and> rp bs \<le> int (length bs)
      then case packets rp (drop (nat (rp bs)) bs) of (ps, r) \<Rightarrow> (take (nat (rp bs)) bs # ps, r)
      else ([], bs))"
  by pat_completeness auto
termination by (relation "measure (length \<circ> snd)") auto

declare packets.simps [simp del]

lemma packets_stop: "rp bs \<le> 0 \<Longrightarrow> packets rp bs = ([], bs)"
  by (subst packets.simps) simp

lemma packets_Nil [simp]: "packets rp [] = ([], [])"
  by (subst packets.simps) auto

lemma packets_step:
  "0 < rp bs \<Longrightarrow> rp bs \<le> int (length bs) \<Longrightarrow> packets rp (drop (nat (rp bs)) bs) = (ps, r) \<Longrightarrow>
    packets rp bs = (take (nat (rp bs)) bs # ps, r)"
  by (subst packets.simps) simp

lemma packets_concat: "packets rp bs = (ps, r) \<Longrightarrow> concat ps @ r = bs"
proof (induction rp bs arbitrary: ps r rule: packets.induct)
  case (1 rp bs)
  show ?case
  proof (cases "0 < rp bs \<and> rp bs \<le> int (length bs)")
    case True
    obtain qs q where qs: "packets rp (drop (nat (rp bs)) bs) = (qs, q)" by fastforce
    with True have "packets rp bs = (take (nat (rp bs)) bs # qs, q)" by (intro packets_step) auto
    moreover have "concat qs @ q = drop (nat (rp bs)) bs" using 1(1) [OF True qs] .
    ultimately show ?thesis using 1(2) by auto
  next
    case False
    then have "packets rp bs = ([], bs)" by (subst packets.simps) auto
    with 1(2) show ?thesis by simp
  qed
qed

lemma slice_all: "length buf = n \<Longrightarrow> slice buf 0 n = buf"
  by (simp add: slice_def)

lemma drop_slice: "drop k (slice buf i n) = slice buf (i + k) (n - k)"
  by (simp add: slice_def drop_take add.commute)

lemma take_slice: "k \<le> n \<Longrightarrow> take k (slice buf i n) = slice buf i k"
  by (simp add: slice_def)

lemma length_slice: "i + n \<le> length buf \<Longrightarrow> length (slice buf i n) = n"
  by (simp add: slice_def)

text \<open>A reader never asks for more bytes than there are.\<close>

definition bounded_reader :: "(byte list \<Rightarrow> int) \<Rightarrow> bool" where
  "bounded_reader rp \<longleftrightarrow> (\<forall>bs. rp bs \<le> int (length bs))"

lemma recv_loop_packets:
  assumes "bounded_reader rp" "readPos \<le> pos" "pos \<le> length buf" "pos \<le> MAX_RECV_BUF"
    "pkgLen = rp (slice buf readPos (pos - readPos))" "0 < pkgLen"
    "packets rp (slice buf readPos (pos - readPos)) = (ps, r)"
  shows "\<exists>buf'. recv_loop rp buf pos readPos pkgLen out = Some (Inr (buf', length r, out @ ps)) \<and>
    length buf' = length buf \<and> slice buf' 0 (length r) = r"
  using assms
proof (induction "pos - readPos" arbitrary: readPos pkgLen out ps r rule: less_induct)
  case less
  let ?rest = "slice buf readPos (pos - readPos)"
  have len: "length ?rest = pos - readPos" using less.prems by (intro length_slice) simp
  have n: "nat pkgLen \<le> pos - readPos" "0 < nat pkgLen"
    using less.prems(1,5,6) len unfolding bounded_reader_def by (metis nat_int nat_le_eq_zle order_less_imp_le zero_less_nat_eq nat_mono, simp)
  have le: "rp ?rest \<le> int (length ?rest)" using less.prems(1) by (simp add: bounded_reader_def)
  let ?pos' = "readPos + nat pkgLen"
  have fits: "?pos' \<le> pos" using n less.prems(2) by simp
  let ?rest' = "slice buf ?pos' (pos - ?pos')"
  have dr: "drop (nat (rp ?rest)) ?rest = ?rest'" using less.prems(5) by (simp add: drop_slice)
  have tk: "take (nat (rp ?rest)) ?rest = slice buf readPos (nat pkgLen)"
    using less.prems(5) n by (simp add: take_slice)
  obtain qs q where qs: "packets rp ?rest' = (qs, q)" by fastforce
  have psr: "ps = slice buf readPos (nat pkgLen) # qs" "r = q"
    using packets_step [of rp ?rest qs q] less.prems(5-7) le dr tk qs by auto
  show ?case
  proof (cases "?pos' < pos")
    case False
    then have "?rest' = []" by (simp add: slice_def)
    with qs have "qs = []" "q = []" by simp_all
    with False psr fits less.prems(6) show ?thesis
      by (subst recv_loop.simps) (simp add: Let_def slice_def)
  next
    case True
    show ?thesis
    proof (cases "rp ?rest' \<le> 0")
      case stop: True
      with qs have q: "qs = []" "q = ?rest'" by (simp_all add: packets_stop)
      have lq: "length q = pos - ?pos'" using q(2) less.prems(3) fits by (simp add: length_slice)
      let ?b = "(memmove_front buf ?pos' (pos - ?pos'))[pos - ?pos' := 0]"
      have mm: "length (memmove_front buf ?pos' (pos - ?pos')) = length buf"
        using less.prems(3) fits by (simp add: memmove_front_def length_slice)
      have "pos - ?pos' < MAX_RECV_BUF" using True n less.prems(4) by linarith
      then have "recv_loop rp buf pos readPos pkgLen out = Some (Inr (?b, length q, out @ ps))"
        using True stop psr fits q lq less.prems(6) by (subst recv_loop.simps) (simp add: Let_def)
      moreover have "slice ?b 0 (length q) = q"
        using q(2) lq by (simp add: memmove_front_def slice_def take_update_cancel)
      ultimately show ?thesis using psr mm by auto
    next
      case go: False
      have "\<exists>buf'. recv_loop rp buf pos ?pos' (rp ?rest') (out @ [slice buf readPos (nat pkgLen)]) =
          Some (Inr (buf', length q, (out @ [slice buf readPos (nat pkgLen)]) @ qs)) \<and>
        length buf' = length buf \<and> slice buf' 0 (length q) = q"
        using True n go qs fits less.prems(1,3,4) by (intro less.hyps) auto
      moreover have "recv_loop rp buf pos readPos pkgLen out =
          recv_loop rp buf pos ?pos' (rp ?rest') (out @ [slice buf readPos (nat pkgLen)])"
        using True go fits less.prems(6) by (subst recv_loop.simps) (simp add: Let_def)
      ultimately show ?thesis using psr by simp
    qed
  qed
qed

lemma recv_loop_hangs:
  assumes "0 < pkgLen" "pos < readPos + nat pkgLen" "readPos < pos" "pkgLen = rp (slice buf readPos (pos - readPos))"
  shows "recv_loop rp buf pos readPos pkgLen out = None"
proof -
  have "recv_loop rp buf pos readPos pkgLen out = Some y \<Longrightarrow>
    \<not> (0 < pkgLen \<and> pos < readPos + nat pkgLen \<and> readPos < pos \<and> pkgLen = rp (slice buf readPos (pos - readPos)))"
    for y rp buf pos readPos pkgLen out
  proof (rule recv_loop.raw_induct
      [of "\<lambda>rp buf pos readPos pkgLen out y. \<not> (0 < pkgLen \<and> pos < readPos + nat pkgLen \<and> readPos < pos \<and>
         pkgLen = rp (slice buf readPos (pos - readPos)))"], goal_cases)
    case (1 rec rp buf pos readPos pkgLen out y)
    show ?case
    proof
      assume stuck: "0 < pkgLen \<and> pos < readPos + nat pkgLen \<and> readPos < pos \<and> pkgLen = rp (slice buf readPos (pos - readPos))"
      then have "\<not> readPos + nat pkgLen \<le> pos" "0 < pkgLen" "readPos < pos"
        "rp (slice buf readPos (pos - readPos)) = pkgLen" by auto
      then have "rec rp buf pos readPos pkgLen out = Some y"
        using 1(3) by (simp only: Let_def if_True if_False simp_thms not_le) simp
      from 1(2) [OF this] stuck show False by blast
    qed
  qed
  from this [of rp buf pos readPos pkgLen out] assms show ?thesis
    by (metis not_Some_eq)
qed

lemma recv_loop_no_overrun:
  assumes "pos \<le> MAX_RECV_BUF" "readPos < pos" "pkgLen = rp (slice buf readPos (pos - readPos))"
  shows "recv_loop rp buf pos readPos pkgLen out \<noteq> Some (Inl e)"
proof -
  have "recv_loop rp buf pos readPos pkgLen out = Some y \<Longrightarrow> pos \<le> MAX_RECV_BUF \<longrightarrow> readPos < pos \<longrightarrow>
      pkgLen = rp (slice buf readPos (pos - readPos)) \<longrightarrow> y \<noteq> Inl e"
    for y rp buf pos readPos pkgLen out
  proof (rule recv_loop.raw_induct
      [of "\<lambda>rp buf pos readPos pkgLen out y. pos \<le> MAX_RECV_BUF \<longrightarrow> readPos < pos \<longrightarrow>
         pkgLen = rp (slice buf readPos (pos - readPos)) \<longrightarrow> y \<noteq> Inl e"], goal_cases)
    case (1 rec rp buf pos readPos pkgLen out y)
    show ?case
    proof (cases "0 < pkgLen \<and> readPos + nat pkgLen \<le> pos")
      case True
      with 1(2,3) show ?thesis by (auto simp: Let_def split: if_splits)
    next
      case False
      with 1(2,3) show ?thesis by (auto simp: Let_def split: if_splits)
    qed
  qed
  with assms show ?thesis by blast
qed

text \<open>
  \<open>stable_reader\<close>: once the head of the stream holds a whole package, later bytes do not
  change its length.
\<close>

definition stable_reader :: "(byte list \<Rightarrow> int) \<Rightarrow> bool" where
  "stable_reader rp \<longleftrightarrow> bounded_reader rp \<and> (\<forall>a b. 0 < rp a \<longrightarrow> rp (a @ b) = rp a)"

lemma packets_append:
  "stable_reader rp \<Longrightarrow> packets rp a = (ps, r) \<Longrightarrow> packets rp (r @ b) = (qs, s) \<Longrightarrow> packets rp (a @ b) = (ps @ qs, s)"
proof (induction rp a arbitrary: ps r rule: packets.induct)
  case (1 rp a)
  show ?case
  proof (cases "0 < rp a \<and> rp a \<le> int (length a)")
    case True
    obtain ps' r' where a: "packets rp (drop (nat (rp a)) a) = (ps', r')" by fastforce
    with True have "ps = take (nat (rp a)) a # ps'" "r = r'"
      using 1(3) packets_step by auto
    moreover from this have "packets rp (drop (nat (rp a)) a @ b) = (ps' @ qs, s)"
      using 1(1) [OF True 1(2) a] 1(4) by simp
    moreover have "rp (a @ b) = rp a" "nat (rp a) \<le> length a"
      using 1(2) True by (auto simp: stable_reader_def)
    ultimately show ?thesis
      using True by (subst packets.simps) simp
  next
    case False
    then have "packets rp a = ([], a)" by (subst packets.simps) auto
    with 1(3,4) show ?thesis by simp
  qed
qed

section \<open>do_recv\<close>

definition recv_wf :: "tcp_client \<Rightarrow> bool" where
  "recv_wf c \<longleftrightarrow> length (recv_buf c) = MAX_RECV_BUF \<and> recv_buf_pos c \<le> MAX_RECV_BUF"

definition pending :: "tcp_client \<Rightarrow> byte list" where
  "pending c = slice (recv_buf c) 0 (recv_buf_pos c)"

lemma length_pending [simp]: "recv_wf c \<Longrightarrow> length (pending c) = recv_buf_pos c"
  by (simp add: recv_wf_def pending_def slice_def)

lemma length_store: "pos + length bs \<le> length buf \<Longrightarrow> length (store buf pos bs) = length buf"
  by (simp add: store_def)

lemma slice_store: "pos + length bs \<le> length buf \<Longrightarrow> slice (store buf pos bs) 0 (pos + length bs) = slice buf 0 pos @ bs"
  by (simp add: store_def slice_def)

lemma do_recv_packets:
  assumes "bounded_reader rp" "recv_wf c" "os_recv os (ev c) (fd c) (MAX_RECV_BUF - recv_buf_pos c) = Some bs"
    "bs \<noteq> []" "length bs \<le> MAX_RECV_BUF - recv_buf_pos c" "packets rp (pending c @ bs) = (ps, r)"
  obtains buf where "length buf = MAX_RECV_BUF" "length r \<le> MAX_RECV_BUF" "slice buf 0 (length r) = r"
    "do_recv os rp c = Some (Inr (0, c\<lparr>recv_buf := buf, recv_buf_pos := length r,
      ev := ev c @ T_recv (fd c) (MAX_RECV_BUF - recv_buf_pos c) # map T_on_recv ps\<rparr>))"
proof -
  let ?pos = "recv_buf_pos c + length bs" and ?buf = "store (recv_buf c) (recv_buf_pos c) bs"
  have le: "?pos \<le> length (recv_buf c)" "length (recv_buf c) = MAX_RECV_BUF" "?pos \<le> MAX_RECV_BUF"
    using assms(2,5) by (auto simp: recv_wf_def)
  have sl: "slice ?buf 0 ?pos = pending c @ bs" using le by (simp add: slice_store pending_def)
  have lb: "length ?buf = MAX_RECV_BUF" using le by (simp add: length_store)
  have "concat ps @ r = pending c @ bs" using assms(6) by (rule packets_concat)
  then have "length (concat ps @ r) = length (pending c @ bs)" by (rule arg_cong)
  then have lr: "length r \<le> MAX_RECV_BUF" using le assms(2) by simp
  have "\<exists>buf. length buf = MAX_RECV_BUF \<and> slice buf 0 (length r) = r \<and>
    recv_loop rp ?buf ?pos 0 (rp (pending c @ bs)) [] = Some (Inr (buf, length r, ps))"
  proof (cases "0 < rp (pending c @ bs)")
    case True
    have "\<exists>buf'. recv_loop rp ?buf ?pos 0 (rp (pending c @ bs)) [] = Some (Inr (buf', length r, [] @ ps)) \<and>
      length buf' = length ?buf \<and> slice buf' 0 (length r) = r"
      by (rule recv_loop_packets) (use assms(1,6) le lb sl True in simp_all)
    with lb show ?thesis by auto
  next
    case False
    then have "ps = []" "r = pending c @ bs" using assms(6) by (simp_all add: packets_stop)
    with False lb sl le assms(2) show ?thesis
      by (intro exI [of _ ?buf]) (simp add: recv_loop.simps)
  qed
  then obtain buf where buf: "length buf = MAX_RECV_BUF" "slice buf 0 (length r) = r"
    "recv_loop rp ?buf ?pos 0 (rp (pending c @ bs)) [] = Some (Inr (buf, length r, ps))" by blast
  have "do_recv os rp c = Some (Inr (0, c\<lparr>recv_buf := buf, recv_buf_pos := length r,
      ev := ev c @ T_recv (fd c) (MAX_RECV_BUF - recv_buf_pos c) # map T_on_recv ps\<rparr>))"
    using assms(3,4) buf(3) sl by (simp add: do_recv_def Let_def log_ev_def)
  with buf(1,2) lr that show thesis by blast
qed

definition lost :: "tcp_client \<Rightarrow> tcp_client" where
  "lost c = c\<lparr>is_connected := False, ev := ev c @ [T_recv (fd c) (MAX_RECV_BUF - recv_buf_pos c), T_on_disconnect]\<rparr>"

lemma do_recv_lost:
  "os_recv os (ev c) (fd c) (MAX_RECV_BUF - recv_buf_pos c) \<in> {None, Some []} \<Longrightarrow> do_recv os rp c = Some (Inr (-1, lost c))"
  by (auto simp: do_recv_def log_ev_def lost_def Let_def)

definition delivered :: "tcp_event list \<Rightarrow> byte list list" where
  "delivered es = [p. T_on_recv p \<leftarrow> es]"

lemma delivered_simps [simp]:
  "delivered [] = []" "delivered (a @ b) = delivered a @ delivered b"
  "delivered (T_on_recv p # es) = p # delivered es" "delivered (map T_on_recv ps) = ps"
  "delivered (T_recv f n # es) = delivered es" "delivered (T_on_disconnect # es) = delivered es"
  by (induction ps) (auto simp: delivered_def)

lemma recv_loop_wf:
  assumes "recv_loop rp buf pos readPos pkgLen out = Some (Inr (buf', pos', out'))" "pos \<le> MAX_RECV_BUF" "readPos \<le> pos"
    "length buf = MAX_RECV_BUF"
  shows "length buf' = MAX_RECV_BUF \<and> pos' \<le> MAX_RECV_BUF"
proof -
  have "recv_loop rp buf pos readPos pkgLen out = Some y \<Longrightarrow> pos \<le> MAX_RECV_BUF \<longrightarrow> readPos \<le> pos \<longrightarrow>
      length buf = MAX_RECV_BUF \<longrightarrow> (case y of Inl _ \<Rightarrow> True | Inr (buf', pos', out') \<Rightarrow>
        length buf' = MAX_RECV_BUF \<and> pos' \<le> MAX_RECV_BUF)" for y rp buf pos readPos pkgLen out
  proof (rule recv_loop.raw_induct
      [of "\<lambda>rp buf pos readPos pkgLen out y. pos \<le> MAX_RECV_BUF \<longrightarrow> readPos \<le> pos \<longrightarrow>
      length buf = MAX_RECV_BUF \<longrightarrow> (case y of Inl _ \<Rightarrow> True | Inr (buf', pos', out') \<Rightarrow>
        length buf' = MAX_RECV_BUF \<and> pos' \<le> MAX_RECV_BUF)"], goal_cases)
    case (1 rec rp buf pos readPos pkgLen out y)
    have mm: "length (memmove_front buf i (pos - i)) = MAX_RECV_BUF"
      if "length buf = MAX_RECV_BUF" "pos \<le> MAX_RECV_BUF" "i \<le> pos" for i
      using that by (simp add: memmove_front_def slice_def)
    show ?case
    proof (cases "0 < pkgLen \<and> readPos + nat pkgLen \<le> pos")
      case True
      with 1(2,3) mm [of "readPos + nat pkgLen"] show ?thesis by (auto simp: Let_def split: if_splits)
    next
      case False
      with 1(2,3) mm [of readPos] show ?thesis by (auto simp: Let_def split: if_splits)
    qed
  qed
  from this [of rp buf pos readPos pkgLen out "Inr (buf', pos', out')"] assms show ?thesis by auto
qed

section \<open>A stream of reads\<close>

fun feed :: "tcp_os \<Rightarrow> (byte list \<Rightarrow> int) \<Rightarrow> byte list list \<Rightarrow> tcp_client \<Rightarrow> tcp_client option" where
  "feed os rp [] c = Some c"
| "feed os rp (bs # chunks) c =
     (case do_recv (os\<lparr>os_recv := \<lambda>_ _ _. Some bs\<rparr>) rp c of
        Some (Inr (_, c')) \<Rightarrow> feed os rp chunks c'
      | _ \<Rightarrow> None)"

text \<open>What \<open>recv\<close> can return: at least one byte, and no more than it was asked for.\<close>

fun readable :: "(byte list \<Rightarrow> int) \<Rightarrow> byte list \<Rightarrow> byte list list \<Rightarrow> bool" where
  "readable rp r [] \<longleftrightarrow> True"
| "readable rp r (bs # chunks) \<longleftrightarrow>
     bs \<noteq> [] \<and> length r + length bs \<le> MAX_RECV_BUF \<and> readable rp (snd (packets rp (r @ bs))) chunks"

lemma packets_rest: "stable_reader rp \<Longrightarrow> packets rp a = (ps, r) \<Longrightarrow> packets rp r = ([], r)"
proof (induction rp a arbitrary: ps r rule: packets.induct)
  case (1 rp a)
  show ?case
  proof (cases "0 < rp a \<and> rp a \<le> int (length a)")
    case True
    obtain ps' r' where a: "packets rp (drop (nat (rp a)) a) = (ps', r')" by fastforce
    with True have "r = r'" using 1(3) packets_step by auto
    with 1(1) [OF True 1(2) a] show ?thesis by simp
  next
    case False
    then have "packets rp a = ([], a)" by (subst packets.simps) auto
    with 1(3) show ?thesis by auto
  qed
qed

lemma feed_packets:
  assumes "stable_reader rp"
  shows "recv_wf c \<Longrightarrow> readable rp (pending c) chunks \<Longrightarrow> packets rp (pending c) = ([], pending c) \<Longrightarrow>
    packets rp (pending c @ concat chunks) = (ps, r) \<Longrightarrow>
    \<exists>c'. feed os rp chunks c = Some c' \<and> delivered (ev c') = delivered (ev c) @ ps \<and> pending c' = r \<and>
      is_connected c' = is_connected c"
proof (induction chunks arbitrary: c ps r)
  case Nil
  then show ?case by simp
next
  case (Cons bs chunks)
  obtain qs q where q: "packets rp (pending c @ bs) = (qs, q)" by fastforce
  obtain ps' r' where ps': "packets rp (q @ concat chunks) = (ps', r')" by fastforce
  have psr: "ps = qs @ ps'" "r = r'"
    using packets_append [OF assms q ps'] Cons.prems(4) by auto
  have len: "length bs \<le> MAX_RECV_BUF - recv_buf_pos c"
    using Cons.prems(1,2) length_pending [OF Cons.prems(1)] by auto
  obtain buf where buf: "length buf = MAX_RECV_BUF" "length q \<le> MAX_RECV_BUF" "slice buf 0 (length q) = q"
    "do_recv (os\<lparr>os_recv := \<lambda>_ _ _. Some bs\<rparr>) rp c = Some (Inr (0, c\<lparr>recv_buf := buf, recv_buf_pos := length q,
      ev := ev c @ T_recv (fd c) (MAX_RECV_BUF - recv_buf_pos c) # map T_on_recv qs\<rparr>))"
    by (rule do_recv_packets [of rp c "os\<lparr>os_recv := \<lambda>_ _ _. Some bs\<rparr>" bs qs q])
       (use Cons.prems(1,2) assms q len in \<open>auto simp: stable_reader_def\<close>)
  define c1 where "c1 = c\<lparr>recv_buf := buf, recv_buf_pos := length q,
      ev := ev c @ T_recv (fd c) (MAX_RECV_BUF - recv_buf_pos c) # map T_on_recv qs\<rparr>"
  have c1: "recv_wf c1" "pending c1 = q" "delivered (ev c1) = delivered (ev c) @ qs" "is_connected c1 = is_connected c"
    using buf(1-3) by (simp_all add: c1_def recv_wf_def pending_def)
  have "readable rp (pending c1) chunks" "packets rp (pending c1) = ([], pending c1)"
    using Cons.prems(2) q c1(2) packets_rest [OF assms q] by simp_all
  then obtain c' where "feed os rp chunks c1 = Some c'" "delivered (ev c') = delivered (ev c1) @ ps'"
    "pending c' = r'" "is_connected c' = is_connected c1"
    using Cons.IH [of c1 ps' r'] c1 ps' by auto
  moreover have "feed os rp (bs # chunks) c = feed os rp chunks c1"
    using buf(4) by (simp add: c1_def)
  ultimately show ?case using c1 psr by auto
qed

section \<open>The system and the operations\<close>

text \<open>
  Documented behaviour of the system: \<open>recv\<close> returns at most what it was asked for, a
  successful \<open>gethostbyname\<close> has an address.
\<close>

definition os_ok :: "tcp_os \<Rightarrow> bool" where
  "os_ok os \<longleftrightarrow> (\<forall>es f n bs. os_recv os es f n = Some bs \<longrightarrow> length bs \<le> n) \<and>
     (\<forall>es h. os_gethostbyname os es h \<noteq> Some [])"

lemma log_ev_simps [simp]:
  "is_running (log_ev e c) = is_running c" "is_connected (log_ev e c) = is_connected c"
  "m_recv_thread (log_ev e c) = m_recv_thread c" "fd (log_ev e c) = fd c" "recv_buf (log_ev e c) = recv_buf c"
  "recv_buf_pos (log_ev e c) = recv_buf_pos c" "m_hosts (log_ev e c) = m_hosts c"
  "is_reconnect (log_ev e c) = is_reconnect c" "m_port (log_ev e c) = m_port c" "ev (log_ev e c) = ev c @ [e]"
  by (simp_all add: log_ev_def)

lemma close_fd_simps [simp]:
  "is_running (close_fd c) = is_running c" "is_connected (close_fd c) = is_connected c"
  "m_recv_thread (close_fd c) = m_recv_thread c" "recv_buf (close_fd c) = recv_buf c"
  "recv_buf_pos (close_fd c) = recv_buf_pos c" "m_hosts (close_fd c) = m_hosts c"
  "is_reconnect (close_fd c) = is_reconnect c" "m_port (close_fd c) = m_port c" "fd (close_fd c) = -1"
  by (simp_all add: close_fd_def)

section \<open>Properties\<close>

text \<open>For the concrete applications: a reader of packages with a length byte, and a system.\<close>

definition byte_reader :: "byte list \<Rightarrow> int" where
  "byte_reader bs = (if bs \<noteq> [] \<and> unat (hd bs) < length bs then int (unat (hd bs)) + 1 else 0)"

lemma byte_reader_stable: "stable_reader byte_reader"
proof -
  have "int (unat (hd bs)) + 1 \<le> int (length bs)" if "unat (hd bs) < length bs" for bs :: "byte list"
    using that by linarith
  then show ?thesis
    unfolding stable_reader_def bounded_reader_def byte_reader_def by (auto simp del: of_nat_unat)
qed

definition os0 :: tcp_os where
  "os0 = \<lparr>os_socket = \<lambda>_. 3, os_connect = \<lambda>_ _ _ _. 0, os_gethostbyname = \<lambda>_ _. Some [0x0100007f],
     os_send = \<lambda>_ _ bs. int (length bs), os_recv = \<lambda>_ _ _. None, os_select = \<lambda>_ _ _. (0, False, False)\<rparr>"

lemma os0_ok: "os_ok os0"
  by (simp add: os_ok_def os0_def)

definition tcp0 :: tcp_client where
  "tcp0 = TcpClient_init (replicate MAX_RECV_BUF 0) 0"

text \<open>
  C1: Framing does not depend on how TCP cuts the stream. For a \<open>read_packet\<close> that asks for no
  more than it was given and whose answer for a complete package does not depend on later bytes,
  feeding \<open>do_recv\<close> any sequence of non-empty reads that fit into the buffer returns every time,
  hands to \<open>on_recv\<close> exactly the packages of the concatenated bytes, once each and in order,
  and keeps exactly the incomplete rest in \<open>recv_buf\<close>.
\<close>

theorem tcp_framing_any_chunks:
  assumes "stable_reader rp" "recv_wf c" "packets rp (pending c) = ([], pending c)"
    "readable rp (pending c) chunks" "packets rp (pending c @ concat chunks) = (ps, r)"
  shows "\<exists>c'. feed os rp chunks c = Some c' \<and> delivered (ev c') = delivered (ev c) @ ps \<and> pending c' = r \<and>
    is_connected c' = is_connected c"
  using assms(2,4,3,5) by (rule feed_packets [OF assms(1)])

theorem tcp_framing_any_chunks_witness:
  "\<exists>c'. feed os0 byte_reader [[2, 10], [20, 1, 30, 5]] tcp0 = Some c' \<and>
     delivered (ev c') = delivered (ev tcp0) @ [[2, 10, 20], [1, 30]] \<and> pending c' = [5] \<and>
     is_connected c' = is_connected tcp0"
  by (rule tcp_framing_any_chunks)
     (simp_all add: byte_reader_stable recv_wf_def tcp0_def TcpClient_init_def MAX_RECV_BUF_def pending_def
        slice_def packets.simps byte_reader_def)

text \<open>
  C13: A package length larger than what has arrived makes \<open>do_recv\<close> spin for ever: when
  \<open>read_packet\<close> answers the full length of a package of which only a part is in the buffer, the
  \<open>while\<close> loop asks the same question again and again without returning to \<open>recv\<close>.
\<close>

theorem do_recv_spins:
  assumes "os_recv os (ev c) (fd c) (MAX_RECV_BUF - recv_buf_pos c) = Some bs" "bs \<noteq> []" "recv_wf c"
    "length bs \<le> MAX_RECV_BUF - recv_buf_pos c" "rp (pending c @ bs) > int (length (pending c @ bs))"
  shows "do_recv os rp c = None"
proof -
  let ?pos = "recv_buf_pos c + length bs" and ?buf = "store (recv_buf c) (recv_buf_pos c) bs"
  have sl: "slice ?buf 0 ?pos = pending c @ bs"
    using assms(3,4) slice_store [of "recv_buf_pos c" bs "recv_buf c"] by (auto simp: recv_wf_def pending_def)
  have "recv_loop rp ?buf ?pos 0 (rp (pending c @ bs)) [] = None"
    by (rule recv_loop_hangs) (use assms sl in auto)
  then show ?thesis using assms(1,2) sl by (simp add: do_recv_def Let_def)
qed

theorem do_recv_spins_witness:
  "do_recv (os0\<lparr>os_recv := \<lambda>_ _ _. Some [5, 1]\<rparr>) (\<lambda>bs. int (unat (hd bs)) + 1) tcp0 = None"
  by (rule do_recv_spins [where bs = "[5, 1]"])
     (simp_all add: os0_def tcp0_def TcpClient_init_def recv_wf_def MAX_RECV_BUF_def pending_def slice_def)

text \<open>
  C14: A client that has been connected once can only ever connect to its first address: whatever
  host a later \<open>connect\<close> names and whatever that name resolves to, the address it dials is still
  the first one ever stored, because \<open>m_hosts\<close> is never cleared and \<open>do_connect\<close> takes
  its element 0. The new port is used with the old address.
\<close>

theorem connect_dials_first_host:
  assumes "m_hosts c = addr # hosts" "\<not> is_running c" "os_gethostbyname os (ev c) h = Some addrs"
    "\<forall>es. os_socket os es = s" "s \<noteq> -1" "connect os h p re c = Inr (ret, c')"
  shows "\<exists>es. ev c' = ev c @ es \<and> T_connect s addr p \<in> set es \<and> (\<forall>f a q. T_connect f a q \<in> set es \<longrightarrow> a = addr)"
  using assms by (auto simp: connect_def do_connect_def close_fd_def log_ev_def Let_def split: if_splits)

definition tcp1 :: tcp_client where
  "tcp1 = tcp0\<lparr>m_hosts := [7]\<rparr>"

theorem connect_dials_first_host_witness:
  "\<exists>es. ev (snd (projr (connect os0 ''b.example'' 80 False tcp1))) = ev tcp1 @ es \<and> T_connect 3 7 80 \<in> set es"
  using connect_dials_first_host [of tcp1 7 "[]" os0 "''b.example''" "[0x0100007f]" 3 80 False
      "fst (projr (connect os0 ''b.example'' 80 False tcp1))" "snd (projr (connect os0 ''b.example'' 80 False tcp1))"]
  by (simp add: tcp1_def tcp0_def TcpClient_init_def os0_def connect_def do_connect_def close_fd_def Let_def log_ev_def)

text \<open>
  A failed connection attempt leaves a closed descriptor behind, and it is closed again:
  when \<open>::connect\<close> fails, \<open>do_connect\<close> closes the socket but keeps its number in \<open>fd\<close>, so the next
  attempt, and \<open>disconnect\<close>, begin by closing that number a second time.
\<close>

theorem failed_connect_closes_twice:
  assumes "do_connect os c = Inr (-1, c1)" "fd c1 \<noteq> -1" "do_connect os' c1 = Inr (ret, c2)"
  shows "last (ev c1) = T_close (fd c1) \<and> (\<exists>es. ev c2 = ev c1 @ T_sleep 1 # T_close (fd c1) # es)"
  using assms by (auto simp: do_connect_def close_fd_def log_ev_def Let_def split: if_splits)

theorem failed_connect_closes_twice_witness:
  "last (ev (snd (projr (do_connect (os0\<lparr>os_connect := \<lambda>_ _ _ _. -1\<rparr>) tcp1)))) = T_close 3 \<and>
    (\<exists>es. ev (snd (projr (do_connect os0 (snd (projr (do_connect (os0\<lparr>os_connect := \<lambda>_ _ _ _. -1\<rparr>) tcp1)))))) =
      ev (snd (projr (do_connect (os0\<lparr>os_connect := \<lambda>_ _ _ _. -1\<rparr>) tcp1))) @ T_sleep 1 # T_close 3 # es)"
  using failed_connect_closes_twice [of "os0\<lparr>os_connect := \<lambda>_ _ _ _. -1\<rparr>" tcp1
      "snd (projr (do_connect (os0\<lparr>os_connect := \<lambda>_ _ _ _. -1\<rparr>) tcp1))" os0 0
      "snd (projr (do_connect os0 (snd (projr (do_connect (os0\<lparr>os_connect := \<lambda>_ _ _ _. -1\<rparr>) tcp1)))))"]
  by (simp add: tcp1_def tcp0_def TcpClient_init_def os0_def do_connect_def close_fd_def Let_def log_ev_def)

section \<open>The reader interface\<close>

text \<open>What \<open>do_recv\<close> needs from an override of \<open>read_packet\<close> to return every time.\<close>

locale package_reader =
  fixes rp :: "byte list \<Rightarrow> int"
  assumes within: "rp bs \<le> int (length bs)"
begin

lemma do_recv_returns:
  assumes "os_ok os" "recv_wf c"
  shows "\<exists>r c'. do_recv os rp c = Some (Inr (r, c')) \<and> recv_wf c' \<and>
    concat (delivered (ev c')) @ pending c' =
      concat (delivered (ev c)) @ pending c @
      (case os_recv os (ev c) (fd c) (MAX_RECV_BUF - recv_buf_pos c) of None \<Rightarrow> [] | Some bs \<Rightarrow> bs)"
proof (cases "os_recv os (ev c) (fd c) (MAX_RECV_BUF - recv_buf_pos c) \<in> {None, Some []}")
  case True
  then show ?thesis using do_recv_lost [OF True, of rp] assms(2) by (auto simp: lost_def recv_wf_def pending_def)
next
  case False
  then obtain bs where bs: "os_recv os (ev c) (fd c) (MAX_RECV_BUF - recv_buf_pos c) = Some bs" "bs \<noteq> []" by auto
  then have le: "length bs \<le> MAX_RECV_BUF - recv_buf_pos c" using assms(1) by (auto simp: os_ok_def)
  obtain ps r where ps: "packets rp (pending c @ bs) = (ps, r)" by fastforce
  have "bounded_reader rp" by (simp add: bounded_reader_def within)
  then obtain buf where buf: "length buf = MAX_RECV_BUF" "length r \<le> MAX_RECV_BUF" "slice buf 0 (length r) = r"
    "do_recv os rp c = Some (Inr (0, c\<lparr>recv_buf := buf, recv_buf_pos := length r,
      ev := ev c @ T_recv (fd c) (MAX_RECV_BUF - recv_buf_pos c) # map T_on_recv ps\<rparr>))"
    by (rule do_recv_packets [OF _ assms(2) bs le ps])
  then show ?thesis
    using bs packets_concat [OF ps] by (simp add: recv_wf_def pending_def)
qed

end

interpretation class_reader: package_reader read_packet
  by unfold_locales (simp add: read_packet_def)

text \<open>
  With the class's own \<open>read_packet\<close>, \<open>do_recv\<close> always returns, and no byte is lost,
  duplicated or reordered: the packages handed to \<open>on_recv\<close> followed by what is left in the buffer
  are what they were before, followed by what \<open>recv\<close> returned.
\<close>

theorem do_recv_default_conserves:
  assumes "os_ok os" "recv_wf c"
  shows "\<exists>r c'. do_recv os read_packet c = Some (Inr (r, c')) \<and> recv_wf c' \<and>
    concat (delivered (ev c')) @ pending c' =
      concat (delivered (ev c)) @ pending c @
      (case os_recv os (ev c) (fd c) (MAX_RECV_BUF - recv_buf_pos c) of None \<Rightarrow> [] | Some bs \<Rightarrow> bs)"
  using assms by (rule class_reader.do_recv_returns)

theorem do_recv_default_conserves_witness:
  "\<exists>r c'. do_recv (os0\<lparr>os_recv := \<lambda>_ _ n. Some (take n [1, 2, 3])\<rparr>) read_packet tcp0 = Some (Inr (r, c')) \<and> recv_wf c' \<and>
    concat (delivered (ev c')) @ pending c' = [1, 2, 3]"
  using do_recv_default_conserves [of "os0\<lparr>os_recv := \<lambda>_ _ n. Some (take n [1, 2, 3])\<rparr>" tcp0]
  by (simp add: os_ok_def os0_def tcp0_def TcpClient_init_def recv_wf_def MAX_RECV_BUF_def pending_def slice_def)

end
