(* ===== verification/TcpThreads.thy ===== *)
theory TcpThreads
  imports TcpClient
begin

text \<open>
  The two threads of a \<open>TcpClient\<close> (\<open>src/src/tcpclient.cpp\<close>): the application's thread, which calls
  \<open>connect\<close>, \<open>send\<close> and \<open>disconnect\<close>, and the receive thread \<open>m_recv_thread\<close>, which executes \<open>run\<close>.
  They share the object without a lock, so their statements interleave: every thread has a stack of
  the statements it still has to execute, and a step executes the first statement of one of them. A
  statement tests or writes a member, makes one system call, or calls a virtual function. Virtual
  functions are not fixed: while one runs (\<open>K_handler\<close>), it may call any public operation of the
  object on its thread, any number of times, and return at any time.
\<close>

section \<open>Statements\<close>

datatype thread = App | Recv

datatype call = C_connect string "16 word" bool | C_send "byte list" | C_disconnect

datatype instr =
    K_call tcp_event | K_handler | K_return int
    \<comment> \<open>\<open>do_connect\<close>\<close>
  | K_sleep nat | K_test_close | K_close_fd | K_clear_fd | K_socket | K_check_socket | K_dial | K_connected
    \<comment> \<open>\<open>connect\<close>\<close>
  | K_target string "16 word" bool | K_resolve | K_test_running | K_start_running | K_thread_start
    \<comment> \<open>\<open>send\<close>\<close>
  | K_test_connected "byte list" | K_send "byte list"
    \<comment> \<open>\<open>disconnect\<close>\<close>
  | K_test_stop | K_stop | K_join | K_disconnected
    \<comment> \<open>\<open>run\<close>: \<open>int option\<close> is the descriptor in the sets given to \<open>select\<close>\<close>
  | K_run | K_watch | K_fd_set | K_select "int option" | K_isset_read "int option" bool bool
  | K_isset_except "int option" bool | K_timeout
    \<comment> \<open>\<open>do_recv\<close>: \<open>readPos\<close> and \<open>pkgLen\<close> are its locals\<close>
  | K_recv | K_loop nat int | K_next nat

definition do_connect_body :: "instr list" where
  "do_connect_body = [K_sleep 1, K_test_close, K_socket, K_check_socket]"

definition disconnect_body :: "instr list" where
  "disconnect_body = [K_test_stop, K_join, K_disconnected]"

fun call_body :: "call \<Rightarrow> instr list" where
  "call_body (C_connect pHost port reconnect) = [K_target pHost port reconnect, K_resolve]"
| "call_body (C_send pData) = [K_test_connected pData]"
| "call_body C_disconnect = disconnect_body"

text \<open>
  One statement on the object: the object after it, and the statements it puts in front of the
  rest. \<open>K_loop\<close> is one iteration of the loop of \<open>do_recv\<close> up to the call of \<open>on_recv\<close>, \<open>K_next\<close>
  the rest of the iteration.
\<close>

fun exec_instr :: "tcp_os \<Rightarrow> (byte list \<Rightarrow> int) \<Rightarrow> instr \<Rightarrow> tcp_client \<Rightarrow> tcp_error + tcp_client \<times> instr list" where
  "exec_instr os rp (K_call e) c = Inr (log_ev e c, [K_handler])"
| "exec_instr os rp (K_sleep n) c = Inr (log_ev (T_sleep n) c, [])"
| "exec_instr os rp K_test_close c = Inr (c, if fd c \<noteq> -1 then [K_close_fd, K_clear_fd] else [])"
| "exec_instr os rp K_close_fd c = Inr (log_ev (T_close (fd c)) c, [])"
| "exec_instr os rp K_clear_fd c = Inr (c\<lparr>fd := -1\<rparr>, [])"
| "exec_instr os rp K_socket c = (let s = os_socket os (ev c) in Inr ((log_ev (T_socket s) c)\<lparr>fd := s\<rparr>, []))"
| "exec_instr os rp K_check_socket c = Inr (c, if fd c = -1 then [K_return (-1)] else [K_dial])"
| "exec_instr os rp K_dial c =
     (if m_hosts c = [] then Inl No_host
      else let addr = m_hosts c ! 0; r = os_connect os (ev c) (fd c) addr (m_port c)
        in Inr (log_ev (T_connect (fd c) addr (m_port c)) c,
             if r = -1 then [K_close_fd, K_return (-1)] else [K_connected, K_call T_on_connected, K_return 0]))"
| "exec_instr os rp K_connected c = Inr (c\<lparr>is_connected := True\<rparr>, [])"
| "exec_instr os rp (K_target pHost port reconnect) c =
     Inr (c\<lparr>m_port := port, m_host := pHost, is_reconnect := reconnect\<rparr>, [])"
| "exec_instr os rp K_resolve c =
     (let hp = os_gethostbyname os (ev c) (m_host c); c = log_ev (T_resolve (m_host c)) c
      in case hp of None \<Rightarrow> Inr (c, [K_return (-1)])
         | Some addr_list \<Rightarrow>
             Inr (c\<lparr>m_hosts := m_hosts c @ map (\<lambda>i. addr_list ! 0) [0..<length addr_list]\<rparr>, [K_test_running]))"
| "exec_instr os rp K_test_running c =
     Inr (c, if \<not> is_running c then K_start_running # do_connect_body @ [K_thread_start] else [K_return 0])"
| "exec_instr os rp K_start_running c = Inr (c\<lparr>is_running := True\<rparr>, [])"
| "exec_instr os rp (K_test_connected pData) c = Inr (c, if is_connected c then [K_send pData] else [K_return (-1)])"
| "exec_instr os rp (K_send pData) c =
     (let ret = os_send os (ev c) (fd c) pData
      in Inr (log_ev (T_send (fd c) pData) c,
           if ret \<le> 0 then K_call T_on_disconnect # disconnect_body @ [K_return (-1)] else [K_return ret]))"
| "exec_instr os rp K_test_stop c = Inr (c, if fd c \<noteq> -1 then [K_stop, K_close_fd, K_clear_fd] else [])"
| "exec_instr os rp K_stop c = Inr (c\<lparr>is_running := False\<rparr>, [])"
| "exec_instr os rp K_disconnected c = Inr (c\<lparr>is_connected := False\<rparr>, [])"
| "exec_instr os rp K_run c = Inr (c, if is_running c then [K_watch, K_run] else [])"
| "exec_instr os rp K_watch c = Inr (c, if fd c \<noteq> -1 \<and> is_connected c then [K_fd_set] else [K_select None])"
| "exec_instr os rp K_fd_set c = (if fd c = -1 then Inl Fd_minus_one else Inr (c, [K_select (Some (fd c))]))"
| "exec_instr os rp (K_select watched) c =
     (let (ret, rset, eset) = os_select os (ev c) (fd c) watched
      in Inr (log_ev (T_select (fd c)) c,
           if ret = -1 then [K_sleep 1] else if ret \<noteq> 0 then [K_isset_read watched rset eset] else [K_timeout]))"
| "exec_instr os rp (K_isset_read watched rset eset) c =
     (if fd c = -1 then Inl Fd_minus_one
      else Inr (c, (if rset \<and> watched = Some (fd c) then [K_recv] else []) @ [K_isset_except watched eset]))"
| "exec_instr os rp (K_isset_except watched eset) c =
     (if fd c = -1 then Inl Fd_minus_one
      else Inr (c, if eset \<and> watched = Some (fd c) then [K_call T_on_disconnect] else []))"
| "exec_instr os rp K_timeout c = Inr (c, if \<not> is_connected c \<and> is_reconnect c then do_connect_body else [])"
| "exec_instr os rp K_recv c =
     (let n = MAX_RECV_BUF - recv_buf_pos c; r = os_recv os (ev c) (fd c) n; c = log_ev (T_recv (fd c) n) c in
      case r of
        None \<Rightarrow> Inr (c\<lparr>is_connected := False\<rparr>, [K_call T_on_disconnect, K_return (-1)])
      | Some bs \<Rightarrow>
          if bs = [] then Inr (c\<lparr>is_connected := False\<rparr>, [K_call T_on_disconnect, K_return (-1)])
          else let buf = store (recv_buf c) (recv_buf_pos c) bs; pos = recv_buf_pos c + length bs
            in Inr (c\<lparr>recv_buf := buf, recv_buf_pos := pos\<rparr>, [K_loop 0 (rp (slice buf 0 pos)), K_return 0]))"
| "exec_instr os rp (K_loop readPos pkgLen) c =
     Inr (c, if pkgLen > 0 then
               (if readPos + nat pkgLen \<le> recv_buf_pos c
                then [K_call (T_on_recv (slice (recv_buf c) readPos (nat pkgLen))), K_next (readPos + nat pkgLen)]
                else [K_next readPos])
             else [])"
| "exec_instr os rp (K_next readPos) c =
     (let buf = recv_buf c; pos = recv_buf_pos c in
      if readPos < pos then
        let pkgLen = rp (slice buf readPos (pos - readPos)) in
        if pkgLen \<le> 0 then
          let buf' = memmove_front buf readPos (pos - readPos); pos' = pos - readPos
          in if pos' < MAX_RECV_BUF then Inr (c\<lparr>recv_buf := buf'[pos' := 0], recv_buf_pos := pos'\<rparr>, []) else Inl Buffer_overrun
        else Inr (c, [K_loop readPos pkgLen])
      else Inr (c\<lparr>recv_buf_pos := 0\<rparr>, []))"
| "exec_instr os rp _ c = Inr (c, [])"

section \<open>Threads\<close>

record tcp_threads =
  obj :: tcp_client
  app_stack :: "instr list"
  recv_stack :: "instr list"   \<comment> \<open>empty: no receive thread, or it has ended\<close>
  app_ret :: int               \<comment> \<open>what the last call returned, per thread\<close>
  recv_ret :: int

fun stack :: "thread \<Rightarrow> tcp_threads \<Rightarrow> instr list" where
  "stack App s = app_stack s"
| "stack Recv s = recv_stack s"

fun set_stack :: "thread \<Rightarrow> instr list \<Rightarrow> tcp_threads \<Rightarrow> tcp_threads" where
  "set_stack App k s = s\<lparr>app_stack := k\<rparr>"
| "set_stack Recv k s = s\<lparr>recv_stack := k\<rparr>"

fun set_ret :: "thread \<Rightarrow> int \<Rightarrow> tcp_threads \<Rightarrow> tcp_threads" where
  "set_ret App r s = s\<lparr>app_ret := r\<rparr>"
| "set_ret Recv r s = s\<lparr>recv_ret := r\<rparr>"

text \<open>
  \<open>std::thread\<close>: assigning to a joinable thread terminates the program; \<open>join\<close> throws when there
  is no thread or it is the caller, and otherwise waits (no step) until the thread has ended.
\<close>

definition step_thread :: "tcp_os \<Rightarrow> (byte list \<Rightarrow> int) \<Rightarrow> thread \<Rightarrow> tcp_threads \<Rightarrow> (tcp_error + tcp_threads) option" where
  "step_thread os rp th s =
     (case stack th s of
        [] \<Rightarrow> None
      | i # k \<Rightarrow>
          (case i of
             K_return r \<Rightarrow> Some (Inr (set_ret th r (set_stack th k s)))
           | K_handler \<Rightarrow> Some (Inr (set_stack th k s))
           | K_thread_start \<Rightarrow>
               if m_recv_thread (obj s) then Some (Inl Thread_joinable)
               else Some (Inr ((set_stack th k s)
                 \<lparr>obj := log_ev T_thread_start ((obj s)\<lparr>m_recv_thread := True\<rparr>), recv_stack := [K_run]\<rparr>))
           | K_join \<Rightarrow>
               if \<not> m_recv_thread (obj s) then Some (Inl Thread_not_joinable)
               else if th = Recv then Some (Inl Self_join)
               else if recv_stack s \<noteq> [] then None
               else Some (Inr ((set_stack th k s)\<lparr>obj := log_ev T_thread_join ((obj s)\<lparr>m_recv_thread := False\<rparr>)\<rparr>))
           | _ \<Rightarrow>
               (case exec_instr os rp i (obj s) of
                  Inl e \<Rightarrow> Some (Inl e)
                | Inr (c, push) \<Rightarrow> Some (Inr (set_stack th (push @ k) (s\<lparr>obj := c\<rparr>))))))"

text \<open>
  A label is a step of a thread, or a call: by the application when it is not inside the object,
  or by a virtual function that is running on the thread.
\<close>

datatype label = Step thread | Call thread call

fun threads_turn :: "tcp_os \<Rightarrow> (byte list \<Rightarrow> int) \<Rightarrow> label \<Rightarrow> tcp_threads \<Rightarrow> (tcp_error + tcp_threads) option" where
  "threads_turn os rp (Step th) s = step_thread os rp th s"
| "threads_turn os rp (Call th c) s =
     (case stack th s of
        [] \<Rightarrow> if th = App then Some (Inr (set_stack th (call_body c) s)) else None
      | i # k \<Rightarrow> if i = K_handler then Some (Inr (set_stack th (call_body c @ i # k) s)) else None)"

fun threads_run :: "tcp_os \<Rightarrow> (byte list \<Rightarrow> int) \<Rightarrow> label list \<Rightarrow> tcp_threads \<Rightarrow> (tcp_error + tcp_threads) option" where
  "threads_run os rp [] s = Some (Inr s)"
| "threads_run os rp (l # ls) s =
     (case threads_turn os rp l s of Some (Inr s') \<Rightarrow> threads_run os rp ls s' | r \<Rightarrow> r)"

definition threads_init :: "byte list \<Rightarrow> 16 word \<Rightarrow> tcp_threads" where
  "threads_init raw port = \<lparr>obj = TcpClient_init raw port, app_stack = [], recv_stack = [], app_ret = 0, recv_ret = 0\<rparr>"

text \<open>Reachability by labels that satisfy \<open>ok\<close>.\<close>

inductive threads_reachable :: "tcp_os \<Rightarrow> (byte list \<Rightarrow> int) \<Rightarrow> (label \<Rightarrow> bool) \<Rightarrow> tcp_threads \<Rightarrow> bool" for os rp ok where
  threads_start: "length raw = MAX_RECV_BUF \<Longrightarrow> threads_reachable os rp ok (threads_init raw port)"
| threads_next: "threads_reachable os rp ok s \<Longrightarrow> ok l \<Longrightarrow> threads_turn os rp l s = Some (Inr s') \<Longrightarrow> threads_reachable os rp ok s'"

text \<open>The virtual functions of the receive thread do not call back into the object.\<close>

definition quiet :: "label \<Rightarrow> bool" where
  "quiet l \<longleftrightarrow> (case l of Step th \<Rightarrow> True | Call th c \<Rightarrow> th = App)"


section \<open>The cases of a step\<close>

lemma stacks_simps [simp]:
  "obj (set_stack th k s) = obj s" "stack th (set_stack th k s) = k"
  "app_stack (set_stack App k s) = k" "recv_stack (set_stack App k s) = recv_stack s"
  "obj (set_ret th r s) = obj s" "app_stack (set_ret th r s) = app_stack s" "recv_stack (set_ret th r s) = recv_stack s"
  "app_stack (set_stack Recv k s) = app_stack s" "recv_stack (set_stack Recv k s) = k"
  by (cases th; simp)+

lemma threads_turn_cases:
  assumes "threads_turn os rp l s = Some (Inr s')"
  obtains
    (call) th c where "l = Call th c" "(stack th s = [] \<and> th = App) \<or> (\<exists>k. stack th s = K_handler # k)"
      "s' = set_stack th (call_body c @ stack th s) s"
  | (leave) th i k r where "l = Step th" "stack th s = i # k" "i = K_handler \<or> i = K_return r"
      "obj s' = obj s" "app_stack s' = app_stack (set_stack th k s)" "recv_stack s' = recv_stack (set_stack th k s)"
  | (begins) th k where "l = Step th" "stack th s = K_thread_start # k" "\<not> m_recv_thread (obj s)"
      "s' = (set_stack th k s)\<lparr>obj := log_ev T_thread_start ((obj s)\<lparr>m_recv_thread := True\<rparr>), recv_stack := [K_run]\<rparr>"
  | (joins) k where "l = Step App" "app_stack s = K_join # k" "m_recv_thread (obj s)" "recv_stack s = []"
      "s' = s\<lparr>app_stack := k, obj := log_ev T_thread_join ((obj s)\<lparr>m_recv_thread := False\<rparr>)\<rparr>"
  | (exec) th i k c push where "l = Step th" "stack th s = i # k" "exec_instr os rp i (obj s) = Inr (c, push)"
      "i \<notin> {K_handler, K_thread_start, K_join}" "\<And>r. i \<noteq> K_return r" "s' = set_stack th (push @ k) (s\<lparr>obj := c\<rparr>)"
proof (cases l)
  case (Call th c)
  with assms show thesis by (intro call) (auto split: list.splits if_splits)
next
  case (Step th)
  show thesis
  proof (cases "stack th s")
    case Nil
    with assms Step show thesis by (simp add: step_thread_def)
  next
    case (Cons i k)
    note Step' = Step Cons assms
    consider "i = K_handler" | r where "i = K_return r" | "i = K_thread_start" | "i = K_join"
      | "i \<notin> {K_handler, K_thread_start, K_join}" "\<forall>r. i \<noteq> K_return r" by blast
    then show thesis
    proof cases
      case 1
      with Step' show thesis by (intro leave [of th i k]) (auto simp: step_thread_def)
    next
      case 2
      with Step' show thesis by (intro leave [of th i k r]) (cases th; auto simp: step_thread_def)+
    next
      case 3
      with Step' show thesis by (intro begins [of th k]) (auto simp: step_thread_def split: if_splits)
    next
      case 4
      with Step' show thesis by (cases th) (auto simp: step_thread_def split: if_splits intro!: joins [of k])
    next
      case 5
      then have "step_thread os rp th s = (case exec_instr os rp i (obj s) of Inl e \<Rightarrow> Some (Inl e)
        | Inr (c, push) \<Rightarrow> Some (Inr (set_stack th (push @ k) (s\<lparr>obj := c\<rparr>))))"
        using Cons by (cases i) (simp_all add: step_thread_def)
      with Step' 5 show thesis by (auto split: sum.splits intro!: exec [of th i k])
    qed
  qed
qed

lemmas exec_splits = if_splits option.splits prod.splits

text \<open>What a statement changes.\<close>

lemma exec_instr_frame:
  assumes "exec_instr os rp i c = Inr (c', push)"
  shows "m_recv_thread c' = m_recv_thread c"
    "\<exists>xs. m_hosts c' = m_hosts c @ xs"
    "is_running c' = (if i = K_start_running then True else if i = K_stop then False else is_running c)"
    "i \<noteq> K_recv \<Longrightarrow> (\<And>r. i \<noteq> K_next r) \<Longrightarrow> recv_buf c' = recv_buf c \<and> recv_buf_pos c' = recv_buf_pos c"
  using assms by (cases i; force simp: Let_def split: exec_splits)+


section \<open>The invariant of every interleaving\<close>

text \<open>Statements of \<open>run\<close> and \<open>do_recv\<close>; those among them that use the receive buffer or lead to it.\<close>

fun reading :: "instr \<Rightarrow> bool" where
  "reading K_watch = True" | "reading K_fd_set = True" | "reading (K_select w) = True"
| "reading (K_isset_read w rs es) = True" | "reading K_recv = True" | "reading (K_loop r n) = True"
| "reading (K_next r) = True" | "reading _ = False"

fun running :: "instr \<Rightarrow> bool" where
  "running K_run = True" | "running (K_isset_except w es) = True" | "running K_timeout = True" | "running i = reading i"

text \<open>Statements that run with a resolved host.\<close>

definition dialing :: "instr \<Rightarrow> bool" where
  "dialing i \<longleftrightarrow> i \<in> {K_test_running, K_start_running, K_thread_start, K_check_socket, K_dial}"

text \<open>The cursor of \<open>do_recv\<close> is inside the received bytes, and an empty step has a package in front.\<close>

fun cursor_ok :: "(byte list \<Rightarrow> int) \<Rightarrow> tcp_client \<Rightarrow> instr \<Rightarrow> bool" where
  "cursor_ok rp c (K_loop r n) \<longleftrightarrow> r < recv_buf_pos c \<and> n = rp (slice (recv_buf c) r (recv_buf_pos c - r))"
| "cursor_ok rp c (K_next r) \<longleftrightarrow> r \<le> recv_buf_pos c \<and> (r = 0 \<longrightarrow> 0 < rp (slice (recv_buf c) 0 (recv_buf_pos c)))"
| "cursor_ok rp c _ \<longleftrightarrow> True"

definition buf_inv :: "(byte list \<Rightarrow> int) \<Rightarrow> tcp_threads \<Rightarrow> bool" where
  "buf_inv rp s \<longleftrightarrow> recv_wf (obj s) \<and> (\<forall>i\<in>set (app_stack s). \<not> running i) \<and>
     length (filter reading (recv_stack s)) \<le> 1 \<and>
     (recv_stack s = [] \<or> last (recv_stack s) = K_run \<and> K_run \<notin> set (butlast (recv_stack s))) \<and>
     (\<forall>i\<in>set (recv_stack s). cursor_ok rp (obj s) i)"

definition life_inv :: "tcp_threads \<Rightarrow> bool" where
  "life_inv s \<longleftrightarrow> (recv_stack s \<noteq> [] \<longrightarrow> m_recv_thread (obj s)) \<and>
     (is_running (obj s) \<longrightarrow> recv_stack s = [] \<longrightarrow> K_thread_start \<in> set (app_stack s)) \<and>
     (K_start_running \<in> set (app_stack s) \<longrightarrow> K_thread_start \<in> set (app_stack s)) \<and>
     K_start_running \<notin> set (tl (app_stack s)) \<and>
     (m_hosts (obj s) = [] \<longrightarrow> recv_stack s = [] \<and> (\<forall>i\<in>set (app_stack s). \<not> dialing i))"

lemma in_tlD: "x \<in> set (tl xs) \<Longrightarrow> x \<in> set xs"
  by (cases xs) auto

lemma call_body_simps [simp]:
  "i \<in> set (call_body c) \<Longrightarrow> \<not> running i" "filter reading (call_body c) = []"
  "i \<in> set (call_body c) \<Longrightarrow> \<not> dialing i" "i \<in> set (call_body c) \<Longrightarrow> cursor_ok rp b i"
  "K_run \<notin> set (call_body c)" "K_start_running \<notin> set (call_body c)" "K_thread_start \<notin> set (call_body c)"
  by (cases c; auto simp: disconnect_body_def dialing_def)+

lemma exec_not_running:
  assumes "exec_instr os rp i c = Inr (c', push)" "\<not> running i"
  shows "(\<forall>j\<in>set push. \<not> running j) \<and> recv_buf c' = recv_buf c \<and> recv_buf_pos c' = recv_buf_pos c"
  using assms by (cases i) (auto simp: Let_def do_connect_body_def disconnect_body_def split: exec_splits)

lemma reading_running: "reading i \<Longrightarrow> running i"
  by (cases i) auto

lemma exec_buf:
  assumes "exec_instr os rp i c = Inr (c', push)" "os_ok os" "recv_wf c" "cursor_ok rp c i" "i \<noteq> K_run"
  shows "recv_wf c' \<and> length (filter reading push) \<le> (if reading i then 1 else 0) \<and> K_run \<notin> set push \<and>
    (\<forall>j\<in>set push. cursor_ok rp c' j) \<and> (\<not> reading i \<longrightarrow> recv_buf c' = recv_buf c \<and> recv_buf_pos c' = recv_buf_pos c)"
proof (cases i)
  case K_recv
  have le: "length bs \<le> MAX_RECV_BUF - recv_buf_pos c"
    if "os_recv os (ev c) (fd c) (MAX_RECV_BUF - recv_buf_pos c) = Some bs" for bs
    using assms(2) that by (auto simp: os_ok_def)
  with K_recv assms(1,3) show ?thesis
    by (auto simp: Let_def recv_wf_def length_store split: exec_splits dest!: le)
next
  case (K_next r)
  have "length (memmove_front (recv_buf c) r (recv_buf_pos c - r)) = length (recv_buf c)"
    if "r < recv_buf_pos c" using that assms(3) by (auto simp: memmove_front_def slice_def recv_wf_def min_def)
  with K_next assms(1,3,4) show ?thesis
    by (auto simp: Let_def recv_wf_def split: exec_splits)
next
  case (K_loop r n)
  with assms show ?thesis by (auto split: if_splits)
qed (use assms in \<open>auto simp: Let_def do_connect_body_def disconnect_body_def recv_wf_def split: exec_splits\<close>)


lemma buf_inv_init: "length raw = MAX_RECV_BUF \<Longrightarrow> buf_inv rp (threads_init raw port)"
  by (simp add: buf_inv_def threads_init_def TcpClient_init_def recv_wf_def)

lemma cursor_ok_same:
  "recv_buf c' = recv_buf c \<Longrightarrow> recv_buf_pos c' = recv_buf_pos c \<Longrightarrow> cursor_ok rp c' i = cursor_ok rp c i"
  by (cases i) simp_all

lemma running_simps [simp]: "cursor_ok rp c K_handler" "\<not> running K_handler" "\<not> reading K_handler"
  by simp_all

lemma filter_reading_Nil:
  "\<forall>j\<in>set k. reading j \<longrightarrow> P j \<Longrightarrow> filter reading k = [] \<Longrightarrow> \<forall>j\<in>set k. \<not> reading j"
  by (auto simp: filter_empty_conv)

lemma cursor_not_reading: "\<not> reading j \<Longrightarrow> cursor_ok rp c j"
  by (cases j) auto

lemma buf_inv_step:
  assumes "threads_turn os rp l s = Some (Inr s')" "os_ok os" "buf_inv rp s"
  shows "buf_inv rp s'"
  using assms(1)
proof (cases rule: threads_turn_cases)
  case (call th c)
  with assms(3) show ?thesis
    by (cases th) (auto simp: buf_inv_def butlast_append)
next
  case (leave th i k r)
  with assms(3) show ?thesis
    by (cases th) (auto simp: buf_inv_def split: if_splits)
next
  case (begins th k)
  with assms(3) show ?thesis
    by (cases th) (auto simp: buf_inv_def recv_wf_def)
next
  case (joins k)
  with assms(3) show ?thesis by (auto simp: buf_inv_def recv_wf_def)
next
  case (exec th i k c push)
  show ?thesis
  proof (cases th)
    case App
    with exec assms(3) have "\<not> running i" by (simp add: buf_inv_def)
    note e = exec_not_running [OF exec(3) this]
    have "cursor_ok rp c j = cursor_ok rp (obj s) j" for j
      using e by (intro cursor_ok_same) simp_all
    with App exec(2,6) e assms(3) show ?thesis by (auto simp: buf_inv_def recv_wf_def)
  next
    case Recv
    show ?thesis
    proof (cases "i = K_run")
      case True
      with Recv exec assms(3) have "k = []" "c = obj s" "push = (if is_running (obj s) then [K_watch, K_run] else [])"
        by (auto simp: buf_inv_def split: if_splits)
      with Recv exec(2,6) assms(3) show ?thesis by (auto simp: buf_inv_def)
    next
      case False
      with Recv exec(2) assms(3) have wf: "recv_wf (obj s)" "cursor_ok rp (obj s) i"
        "k \<noteq> []" "last k = K_run" "K_run \<notin> set (butlast k)" "\<forall>j\<in>set k. cursor_ok rp (obj s) j"
        "length (filter reading k) + (if reading i then 1 else 0) \<le> 1"
        by (auto simp: buf_inv_def split: if_splits)
      note e = exec_buf [OF exec(3) assms(2) wf(1,2) False]
      have "cursor_ok rp c j" if "j \<in> set k" for j
      proof (cases "reading i")
        case True
        with wf(7) have "\<not> reading j" using that by (auto simp: filter_empty_conv)
        then show ?thesis by (rule cursor_not_reading)
      next
        case no: False
        then have "cursor_ok rp c j = cursor_ok rp (obj s) j" using e by (intro cursor_ok_same) simp_all
        with wf(6) that show ?thesis by simp
      qed
      moreover have "length (filter reading (push @ k)) \<le> 1" using e wf(7) by (auto split: if_splits)
      ultimately show ?thesis
        using Recv exec(6) e wf assms(3) by (auto simp: buf_inv_def butlast_append)
    qed
  qed
qed

lemma life_inv_step:
  assumes "threads_turn os rp l s = Some (Inr s')" "os_ok os" "buf_inv rp s" "life_inv s"
  shows "life_inv s'"
  using assms(1)
proof (cases rule: threads_turn_cases)
  case (call th c)
  have "K_start_running \<notin> set (tl (call_body c))" by (cases c) (auto simp: disconnect_body_def)
  moreover have "call_body c \<noteq> []" by (cases c) (auto simp: disconnect_body_def)
  ultimately show ?thesis using call assms(4) by (cases th) (auto simp: life_inv_def)
next
  case (leave th i k r)
  with assms(3,4) show ?thesis
    by (cases th) (auto simp: life_inv_def buf_inv_def split: if_splits dest: in_tlD)
next
  case (begins th k)
  with assms(4) show ?thesis by (cases th) (auto simp: life_inv_def dialing_def dest: in_tlD)
next
  case (joins k)
  with assms(4) show ?thesis by (auto simp: life_inv_def dest: in_tlD)
next
  case (exec th i k c push)
  note f = exec_instr_frame(1-3) [OF exec(3)]
  have starts: "K_thread_start \<notin> set push" "K_start_running \<notin> set push" if "i \<noteq> K_test_running"
    using exec(3) that by (cases i; auto simp: Let_def do_connect_body_def disconnect_body_def split: exec_splits)+
  show ?thesis
  proof (cases th)
    case App
    with exec(2) assms(3) have nr: "\<not> running i" by (simp add: buf_inv_def)
    have hosts: "\<forall>j\<in>set push. \<not> dialing j" if "m_hosts c = []" "\<not> dialing i"
      using exec(3) nr assms(2) that
      by (cases i) (auto simp: Let_def dialing_def do_connect_body_def disconnect_body_def os_ok_def split: exec_splits)
    have "K_start_running \<notin> set (tl (push @ k))"
      using App exec(2,3) assms(4) starts
      by (cases "i = K_test_running"; cases push) (auto simp: life_inv_def do_connect_body_def split: if_splits dest: in_tlD)
    moreover have tests: "K_thread_start \<in> set push \<or> (K_start_running \<notin> set push \<and> K_thread_start \<notin> set push)"
      using exec(3) starts by (cases "i = K_test_running") (auto split: if_splits)
    moreover have "i = K_start_running \<Longrightarrow> K_thread_start \<in> set k" "i \<noteq> K_thread_start"
      using App exec(2,4) assms(4) by (auto simp: life_inv_def)
    moreover have "m_hosts (obj s) = [] \<Longrightarrow> \<not> dialing i" "m_hosts c = [] \<Longrightarrow> m_hosts (obj s) = []"
      using App exec(2) assms(4) f(2) by (auto simp: life_inv_def)
    moreover have "i = K_start_running \<or> (is_running c \<longrightarrow> is_running (obj s))" using f(3) by (simp split: if_splits)
    ultimately show ?thesis
      using App exec(2,6) assms(4) f(1) hosts unfolding life_inv_def by simp (intro conjI; blast)
  next
    case Recv
    have "push @ k = [] \<Longrightarrow> \<not> is_running c"
      using Recv exec(2,3) assms(3) by (cases "i = K_run") (auto simp: buf_inv_def split: if_splits)
    then show ?thesis
      using Recv exec(2,6) assms(4) f by (auto simp: life_inv_def)
  qed
qed

lemma life_inv_init: "life_inv (threads_init raw port)"
  by (simp add: life_inv_def threads_init_def TcpClient_init_def)

lemma threads_reachable_inv: "threads_reachable os rp ok s \<Longrightarrow> os_ok os \<Longrightarrow> buf_inv rp s \<and> life_inv s"
  by (induction rule: threads_reachable.induct)
     (auto simp: buf_inv_init life_inv_init dest: buf_inv_step life_inv_step)


section \<open>Receive-thread handlers that do not call back\<close>

text \<open>Statements of the public operations.\<close>

fun control :: "instr \<Rightarrow> bool" where
  "control (K_target h p re) = True" | "control K_resolve = True" | "control K_test_running = True"
| "control K_start_running = True" | "control K_thread_start = True" | "control (K_test_connected d) = True"
| "control (K_send d) = True" | "control K_test_stop = True" | "control K_stop = True" | "control K_join = True"
| "control K_disconnected = True" | "control _ = False"

text \<open>\<open>disconnect\<close> between clearing \<open>is_running\<close> and \<open>join\<close>.\<close>

definition stopping :: "instr list \<Rightarrow> bool" where
  "stopping k \<longleftrightarrow> take 3 k = [K_close_fd, K_clear_fd, K_join] \<or> take 2 k = [K_clear_fd, K_join] \<or> take 1 k = [K_join]"

lemma stopping_simps [simp]:
  "stopping [] = False" "stopping (K_join # k)" "stopping (K_clear_fd # k) = (take 1 k = [K_join])"
  "stopping (K_close_fd # k) = (take 2 k = [K_clear_fd, K_join])"
  "i \<notin> {K_join, K_clear_fd, K_close_fd} \<Longrightarrow> stopping (i # k) = False"
  by (auto simp: stopping_def numeral_3_eq_3 numeral_2_eq_2)

text \<open>The statements of \<open>disconnect\<close> and of \<open>connect\<close> stay together on the application's stack.\<close>

definition follows :: "instr \<Rightarrow> instr list \<Rightarrow> bool" where
  "follows i k =
     (if i = K_test_stop then take 1 k = [K_join] else if i = K_join then take 1 k = [K_disconnected]
      else if i = K_stop then stopping k else take 1 k \<noteq> [K_disconnected])"

lemma follows_simps [simp]:
  "follows K_test_stop k = (take 1 k = [K_join])" "follows K_join k = (take 1 k = [K_disconnected])"
  "follows K_stop k = stopping k"
  "i \<notin> {K_test_stop, K_join, K_stop} \<Longrightarrow> follows i k = (take 1 k \<noteq> [K_disconnected])"
  by (simp_all add: follows_def)

fun ordered :: "instr list \<Rightarrow> bool" where
  "ordered [] \<longleftrightarrow> True"
| "ordered (i # k) \<longleftrightarrow> follows i k \<and> K_stop \<notin> set k \<and> K_start_running \<notin> set k \<and> ordered k"

definition quiet_inv :: "tcp_threads \<Rightarrow> bool" where
  "quiet_inv s \<longleftrightarrow> (\<forall>i\<in>set (recv_stack s). \<not> control i) \<and> ordered (app_stack s) \<and>
     (m_recv_thread (obj s) \<longrightarrow> is_running (obj s) \<or> stopping (app_stack s)) \<and>
     count_list (app_stack s) K_thread_start \<le> 1 \<and>
     (K_thread_start \<in> set (app_stack s) \<longrightarrow> \<not> m_recv_thread (obj s) \<and>
        (is_running (obj s) \<or> hd (app_stack s) = K_start_running \<or> stopping (app_stack s))) \<and>
     (app_stack s \<noteq> [] \<longrightarrow> hd (app_stack s) = K_disconnected \<longrightarrow>
        recv_stack s = [] \<and> \<not> m_recv_thread (obj s) \<and> \<not> is_running (obj s))"


lemma call_body_quiet: "i \<in> set (call_body c) \<Longrightarrow> i \<noteq> K_stop \<and> i \<noteq> K_start_running \<and> i \<noteq> K_thread_start"
  by (cases c) (auto simp: disconnect_body_def)

lemma ordered_call: "ordered k \<Longrightarrow> k = [] \<or> hd k = K_handler \<Longrightarrow> ordered (call_body c @ k)"
  by (cases c; cases k) (auto simp: disconnect_body_def)

lemma quiet_inv_init: "quiet_inv (threads_init raw port)"
  by (simp add: quiet_inv_def threads_init_def TcpClient_init_def)

lemma exec_quiet:
  assumes "exec_instr os rp i c = Inr (c', push)" "follows i k" "ordered k" "K_stop \<notin> set k" "K_start_running \<notin> set k"
    "i \<notin> {K_handler, K_thread_start, K_join}"
  shows "ordered (push @ k)"
  using assms by (cases i) (auto simp: Let_def do_connect_body_def disconnect_body_def stopping_def split: exec_splits)

lemma exec_no_control:
  assumes "exec_instr os rp i c = Inr (c', push)" "\<not> control i"
  shows "\<forall>j\<in>set push. \<not> control j"
  using assms by (cases i) (auto simp: Let_def do_connect_body_def split: exec_splits)

lemma exec_head:
  assumes "exec_instr os rp i c = Inr (c', push)" "follows i k" "push @ k \<noteq> []" "hd (push @ k) = K_disconnected" "i \<noteq> K_join"
  shows False
  using assms by (cases i; cases k) (auto simp: Let_def do_connect_body_def disconnect_body_def stopping_def split: exec_splits)

lemma exec_starts:
  assumes "exec_instr os rp i c = Inr (c', push)"
  shows "K_thread_start \<in> set push \<longleftrightarrow> i = K_test_running \<and> \<not> is_running c"
    "i = K_test_running \<Longrightarrow> \<not> is_running c \<Longrightarrow> push \<noteq> [] \<and> hd push = K_start_running \<and> count_list push K_thread_start = 1"
  using assms by (cases i; auto simp: Let_def do_connect_body_def disconnect_body_def split: exec_splits)+

lemma exec_stops:
  assumes "exec_instr os rp i c = Inr (c', push)" "follows i k" "stopping (i # k)" "i \<noteq> K_join"
  shows "stopping (push @ k)"
  using assms by (cases i) (auto simp: stopping_def numeral_3_eq_3 numeral_2_eq_2 split: if_splits)

lemma quiet_inv_step:
  assumes "threads_turn os rp l s = Some (Inr s')" "quiet l" "buf_inv rp s" "life_inv s" "quiet_inv s"
  shows "quiet_inv s'"
  using assms(1)
proof (cases rule: threads_turn_cases)
  case (call th c)
  with assms(2) have App: "th = App" by (simp add: quiet_def)
  with call(2) have hd: "app_stack s = [] \<or> hd (app_stack s) = K_handler" by auto
  have ne: "hd (call_body c @ app_stack s) \<noteq> K_disconnected" "hd (call_body c @ app_stack s) \<noteq> K_thread_start"
    by (cases c; simp add: disconnect_body_def)+
  have "count_list (call_body c) K_thread_start = 0"
    using call_body_simps(7) [of c] by (simp add: count_list_0_iff)
  moreover have "\<not> stopping (app_stack s)" using hd by (cases "app_stack s") auto
  moreover have "hd (app_stack s) \<noteq> K_start_running \<or> app_stack s = []" using hd by auto
  ultimately show ?thesis
    using App call(3) assms(5) hd ne by (auto simp: quiet_inv_def ordered_call)
next
  case (leave th i k r)
  with assms(3,5) show ?thesis
    by (cases th) (auto simp: quiet_inv_def take_Suc_conv_app_nth neq_Nil_conv split: if_splits)
next
  case (begins th k)
  with assms(5) have "th = App" by (cases th) (auto simp: quiet_inv_def)
  with begins assms(4,5) show ?thesis
    by (auto simp: quiet_inv_def life_inv_def count_list_0_iff neq_Nil_conv)
next
  case (joins k)
  with assms(4,5) show ?thesis
    by (auto simp: quiet_inv_def life_inv_def)
next
  case (exec th i k c push)
  note f = exec_instr_frame(1,3) [OF exec(3)]
  show ?thesis
  proof (cases th)
    case Recv
    with exec(2) assms(5) have nc: "\<not> control i" by (simp add: quiet_inv_def)
    then have "i \<noteq> K_start_running" "i \<noteq> K_stop" by auto
    moreover note exec_no_control [OF exec(3) nc]
    ultimately show ?thesis
      using Recv exec(2,6) assms(5) f by (auto simp: quiet_inv_def)
  next
    case App
    with exec(2) assms(5) have o: "follows i k" "ordered k" "K_stop \<notin> set k" "K_start_running \<notin> set k"
      by (auto simp: quiet_inv_def)
    have run: "is_running c \<or> stopping (push @ k)"
      if "is_running (obj s) \<or> i = K_start_running \<or> stopping (i # k)"
    proof (cases "i = K_stop")
      case True
      with exec(3) o(1) show ?thesis by simp
    next
      case False
      with that exec_stops [OF exec(3) o(1)] exec(4) f(2) show ?thesis by auto
    qed
    have inv: "m_recv_thread (obj s) \<longrightarrow> is_running (obj s) \<or> stopping (i # k)" "count_list (i # k) K_thread_start \<le> 1"
      "K_thread_start \<in> set (i # k) \<longrightarrow> \<not> m_recv_thread (obj s) \<and>
        (is_running (obj s) \<or> i = K_start_running \<or> stopping (i # k))"
      using App exec(2) assms(5) by (auto simp: quiet_inv_def)
    have starts: "count_list (push @ k) K_thread_start \<le> 1 \<and> (K_thread_start \<in> set (push @ k) \<longrightarrow>
        \<not> m_recv_thread c \<and> (is_running c \<or> hd (push @ k) = K_start_running \<or> stopping (push @ k)))"
    proof (cases "i = K_test_running \<and> \<not> is_running (obj s)")
      case True
      then have "\<not> m_recv_thread (obj s)" "K_thread_start \<notin> set k" using inv by auto
      with True exec_starts(2) [OF exec(3)] f(1) show ?thesis by (auto simp: count_list_0_iff)
    next
      case False
      then have "K_thread_start \<notin> set push" using exec_starts(1) [OF exec(3)] by simp
      with inv f(1) run exec(4) show ?thesis by (auto simp: count_list_0_iff split: if_splits)
    qed
    have "push @ k \<noteq> [] \<Longrightarrow> hd (push @ k) \<noteq> K_disconnected"
      using exec_head [OF exec(3) o(1)] exec(4) by auto
    moreover have "ordered (push @ k)" using exec_quiet [OF exec(3) o exec(4)] .
    moreover have "m_recv_thread c \<longrightarrow> is_running c \<or> stopping (push @ k)" using inv(1) run f(1) by auto
    ultimately show ?thesis
      using App exec(2,6) assms(5) starts by (auto simp: quiet_inv_def)
  qed
qed

lemma threads_reachable_quiet:
  "threads_reachable os rp quiet s \<Longrightarrow> os_ok os \<Longrightarrow> quiet_inv s"
  by (induction rule: threads_reachable.induct)
     (auto simp: quiet_inv_init dest: quiet_inv_step threads_reachable_inv)

lemma exec_errors:
  assumes "exec_instr os rp i c = Inl e" "recv_wf c" "cursor_ok rp c i" "dialing i \<Longrightarrow> m_hosts c \<noteq> []"
  shows "e = Fd_minus_one"
proof (cases "\<exists>r. i = K_next r")
  case True
  then obtain r where r: "i = K_next r" by blast
  with assms(1-3) show ?thesis by (cases "r = 0") (auto simp: Let_def recv_wf_def split: if_splits)
next
  case False
  have "i = K_dial \<longrightarrow> m_hosts c \<noteq> []" using assms(4) by (simp add: dialing_def)
  with False assms(1) show ?thesis
    by (cases i; simp add: Let_def split: exec_splits)
qed

lemma threads_turn_error:
  assumes "threads_turn os rp l s = Some (Inl e)"
  shows "\<exists>th i k. l = Step th \<and> stack th s = i # k \<and>
    ((i = K_thread_start \<and> m_recv_thread (obj s) \<and> e = Thread_joinable) \<or>
     (i = K_join \<and> e = (if m_recv_thread (obj s) then Self_join else Thread_not_joinable) \<and> (m_recv_thread (obj s) \<longrightarrow> th = Recv)) \<or>
     exec_instr os rp i (obj s) = Inl e)"
proof (cases l)
  case (Call th c)
  with assms show ?thesis by (auto split: list.splits if_splits)
next
  case (Step th)
  with assms obtain i k where ik: "stack th s = i # k" "step_thread os rp th s = Some (Inl e)"
    by (cases "stack th s") (simp_all add: step_thread_def)
  then show ?thesis using Step
    by (cases "i \<in> {K_handler, K_thread_start, K_join} \<or> (\<exists>r. i = K_return r)")
       (auto simp: step_thread_def split: if_splits instr.splits sum.splits)
qed

section \<open>Runs of one thread\<close>

lemma threads_run_append:
  "threads_run os rp (ls @ ms) s = (case threads_run os rp ls s of Some (Inr s') \<Rightarrow> threads_run os rp ms s' | r \<Rightarrow> r)"
  by (induction ls arbitrary: s) (auto split: option.splits sum.splits)

lemma threads_run_trans:
  "threads_run os rp ls s = Some (Inr s') \<Longrightarrow> threads_run os rp ms s' = r \<Longrightarrow> threads_run os rp (ls @ ms) s = r"
  by (simp add: threads_run_append)

text \<open>\<open>k\<close> steps of one thread.\<close>

abbreviation steps :: "nat \<Rightarrow> thread \<Rightarrow> label list" where
  "steps n th \<equiv> replicate n (Step th)"

lemma steps_Suc: "steps (Suc n) th = Step th # steps n th"
  by simp

text \<open>Without interleaving and with handlers that only return, the thread's loop is \<open>recv_loop\<close>.\<close>

lemma recv_loop_steps:
  fixes s :: tcp_threads
  assumes "recv_loop rp buf pos readPos pkgLen out = Some (Inr (buf', pos', out'))"
    "recv_stack s = K_loop readPos pkgLen # k" "recv_buf (obj s) = buf" "recv_buf_pos (obj s) = pos"
  shows "\<exists>ps n. out' = out @ ps \<and> threads_run os rp (steps n Recv) s = Some (Inr (s\<lparr>recv_stack := k,
    obj := (obj s)\<lparr>recv_buf := buf', recv_buf_pos := pos', ev := ev (obj s) @ map T_on_recv ps\<rparr>\<rparr>))"
proof -
  let ?goal = "\<lambda>s k out buf' pos' out' ps n. out' = out @ ps \<and> threads_run os rp (steps n Recv) s = Some (Inr (s\<lparr>recv_stack := k,
    obj := (obj s)\<lparr>recv_buf := buf', recv_buf_pos := pos', ev := ev (obj s) @ map T_on_recv ps\<rparr>\<rparr>))"
  let ?P = "\<lambda>rp' buf pos readPos pkgLen out y. rp' = rp \<longrightarrow> (\<forall>(s :: tcp_threads) k buf' pos' out'. y = Inr (buf', pos', out') \<longrightarrow>
    recv_stack s = K_loop readPos pkgLen # k \<longrightarrow> recv_buf (obj s) = buf \<longrightarrow> recv_buf_pos (obj s) = pos \<longrightarrow>
    (\<exists>ps n. ?goal s k out buf' pos' out' ps n))"
  have "recv_loop rp' buf pos readPos pkgLen out = Some y \<Longrightarrow> ?P rp' buf pos readPos pkgLen out y"
    for y rp' buf pos readPos pkgLen out
  proof (rule recv_loop.raw_induct [of ?P], goal_cases)
    case (1 rec rp' buf pos readPos pkgLen out y)
    note rec_ok = 1(2) and body = 1(3)
    show ?case
    proof (intro impI allI)
      fix s :: tcp_threads and k buf' pos' out'
      assume p: "rp' = rp" "y = Inr (buf', pos', out')" "recv_stack s = K_loop readPos pkgLen # k"
        "recv_buf (obj s) = buf" "recv_buf_pos (obj s) = pos"
      show "\<exists>ps n. ?goal s k out buf' pos' out' ps n"
      proof (cases "pkgLen > 0")
        case False
        with 1(3) p have "?goal s k out buf' pos' out' [] 1" by (simp add: step_thread_def)
        then show ?thesis by blast
      next
        case True
        define fits where "fits \<longleftrightarrow> readPos + nat pkgLen \<le> pos"
        define q where "q = (if fits then readPos + nat pkgLen else readPos)"
        define pk where "pk = (if fits then [slice buf readPos (nat pkgLen)] else [])"
        let ?s = "s\<lparr>recv_stack := K_next q # k, obj := (obj s)\<lparr>ev := ev (obj s) @ map T_on_recv pk\<rparr>\<rparr>"
        have pre: "threads_run os rp (steps (if fits then 3 else 1) Recv) s = Some (Inr ?s)"
          using True p by (auto simp: fits_def q_def pk_def step_thread_def numeral_3_eq_3 log_ev_def)
        have comp: "\<exists>ps n. ?goal s k out buf' pos' out' ps n"
          if "threads_run os rp (steps m Recv) ?s = Some (Inr (s\<lparr>recv_stack := k, obj := (obj s)\<lparr>recv_buf := buf', recv_buf_pos := pos',
              ev := ev (obj s) @ map T_on_recv (pk @ ps)\<rparr>\<rparr>))" "out' = out @ pk @ ps" for m ps
          using threads_run_trans [OF pre that(1)] that(2)
          by (intro exI [of _ "pk @ ps"] exI [of _ "(if fits then 3 else 1) + m"]) (simp only: replicate_add simp_thms)
        consider "\<not> q < pos" | "q < pos" "rp (slice buf q (pos - q)) \<le> 0" | "q < pos" "0 < rp (slice buf q (pos - q))"
          by linarith
        then show ?thesis
        proof cases
          case 1
          then have "y = Inr (buf, 0, out @ pk)"
            using body True p(1) by (auto simp: Let_def fits_def q_def pk_def split: if_splits)
          with p(2) have yy: "buf' = buf" "pos' = 0" "out' = out @ pk" by auto
          show ?thesis
            by (rule comp [of 1 "[]"]) (use 1 p yy in \<open>simp_all add: step_thread_def\<close>)
        next
          case 2
          let ?b = "(memmove_front buf q (pos - q))[pos - q := 0]"
          have "pos - q < MAX_RECV_BUF \<and> y = Inr (?b, pos - q, out @ pk)"
            using body True p(1,2) 2 by (auto simp: Let_def fits_def q_def pk_def split: if_splits)
          with p(2) have yy: "buf' = ?b" "pos' = pos - q" "out' = out @ pk" "pos - q < MAX_RECV_BUF" by auto
          show ?thesis
            by (rule comp [of 1 "[]"]) (use 2 p yy in \<open>simp_all add: step_thread_def Let_def\<close>)
        next
          case 3
          let ?t = "?s\<lparr>recv_stack := K_loop q (rp (slice buf q (pos - q))) # k\<rparr>"
          have "rec rp buf pos q (rp (slice buf q (pos - q))) (out @ pk) = Some y"
            using body True p(1) 3 by (auto simp: Let_def fits_def q_def pk_def split: if_splits)
          from rec_ok [OF this, THEN mp, OF refl, THEN spec [where x = ?t], THEN spec [where x = k],
              THEN spec [where x = buf'], THEN spec [where x = pos'], THEN spec [where x = out']] p
          have "\<exists>ps n. ?goal ?t k (out @ pk) buf' pos' out' ps n" by simp
          then obtain ps n where g: "?goal ?t k (out @ pk) buf' pos' out' ps n" by blast
          have one: "threads_run os rp (steps 1 Recv) ?s = Some (Inr ?t)"
            using 3 p by (simp add: step_thread_def)
          show ?thesis
          proof (rule comp [of "1 + n" ps])
            show "threads_run os rp (steps (1 + n) Recv) ?s = Some (Inr (s\<lparr>recv_stack := k, obj := (obj s)
                \<lparr>recv_buf := buf', recv_buf_pos := pos', ev := ev (obj s) @ map T_on_recv (pk @ ps)\<rparr>\<rparr>))"
              using threads_run_trans [OF one] g by (simp add: replicate_add)
          qed (use g in simp)
        qed
      qed
    qed
  qed
  with assms show ?thesis by blast
qed

text \<open>The receive thread at \<open>do_recv\<close>, not interleaved, and with handlers that only return.\<close>

lemma do_recv_steps:
  fixes s :: tcp_threads
  assumes "recv_stack s = K_recv # k" "do_recv os rp (obj s) = Some (Inr (r, c'))"
  shows "\<exists>n. threads_run os rp (steps n Recv) s = Some (Inr (s\<lparr>recv_stack := k, obj := c', recv_ret := r\<rparr>))"
proof -
  let ?c = "obj s" let ?n = "MAX_RECV_BUF - recv_buf_pos ?c"
  show ?thesis
  proof (cases "os_recv os (ev ?c) (fd ?c) ?n \<in> {None, Some []}")
    case True
    then have "threads_run os rp (steps 4 Recv) s = Some (Inr (s\<lparr>recv_stack := k, obj := lost ?c, recv_ret := -1\<rparr>))"
      using assms(1) by (auto simp: step_thread_def lost_def log_ev_def Let_def eval_nat_numeral)
    then show ?thesis using do_recv_lost [OF True, of rp] assms(2) by auto
  next
    case False
    then obtain bs where bs: "os_recv os (ev ?c) (fd ?c) ?n = Some bs" "bs \<noteq> []" by auto
    let ?pos = "recv_buf_pos ?c + length bs" and ?buf = "store (recv_buf ?c) (recv_buf_pos ?c) bs"
    obtain buf pos out where l: "recv_loop rp ?buf ?pos 0 (rp (slice ?buf 0 ?pos)) [] = Some (Inr (buf, pos, out))"
      "r = 0" "c' = (log_ev (T_recv (fd ?c) ?n) ?c)\<lparr>recv_buf := buf, recv_buf_pos := pos,
        ev := ev (log_ev (T_recv (fd ?c) ?n) ?c) @ map T_on_recv out\<rparr>"
      using assms(2) bs by (auto simp: do_recv_def Let_def split: option.splits sum.splits)
    let ?t = "s\<lparr>recv_stack := K_loop 0 (rp (slice ?buf 0 ?pos)) # K_return 0 # k,
      obj := (log_ev (T_recv (fd ?c) ?n) ?c)\<lparr>recv_buf := ?buf, recv_buf_pos := ?pos\<rparr>\<rparr>"
    have one: "threads_run os rp (steps 1 Recv) s = Some (Inr ?t)"
      using assms(1) bs by (simp add: step_thread_def Let_def)
    obtain n where n: "threads_run os rp (steps n Recv) ?t = Some (Inr (?t\<lparr>recv_stack := K_return 0 # k,
        obj := (obj ?t)\<lparr>recv_buf := buf, recv_buf_pos := pos, ev := ev (obj ?t) @ map T_on_recv out\<rparr>\<rparr>))"
      using recv_loop_steps [OF l(1), of ?t "K_return 0 # k"] by auto
    have "threads_run os rp (steps 1 Recv @ steps n Recv @ steps 1 Recv) s =
        Some (Inr (s\<lparr>recv_stack := k, obj := c', recv_ret := r\<rparr>))"
      using l by (intro threads_run_trans [OF one] threads_run_trans [OF n]) (simp add: step_thread_def)
    then show ?thesis by (intro exI [of _ "1 + n + 1"]) (simp only: replicate_add append_assoc)
  qed
qed

text \<open>The application's \<open>connect\<close>, not interleaved, and with handlers that only return.\<close>

lemma close_steps:
  fixes s :: tcp_threads
  assumes "app_stack s = K_test_close # k"
  shows "\<exists>n. threads_run os rp (steps n App) s = Some (Inr (s\<lparr>app_stack := k, obj := close_fd (obj s)\<rparr>))"
proof (cases "fd (obj s) = -1")
  case True
  then have "threads_run os rp (steps 1 App) s = Some (Inr (s\<lparr>app_stack := k, obj := close_fd (obj s)\<rparr>))"
    using assms by (simp add: step_thread_def close_fd_def)
  then show ?thesis by blast
next
  case False
  then have "threads_run os rp (steps 3 App) s = Some (Inr (s\<lparr>app_stack := k, obj := close_fd (obj s)\<rparr>))"
    using assms by (simp add: step_thread_def close_fd_def eval_nat_numeral)
  then show ?thesis by blast
qed

lemma do_connect_steps:
  fixes s :: tcp_threads
  assumes "app_stack s = do_connect_body @ k" "do_connect os (obj s) = Inr (r, c')"
  shows "\<exists>n. threads_run os rp (steps n App) s = Some (Inr (s\<lparr>app_stack := k, obj := c', app_ret := r\<rparr>))"
proof -
  let ?s1 = "s\<lparr>app_stack := [K_test_close, K_socket, K_check_socket] @ k, obj := log_ev (T_sleep 1) (obj s)\<rparr>"
  let ?s2 = "?s1\<lparr>app_stack := [K_socket, K_check_socket] @ k, obj := close_fd (obj ?s1)\<rparr>"
  have 1: "threads_run os rp (steps 1 App) s = Some (Inr ?s1)"
    using assms(1) by (simp add: step_thread_def do_connect_body_def)
  obtain n where 2: "threads_run os rp (steps n App) ?s1 = Some (Inr ?s2)"
    using close_steps [of ?s1 "[K_socket, K_check_socket] @ k" os rp] by auto
  have "\<exists>m. threads_run os rp (steps m App) ?s2 = Some (Inr (s\<lparr>app_stack := k, obj := c', app_ret := r\<rparr>))"
  proof -
    let ?c = "obj ?s2" let ?sk = "os_socket os (ev ?c)" let ?d = "(log_ev (T_socket ?sk) ?c)\<lparr>fd := ?sk\<rparr>"
    consider "?sk = -1" | "?sk \<noteq> -1" "os_connect os (ev ?d) ?sk (m_hosts ?d ! 0) (m_port ?d) = -1"
      | "?sk \<noteq> -1" "os_connect os (ev ?d) ?sk (m_hosts ?d ! 0) (m_port ?d) \<noteq> -1" by blast
    then show ?thesis
    proof cases
      case 1
      then have "threads_run os rp (steps 3 App) ?s2 = Some (Inr (s\<lparr>app_stack := k, obj := c', app_ret := r\<rparr>))"
        using assms(2) by (auto simp: step_thread_def do_connect_def eval_nat_numeral Let_def)
      then show ?thesis by blast
    next
      case 2
      then have "threads_run os rp (steps 5 App) ?s2 = Some (Inr (s\<lparr>app_stack := k, obj := c', app_ret := r\<rparr>))"
        using assms(2) by (auto simp: step_thread_def do_connect_def eval_nat_numeral Let_def split: if_splits)
      then show ?thesis by blast
    next
      case 3
      then have "threads_run os rp (steps 7 App) ?s2 = Some (Inr (s\<lparr>app_stack := k, obj := c', app_ret := r\<rparr>))"
        using assms(2) by (auto simp: step_thread_def do_connect_def eval_nat_numeral Let_def log_ev_def split: if_splits)
      then show ?thesis by blast
    qed
  qed
  then obtain m where "threads_run os rp (steps m App) ?s2 = Some (Inr (s\<lparr>app_stack := k, obj := c', app_ret := r\<rparr>))" by blast
  then have "threads_run os rp (steps 1 App @ steps n App @ steps m App) s =
      Some (Inr (s\<lparr>app_stack := k, obj := c', app_ret := r\<rparr>))"
    by (intro threads_run_trans [OF 1] threads_run_trans [OF 2])
  then show ?thesis by (intro exI [of _ "1 + n + m"]) (simp only: replicate_add append_assoc)
qed

lemma connect_steps:
  fixes s :: tcp_threads
  assumes "app_stack s = []" "connect os h p re (obj s) = Inr (r, c')"
  shows "\<exists>n. threads_run os rp (Call App (C_connect h p re) # steps n App) s =
    Some (Inr (s\<lparr>obj := c', app_ret := r, recv_stack :=
      (if \<not> is_running (obj s) \<and> os_gethostbyname os (ev (obj s)) h \<noteq> None then [K_run] else recv_stack s)\<rparr>))"
proof -
  let ?c = "(obj s)\<lparr>m_port := p, m_host := h, is_reconnect := re\<rparr>"
  let ?d = "log_ev (T_resolve h) ?c"
  show ?thesis
  proof (cases "os_gethostbyname os (ev (obj s)) h")
    case None
    then have "threads_run os rp (Call App (C_connect h p re) # steps 3 App) s =
        Some (Inr (s\<lparr>obj := c', app_ret := r\<rparr>))"
      using assms by (auto simp: step_thread_def connect_def eval_nat_numeral Let_def)
    with None show ?thesis by (intro exI [of _ 3]) (simp del: threads_run.simps threads_turn.simps)
  next
    case (Some addrs)
    let ?e = "?d\<lparr>m_hosts := m_hosts ?d @ map (\<lambda>i. addrs ! 0) [0..<length addrs]\<rparr>"
    show ?thesis
    proof (cases "is_running (obj s)")
      case True
      then have "threads_run os rp (Call App (C_connect h p re) # steps 4 App) s =
          Some (Inr (s\<lparr>obj := c', app_ret := r\<rparr>))"
        using assms Some by (auto simp: step_thread_def connect_def eval_nat_numeral Let_def)
      with True show ?thesis by (intro exI [of _ 4]) (simp del: threads_run.simps threads_turn.simps)
    next
      case False
      let ?s1 = "s\<lparr>app_stack := do_connect_body @ [K_thread_start], obj := ?e\<lparr>is_running := True\<rparr>\<rparr>"
      have 1: "threads_run os rp (Call App (C_connect h p re) # steps 4 App) s = Some (Inr ?s1)"
        using False assms(1) Some by (simp add: step_thread_def eval_nat_numeral Let_def)
      obtain c1 where dc: "do_connect os (obj ?s1) = Inr (r, c1)" "\<not> m_recv_thread c1"
        "c' = log_ev T_thread_start (c1\<lparr>m_recv_thread := True\<rparr>)"
        using False assms(2) Some by (auto simp: connect_def Let_def split: sum.splits if_splits)
      from do_connect_steps [of ?s1 "[K_thread_start]", OF _ dc(1), of rp]
      obtain n where 2: "threads_run os rp (steps n App) ?s1 =
          Some (Inr (?s1\<lparr>app_stack := [K_thread_start], obj := c1, app_ret := r\<rparr>))" by auto
      have "threads_run os rp ((Call App (C_connect h p re) # steps 4 App) @ steps n App @ steps 1 App) s =
          Some (Inr (s\<lparr>obj := c', app_ret := r, recv_stack := [K_run]\<rparr>))"
        using dc assms(1)
        by (intro threads_run_trans [OF 1] threads_run_trans [OF 2]) (cases s, simp add: step_thread_def)
      then have "threads_run os rp (Call App (C_connect h p re) # steps (4 + n + 1) App) s =
          Some (Inr (s\<lparr>obj := c', app_ret := r, recv_stack := [K_run]\<rparr>))"
        by (simp only: replicate_add append_assoc append_Cons)
      with False Some show ?thesis
        by (intro exI [of _ "4 + n + 1"]) (simp del: threads_run.simps threads_turn.simps replicate.simps)
    qed
  qed
qed

section \<open>The receive thread ends once \<open>is_running\<close> is false\<close>

text \<open>An upper bound of the statements a statement still causes on the receive thread.\<close>

fun cost :: "nat \<Rightarrow> instr \<Rightarrow> nat" where
  "cost pos (K_call e) = 2"
| "cost pos K_test_close = 3"
| "cost pos K_check_socket = 7"
| "cost pos K_dial = 6"
| "cost pos K_watch = 4 * MAX_RECV_BUF + 20"
| "cost pos K_fd_set = 4 * MAX_RECV_BUF + 19"
| "cost pos (K_select w) = 4 * MAX_RECV_BUF + 18"
| "cost pos (K_isset_read w rs es) = 4 * MAX_RECV_BUF + 17"
| "cost pos (K_isset_except w es) = 3"
| "cost pos K_timeout = 13"
| "cost pos K_recv = 4 * MAX_RECV_BUF + 10"
| "cost pos (K_loop r n) = 4 * (pos - r) + 1"
| "cost pos (K_next r) = 4 * (pos - r) + 2"
| "cost pos _ = 1"

definition work :: "tcp_threads \<Rightarrow> nat" where
  "work s = sum_list (map (cost (recv_buf_pos (obj s))) (recv_stack s))"

lemma cost_same: "\<not> reading i \<Longrightarrow> cost p i = cost q i"
  by (cases i) simp_all

lemma exec_cost:
  assumes "exec_instr os rp i c = Inr (c', push)" "\<not> control i" "\<not> is_running c" "cursor_ok rp c i"
    "bounded_reader rp" "recv_wf c" "os_ok os" "i \<noteq> K_handler"
  shows "sum_list (map (cost (recv_buf_pos c')) push) < cost (recv_buf_pos c) i"
proof (cases i)
  case (K_loop r n)
  have "n \<le> int (recv_buf_pos c - r)"
    using K_loop assms(4-6) bounded_reader_def [of rp] length_slice [of r "recv_buf_pos c - r" "recv_buf c"]
    by (simp add: recv_wf_def) (metis of_nat_diff less_imp_le)
  with K_loop assms(1,4) show ?thesis by (auto split: if_splits)
next
  case K_recv
  have le: "length bs \<le> MAX_RECV_BUF - recv_buf_pos c"
    if "os_recv os (ev c) (fd c) (MAX_RECV_BUF - recv_buf_pos c) = Some bs" for bs
    using assms(7) that by (auto simp: os_ok_def)
  with K_recv assms(1,6) show ?thesis
    by (auto simp: Let_def recv_wf_def split: exec_splits dest!: le)
qed (use assms in \<open>auto simp: Let_def do_connect_body_def split: exec_splits\<close>)

lemma work_decreases:
  assumes "os_ok os" "bounded_reader rp" "buf_inv rp s" "life_inv s" "quiet_inv s" "\<not> is_running (obj s)"
    "recv_stack s \<noteq> []"
  shows "threads_turn os rp (Step Recv) s = Some (Inl Fd_minus_one) \<or>
    (\<exists>s'. threads_turn os rp (Step Recv) s = Some (Inr s') \<and> work s' < work s \<and> \<not> is_running (obj s') \<and>
      app_stack s' = app_stack s \<and> m_recv_thread (obj s') = m_recv_thread (obj s))"
proof -
  obtain i k where ik: "recv_stack s = i # k" using assms(7) by (cases "recv_stack s") auto
  have nc: "\<not> control i" and cur: "cursor_ok rp (obj s) i" and wf: "recv_wf (obj s)"
    using assms(3,5) ik by (auto simp: buf_inv_def quiet_inv_def)
  show ?thesis
  proof (cases "i = K_handler \<or> (\<exists>r. i = K_return r)")
    case True
    with ik assms(6) show ?thesis by (auto simp: step_thread_def work_def)
  next
    case False
    with nc ik have step: "step_thread os rp Recv s = (case exec_instr os rp i (obj s) of Inl e \<Rightarrow> Some (Inl e)
        | Inr (c, push) \<Rightarrow> Some (Inr (set_stack Recv (push @ k) (s\<lparr>obj := c\<rparr>))))"
      by (cases i) (simp_all add: step_thread_def)
    show ?thesis
    proof (cases "exec_instr os rp i (obj s)")
      case (Inl e)
      have "dialing i \<Longrightarrow> m_hosts (obj s) \<noteq> []" using assms(4) ik by (auto simp: life_inv_def)
      with exec_errors [OF Inl wf cur] step Inl show ?thesis by simp
    next
      case (Inr cp)
      obtain c push where cp: "cp = (c, push)" by fastforce
      note e = Inr [unfolded cp]
      have "sum_list (map (cost (recv_buf_pos c)) k) = sum_list (map (cost (recv_buf_pos (obj s))) k)"
      proof (cases "reading i")
        case True
        then have "\<forall>j\<in>set k. \<not> reading j" using assms(3) ik by (auto simp: buf_inv_def filter_empty_conv)
        then show ?thesis using cost_same by (intro arg_cong [of _ _ sum_list] map_cong) auto
      next
        case no: False
        then have "i = K_run \<or> recv_buf_pos c = recv_buf_pos (obj s)"
          using exec_buf [OF e assms(1) wf cur] by auto
        with e show ?thesis by auto
      qed
      moreover have "\<not> is_running c" using exec_instr_frame(3) [OF e] assms(6) nc by auto
      moreover have "m_recv_thread c = m_recv_thread (obj s)" by (rule exec_instr_frame(1) [OF e])
      moreover note exec_cost [OF e nc assms(6) cur assms(2) wf assms(1)]
      ultimately show ?thesis using step e False ik by (auto simp: work_def)
    qed
  qed
qed

lemma receive_thread_ends:
  "threads_reachable os rp quiet s \<Longrightarrow> os_ok os \<Longrightarrow> bounded_reader rp \<Longrightarrow> \<not> is_running (obj s) \<Longrightarrow>
    \<exists>n. threads_run os rp (steps n Recv) s = Some (Inl Fd_minus_one) \<or>
      (\<exists>s'. threads_run os rp (steps n Recv) s = Some (Inr s') \<and> recv_stack s' = [] \<and> \<not> is_running (obj s') \<and>
        app_stack s' = app_stack s \<and> m_recv_thread (obj s') = m_recv_thread (obj s))"
proof (induction "work s" arbitrary: s rule: less_induct)
  case less
  show ?case
  proof (cases "recv_stack s = []")
    case True
    with less.prems(4) have "threads_run os rp (steps 0 Recv) s = Some (Inr s)" by simp
    with True less.prems(4) show ?thesis by blast
  next
    case False
    from work_decreases [OF less.prems(2,3) _ _ threads_reachable_quiet [OF less.prems(1,2)] less.prems(4) False]
      threads_reachable_inv [OF less.prems(1,2)]
    consider "threads_turn os rp (Step Recv) s = Some (Inl Fd_minus_one)"
      | s' where "threads_turn os rp (Step Recv) s = Some (Inr s')" "work s' < work s" "\<not> is_running (obj s')"
        "app_stack s' = app_stack s" "m_recv_thread (obj s') = m_recv_thread (obj s)" by blast
    then show ?thesis
    proof cases
      case 1
      then have "threads_run os rp (steps 1 Recv) s = Some (Inl Fd_minus_one)" by simp
      then show ?thesis by blast
    next
      case 2
      have "threads_reachable os rp quiet s'"
        using threads_next [OF less.prems(1) _ 2(1)] by (simp add: quiet_def)
      from less.hyps [OF 2(2) this less.prems(2,3) 2(3)] obtain n where n:
        "threads_run os rp (steps n Recv) s' = Some (Inl Fd_minus_one) \<or>
          (\<exists>t. threads_run os rp (steps n Recv) s' = Some (Inr t) \<and> recv_stack t = [] \<and> \<not> is_running (obj t) \<and>
            app_stack t = app_stack s' \<and> m_recv_thread (obj t) = m_recv_thread (obj s'))" by blast
      have "threads_run os rp (steps (Suc n) Recv) s = threads_run os rp (steps n Recv) s'"
        using 2(1) by simp
      with n 2(4,5) show ?thesis by metis
    qed
  qed
qed

section \<open>Properties\<close>

lemma threads_run_reachable:
  "threads_run os rp ls s = Some (Inr s') \<Longrightarrow> threads_reachable os rp ok s \<Longrightarrow> \<forall>l\<in>set ls. ok l \<Longrightarrow> threads_reachable os rp ok s'"
  by (induction ls arbitrary: s) (auto split: option.splits sum.splits intro: threads_next)

lemma quiet_steps [simp]: "\<forall>l\<in>set (steps n th). quiet l" "quiet (Step th)" "quiet (Call App c)"
  by (auto simp: quiet_def)

text \<open>A client that has connected, its receive thread at the head of its loop.\<close>

definition th0 :: tcp_threads where
  "th0 = threads_init (replicate MAX_RECV_BUF 0) 0"

definition th1 :: tcp_threads where
  "th1 = th0\<lparr>recv_stack := [K_run], obj := (obj th0)\<lparr>is_running := True, is_connected := True, m_recv_thread := True, fd := 3,
     m_host := ''h'', m_port := 80, m_hosts := [0x0100007f], is_reconnect := True,
     ev := [T_resolve ''h'', T_sleep 1, T_socket 3, T_connect 3 0x0100007f 80, T_on_connected, T_thread_start]\<rparr>\<rparr>"

lemma th1_run: "threads_run os0 byte_reader (Call App (C_connect ''h'' 80 True) # steps 14 App) th0 = Some (Inr th1)"
  by (simp add: th0_def th1_def threads_init_def TcpClient_init_def os0_def step_thread_def do_connect_body_def log_ev_def
      eval_nat_numeral)

lemma th1_reachable: "threads_reachable os0 byte_reader quiet th1"
  by (rule threads_run_reachable [OF th1_run]) (auto simp: th0_def intro: threads_start)

text \<open>
  C10: In every reachable state, however the application's thread and the receive thread interleave
  and whatever the virtual functions call on either thread: the receive buffer has its 2048 bytes
  with \<open>recv_buf_pos\<close> inside it; a receive thread that has not ended is joinable, has a
  resolved host to dial and will come back to the loop condition of \<open>run\<close>; and when the application is
  outside the object, \<open>is_running\<close> is only set while a receive thread runs. Assumed: one
  application thread, statements that execute one at a time, \<open>recv\<close> returns at most what it was asked for, a
  successful \<open>gethostbyname\<close> has an address, and \<open>read_packet\<close> is a function of the bytes.
\<close>

theorem tcp_threads_invariant:
  assumes "os_ok os" "threads_reachable os rp ok s"
  shows "length (recv_buf (obj s)) = MAX_RECV_BUF \<and> recv_buf_pos (obj s) \<le> MAX_RECV_BUF \<and>
    (recv_stack s \<noteq> [] \<longrightarrow> m_recv_thread (obj s) \<and> m_hosts (obj s) \<noteq> [] \<and> last (recv_stack s) = K_run) \<and>
    (is_running (obj s) \<and> app_stack s = [] \<longrightarrow> m_recv_thread (obj s) \<and> recv_stack s \<noteq> [])"
  using threads_reachable_inv [OF assms(2,1)] by (auto simp: buf_inv_def life_inv_def recv_wf_def)

theorem tcp_threads_invariant_witness:
  "recv_buf_pos (obj th1) \<le> MAX_RECV_BUF \<and> m_hosts (obj th1) \<noteq> [] \<and> recv_stack th1 = [K_run]"
  using tcp_threads_invariant [OF os0_ok th1_reachable] by (simp add: th1_def)


text \<open>The application disconnects while the receive thread prepares \<open>select\<close>.\<close>

definition th2 :: tcp_threads where
  "th2 = th1\<lparr>app_stack := [K_join, K_disconnected], recv_stack := [K_fd_set, K_run],
     obj := (obj th1)\<lparr>is_running := False, fd := -1, ev := ev (obj th1) @ [T_close 3]\<rparr>\<rparr>"

lemma th2_run: "threads_run os0 byte_reader (Call App C_disconnect # steps 2 Recv @ steps 4 App) th1 = Some (Inr th2)"
  by (simp add: th1_def th2_def th0_def threads_init_def TcpClient_init_def step_thread_def disconnect_body_def log_ev_def
      eval_nat_numeral)

lemma th2_reachable: "threads_reachable os0 byte_reader quiet th2"
  by (rule threads_run_reachable [OF th2_run th1_reachable]) auto


lemma disconnect_joins:
  assumes "os_ok os" "threads_reachable os rp quiet s" "app_stack s = K_disconnected # k"
    "threads_turn os rp (Step App) s = Some (Inr s')"
  shows "app_stack s' = k \<and> recv_stack s' = [] \<and> \<not> m_recv_thread (obj s') \<and> \<not> is_running (obj s') \<and>
    \<not> is_connected (obj s') \<and> fd (obj s') = fd (obj s)"
  using threads_reachable_quiet [OF assms(2,1)] assms(3,4) by (auto simp: quiet_inv_def step_thread_def)

lemma disconnect_returns:
  assumes "os_ok os" "bounded_reader rp" "threads_reachable os rp quiet s" "app_stack s = K_join # K_disconnected # k"
    "m_recv_thread (obj s)" "\<not> is_running (obj s)"
  shows "\<exists>n. threads_run os rp (steps n Recv) s = Some (Inl Fd_minus_one) \<or>
    (\<exists>s'. threads_run os rp (steps n Recv @ steps 2 App) s = Some (Inr s') \<and> app_stack s' = k)"
proof -
  from receive_thread_ends [OF assms(3,1,2,6)] obtain n where
    "threads_run os rp (steps n Recv) s = Some (Inl Fd_minus_one) \<or>
      (\<exists>t. threads_run os rp (steps n Recv) s = Some (Inr t) \<and> recv_stack t = [] \<and> app_stack t = app_stack s \<and> m_recv_thread (obj t) = m_recv_thread (obj s))" by blast
  then show ?thesis
  proof
    assume "\<exists>t. threads_run os rp (steps n Recv) s = Some (Inr t) \<and> recv_stack t = [] \<and> app_stack t = app_stack s \<and> m_recv_thread (obj t) = m_recv_thread (obj s)"
    then obtain t where t: "threads_run os rp (steps n Recv) s = Some (Inr t)" "recv_stack t = []"
      "app_stack t = K_join # K_disconnected # k" "m_recv_thread (obj t)" using assms(4,5) by auto
    then have "\<exists>s'. threads_run os rp (steps 2 App) t = Some (Inr s') \<and> app_stack s' = k"
      using t by (simp add: step_thread_def eval_nat_numeral)
    then show ?thesis using threads_run_trans [OF t(1)] by blast
  qed blast
qed

text \<open>
  C12: What \<open>disconnect\<close> promises. Whenever it returns, whatever the receive thread did meanwhile, the
  thread has ended and is no longer joinable and \<open>is_running\<close> and \<open>is_connected\<close> are false; \<open>fd\<close> is what the
  thread left, perhaps an open descriptor (\<open>disconnect_leaks_reconnection\<close>). And once it has cleared
  \<open>is_running\<close> and waits in \<open>join\<close> it can return: the receive thread, wherever it is (\<open>select\<close>,
  \<open>do_recv\<close>, a reconnection), needs finitely many of its own statements to leave \<open>run\<close>, or dies on the way in
  \<open>FD_SET\<close>/\<open>FD_ISSET\<close> of the cleared descriptor. Assumed: the virtual functions of the receive
  thread return and do not call the object (those of the application's thread may); for the second part,
  \<open>read_packet\<close> asks for no more bytes than there are (otherwise \<open>do_recv_spins\<close>).
\<close>

theorem disconnect_outcomes:
  assumes "os_ok os" "threads_reachable os rp quiet s"
  shows "(app_stack s = K_disconnected # k \<and> threads_turn os rp (Step App) s = Some (Inr s') \<longrightarrow>
      app_stack s' = k \<and> recv_stack s' = [] \<and> \<not> m_recv_thread (obj s') \<and> \<not> is_running (obj s') \<and>
      \<not> is_connected (obj s') \<and> fd (obj s') = fd (obj s)) \<and>
    (app_stack s = K_join # K_disconnected # k \<and> m_recv_thread (obj s) \<and> \<not> is_running (obj s) \<and> bounded_reader rp \<longrightarrow>
      (\<exists>n. threads_run os rp (steps n Recv) s = Some (Inl Fd_minus_one) \<or>
        (\<exists>t. threads_run os rp (steps n Recv @ steps 2 App) s = Some (Inr t) \<and> app_stack t = k)))"
  using disconnect_joins [OF assms] disconnect_returns [OF assms(1) _ assms(2)] by blast

text \<open>The same with the receive thread going first: it leaves its loop, and \<open>join\<close> has returned.\<close>

definition th3 :: tcp_threads where
  "th3 = th1\<lparr>app_stack := [K_disconnected], recv_stack := [],
     obj := (obj th1)\<lparr>is_running := False, m_recv_thread := False, fd := -1, ev := ev (obj th1) @ [T_close 3, T_thread_join]\<rparr>\<rparr>"

lemma th3_run: "threads_run os0 byte_reader (Call App C_disconnect # steps 4 App @ steps 1 Recv @ steps 1 App) th1 = Some (Inr th3)"
  by (simp add: th1_def th3_def th0_def threads_init_def TcpClient_init_def step_thread_def disconnect_body_def log_ev_def
      eval_nat_numeral)

lemma th3_reachable: "threads_reachable os0 byte_reader quiet th3"
  by (rule threads_run_reachable [OF th3_run th1_reachable]) auto

text \<open>The application waits in \<open>join\<close>, the receive thread has not yet looked at \<open>is_running\<close>.\<close>

definition th4 :: tcp_threads where
  "th4 = th1\<lparr>app_stack := [K_join, K_disconnected],
     obj := (obj th1)\<lparr>is_running := False, fd := -1, ev := ev (obj th1) @ [T_close 3]\<rparr>\<rparr>"

lemma th4_run: "threads_run os0 byte_reader (Call App C_disconnect # steps 4 App) th1 = Some (Inr th4)"
  by (simp add: th1_def th4_def th0_def threads_init_def TcpClient_init_def step_thread_def disconnect_body_def log_ev_def
      eval_nat_numeral)

theorem disconnect_outcomes_witness:
  "(\<exists>s'. threads_turn os0 byte_reader (Step App) th3 = Some (Inr s') \<and> app_stack s' = [] \<and> \<not> is_connected (obj s')) \<and>
    (\<exists>n. threads_run os0 byte_reader (steps n Recv) th4 = Some (Inl Fd_minus_one) \<or>
      (\<exists>t. threads_run os0 byte_reader (steps n Recv @ steps 2 App) th4 = Some (Inr t) \<and> app_stack t = []))"
proof
  have "\<exists>s'. threads_turn os0 byte_reader (Step App) th3 = Some (Inr s')" by (simp add: th3_def step_thread_def)
  moreover have "app_stack th3 = K_disconnected # []" by (simp add: th3_def)
  ultimately show "\<exists>s'. threads_turn os0 byte_reader (Step App) th3 = Some (Inr s') \<and> app_stack s' = [] \<and> \<not> is_connected (obj s')"
    using disconnect_outcomes [OF os0_ok th3_reachable] by blast
  have "threads_reachable os0 byte_reader quiet th4" by (rule threads_run_reachable [OF th4_run th1_reachable]) auto
  moreover have "bounded_reader byte_reader" using byte_reader_stable by (simp add: stable_reader_def)
  moreover have "app_stack th4 = K_join # K_disconnected # []" "m_recv_thread (obj th4)" "\<not> is_running (obj th4)"
    by (simp_all add: th4_def th1_def th0_def)
  ultimately show "\<exists>n. threads_run os0 byte_reader (steps n Recv) th4 = Some (Inl Fd_minus_one) \<or>
      (\<exists>t. threads_run os0 byte_reader (steps n Recv @ steps 2 App) th4 = Some (Inr t) \<and> app_stack t = [])"
    using disconnect_outcomes [OF os0_ok, of byte_reader th4 "[]"] by blast
qed

section \<open>Hazards\<close>

text \<open>
  A virtual function of the receive thread whose \<open>send\<close> fails does not return: \<open>send\<close> calls
  \<open>disconnect\<close>, which joins the receive thread from the receive thread.
\<close>

theorem handler_joins_itself:
  assumes "os_ok os" "threads_reachable os rp ok s" "recv_stack s = K_handler # k" "is_connected (obj s)"
    "os_send os (ev (obj s)) (fd (obj s)) d \<le> 0"
  shows "threads_run os rp (Call Recv (C_send d) # steps (if fd (obj s) = -1 then 6 else 9) Recv) s = Some (Inl Self_join)"
proof -
  have "m_recv_thread (obj s)" using threads_reachable_inv [OF assms(2,1)] assms(3) by (simp add: life_inv_def)
  then show ?thesis
    using assms(3-5) by (auto simp: step_thread_def Let_def disconnect_body_def eval_nat_numeral)
qed

lemma join_waits:
  assumes "threads_turn os rp l s = Some (Inr s')" "quiet l" "app_stack s = K_join # k" "m_recv_thread (obj s)"
    "is_running (obj s)" "recv_stack s \<noteq> []" "quiet_inv s"
  shows "app_stack s' = K_join # k \<and> m_recv_thread (obj s') \<and> is_running (obj s')"
  using assms(1)
proof (cases rule: threads_turn_cases)
  case (exec th i k' c push)
  with assms(3) have Recv: "th = Recv" by (cases th) auto
  with exec(2) assms(7) have "\<not> control i" by (auto simp: quiet_inv_def)
  then have "i \<noteq> K_stop" by auto
  with exec_instr_frame(1,3) [OF exec(3)] Recv exec(6) assms(3-5) show ?thesis by (auto split: if_splits)
next
  case (leave th i k' r)
  with assms(3-5) show ?thesis by (cases th) auto
qed (use assms in \<open>auto simp: quiet_def\<close>)

text \<open>
  \<open>disconnect\<close> without a descriptor while the thread runs (the \<open>socket\<close> call failed) does not clear
  \<open>is_running\<close>, and then \<open>join\<close> never returns, whatever the receive thread does.
\<close>

theorem disconnect_blocks:
  assumes "os_ok os" "threads_reachable os rp quiet s" "app_stack s = K_join # k" "m_recv_thread (obj s)" "is_running (obj s)"
    "threads_run os rp ls s = Some (Inr s')" "\<forall>l\<in>set ls. quiet l"
  shows "app_stack s' = K_join # k \<and> recv_stack s' \<noteq> []"
  using assms(2-)
proof (induction ls arbitrary: s)
  case Nil
  then show ?case using threads_reachable_inv [OF Nil(1) assms(1)] threads_reachable_quiet [OF Nil(1) assms(1)]
    by (auto simp: life_inv_def quiet_inv_def)
next
  case (Cons l ls)
  then obtain s1 where s1: "threads_turn os rp l s = Some (Inr s1)" "threads_run os rp ls s1 = Some (Inr s')"
    by (auto split: option.splits sum.splits)
  have "recv_stack s \<noteq> []"
    using threads_reachable_inv [OF Cons(2) assms(1)] threads_reachable_quiet [OF Cons(2) assms(1)] Cons.prems(2-4)
    by (auto simp: life_inv_def quiet_inv_def)
  with s1(1) Cons.prems have "app_stack s1 = K_join # k" "m_recv_thread (obj s1)" "is_running (obj s1)"
    using join_waits [OF s1(1)] threads_reachable_quiet [OF Cons(2) assms(1)] by auto
  moreover have "threads_reachable os rp quiet s1" using threads_next [OF Cons(2) _ s1(1)] Cons.prems by simp
  ultimately show ?case using Cons.IH s1(2) Cons.prems by simp
qed

text \<open>
  A receive thread that has begun to reconnect finishes that during \<open>disconnect\<close>: the application
  gets back an object without a thread whose new connection is open and will never be closed by it.
\<close>

theorem disconnect_leaks_reconnection:
  assumes "os_ok os" "threads_reachable os rp quiet s" "app_stack s = []" "recv_stack s = do_connect_body @ [K_run]"
    "fd (obj s) \<noteq> -1" "\<forall>es. os_socket os es = sk" "sk \<noteq> -1" "\<forall>es f a p. os_connect os es f a p \<noteq> -1"
  shows "\<exists>s'. threads_run os rp (Call App C_disconnect # steps 4 App @ steps 10 Recv @ steps 2 App) s = Some (Inr s') \<and>
    app_stack s' = [] \<and> recv_stack s' = [] \<and> \<not> m_recv_thread (obj s') \<and> fd (obj s') = sk \<and>
    ev (obj s') = ev (obj s) @ [T_close (fd (obj s)), T_sleep 1, T_socket sk,
      T_connect sk (m_hosts (obj s) ! 0) (m_port (obj s)), T_on_connected, T_thread_join]"
proof -
  have "m_recv_thread (obj s)" "m_hosts (obj s) \<noteq> []"
    using threads_reachable_inv [OF assms(2,1)] assms(4) by (auto simp: life_inv_def do_connect_body_def)
  then show ?thesis
    using assms(3-8) by (auto simp: step_thread_def Let_def disconnect_body_def do_connect_body_def eval_nat_numeral)
qed

text \<open>
  Bytes of a lost connection become the head of the next one: no step but the receive thread's own
  \<open>recv\<close> and its loop changes the received bytes, so \<open>disconnect\<close> and \<open>connect\<close> keep the incomplete
  package.
\<close>

theorem stale_bytes_survive:
  assumes "os_ok os" "threads_reachable os rp ok s" "threads_turn os rp l s = Some (Inr s')"
    "l = Step Recv \<longrightarrow> \<not> reading (hd (recv_stack s))"
  shows "pending (obj s') = pending (obj s)"
proof -
  have inv: "buf_inv rp s" using threads_reachable_inv [OF assms(2,1)] by simp
  from assms(3) show ?thesis
  proof (cases rule: threads_turn_cases)
    case (exec th i k c push)
    then have "\<not> reading i" using assms(4) inv by (cases th) (auto simp: buf_inv_def dest: reading_running)
    then have "recv_buf c = recv_buf (obj s)" "recv_buf_pos c = recv_buf_pos (obj s)"
      using exec_instr_frame(4) [OF exec(3)] by (cases i; force)+
    with exec(6) show ?thesis by (simp add: pending_def)
  qed (simp_all add: pending_def log_ev_def)
qed

end
