(* ===== verification/Extensions.thy ===== *)
theory Extensions
  imports Base "HOL-Library.Char_ord"
begin

text \<open>
  Negotiation of \<open>permessage-deflate\<close> (uWebSockets \<open>Extensions.h\<close>, \<open>Extensions.cpp\<close>). A
  \<open>std::string\<close> is its list of bytes; what \<open>data()\<close> points to behind the last one is the NUL
  that ends every \<open>std::string\<close>. \<open>int\<close> is kept at 32 bits.
\<close>

definition ascii :: "string \<Rightarrow> byte list" where
  "ascii s = map of_char s"

lemma ascii_simps [simp]: "ascii [] = []" "ascii (c # cs) = of_char c # ascii cs" "ascii (s @ t) = ascii s @ ascii t"
  by (simp_all add: ascii_def)

lemma length_ascii [simp]: "length (ascii s) = length s"
  by (simp add: ascii_def)

section \<open>Options\<close>

definition NO_OPTIONS :: "32 word" where "NO_OPTIONS = 0"
definition PERMESSAGE_DEFLATE :: "32 word" where "PERMESSAGE_DEFLATE = 1"
definition SERVER_NO_CONTEXT_TAKEOVER :: "32 word" where "SERVER_NO_CONTEXT_TAKEOVER = 2"
definition CLIENT_NO_CONTEXT_TAKEOVER :: "32 word" where "CLIENT_NO_CONTEXT_TAKEOVER = 4"
definition NO_DELAY :: "32 word" where "NO_DELAY = 8"
definition SLIDING_DEFLATE_WINDOW :: "32 word" where "SLIDING_DEFLATE_WINDOW = 16"

lemmas option_defs = PERMESSAGE_DEFLATE_def SERVER_NO_CONTEXT_TAKEOVER_def CLIENT_NO_CONTEXT_TAKEOVER_def
  NO_DELAY_def SLIDING_DEFLATE_WINDOW_def

definition TOK_PERMESSAGE_DEFLATE :: "32 word" where "TOK_PERMESSAGE_DEFLATE = 1838"
definition TOK_SERVER_NO_CONTEXT_TAKEOVER :: "32 word" where "TOK_SERVER_NO_CONTEXT_TAKEOVER = 2807"
definition TOK_CLIENT_NO_CONTEXT_TAKEOVER :: "32 word" where "TOK_CLIENT_NO_CONTEXT_TAKEOVER = 2783"
definition TOK_SERVER_MAX_WINDOW_BITS :: "32 word" where "TOK_SERVER_MAX_WINDOW_BITS = 2372"
definition TOK_CLIENT_MAX_WINDOW_BITS :: "32 word" where "TOK_CLIENT_MAX_WINDOW_BITS = 2348"

lemmas token_defs = TOK_PERMESSAGE_DEFLATE_def TOK_SERVER_NO_CONTEXT_TAKEOVER_def
  TOK_CLIENT_NO_CONTEXT_TAKEOVER_def TOK_SERVER_MAX_WINDOW_BITS_def TOK_CLIENT_MAX_WINDOW_BITS_def

section \<open>The tokenizer\<close>

definition isdigit :: "byte \<Rightarrow> bool" where
  "isdigit b \<longleftrightarrow> 48 \<le> b \<and> b \<le> 57"

definition isalnum :: "byte \<Rightarrow> bool" where
  "isalnum b \<longleftrightarrow> isdigit b \<or> 65 \<le> b \<and> b \<le> 90 \<or> 97 \<le> b \<and> b \<le> 122"

text \<open>The two loops of \<open>getToken\<close>; the list is what is left from \<open>in\<close> up to \<open>stop\<close>.\<close>

fun skip_separators :: "byte list \<Rightarrow> byte list" where
  "skip_separators [] = []"
| "skip_separators (b # bs) = (if \<not> isalnum b then skip_separators bs else b # bs)"

fun hash_token :: "32 word \<Rightarrow> byte list \<Rightarrow> 32 word \<times> byte list" where
  "hash_token h [] = (h, [])"
| "hash_token h (b # bs) =
     (if isalnum b \<or> b = 45 \<or> b = 95 then
        hash_token (if isdigit b then h * 10 - (ucast b - 48) else h + ucast b) bs
      else (h, b # bs))"

definition getToken :: "byte list \<Rightarrow> 32 word \<times> byte list" where
  "getToken bs = hash_token 0 (skip_separators bs)"

lemma length_skip_separators: "length (skip_separators bs) \<le> length bs"
  by (induction bs) auto

lemma length_hash_token: "hash_token h bs = (h', rest) \<Longrightarrow> length rest \<le> length bs \<and> (h' \<noteq> h \<longrightarrow> length rest < length bs)"
proof (induction bs arbitrary: h h' rest)
  case (Cons b bs)
  then show ?case by (fastforce split: if_splits)
qed simp

lemma getToken_length: "(tok, rest) = getToken bs \<Longrightarrow> tok \<noteq> 0 \<Longrightarrow> length rest < length bs"
  using length_hash_token [of 0 "skip_separators bs" tok rest] length_skip_separators [of bs]
  by (auto simp: getToken_def dest: sym)

lemma getToken_shrinks: "fst (getToken bs) \<noteq> 0 \<Longrightarrow> length (snd (getToken bs)) < length bs"
  by (rule getToken_length) simp_all

section \<open>ExtensionsParser\<close>

datatype last_integer = Null_ptr | Server_bits | Client_bits

record extensions_parser =
  lastInteger :: last_integer
  perMessageDeflate :: bool
  serverNoContextTakeover :: bool
  clientNoContextTakeover :: bool
  serverMaxWindowBits :: "32 word"
  clientMaxWindowBits :: "32 word"

definition empty_parser :: extensions_parser where
  "empty_parser = \<lparr>lastInteger = Null_ptr, perMessageDeflate = False, serverNoContextTakeover = False,
     clientNoContextTakeover = False, serverMaxWindowBits = 0, clientMaxWindowBits = 0\<rparr>"

function find_deflate :: "32 word \<Rightarrow> byte list \<Rightarrow> 32 word \<times> byte list" where
  "find_deflate tok bs =
     (if tok \<noteq> 0 \<and> tok \<noteq> TOK_PERMESSAGE_DEFLATE then
        (case getToken bs of (tok', rest) \<Rightarrow> if tok' = 0 then (0, rest) else find_deflate tok' rest)
      else (tok, bs))"
  by pat_completeness auto
termination by (relation "measure (length \<circ> snd)") (auto intro!: getToken_shrinks dest: arg_cong [of _ _ fst])

definition set_last :: "last_integer \<Rightarrow> 32 word \<Rightarrow> extensions_parser \<Rightarrow> extensions_parser" where
  "set_last l v p = (case l of Null_ptr \<Rightarrow> p | Server_bits \<Rightarrow> p\<lparr>serverMaxWindowBits := v\<rparr>
     | Client_bits \<Rightarrow> p\<lparr>clientMaxWindowBits := v\<rparr>)"

text \<open>The body of the \<open>switch\<close> for a nonzero token other than \<open>TOK_PERMESSAGE_DEFLATE\<close>.\<close>

definition read_token :: "32 word \<Rightarrow> extensions_parser \<Rightarrow> extensions_parser" where
  "read_token tok p =
     (if tok = TOK_SERVER_NO_CONTEXT_TAKEOVER then p\<lparr>serverNoContextTakeover := True\<rparr>
      else if tok = TOK_CLIENT_NO_CONTEXT_TAKEOVER then p\<lparr>clientNoContextTakeover := True\<rparr>
      else if tok = TOK_SERVER_MAX_WINDOW_BITS then p\<lparr>serverMaxWindowBits := 1, lastInteger := Server_bits\<rparr>
      else if tok = TOK_CLIENT_MAX_WINDOW_BITS then p\<lparr>clientMaxWindowBits := 1, lastInteger := Client_bits\<rparr>
      else if sint tok < 0 \<and> lastInteger p \<noteq> Null_ptr then set_last (lastInteger p) (- tok) p
      else p)"

function read_parameters :: "byte list \<Rightarrow> extensions_parser \<Rightarrow> extensions_parser" where
  "read_parameters bs p =
     (case getToken bs of (tok, rest) \<Rightarrow>
        if tok = 0 \<or> tok = TOK_PERMESSAGE_DEFLATE then p
        else read_parameters rest (read_token tok p))"
  by pat_completeness auto
termination by (relation "measure (length \<circ> fst)") (auto intro: getToken_length)

declare find_deflate.simps [simp del] read_parameters.simps [simp del]

definition ExtensionsParser :: "byte list \<Rightarrow> extensions_parser" where
  "ExtensionsParser data =
     (case find_deflate 1 data of (tok, rest) \<Rightarrow>
        read_parameters rest (empty_parser\<lparr>perMessageDeflate := (tok = TOK_PERMESSAGE_DEFLATE)\<rparr>))"

section \<open>ExtensionsNegotiator\<close>

definition generateOffer :: "32 word \<Rightarrow> byte list" where
  "generateOffer options =
     (if options AND PERMESSAGE_DEFLATE \<noteq> 0 then
        ascii ''permessage-deflate'' @
        (if options AND CLIENT_NO_CONTEXT_TAKEOVER \<noteq> 0 then ascii ''; client_no_context_takeover'' else [])
      else [])"

definition readOffer :: "bool \<Rightarrow> byte list \<Rightarrow> 32 word \<Rightarrow> 32 word" where
  "readOffer isServer offer options =
     (if isServer then
        let p = ExtensionsParser offer in
        if options AND PERMESSAGE_DEFLATE \<noteq> 0 \<and> perMessageDeflate p then
          let options = (if clientNoContextTakeover p \<or> options AND CLIENT_NO_CONTEXT_TAKEOVER \<noteq> 0
                         then options OR CLIENT_NO_CONTEXT_TAKEOVER else options)
          in if serverNoContextTakeover p then options OR SERVER_NO_CONTEXT_TAKEOVER
             else options AND NOT SERVER_NO_CONTEXT_TAKEOVER
        else options AND NOT PERMESSAGE_DEFLATE
      else options)"

lemma length_generateOffer: "length (generateOffer options) \<le> 46"
  by (simp add: generateOffer_def)

lemma generateOffer_cases:
  "generateOffer options \<in> {[], ascii ''permessage-deflate'', ascii ''permessage-deflate; client_no_context_takeover''}"
  by (auto simp: generateOffer_def)

lemma parse_generated_offers:
  "ExtensionsParser [] = empty_parser"
  "ExtensionsParser (ascii ''permessage-deflate'') = empty_parser\<lparr>perMessageDeflate := True\<rparr>"
  "ExtensionsParser (ascii ''permessage-deflate; client_no_context_takeover'') =
     empty_parser\<lparr>perMessageDeflate := True, clientNoContextTakeover := True\<rparr>"
  by code_simp+

text \<open>
  C35: Two sides that both offer compression agree on it. A server with options \<open>s\<close> that reads the
  offer a client generates from its options \<open>c\<close> keeps \<open>PERMESSAGE_DEFLATE\<close> exactly when both have
  it; then context takeover by the client is off when either side asked for that, context takeover
  by the server stays on, and nothing else in the options changes.
\<close>

theorem negotiation_agrees:
  "readOffer True (generateOffer c) s =
     (if c AND PERMESSAGE_DEFLATE \<noteq> 0 \<and> s AND PERMESSAGE_DEFLATE \<noteq> 0 then
        (if c AND CLIENT_NO_CONTEXT_TAKEOVER = 0 \<and> s AND CLIENT_NO_CONTEXT_TAKEOVER = 0
         then s else s OR CLIENT_NO_CONTEXT_TAKEOVER) AND NOT SERVER_NO_CONTEXT_TAKEOVER
      else s AND NOT PERMESSAGE_DEFLATE)"
proof -
  have p: "ExtensionsParser (generateOffer c) = empty_parser
    \<lparr>perMessageDeflate := c AND PERMESSAGE_DEFLATE \<noteq> 0,
     clientNoContextTakeover := c AND PERMESSAGE_DEFLATE \<noteq> 0 \<and> c AND CLIENT_NO_CONTEXT_TAKEOVER \<noteq> 0\<rparr>"
  proof (cases "c AND PERMESSAGE_DEFLATE = 0")
    case True
    then show ?thesis by (simp add: generateOffer_def parse_generated_offers) (simp add: empty_parser_def)
  next
    case f: False
    show ?thesis
    proof (cases "c AND CLIENT_NO_CONTEXT_TAKEOVER = 0")
      case True
      with f have "generateOffer c = ascii ''permessage-deflate''" by (simp add: generateOffer_def)
      with f True show ?thesis by (simp add: parse_generated_offers del: ascii_simps) (simp add: empty_parser_def)
    next
      case False
      with f have "generateOffer c = ascii ''permessage-deflate; client_no_context_takeover''"
        by (simp add: generateOffer_def)
      with f False show ?thesis by (simp add: parse_generated_offers del: ascii_simps)
    qed
  qed
  show ?thesis unfolding readOffer_def p by (auto simp: Let_def empty_parser_def)
qed

lemma option_bits:
  "PERMESSAGE_DEFLATE = push_bit 0 1" "SERVER_NO_CONTEXT_TAKEOVER = push_bit 1 1" "CLIENT_NO_CONTEXT_TAKEOVER = push_bit 2 1"
  by (simp_all add: option_defs)

lemma and_bit_iff: "(w::32 word) AND push_bit k 1 \<noteq> 0 \<longleftrightarrow> bit w k"
  by (simp add: bit_iff_and_push_bit_not_eq_0)

text \<open>
  Whatever a client sends as its offer, the server never turns compression on that it was not
  configured for: the negotiated options have \<open>PERMESSAGE_DEFLATE\<close> exactly when they had it before
  and the parser found the extension, and all options but the three of the extension are unchanged.
\<close>

theorem readOffer_respects_options:
  "(readOffer isServer offer s AND PERMESSAGE_DEFLATE \<noteq> 0 \<longleftrightarrow>
     s AND PERMESSAGE_DEFLATE \<noteq> 0 \<and> (if isServer then perMessageDeflate (ExtensionsParser offer) else True)) \<and>
   readOffer isServer offer s AND NOT 7 = s AND NOT 7"
proof
  show "readOffer isServer offer s AND PERMESSAGE_DEFLATE \<noteq> 0 \<longleftrightarrow>
     s AND PERMESSAGE_DEFLATE \<noteq> 0 \<and> (if isServer then perMessageDeflate (ExtensionsParser offer) else True)"
    unfolding readOffer_def option_bits and_bit_iff by (auto simp: Let_def bit_simps)
  have set: "a AND NOT 7 = 0 \<Longrightarrow> (x OR a) AND NOT 7 = x AND NOT 7" for x a :: "32 word"
    by (simp only: bit.conj_disj_distrib2) simp
  have clear: "a OR 7 = 7 \<Longrightarrow> (x AND NOT a) AND NOT 7 = x AND NOT 7" for x a :: "32 word"
    by (simp only: and.assoc bit.de_Morgan_disj [symmetric])
  have bits: "PERMESSAGE_DEFLATE OR 7 = 7" "SERVER_NO_CONTEXT_TAKEOVER OR 7 = 7"
    "CLIENT_NO_CONTEXT_TAKEOVER AND NOT 7 = 0" "SERVER_NO_CONTEXT_TAKEOVER AND NOT 7 = 0"
    by (simp_all add: option_defs)
  show "readOffer isServer offer s AND NOT 7 = s AND NOT 7"
    by (simp only: readOffer_def Let_def set clear bits split: if_split) (simp only: simp_thms)
qed

end
