(* ===== verification/HttpParser.thy ===== *)
theory HttpParser
  imports Extensions
begin

text \<open>
  The HTTP header parser of uWebSockets: \<open>getHeaders\<close> (\<open>HTTPSocket.cpp\<close>), which works in
  place on the receive buffer, and the accessors of \<open>Header\<close> and \<open>HttpRequest\<close>
  (\<open>HTTPSocket.h\<close>). A \<open>char *\<close> is an address of the buffer memory, \<open>nullptr\<close> is \<open>None\<close>. The
  address \<open>e\<close> is the parameter \<open>end\<close>, where the caller has stored a carriage return; a loop that
  would run past it has no value.
\<close>

record header =
  key :: "nat option"
  val :: "nat option"
  keyLength :: nat
  valueLength :: nat

definition null_header :: header where
  "null_header = \<lparr>key = None, val = None, keyLength = 0, valueLength = 0\<rparr>"

definition toString :: "mem \<Rightarrow> header \<Rightarrow> byte list" where
  "toString m h = rd m (the (val h)) (valueLength h)"

section \<open>getHeaders\<close>

text \<open>\<open>char\<close> is signed: a byte above 127 is negative.\<close>

definition key_char :: "byte \<Rightarrow> bool" where
  "key_char b \<longleftrightarrow> b \<noteq> 58 \<and> sint b > 32"

definition separator :: "byte \<Rightarrow> bool" where
  "separator b \<longleftrightarrow> (b = 58 \<or> sint b < 33) \<and> b \<noteq> 13"

function scan_key :: "mem \<Rightarrow> nat \<Rightarrow> nat \<Rightarrow> (mem \<times> nat) option" where
  "scan_key m b e =
     (if e < b then None
      else if key_char (m b) then scan_key (m(b := m b OR 32)) (b + 1) e
      else Some (m, b))"
  by pat_completeness auto
termination by (relation "measure (\<lambda>(m, b, e). Suc e - b)") auto

function skip_separator :: "mem \<Rightarrow> nat \<Rightarrow> nat \<Rightarrow> nat option" where
  "skip_separator m b e =
     (if e < b then None else if separator (m b) then skip_separator m (b + 1) e else Some b)"
  by pat_completeness auto
termination by (relation "measure (\<lambda>(m, b, e). Suc e - b)") auto

text \<open>\<open>memchr(buffer, '\r', end - buffer)\<close>.\<close>

function find_cr :: "mem \<Rightarrow> nat \<Rightarrow> nat \<Rightarrow> nat option" where
  "find_cr m b e = (if e \<le> b then None else if m b = 13 then Some b else find_cr m (b + 1) e)"
  by pat_completeness auto
termination by (relation "measure (\<lambda>(m, b, e). e - b)") auto

declare scan_key.simps [simp del] skip_separator.simps [simp del] find_cr.simps [simp del]

text \<open>
  The first argument counts the turns of the \<open>for\<close> loop that are left, \<open>first\<close> is \<open>i = 0\<close>.
  \<open>None\<close>: a loop runs past the end. \<open>Some (m, None)\<close>: \<open>nullptr\<close> is returned. \<open>Some (m, Some (p, hs))\<close>:
  \<open>p\<close> is returned, and the array holds \<open>hs\<close> followed by an entry whose key is \<open>nullptr\<close>.
\<close>

fun getHeaders :: "nat \<Rightarrow> bool \<Rightarrow> mem \<Rightarrow> nat \<Rightarrow> nat \<Rightarrow> header list \<Rightarrow> (mem \<times> (nat \<times> header list) option) option" where
  "getHeaders 0 first m b e hs = Some (m, None)"
| "getHeaders (Suc n) first m k e hs =
     (case scan_key m k e of
        None \<Rightarrow> None
      | Some (m, b) \<Rightarrow>
          if m b = 13 then
            (if b \<noteq> e \<and> m (b + 1) = 10 \<and> \<not> first then Some (m, Some (b + 2, hs)) else Some (m, None))
          else
            (case skip_separator m (b + 1) e of
               None \<Rightarrow> None
             | Some v \<Rightarrow>
                 (case find_cr m v e of
                    None \<Rightarrow> Some (m, None)
                  | Some q \<Rightarrow>
                      if m (q + 1) = 10 then
                        getHeaders n False m (q + 2) e
                          (hs @ [\<lparr>key = Some k, val = Some v, keyLength = b - k, valueLength = q - v\<rparr>])
                      else Some (m, None))))"

definition MAX_HEADERS :: nat where "MAX_HEADERS = 100"

section \<open>HttpRequest\<close>

type_synonym request = "header list option"

text \<open>\<open>strncmp\<close> with a key that holds no NUL: the bytes are equal.\<close>

definition key_is :: "mem \<Rightarrow> byte list \<Rightarrow> header \<Rightarrow> bool" where
  "key_is m k h \<longleftrightarrow> keyLength h = length k \<and> rd m (the (key h)) (length k) = k"

definition getHeader :: "mem \<Rightarrow> request \<Rightarrow> byte list \<Rightarrow> header" where
  "getHeader m req k =
     (case req of None \<Rightarrow> null_header
      | Some hs \<Rightarrow> (case find (key_is m k) (tl hs) of None \<Rightarrow> null_header | Some h \<Rightarrow> h))"

definition getUrl :: "request \<Rightarrow> header" where
  "getUrl req = (case req of Some (h # hs) \<Rightarrow> h | _ \<Rightarrow> null_header)"

datatype http_method = METHOD_GET | METHOD_POST | METHOD_PUT | METHOD_DELETE | METHOD_PATCH | METHOD_OPTIONS
  | METHOD_HEAD | METHOD_TRACE | METHOD_CONNECT | METHOD_INVALID

definition getMethod :: "mem \<Rightarrow> request \<Rightarrow> http_method" where
  "getMethod m req =
     (case req of
        Some (h # hs) \<Rightarrow>
          if keyLength h = 3 then
            (if key_is m (ascii ''get'') h then METHOD_GET
             else if key_is m (ascii ''put'') h then METHOD_PUT else METHOD_INVALID)
          else if keyLength h = 4 then
            (if key_is m (ascii ''post'') h then METHOD_POST
             else if key_is m (ascii ''head'') h then METHOD_HEAD else METHOD_INVALID)
          else if keyLength h = 5 then
            (if key_is m (ascii ''patch'') h then METHOD_PATCH
             else if key_is m (ascii ''trace'') h then METHOD_TRACE else METHOD_INVALID)
          else if keyLength h = 6 then
            (if key_is m (ascii ''delete'') h then METHOD_DELETE else METHOD_INVALID)
          else if keyLength h = 7 then
            (if key_is m (ascii ''options'') h then METHOD_OPTIONS
             else if key_is m (ascii ''connect'') h then METHOD_CONNECT else METHOD_INVALID)
          else METHOD_INVALID
      | _ \<Rightarrow> METHOD_INVALID)"

section \<open>The parser stays in the buffer\<close>

lemma scan_key_bounds:
  assumes "b \<le> e" "m e = 13"
  shows "\<exists>m' p. scan_key m b e = Some (m', p) \<and> b \<le> p \<and> p \<le> e \<and> \<not> key_char (m' p) \<and> agree_off m m' b p"
  using assms
proof (induction m b e rule: scan_key.induct)
  case (1 m b e)
  show ?case
  proof (cases "key_char (m b)")
    case True
    then have "b \<noteq> e" using 1(3) by (auto simp: key_char_def 1(3))
    then obtain m' p where "scan_key (m(b := m b OR 32)) (b + 1) e = Some (m', p)" "b + 1 \<le> p" "p \<le> e"
      "\<not> key_char (m' p)" "agree_off (m(b := m b OR 32)) m' (b + 1) p"
      using 1 True by fastforce
    moreover from this have "agree_off m m' b p" by (auto simp: agree_off_def)
    ultimately show ?thesis
      using True 1(2) by (subst scan_key.simps) auto
  next
    case False
    then show ?thesis using 1(2) by (subst scan_key.simps) auto
  qed
qed

lemma skip_separator_bounds:
  "b \<le> e \<Longrightarrow> m e = 13 \<Longrightarrow> \<exists>p. skip_separator m b e = Some p \<and> b \<le> p \<and> p \<le> e"
proof (induction m b e rule: skip_separator.induct)
  case (1 m b e)
  show ?case
  proof (cases "separator (m b)")
    case True
    then have "b \<noteq> e" using 1(3) by (auto simp: separator_def)
    then obtain p where "skip_separator m (b + 1) e = Some p" "b + 1 \<le> p" "p \<le> e"
      using 1 True by fastforce
    then show ?thesis using True 1(2) by (subst skip_separator.simps) auto
  next
    case False
    then show ?thesis using 1(2) by (subst skip_separator.simps) auto
  qed
qed

lemma find_cr_bounds: "find_cr m b e = Some q \<Longrightarrow> b \<le> q \<and> q < e \<and> m q = 13"
proof (induction m b e rule: find_cr.induct)
  case (1 m b e)
  from 1(2) show ?case
    by (subst (asm) find_cr.simps) (auto split: if_splits dest: 1(1))
qed

definition header_in :: "nat \<Rightarrow> nat \<Rightarrow> header \<Rightarrow> bool" where
  "header_in lo hi h \<longleftrightarrow> (\<exists>k v. key h = Some k \<and> val h = Some v \<and> lo \<le> k \<and> k + keyLength h < v \<and> v + valueLength h + 2 \<le> hi)"

lemma header_in_mono: "header_in lo hi h \<Longrightarrow> lo' \<le> lo \<Longrightarrow> hi \<le> hi' \<Longrightarrow> header_in lo' hi' h"
  by (fastforce simp: header_in_def)

lemma getHeaders_extends:
  "getHeaders n first m k e hs = Some (m', Some (p, hs')) \<Longrightarrow> \<exists>hs2. hs' = hs @ hs2 \<and> (first \<longrightarrow> hs2 \<noteq> [])"
proof (induction n arbitrary: first m k hs)
  case (Suc n)
  from Suc.prems show ?case
    by (fastforce split: option.splits if_splits dest: Suc.IH)
qed simp

lemma getHeaders_safe:
  assumes "k \<le> e" "m e = 13" "\<forall>h\<in>set hs. header_in lo k h" "lo \<le> k"
  shows "\<exists>m' r. getHeaders n first m k e hs = Some (m', r) \<and> agree_off m m' k e \<and>
    (\<forall>p hs'. r = Some (p, hs') \<longrightarrow> k < p \<and> p \<le> e \<and> (\<forall>h\<in>set hs'. header_in lo p h) \<and>
       (length hs' \<le> length hs + n) \<and> (first \<longrightarrow> hs' \<noteq> []))"
  using assms
proof (induction n arbitrary: first m k hs)
  case 0
  then show ?case by simp
next
  case (Suc n)
  obtain m1 b where b: "scan_key m k e = Some (m1, b)" "k \<le> b" "b \<le> e" "agree_off m m1 k b"
    using scan_key_bounds [of k e m] Suc.prems(1,2) by auto
  have e1: "m1 e = 13" using b(3,4) Suc.prems(2) by (auto simp: agree_off_def)
  have ag: "agree_off m m1 k e" using b(3,4) by (auto elim: agree_off_mono)
  show ?case
  proof (cases "m1 b = 13")
    case True
    have "b + 2 \<le> e" if "b \<noteq> e" "m1 (b + 1) = 10"
      using that b(3) e1 by (cases "b + 1 = e") auto
    moreover have "\<forall>h\<in>set hs. header_in lo (b + 2) h"
      using Suc.prems(3) b(2) header_in_mono by force
    ultimately show ?thesis
      using b ag True by auto
  next
    case False
    then have "b < e" using b(3) e1 by (cases "b = e") auto
    then obtain v where v: "skip_separator m1 (b + 1) e = Some v" "b + 1 \<le> v" "v \<le> e"
      using skip_separator_bounds [of "b + 1" e m1] e1 by auto
    show ?thesis
    proof (cases "find_cr m1 v e")
      case None
      then show ?thesis using b v False ag by simp
    next
      case (Some q)
      then have q: "v \<le> q" "q < e" using find_cr_bounds by auto
      show ?thesis
      proof (cases "m1 (q + 1) = 10")
        case f: False
        then show ?thesis using b v False ag Some by simp
      next
        case True
        then have "q + 1 \<noteq> e" using e1 by auto
        with q have q2: "q + 2 \<le> e" by simp
        let ?h = "\<lparr>key = Some k, val = Some v, keyLength = b - k, valueLength = q - v\<rparr>"
        have "header_in lo (q + 2) ?h" using b(2) v(2) q Suc.prems(4) by (simp add: header_in_def)
        then have "\<forall>h\<in>set (hs @ [?h]). header_in lo (q + 2) h"
          using Suc.prems(3) header_in_mono [of lo k _ lo "q + 2"] b(2) v(2) q by auto
        then obtain m' r where r: "getHeaders n False m1 (q + 2) e (hs @ [?h]) = Some (m', r)"
          "agree_off m1 m' (q + 2) e"
          "\<forall>p hs'. r = Some (p, hs') \<longrightarrow> q + 2 < p \<and> p \<le> e \<and> (\<forall>h\<in>set hs'. header_in lo p h) \<and>
             length hs' \<le> length (hs @ [?h]) + n"
          using Suc.IH [of "q + 2" m1 "hs @ [?h]" False] q2 e1 Suc.prems(4) b(2) v(2) q(1) by auto
        have ne: "r = Some (p, hs') \<Longrightarrow> hs' \<noteq> []" for p hs'
          using r(1) getHeaders_extends by fastforce
        have "agree_off m1 m' k e" using r(2) b(2) v(2) q by (auto elim: agree_off_mono)
        with ag have "agree_off m m' k e" by (rule agree_off_trans)
        then show ?thesis
          using r b v False Some True q ne by auto
      qed
    qed
  qed
qed

section \<open>Parsing a rendered request\<close>

definition to_lower :: "byte \<Rightarrow> byte" where
  "to_lower b = b OR 32"

type_synonym line = "byte list \<times> byte list \<times> byte list"

definition line_ok :: "line \<Rightarrow> bool" where
  "line_ok l = (case l of (k, sep, v) \<Rightarrow>
     list_all key_char k \<and> sep \<noteq> [] \<and> \<not> key_char (hd sep) \<and> hd sep \<noteq> 13 \<and> list_all separator (tl sep) \<and>
     13 \<notin> set v \<and> (v = [] \<or> \<not> separator (hd v)))"

definition line_text :: "line \<Rightarrow> byte list" where
  "line_text l = (case l of (k, sep, v) \<Rightarrow> k @ sep @ v @ [13, 10])"

definition header_of :: "mem \<Rightarrow> nat \<Rightarrow> line \<Rightarrow> header \<Rightarrow> bool" where
  "header_of m hi l h = (case l of (k, sep, v) \<Rightarrow>
     \<exists>a b. key h = Some a \<and> val h = Some b \<and> keyLength h = length k \<and> valueLength h = length v \<and>
       a + length k \<le> hi \<and> b + length v < hi \<and> rd m a (length k) = map to_lower k \<and> rd m b (length v) = v \<and>
       m (b + length v) = 13)"

lemma rd_append_iff: "rd m a (length (xs @ ys)) = xs @ ys \<longleftrightarrow> rd m a (length xs) = xs \<and> rd m (a + length xs) (length ys) = ys"
  by (simp add: rd_add)

lemma rd_Cons_iff: "rd m a (length (x # xs)) = x # xs \<longleftrightarrow> m a = x \<and> rd m (Suc a) (length xs) = xs"
  by (simp add: rd_Suc)

lemma wr_Cons: "wr m a (x # xs) = wr (m(a := x)) (Suc a) xs"
  by (rule ext) (auto simp: wr_def nth_Cons' )

lemma wr_Nil [simp]: "wr m a [] = m"
  by (rule ext) (auto simp: wr_def)

lemma scan_key_run:
  "rd m b (length k) = k \<Longrightarrow> list_all key_char k \<Longrightarrow> b + length k \<le> e \<Longrightarrow> \<not> key_char (m (b + length k)) \<Longrightarrow>
    scan_key m b e = Some (wr m b (map to_lower k), b + length k)"
proof (induction k arbitrary: m b)
  case Nil
  then show ?case by (subst scan_key.simps) simp
next
  case (Cons c k)
  then have c: "m b = c" "rd m (Suc b) (length k) = k" by (simp_all only: rd_Cons_iff)
  let ?m = "m(b := c OR 32)"
  have "scan_key ?m (Suc b) e = Some (wr ?m (Suc b) (map to_lower k), Suc b + length k)"
  proof (rule Cons.IH)
    show "rd ?m (Suc b) (length k) = k" using c(2) rd_cong [of "Suc b" "length k" ?m m] by simp
  qed (use Cons.prems in simp_all)
  then show ?case
    using Cons.prems c(1) by (subst scan_key.simps) (simp add: wr_Cons to_lower_def)
qed

lemma skip_separator_run:
  "rd m b (length s) = s \<Longrightarrow> list_all separator s \<Longrightarrow> b + length s \<le> e \<Longrightarrow> \<not> separator (m (b + length s)) \<Longrightarrow>
    skip_separator m b e = Some (b + length s)"
proof (induction s arbitrary: b)
  case Nil
  then show ?case by (subst skip_separator.simps) simp
next
  case (Cons c s)
  then have "m b = c" "rd m (Suc b) (length s) = s" by (simp_all only: rd_Cons_iff)
  with Cons show ?case by (subst skip_separator.simps) simp
qed

lemma find_cr_run:
  "rd m b (length v) = v \<Longrightarrow> 13 \<notin> set v \<Longrightarrow> b + length v < e \<Longrightarrow> m (b + length v) = 13 \<Longrightarrow>
    find_cr m b e = Some (b + length v)"
proof (induction v arbitrary: b)
  case Nil
  then show ?case by (subst find_cr.simps) simp
next
  case (Cons c v)
  then have "m b = c" "rd m (Suc b) (length v) = v" by (simp_all only: rd_Cons_iff)
  with Cons show ?case by (subst find_cr.simps) simp
qed

lemma getHeaders_line:
  assumes "line_ok (k, sep, v)" "rd m b (length (line_text (k, sep, v))) = line_text (k, sep, v)"
    "b + length (line_text (k, sep, v)) \<le> e"
  shows "getHeaders (Suc n) first m b e hs =
    getHeaders n False (wr m b (map to_lower k)) (b + length (line_text (k, sep, v))) e
      (hs @ [\<lparr>key = Some b, val = Some (b + length k + length sep), keyLength = length k, valueLength = length v\<rparr>])"
proof -
  obtain c s where sep: "sep = c # s" using assms(1) by (cases sep) (auto simp: line_ok_def)
  have ok: "list_all key_char k" "\<not> key_char c" "c \<noteq> 13" "list_all separator s" "13 \<notin> set v" "v = [] \<or> \<not> separator (hd v)"
    using assms(1) sep by (auto simp: line_ok_def)
  have "rd m b (length (k @ c # s @ v @ [13, 10])) = k @ c # s @ v @ [13, 10]"
    using assms(2) sep by (simp add: line_text_def)
  then have m: "rd m b (length k) = k" "m (b + length k) = c" "rd m (Suc (b + length k)) (length s) = s"
    "rd m (Suc (b + length k) + length s) (length v) = v"
    "m (Suc (b + length k) + length s + length v) = 13" "m (Suc (Suc (b + length k) + length s + length v)) = 10"
    unfolding rd_append_iff rd_Cons_iff by simp_all
  have le: "b + length k + 1 + length s + length v + 2 \<le> e" using assms(3) sep by (simp add: line_text_def)
  let ?m = "wr m b (map to_lower k)"
  have above: "b + length k \<le> i \<Longrightarrow> ?m i = m i" for i by (simp add: wr_def)
  have m': "?m (b + length k) = c" "rd ?m (Suc (b + length k)) (length s) = s"
    "rd ?m (Suc (b + length k) + length s) (length v) = v"
    "?m (Suc (b + length k) + length s + length v) = 13" "?m (Suc (Suc (b + length k) + length s + length v)) = 10"
    using m above by (simp_all add: rd_wr_out)
  have 1: "scan_key m b e = Some (?m, b + length k)"
    using m(1,2) ok le by (intro scan_key_run) simp_all
  let ?v = "Suc (b + length k) + length s"
  have nsep: "\<not> separator (?m ?v)"
  proof (cases v)
    case Nil
    then show ?thesis using m'(4) by (simp add: separator_def)
  next
    case (Cons x v')
    then have "?m ?v = x" using m'(3) by (simp only: rd_Cons_iff)
    then show ?thesis using ok(6) Cons by simp
  qed
  have 2: "skip_separator ?m (b + length k + 1) e = Some ?v"
    using skip_separator_run [of ?m "Suc (b + length k)" s e] m'(2) ok(4) le nsep by simp
  have 3: "find_cr ?m ?v e = Some (?v + length v)"
    using m'(3,4) ok(5) le by (intro find_cr_run) simp_all
  show ?thesis
    using 1 2 3 m'(1,5) ok(3) sep by (simp add: line_text_def add.assoc)
qed

lemma header_of_frame: "header_of m hi l h \<Longrightarrow> agree_off m m' hi hi' \<Longrightarrow> hi \<le> hi2 \<Longrightarrow> header_of m' hi2 l h"
proof -
  assume a: "header_of m hi l h" "agree_off m m' hi hi'" "hi \<le> hi2"
  have "a + n \<le> hi \<Longrightarrow> rd m' a n = rd m a n" for a n
    using a(2) by (intro rd_cong) (auto simp: agree_off_def)
  moreover have "i < hi \<Longrightarrow> m' i = m i" for i using a(2) by (auto simp: agree_off_def)
  ultimately show ?thesis using a(1,3) by (fastforce simp: header_of_def split: prod.splits)
qed

lemma getHeaders_render:
  assumes "list_all line_ok ls" "rd m b (length (concat (map line_text ls) @ [13, 10])) = concat (map line_text ls) @ [13, 10]"
    "b + length (concat (map line_text ls) @ [13, 10]) \<le> e" "length ls < n" "ls \<noteq> [] \<or> \<not> first"
  shows "\<exists>m' hs'. getHeaders n first m b e hs =
      Some (m', Some (b + length (concat (map line_text ls) @ [13, 10]), hs @ hs')) \<and>
    agree_off m m' b (b + length (concat (map line_text ls))) \<and>
    list_all2 (header_of m' (b + length (concat (map line_text ls)))) ls hs'"
  using assms
proof (induction ls arbitrary: n first m b hs)
  case Nil
  then obtain n' where n: "n = Suc n'" by (cases n) auto
  have m: "m b = 13" "m (Suc b) = 10" using Nil.prems(2) by (simp_all add: rd_def upt_rec)
  have "scan_key m b e = Some (m, b)"
    using m(1) Nil.prems(3) by (subst scan_key.simps) (simp add: key_char_def)
  then show ?case using m Nil.prems(3,5) n by auto
next
  case (Cons l ls)
  obtain k sep v where l: "l = (k, sep, v)" by (cases l)
  obtain n' where n: "n = Suc n'" using Cons.prems(4) by (cases n) auto
  let ?t = "line_text l" and ?r = "concat (map line_text ls)"
  let ?m = "wr m b (map to_lower k)" and ?b = "b + length ?t"
  let ?h = "\<lparr>key = Some b, val = Some (b + length k + length sep), keyLength = length k, valueLength = length v\<rparr>"
  have ok: "line_ok l" "list_all line_ok ls" using Cons.prems(1) by simp_all
  have "rd m b (length (?t @ ?r @ [13, 10])) = ?t @ ?r @ [13, 10]" using Cons.prems(2) by (simp only: append_assoc list.map concat.simps)
  then have rdt: "rd m b (length ?t) = ?t" "rd m ?b (length (?r @ [13, 10])) = ?r @ [13, 10]"
    unfolding rd_append_iff [of m b ?t] by simp_all
  have lk: "length k < length ?t" by (simp add: l line_text_def)
  have step: "getHeaders n first m b e hs = getHeaders n' False ?m ?b e (hs @ [?h])"
    unfolding n l by (rule getHeaders_line) (use ok rdt Cons.prems(3) in \<open>auto simp: l\<close>)
  have "rd ?m ?b (length (?r @ [13, 10])) = ?r @ [13, 10]"
    using rdt(2) lk by (subst rd_wr_out) auto
  then obtain m' hs' where IH: "getHeaders n' False ?m ?b e (hs @ [?h]) = Some (m', Some (?b + length (?r @ [13, 10]), (hs @ [?h]) @ hs'))"
    "agree_off ?m m' ?b (?b + length ?r)" "list_all2 (header_of m' (?b + length ?r)) ls hs'"
    using Cons.IH [of ?m ?b n' False "hs @ [?h]"] ok(2) Cons.prems(3,4) n by auto
  have h: "header_of ?m ?b l ?h"
  proof -
    have "rd m b (length (k @ sep @ v @ [13, 10])) = k @ sep @ v @ [13, 10]" using rdt(1) l by (simp add: line_text_def)
    then have v: "rd m (b + length k + length sep) (length v) = v" "m (b + length k + length sep + length v) = 13"
      unfolding rd_append_iff rd_Cons_iff by (simp_all add: add.assoc)
    have "rd ?m (b + length k + length sep) (length v) = v" using v(1) by (simp add: rd_wr_out)
    moreover have "?m (b + length k + length sep + length v) = 13" using v(2) by (simp add: wr_def)
    moreover have "rd ?m b (length k) = map to_lower k" using rd_wr [of m b "map to_lower k"] by simp
    ultimately show ?thesis by (simp add: header_of_def l line_text_def)
  qed
  then have "header_of m' (?b + length ?r) l ?h" using IH(2) by (rule header_of_frame) simp
  moreover have "agree_off m m' b (?b + length ?r)"
  proof (rule agree_off_trans)
    show "agree_off m ?m b (?b + length ?r)" using lk by (intro agree_off_wr) auto
    show "agree_off ?m m' b (?b + length ?r)" using IH(2) by (rule agree_off_mono) simp_all
  qed
  ultimately show ?case using IH(1,3) step by (intro exI [of _ m'] exI [of _ "?h # hs'"]) (simp add: add.assoc)
qed

definition line_key_is :: "byte list \<Rightarrow> line \<Rightarrow> bool" where
  "line_key_is k l \<longleftrightarrow> map to_lower (fst l) = k"

lemma key_is_header_of: "header_of m hi l h \<Longrightarrow> key_is m k h \<longleftrightarrow> line_key_is k l"
  by (auto simp: header_of_def key_is_def line_key_is_def split: prod.splits)

lemma find_header_of:
  "list_all2 (header_of m hi) ls hs \<Longrightarrow>
    rel_option (header_of m hi) (find (line_key_is k) ls) (find (key_is m k) hs)"
  by (induction ls hs rule: list_all2_induct) (auto simp: key_is_header_of)

definition finds :: "mem \<Rightarrow> header \<Rightarrow> line option \<Rightarrow> bool" where
  "finds m h r = (case r of None \<Rightarrow> h = null_header
     | Some (k, sep, v) \<Rightarrow> key h \<noteq> None \<and> valueLength h = length v \<and> toString m h = v)"

lemma getHeader_render:
  assumes "list_all2 (header_of m hi) ls hs"
  shows "finds m (getHeader m (Some hs) k) (find (line_key_is k) (tl ls))"
proof -
  have "list_all2 (header_of m hi) (tl ls) (tl hs)" using assms by (cases ls; cases hs) auto
  from find_header_of [OF this, of k] show ?thesis
    by (cases "find (line_key_is k) (tl ls)"; cases "find (key_is m k) (tl hs)")
       (auto simp: finds_def getHeader_def header_of_def toString_def)
qed

section \<open>Properties\<close>

text \<open>
  C34: \<open>getHeaders\<close> is safe on arbitrary input. With a carriage return stored at \<open>end\<close>, its loops
  stop there whatever the bytes before are; it only writes between the cursor and \<open>end\<close>; when it
  returns a cursor, that has advanced and is not behind \<open>end\<close>, there is a request line and at most
  \<open>MAX_HEADERS\<close> entries, and every key and value lies, in this order, in the consumed bytes.
\<close>

theorem getHeaders_memory_safe:
  assumes "k \<le> e" "m e = 13"
  shows "\<exists>m' r. getHeaders MAX_HEADERS True m k e [] = Some (m', r) \<and> agree_off m m' k e \<and>
    (\<forall>p hs. r = Some (p, hs) \<longrightarrow> k < p \<and> p \<le> e \<and> list_all (header_in k p) hs \<and> length hs \<le> MAX_HEADERS \<and> hs \<noteq> [])"
  using getHeaders_safe [of k e m "[]" k MAX_HEADERS True] assms by (simp add: list_all_iff)

theorem getHeaders_memory_safe_witness:
  "\<exists>m' r. getHeaders MAX_HEADERS True (\<lambda>i. if i = 3 then 13 else 65) 0 3 [] = Some (m', r) \<and>
    agree_off (\<lambda>i. if i = 3 then 13 else 65) m' 0 3"
  using getHeaders_memory_safe [of 0 3 "\<lambda>i. if i = 3 then 13 else 65"] by fastforce

text \<open>
  Parsing inverts rendering. For every request that is a request line and fewer than
  \<open>MAX_HEADERS - 1\<close> header lines in the buffer, \<open>getHeaders\<close> consumes exactly the request, and
  \<open>getHeader\<close> with any lower-case key finds the value of the first header line with that key in
  any letter case, byte for byte, and the null header when there is none.
\<close>

theorem http_request_roundtrip:
  assumes "list_all line_ok ls" "ls \<noteq> []" "length ls < MAX_HEADERS"
    "rd m b (length (concat (map line_text ls) @ [13, 10])) = concat (map line_text ls) @ [13, 10]"
    "b + length (concat (map line_text ls) @ [13, 10]) \<le> e"
  shows "\<exists>m' hs. getHeaders MAX_HEADERS True m b e [] =
      Some (m', Some (b + length (concat (map line_text ls) @ [13, 10]), hs)) \<and>
    length hs = length ls \<and> (\<forall>k. finds m' (getHeader m' (Some hs) k) (find (line_key_is k) (tl ls)))"
  using getHeaders_render [OF assms(1,4,5,3), of True "[]"] assms(2)
  by (fastforce dest: list_all2_lengthD intro: getHeader_render)

definition sample_lines :: "line list" where
  "sample_lines = [(ascii ''GET'', [32], ascii ''/chat HTTP/1.1''), (ascii ''Host'', [58, 32], ascii ''a.b''),
     (ascii ''Upgrade'', [58, 32], ascii ''websocket'')]"

lemma sample_lines_ok: "list_all line_ok sample_lines"
  by code_simp

theorem http_request_roundtrip_witness:
  "\<exists>m' hs. getHeaders MAX_HEADERS True (wr (\<lambda>_. 0) 20 (concat (map line_text sample_lines) @ [13, 10])) 20 500 [] =
      Some (m', Some (20 + length (concat (map line_text sample_lines) @ [13, 10]), hs)) \<and> length hs = 3 \<and>
     finds m' (getHeader m' (Some hs) (ascii ''upgrade''))
       (find (line_key_is (ascii ''upgrade'')) (tl sample_lines))"
proof -
  let ?t = "concat (map line_text sample_lines) @ [13, 10]"
  have "length ?t \<le> 100" "length sample_lines = 3" "length sample_lines < MAX_HEADERS"
    by (simp_all add: sample_lines_def line_text_def MAX_HEADERS_def)
  then show ?thesis
    using http_request_roundtrip [OF sample_lines_ok, of "wr (\<lambda>_. 0) 20 ?t" 20 500]
    by (fastforce simp del: length_append)
qed

end
