(* ===== verification/Handshake.thy ===== *)
theory Handshake
  imports HttpParser
begin

text \<open>
  The texts of the WebSocket handshake: \<open>base64\<close> and the response that
  \<open>HttpSocket<SERVER>::upgrade\<close> builds in its 1024-byte buffer (\<open>HTTPSocket.cpp\<close>), and the request
  of \<open>Hub::connect\<close> (\<open>Hub.cpp\<close>). SHA-1 is OpenSSL's and a parameter.
\<close>

section \<open>base64\<close>

definition b64 :: "byte list" where
  "b64 = ascii ''ABCDEFGHIJKLMNOPQRSTUVWXYZabcdefghijklmnopqrstuvwxyz0123456789+/''"

definition b64_0 :: "byte \<Rightarrow> byte" where "b64_0 a = drop_bit 2 a AND 63"
definition b64_1 :: "byte \<Rightarrow> byte \<Rightarrow> byte" where "b64_1 a b = push_bit 4 (a AND 3) OR drop_bit 4 (b AND 240)"
definition b64_2 :: "byte \<Rightarrow> byte \<Rightarrow> byte" where "b64_2 b c = push_bit 2 (b AND 15) OR drop_bit 6 (c AND 192)"
definition b64_3 :: "byte \<Rightarrow> byte" where "b64_3 c = c AND 63"

definition base64_group :: "byte list \<Rightarrow> nat \<Rightarrow> byte list" where
  "base64_group src i =
     [b64 ! unat (b64_0 (src ! i)), b64 ! unat (b64_1 (src ! i) (src ! (i + 1))),
      b64 ! unat (b64_2 (src ! (i + 1)) (src ! (i + 2))), b64 ! unat (b64_3 (src ! (i + 2)))]"

definition base64 :: "byte list \<Rightarrow> byte list" where
  "base64 src =
     concat (map (base64_group src) [0, 3, 6, 9, 12, 15]) @
     [b64 ! unat (b64_0 (src ! 18)), b64 ! unat (b64_1 (src ! 18) (src ! 19)),
      b64 ! unat (push_bit 2 (src ! 19 AND 15)), 61]"

text \<open>RFC 4648: 24 bits, most significant first, as four digits of six bits; \<open>=\<close> pads.\<close>

definition digit64 :: "nat \<Rightarrow> byte" where
  "digit64 d = b64 ! (d mod 64)"

fun rfc4648 :: "byte list \<Rightarrow> byte list" where
  "rfc4648 [] = []"
| "rfc4648 [a] = (let n = be_val [a, 0, 0] in [digit64 (n div 64 ^ 3), digit64 (n div 64 ^ 2), 61, 61])"
| "rfc4648 [a, b] = (let n = be_val [a, b, 0] in [digit64 (n div 64 ^ 3), digit64 (n div 64 ^ 2), digit64 (n div 64), 61])"
| "rfc4648 (a # b # c # bs) =
     (let n = be_val [a, b, c] in [digit64 (n div 64 ^ 3), digit64 (n div 64 ^ 2), digit64 (n div 64), digit64 n] @ rfc4648 bs)"

lemma unat_shifts:
  fixes a :: byte
  shows "unat (drop_bit k a) = unat a div 2 ^ k" "unat (push_bit k a) = unat a * 2 ^ k mod 256"
  by (simp_all only: drop_bit_eq_div [where 'a = nat, symmetric] unsigned_drop_bit_eq unsigned_push_bit_eq)
     (simp_all add: drop_bit_eq_div take_bit_eq_mod push_bit_eq_mult)

lemma b64_masks: "mask 6 = (63::byte)" "mask 2 = (3::byte)"
  by (simp_all add: mask_eq_exp_minus_1)

lemma b64_bytes:
  fixes a :: byte
  shows "unat (b64_0 a) = unat a div 4" "unat (b64_3 a) = unat a mod 64"
    "unat (push_bit 4 (a AND 3)) = unat a mod 4 * 16" "unat (drop_bit 4 (a AND 240)) = unat a div 16"
    "unat (push_bit 2 (a AND 15)) = unat a mod 16 * 4" "unat (drop_bit 6 (a AND 192)) = unat a div 64"
proof -
  have a: "unat a div 4 < 64" "unat a mod 4 < 4" "unat a mod 16 < 16" using unat_byte_less [of a] by (simp_all add: less_mult_imp_div_less)
  show "unat (b64_0 a) = unat a div 4" "unat (b64_3 a) = unat a mod 64"
    "unat (push_bit 4 (a AND 3)) = unat a mod 4 * 16" "unat (drop_bit 4 (a AND 240)) = unat a div 16"
    "unat (push_bit 2 (a AND 15)) = unat a mod 16 * 4" "unat (drop_bit 6 (a AND 192)) = unat a div 64"
    unfolding b64_0_def b64_3_def b64_masks [symmetric] unat_shifts unat_and_mask byte_simps
    using a by simp_all
qed

lemma unat_or_disjoint:
  fixes x y :: byte
  assumes "unat x mod 2 ^ k = 0" "unat y < 2 ^ k" "k \<le> 8"
  shows "unat (x OR y) = unat x + unat y"
proof -
  have "x AND y = 0"
  proof (rule bit_word_eqI)
    fix n assume "n < LENGTH(8)"
    have "\<not> bit x n" if "n < k"
    proof -
      have "take_bit k (unat x) = 0" using assms(1) by (simp add: take_bit_eq_mod)
      then have "\<not> bit (unat x) n" using that by (metis bit_take_bit_iff bit_0_eq bot_apply bot_bool_def)
      then show ?thesis by (simp add: bit_unsigned_iff)
    qed
    moreover have "\<not> bit y n" if "k \<le> n"
    proof -
      have "take_bit k (unat y) = unat y" using assms(2) by (simp add: take_bit_eq_mod)
      then have "\<not> bit (unat y) n" using that by (metis bit_take_bit_iff not_less)
      then show ?thesis by (simp add: bit_unsigned_iff)
    qed
    ultimately show "bit (x AND y) n = bit (0 :: byte) n" by (cases "n < k") (auto simp: bit_simps)
  qed
  then have or: "x OR y = x + y" using word_plus_and_or [of x y] by simp
  obtain q where q: "unat x = 2 ^ k * q" using assms(1) by auto
  have "unat x + unat y < 256"
  proof -
    have "unat x < 2 ^ 8" using unat_byte_less [of x] by simp
    then have "2 ^ k * q < 2 ^ k * 2 ^ (8 - k)" using q assms(3) by (simp flip: power_add)
    then have "q + 1 \<le> 2 ^ (8 - k)" by simp
    then have "2 ^ k * (q + 1) \<le> 2 ^ k * 2 ^ (8 - k)" by (intro mult_left_mono) simp_all
    also have "\<dots> = 256" using assms(3) by (simp flip: power_add)
    finally show ?thesis using q assms(2) by simp
  qed
  then show ?thesis unfolding or by (simp add: unat_word_ariths)
qed

lemma b64_pairs:
  "unat (b64_1 a b) = unat a mod 4 * 16 + unat b div 16" "unat (b64_2 b c) = unat b mod 16 * 4 + unat c div 64"
proof -
  have l: "unat b div 16 < 2 ^ 4" "unat c div 64 < 2 ^ 2"
    using unat_byte_less [of b] unat_byte_less [of c] by (simp_all add: less_mult_imp_div_less)
  have m: "unat a mod 4 * 16 mod 2 ^ 4 = 0" "unat b mod 16 * 4 mod 2 ^ 2 = 0" by simp_all
  have "unat (push_bit 4 (a AND 3) OR drop_bit 4 (b AND 240)) = unat (push_bit 4 (a AND 3)) + unat (drop_bit 4 (b AND 240))"
    by (rule unat_or_disjoint [where k = 4]) (subst b64_bytes, rule m, subst b64_bytes, rule l, simp)
  then show "unat (b64_1 a b) = unat a mod 4 * 16 + unat b div 16" by (simp only: b64_1_def b64_bytes)
  have "unat (push_bit 2 (b AND 15) OR drop_bit 6 (c AND 192)) = unat (push_bit 2 (b AND 15)) + unat (drop_bit 6 (c AND 192))"
    by (rule unat_or_disjoint [where k = 2]) (subst b64_bytes, rule m, subst b64_bytes, rule l, simp)
  then show "unat (b64_2 b c) = unat b mod 16 * 4 + unat c div 64" by (simp only: b64_2_def b64_bytes)
qed

lemma digits_of_24:
  assumes "c < 256" "b < 256"
  shows "(a * 65536 + b * 256 + c) div 262144 = a div 4"
    "(a * 65536 + b * 256 + c) div 4096 mod 64 = a mod 4 * 16 + b div 16"
    "(a * 65536 + b * 256 + c) div 64 mod 64 = b mod 16 * 4 + c div 64"
    "(a * 65536 + b * 256 + (c::nat)) mod 64 = c mod 64"
proof -
  have n: "a = a div 4 * 4 + a mod 4" "b = b div 16 * 16 + b mod 16" "c = c div 64 * 64 + c mod 64" by simp_all
  have l: "a mod 4 < 4" "b div 16 < 16" "b mod 16 < 16" "c div 64 < 4" "c mod 64 < 64"
    using assms by (simp_all add: less_mult_imp_div_less)
  have a: "x < 64 \<Longrightarrow> (h * 64 + x) div 64 = h \<and> (h * 64 + x) mod 64 = x" for h x :: nat by simp
  define h where "h = (a div 4 * 64 + (a mod 4 * 16 + b div 16)) * 64 + (b mod 16 * 4 + c div 64)"
  have N: "a * 65536 + b * 256 + c = h * 64 + c mod 64"
  proof -
    have "a * 65536 = a div 4 * 262144 + a mod 4 * 65536" "b * 256 = b div 16 * 4096 + b mod 16 * 256"
      using arg_cong [OF n(1), of "\<lambda>x. x * 65536"] arg_cong [OF n(2), of "\<lambda>x. x * 256"]
      by (simp_all only: add_mult_distrib mult.assoc; simp)+
    then show ?thesis unfolding h_def using n(3) by (simp add: algebra_simps)
  qed
  have dd: "x div 262144 = x div 64 div 64 div 64" "x div 4096 = x div 64 div 64" for x :: nat
    by (simp_all add: div_mult2_eq [symmetric])
  have b: "b mod 16 * 4 + c div 64 < 64" "a mod 4 * 16 + b div 16 < 64" using l by linarith+
  have d: "(h * 64 + c mod 64) div 64 = h \<and> (h * 64 + c mod 64) mod 64 = c mod 64" using l(5) by (rule a)
  have h: "h div 64 = a div 4 * 64 + (a mod 4 * 16 + b div 16) \<and> h mod 64 = b mod 16 * 4 + c div 64"
    unfolding h_def using b(1) by (rule a)
  have g: "(a div 4 * 64 + (a mod 4 * 16 + b div 16)) div 64 = a div 4 \<and>
    (a div 4 * 64 + (a mod 4 * 16 + b div 16)) mod 64 = a mod 4 * 16 + b div 16"
    using b(2) by (rule a)
  show "(a * 65536 + b * 256 + c) div 262144 = a div 4"
    "(a * 65536 + b * 256 + c) div 4096 mod 64 = a mod 4 * 16 + b div 16"
    "(a * 65536 + b * 256 + c) div 64 mod 64 = b mod 16 * 4 + c div 64"
    "(a * 65536 + b * 256 + c) mod 64 = c mod 64"
    unfolding N dd by (simp_all only: d h g)
qed

lemma digit64_of_24:
  "digit64 (be_val [a, b, c] div 262144) = b64 ! unat (b64_0 a)"
  "digit64 (be_val [a, b, c] div 4096) = b64 ! unat (b64_1 a b)"
  "digit64 (be_val [a, b, c] div 64) = b64 ! unat (b64_2 b c)"
  "digit64 (be_val [a, b, c]) = b64 ! unat (b64_3 c)"
proof -
  have v: "be_val [a, b, c] = unat a * 65536 + unat b * 256 + unat c" by simp
  have a: "unat a div 4 mod 64 = unat a div 4" using unat_byte_less [of a] by (simp add: less_mult_imp_div_less)
  show "digit64 (be_val [a, b, c] div 262144) = b64 ! unat (b64_0 a)"
    "digit64 (be_val [a, b, c] div 4096) = b64 ! unat (b64_1 a b)"
    "digit64 (be_val [a, b, c] div 64) = b64 ! unat (b64_2 b c)"
    "digit64 (be_val [a, b, c]) = b64 ! unat (b64_3 c)"
    unfolding digit64_def v digits_of_24 [OF unat_byte_less unat_byte_less] b64_bytes b64_pairs a by simp_all
qed

lemma rfc4648_group: "rfc4648 (a # b # c # bs) = base64_group [a, b, c] 0 @ rfc4648 bs"
  using digit64_of_24 [of a b c] by (simp add: base64_group_def Let_def)

lemma base64_group_shift: "i + 2 < length src \<Longrightarrow> base64_group src i = base64_group [src ! i, src ! (i + 1), src ! (i + 2)] 0"
  by (simp add: base64_group_def)

lemma length_20:
  assumes "length src = 20"
  obtains x0 x1 x2 x3 x4 x5 x6 x7 x8 x9 x10 x11 x12 x13 x14 x15 x16 x17 x18 x19 where
    "src = [x0, x1, x2, x3, x4, x5, x6, x7, x8, x9, x10, x11, x12, x13, x14, x15, x16, x17, x18, x19]"
  using assms by (auto simp: eval_nat_numeral length_Suc_conv)

lemma base64_rfc4648:
  assumes "length src = 20"
  shows "base64 src = rfc4648 src"
proof -
  obtain x0 x1 x2 x3 x4 x5 x6 x7 x8 x9 x10 x11 x12 x13 x14 x15 x16 x17 x18 x19 where
    src: "src = [x0, x1, x2, x3, x4, x5, x6, x7, x8, x9, x10, x11, x12, x13, x14, x15, x16, x17, x18, x19]"
    using assms by (rule length_20)
  have tail: "rfc4648 [y, z] = [b64 ! unat (b64_0 y), b64 ! unat (b64_1 y z), b64 ! unat (push_bit 2 (z AND 15)), 61]" for y z
  proof -
    have "b64_2 z 0 = push_bit 2 (z AND 15)" by (simp add: b64_2_def)
    then show ?thesis using digit64_of_24 [of y z 0] by (simp add: Let_def)
  qed
  have "base64 src = base64_group src 0 @ base64_group src 3 @ base64_group src 6 @ base64_group src 9 @
      base64_group src 12 @ base64_group src 15 @ rfc4648 [src ! 18, src ! 19]"
    by (simp only: base64_def list.map concat.simps append_Nil2 append_assoc append_Nil tail)
  moreover have "base64_group src i = base64_group [src ! i, src ! (i + 1), src ! (i + 2)] 0" if "i < 18" for i
    using that assms by (intro base64_group_shift) simp
  ultimately have "base64 src = rfc4648 [src ! 0, src ! 1, src ! 2, src ! 3, src ! 4, src ! 5, src ! 6, src ! 7, src ! 8,
      src ! 9, src ! 10, src ! 11, src ! 12, src ! 13, src ! 14, src ! 15, src ! 16, src ! 17, src ! 18, src ! 19]"
    by (simp only: rfc4648_group) (simp del: rfc4648.simps add: eval_nat_numeral)
  also have "\<dots> = rfc4648 src" by (rule arg_cong [of _ _ rfc4648]) (simp add: src)
  finally show ?thesis .
qed

section \<open>The response of the server\<close>

definition crlf :: "byte list" where "crlf = [13, 10]"

definition ws_guid :: "byte list" where
  "ws_guid = ascii ''258EAFA5-E914-47DA-95CA-C5AB0DC85B11''"

text \<open>\<open>secKey\<close> points to the header value; 24 bytes are copied over the \<open>X\<close>s.\<close>

definition accept_key :: "(byte list \<Rightarrow> byte list) \<Rightarrow> byte list \<Rightarrow> byte list" where
  "accept_key sha1 secKey = base64 (sha1 (take 24 secKey @ ws_guid))"

definition response_head :: "byte list" where
  "response_head = ascii ''HTTP/1.1 101 Switching Protocols'' @ crlf @ ascii ''Upgrade: websocket'' @ crlf @
     ascii ''Connection: Upgrade'' @ crlf @ ascii ''Sec-WebSocket-Accept: ''"

definition response_stamp :: "byte list" where
  "response_stamp = ascii ''Sec-WebSocket-Version: 13'' @ crlf @ ascii ''WebSocket-Server: uWebSockets'' @ crlf @ crlf"

text \<open>The extensions of the response, and whether compression was negotiated.\<close>

definition negotiate :: "32 word \<Rightarrow> byte list \<Rightarrow> byte list \<times> bool" where
  "negotiate options extensions =
     (if extensions \<noteq> [] then
        let opts = readOffer True extensions options
        in (generateOffer opts, opts AND PERMESSAGE_DEFLATE \<noteq> 0)
      else ([], False))"

fun first_protocol :: "byte list \<Rightarrow> byte list" where
  "first_protocol [] = []"
| "first_protocol (b # bs) = (if b = 44 then [] else b # first_protocol bs)"

definition UPGRADE_BUFFER :: nat where "UPGRADE_BUFFER = 1024"

definition upgrade_response ::
  "(byte list \<Rightarrow> byte list) \<Rightarrow> 32 word \<Rightarrow> byte list \<Rightarrow> byte list \<Rightarrow> byte list \<Rightarrow> byte list \<times> bool" where
  "upgrade_response sha1 options secKey extensions subprotocol =
     (let (extensionsResponse, deflate) = negotiate options extensions;
          buf = response_head @ accept_key sha1 secKey @ crlf;
          buf = (if extensionsResponse \<noteq> [] \<and> length extensionsResponse < 200
                 then buf @ ascii ''Sec-WebSocket-Extensions: '' @ extensionsResponse @ crlf else buf);
          sub = first_protocol subprotocol;
          buf = (if sub \<noteq> [] \<and> length sub < 200
                 then buf @ ascii ''Sec-WebSocket-Protocol: '' @ sub @ crlf else buf)
      in (buf @ response_stamp, deflate))"

lemma length_base64 [simp]: "length (base64 src) = 28"
  by (simp add: base64_def base64_group_def)

section \<open>The request of the client\<close>

fun decimal :: "nat \<Rightarrow> byte list" where
  "decimal n = (if n < 10 then [48 + word_of_nat n] else decimal (n div 10) @ [48 + word_of_nat (n mod 10)])"

declare decimal.simps [simp del]

text \<open>\<open>std::to_string\<close> of an \<open>int\<close>.\<close>

definition to_string :: "int \<Rightarrow> byte list" where
  "to_string n = (if n < 0 then 45 # decimal (nat (- n)) else decimal (nat n))"

definition random_key :: "byte list" where
  "random_key = ascii ''x3JJHMbDL1EzLkh9GBhXDw==''"

definition connect_request :: "byte list \<Rightarrow> byte list \<Rightarrow> int \<Rightarrow> (byte list \<times> byte list) list \<Rightarrow> byte list" where
  "connect_request path hostname port extraHeaders =
     ascii ''GET /'' @ path @ ascii '' HTTP/1.1'' @ crlf @
     ascii ''Upgrade: websocket'' @ crlf @
     ascii ''Connection: Upgrade'' @ crlf @
     ascii ''Sec-WebSocket-Key: '' @ random_key @ crlf @
     ascii ''Host: '' @ hostname @ ascii '':'' @ to_string port @ crlf @
     ascii ''Sec-WebSocket-Version: 13'' @ crlf @
     concat (map (\<lambda>(k, v). k @ ascii '': '' @ v @ crlf) extraHeaders) @ crlf"

section \<open>Both sides understand each other\<close>

definition colon :: "byte list" where "colon = [58, 32]"

definition request_lines :: "byte list \<Rightarrow> byte list \<Rightarrow> int \<Rightarrow> (byte list \<times> byte list) list \<Rightarrow> line list" where
  "request_lines path hostname port extraHeaders =
     [(ascii ''GET'', [32], 47 # path @ ascii '' HTTP/1.1''), (ascii ''Upgrade'', colon, ascii ''websocket''),
      (ascii ''Connection'', colon, ascii ''Upgrade''), (ascii ''Sec-WebSocket-Key'', colon, random_key),
      (ascii ''Host'', colon, hostname @ 58 # to_string port), (ascii ''Sec-WebSocket-Version'', colon, ascii ''13'')] @
     map (\<lambda>(k, v). (k, colon, v)) extraHeaders"

lemma request_lines_text:
  "connect_request path hostname port hs = concat (map line_text (request_lines path hostname port hs)) @ [13, 10]"
proof -
  have "concat (map (\<lambda>(k, v). k @ ascii '': '' @ v @ crlf) hs) = concat (map line_text (map (\<lambda>(k, v). (k, colon, v)) hs))"
    by (induction hs) (auto simp: line_text_def colon_def crlf_def)
  then show ?thesis
    by (simp add: connect_request_def request_lines_def line_text_def colon_def crlf_def)
qed

definition plain_value :: "byte list \<Rightarrow> bool" where
  "plain_value v \<longleftrightarrow> 13 \<notin> set v \<and> (v = [] \<or> \<not> separator (hd v))"

lemma decimal_digits: "b \<in> set (decimal n) \<Longrightarrow> 48 \<le> unat b \<and> unat b < 58"
proof (induction n rule: decimal.induct)
  case (1 n)
  show ?case
  proof (cases "n < 10")
    case True
    then have "b = 48 + word_of_nat n" using 1 by (simp add: decimal.simps)
    then have "unat b = 48 + n" using True by (simp add: unat_word_ariths)
    then show ?thesis using True by simp
  next
    case False
    then have "b \<in> set (decimal (n div 10)) \<or> b = 48 + word_of_nat (n mod 10)"
      using 1(2) by (subst (asm) decimal.simps) auto
    moreover have "n mod 10 < 10" by simp
    ultimately show ?thesis using 1(1) [OF False] by (auto simp: unat_word_ariths)
  qed
qed

lemma to_string_no_cr: "13 \<notin> set (to_string n)"
  using decimal_digits [of 13] by (auto simp: to_string_def)

lemma request_lines_ok:
  assumes "13 \<notin> set path" "13 \<notin> set hostname" "hostname \<noteq> []" "\<not> separator (hd hostname)"
    "\<forall>(k, v) \<in> set hs. list_all key_char k \<and> plain_value v"
  shows "list_all line_ok (request_lines path hostname port hs)"
proof -
  have cs: "line_ok (ascii ''Upgrade'', colon, ascii ''websocket'')" "line_ok (ascii ''Connection'', colon, ascii ''Upgrade'')"
    "line_ok (ascii ''Sec-WebSocket-Key'', colon, random_key)" "line_ok (ascii ''Sec-WebSocket-Version'', colon, ascii ''13'')"
    "list_all key_char (ascii ''GET'')" "list_all key_char (ascii ''Host'')" "\<not> key_char 32" "\<not> key_char 58" "separator 32"
    "\<not> separator 47" "13 \<notin> set (ascii '' HTTP/1.1'')"
    by code_simp+
  have "line_ok (ascii ''GET'', [32], 47 # path @ ascii '' HTTP/1.1'')"
    using cs(5,7,10,11) assms(1) unfolding line_ok_def by (simp del: ascii_simps)
  moreover have "line_ok (ascii ''Host'', colon, hostname @ 58 # to_string port)"
    using cs(6,8,9) assms(2-4) to_string_no_cr [of port] unfolding line_ok_def colon_def by (simp del: ascii_simps)
  moreover have "list_all line_ok (map (\<lambda>(k, v). (k, colon, v)) hs)"
    using assms(5) cs(8,9) by (auto simp: list_all_iff line_ok_def colon_def plain_value_def)
  ultimately show ?thesis
    using cs(1-4) unfolding request_lines_def by (simp del: ascii_simps)
qed

lemma lookup_key:
  assumes "find (line_key_is k) (tl ls) = Some (k', sep, v)" "finds m (getHeader m (Some hs) k) (find (line_key_is k) (tl ls))"
  shows "key (getHeader m (Some hs) k) \<noteq> None \<and> toString m (getHeader m (Some hs) k) = v \<and>
    valueLength (getHeader m (Some hs) k) = length v"
  using assms by (simp add: finds_def)

lemma parse_lines:
  assumes "list_all line_ok ls" "ls \<noteq> []" "length ls < MAX_HEADERS"
    "rd m b (length (concat (map line_text ls) @ [13, 10])) = concat (map line_text ls) @ [13, 10]"
    "b + length (concat (map line_text ls) @ [13, 10]) \<le> e"
  obtains m' hs where "getHeaders MAX_HEADERS True m b e [] =
      Some (m', Some (b + length (concat (map line_text ls) @ [13, 10]), hs))"
    "\<And>k. finds m' (getHeader m' (Some hs) k) (find (line_key_is k) (tl ls))"
  using getHeaders_render [OF assms(1,4,5,3), of True "[]"] assms(2)
  by (fastforce intro: getHeader_render)

text \<open>Which lines the lookups of the server find.\<close>

lemma request_lookup:
  "find (line_key_is (ascii ''upgrade'')) (tl (request_lines path hostname port hs)) = Some (ascii ''Upgrade'', colon, ascii ''websocket'')"
  "find (line_key_is (ascii ''sec-websocket-key'')) (tl (request_lines path hostname port hs)) =
     Some (ascii ''Sec-WebSocket-Key'', colon, random_key)"
  by (simp_all add: request_lines_def line_key_is_def to_lower_def)

section \<open>The lines of the response\<close>

definition response_lines ::
  "(byte list \<Rightarrow> byte list) \<Rightarrow> 32 word \<Rightarrow> byte list \<Rightarrow> byte list \<Rightarrow> byte list \<Rightarrow> line list" where
  "response_lines sha1 options secKey extensions subprotocol =
     [(ascii ''HTTP/1.1'', [32], ascii ''101 Switching Protocols''), (ascii ''Upgrade'', colon, ascii ''websocket''),
      (ascii ''Connection'', colon, ascii ''Upgrade''),
      (ascii ''Sec-WebSocket-Accept'', colon, accept_key sha1 secKey)] @
     (if fst (negotiate options extensions) \<noteq> [] \<and> length (fst (negotiate options extensions)) < 200
      then [(ascii ''Sec-WebSocket-Extensions'', colon, fst (negotiate options extensions))] else []) @
     (if first_protocol subprotocol \<noteq> [] \<and> length (first_protocol subprotocol) < 200
      then [(ascii ''Sec-WebSocket-Protocol'', colon, first_protocol subprotocol)] else []) @
     [(ascii ''Sec-WebSocket-Version'', colon, ascii ''13''), (ascii ''WebSocket-Server'', colon, ascii ''uWebSockets'')]"

lemma response_lines_text:
  "fst (upgrade_response sha1 options k ext sub) = concat (map line_text (response_lines sha1 options k ext sub)) @ [13, 10]"
  by (simp add: upgrade_response_def response_lines_def response_head_def response_stamp_def Let_def line_text_def
      colon_def crlf_def case_prod_beta del: ascii_simps(2)) (simp add: ascii_def)

lemma set_base64: "set (base64 src) \<subseteq> set (61 # b64)"
proof -
  have d: "unat x div 4 < 64" "unat x div 16 < 16" "unat x div 64 < 4" "unat x mod 4 < 4" "unat x mod 16 < 16" "unat x mod 64 < 64"
    for x :: byte using unat_byte_less [of x] by (simp_all add: less_mult_imp_div_less)
  have lt: "unat (b64_0 a) < 64" "unat (b64_3 a) < 64" "unat (b64_1 a b) < 64" "unat (b64_2 a b) < 64"
    "unat (push_bit 2 (a AND 15)) < 64" for a b :: byte
    using d [of a] d [of b] unfolding b64_pairs b64_bytes by linarith+
  have "length b64 = 64" by (simp add: b64_def)
  then show ?thesis
    using lt by (auto simp: base64_def base64_group_def simp del: ascii_simps)
qed

lemma plain_base64: "plain_value (base64 src)"
proof -
  have "\<forall>b\<in>set (61 # b64). b \<noteq> 13 \<and> \<not> separator b" by code_simp
  then have "\<forall>b\<in>set (base64 src). b \<noteq> 13 \<and> \<not> separator b" using set_base64 by blast
  then show ?thesis by (cases "base64 src") (auto simp: plain_value_def)
qed

lemma plain_first_protocol: "plain_value p \<Longrightarrow> plain_value (first_protocol p)"
proof -
  have "set (first_protocol p) \<subseteq> set p" by (induction p) auto
  then show "plain_value p \<Longrightarrow> plain_value (first_protocol p)"
    by (cases p) (auto simp: plain_value_def)
qed

lemma plain_negotiate: "plain_value (fst (negotiate options ext))"
proof -
  have "plain_value []" "plain_value (ascii ''permessage-deflate'')"
    "plain_value (ascii ''permessage-deflate; client_no_context_takeover'')"
    by code_simp+
  then have "plain_value (generateOffer opts)" for opts using generateOffer_cases [of opts] by auto
  then show ?thesis by (simp add: negotiate_def Let_def) (simp add: plain_value_def)
qed

lemma line_ok_colon: "list_all key_char k \<Longrightarrow> plain_value v \<Longrightarrow> line_ok (k, colon, v)"
proof -
  have "\<not> key_char 58" "separator 32" by code_simp+
  then show "list_all key_char k \<Longrightarrow> plain_value v \<Longrightarrow> line_ok (k, colon, v)"
    by (simp add: line_ok_def colon_def plain_value_def)
qed

lemma response_lines_ok:
  assumes "plain_value sub"
  shows "list_all line_ok (response_lines sha1 options k ext sub)"
proof -
  have cs: "line_ok (ascii ''HTTP/1.1'', [32], ascii ''101 Switching Protocols'')"
    "line_ok (ascii ''Upgrade'', colon, ascii ''websocket'')" "line_ok (ascii ''Connection'', colon, ascii ''Upgrade'')"
    "line_ok (ascii ''Sec-WebSocket-Version'', colon, ascii ''13'')"
    "line_ok (ascii ''WebSocket-Server'', colon, ascii ''uWebSockets'')"
    "list_all key_char (ascii ''Sec-WebSocket-Accept'')" "list_all key_char (ascii ''Sec-WebSocket-Extensions'')"
    "list_all key_char (ascii ''Sec-WebSocket-Protocol'')"
    by code_simp+
  have "line_ok (ascii ''Sec-WebSocket-Accept'', colon, accept_key sha1 k)"
    using cs(6) by (simp add: line_ok_colon accept_key_def plain_base64 del: ascii_simps)
  moreover have "line_ok (ascii ''Sec-WebSocket-Extensions'', colon, fst (negotiate options ext))"
    using cs(7) plain_negotiate by (rule line_ok_colon)
  moreover have "line_ok (ascii ''Sec-WebSocket-Protocol'', colon, first_protocol sub)"
    using cs(8) plain_first_protocol [OF assms] by (rule line_ok_colon)
  ultimately show ?thesis
    using cs(1-5) unfolding response_lines_def by (simp del: ascii_simps)
qed

lemma response_lookup:
  "find (line_key_is (ascii ''upgrade'')) (tl (response_lines sha1 options k ext sub)) = Some (ascii ''Upgrade'', colon, ascii ''websocket'')"
  "find (line_key_is (ascii ''sec-websocket-accept'')) (tl (response_lines sha1 options k ext sub)) =
     Some (ascii ''Sec-WebSocket-Accept'', colon, accept_key sha1 k)"
  by (simp_all add: response_lines_def line_key_is_def to_lower_def)

lemma upgrade_response_length:
  "length (fst (upgrade_response sha1 options k ext sub)) \<le> 640"
proof -
  have "length (fst (negotiate options ext)) \<le> 46"
    using length_generateOffer by (simp add: negotiate_def Let_def)
  then show ?thesis
    by (simp add: upgrade_response_def response_head_def response_stamp_def Let_def crlf_def case_prod_beta
        accept_key_def del: ascii_simps)
qed

section \<open>Properties\<close>

text \<open>
  The accept key is standard base64. For a SHA-1 digest of 20 bytes, the unrolled shifts and
  masks of \<open>base64\<close> compute the RFC 4648 encoding of the digest of key and GUID, padding included.
\<close>

theorem accept_key_rfc4648:
  assumes "length (sha1 (take 24 secKey @ ws_guid)) = 20"
  shows "accept_key sha1 secKey = rfc4648 (sha1 (take 24 secKey @ ws_guid))"
  using base64_rfc4648 [OF assms] by (simp add: accept_key_def)

theorem accept_key_rfc4648_witness:
  "accept_key (\<lambda>x. replicate 20 7) random_key = rfc4648 (replicate 20 7)"
  using accept_key_rfc4648 [of "\<lambda>x. replicate 20 7" random_key] by simp

text \<open>
  The upgrade response fits its buffer: whatever key, extensions, subprotocols, options and
  digest, \<open>upgrade\<close> writes at most 640 bytes into \<open>upgradeBuffer[1024]\<close>.
\<close>

theorem upgrade_response_fits:
  "length (fst (upgrade_response sha1 options secKey extensions subprotocol)) + 384 \<le> UPGRADE_BUFFER"
  using upgrade_response_length [of sha1 options secKey extensions subprotocol] by (simp add: UPGRADE_BUFFER_def)

text \<open>
  The server of this library accepts the upgrade request of its client: for every path, host
  and port, and up to 90 extra headers without stray separators, the request text of
  \<open>Hub::connect\<close> is consumed whole by \<open>getHeaders\<close>, which finds the upgrade header and
  the 24-byte key.
\<close>

theorem server_parses_connect_request:
  assumes "13 \<notin> set path" "13 \<notin> set hostname" "hostname \<noteq> []" "\<not> separator (hd hostname)"
    "list_all (\<lambda>(k, v). list_all key_char k \<and> plain_value v) hs" "length hs \<le> 90"
    "rd m b (length (connect_request path hostname port hs)) = connect_request path hostname port hs"
    "b + length (connect_request path hostname port hs) \<le> e"
  shows "\<exists>m' req. getHeaders MAX_HEADERS True m b e [] =
      Some (m', Some (b + length (connect_request path hostname port hs), req)) \<and>
    key (getHeader m' (Some req) (ascii ''upgrade'')) \<noteq> None \<and>
    toString m' (getHeader m' (Some req) (ascii ''sec-websocket-key'')) = random_key \<and>
    valueLength (getHeader m' (Some req) (ascii ''sec-websocket-key'')) = 24"
proof -
  let ?ls = "request_lines path hostname port hs"
  have ok: "list_all line_ok ?ls" using assms(1-5) by (intro request_lines_ok) (auto simp: list_all_iff)
  have len: "?ls \<noteq> []" "length ?ls < MAX_HEADERS" using assms(6) by (simp_all add: request_lines_def MAX_HEADERS_def)
  obtain m' req where r: "getHeaders MAX_HEADERS True m b e [] =
      Some (m', Some (b + length (concat (map line_text ?ls) @ [13, 10]), req))"
    "\<And>k. finds m' (getHeader m' (Some req) k) (find (line_key_is k) (tl ?ls))"
    using parse_lines [OF ok len] assms(7,8) unfolding request_lines_text by metis
  show ?thesis
    using r(1) lookup_key [OF request_lookup(1) r(2)] lookup_key [OF request_lookup(2) r(2)]
    unfolding request_lines_text by (auto simp: random_key_def simp del: ascii_simps)
qed

theorem server_parses_connect_request_witness:
  "\<exists>m' req. getHeaders MAX_HEADERS True (wr (\<lambda>_. 0) 0 (connect_request (ascii ''chat'') (ascii ''a.b'') 80 [])) 0 1000 [] =
      Some (m', Some (0 + length (connect_request (ascii ''chat'') (ascii ''a.b'') 80 []), req)) \<and>
    toString m' (getHeader m' (Some req) (ascii ''sec-websocket-key'')) = random_key"
proof -
  let ?r = "connect_request (ascii ''chat'') (ascii ''a.b'') 80 []"
  have "length ?r \<le> 1000"
    by (simp add: connect_request_def crlf_def random_key_def to_string_def decimal.simps)
  moreover have "\<not> separator (hd (ascii ''a.b''))" by code_simp
  ultimately show ?thesis
    using server_parses_connect_request [of "ascii ''chat''" "ascii ''a.b''" "[]" "wr (\<lambda>_. 0) 0 ?r" 0 80 1000]
    by fastforce
qed

text \<open>
  The client of this library accepts the response of its server: whatever was negotiated, the
  response is consumed whole by \<open>getHeaders\<close>, which finds the upgrade header (the one the client
  tests) and the accept key computed from the request's key.
\<close>

theorem client_parses_upgrade_response:
  assumes "plain_value sub"
    "rd m b (length (fst (upgrade_response sha1 options k ext sub))) = fst (upgrade_response sha1 options k ext sub)"
    "b + length (fst (upgrade_response sha1 options k ext sub)) \<le> e"
  shows "\<exists>m' res. getHeaders MAX_HEADERS True m b e [] =
      Some (m', Some (b + length (fst (upgrade_response sha1 options k ext sub)), res)) \<and>
    key (getHeader m' (Some res) (ascii ''upgrade'')) \<noteq> None \<and>
    toString m' (getHeader m' (Some res) (ascii ''sec-websocket-accept'')) = accept_key sha1 k"
proof -
  let ?ls = "response_lines sha1 options k ext sub"
  have ok: "list_all line_ok ?ls" using assms(1) by (rule response_lines_ok)
  have len: "?ls \<noteq> []" "length ?ls < MAX_HEADERS" by (simp_all add: response_lines_def MAX_HEADERS_def)
  obtain m' res where r: "getHeaders MAX_HEADERS True m b e [] =
      Some (m', Some (b + length (concat (map line_text ?ls) @ [13, 10]), res))"
    "\<And>k. finds m' (getHeader m' (Some res) k) (find (line_key_is k) (tl ?ls))"
    using parse_lines [OF ok len] assms(2,3) unfolding response_lines_text by metis
  show ?thesis
    using r(1) lookup_key [OF response_lookup(1) r(2)] lookup_key [OF response_lookup(2) r(2)]
    unfolding response_lines_text by auto
qed

theorem client_parses_upgrade_response_witness:
  "\<exists>m' res. getHeaders MAX_HEADERS True
      (wr (\<lambda>_. 0) 0 (fst (upgrade_response (\<lambda>x. replicate 20 7) 1 random_key [] (ascii ''chat, mqtt'')))) 0 1000 [] =
      Some (m', Some (0 + length (fst (upgrade_response (\<lambda>x. replicate 20 7) 1 random_key [] (ascii ''chat, mqtt''))), res)) \<and>
    toString m' (getHeader m' (Some res) (ascii ''sec-websocket-accept'')) = accept_key (\<lambda>x. replicate 20 7) random_key"
proof -
  let ?r = "fst (upgrade_response (\<lambda>x. replicate 20 7) 1 random_key [] (ascii ''chat, mqtt''))"
  have "length ?r \<le> 1000" using upgrade_response_length by (rule le_trans) simp
  moreover have "plain_value (ascii ''chat, mqtt'')" by code_simp
  ultimately show ?thesis
    using client_parses_upgrade_response [of "ascii ''chat, mqtt''" "wr (\<lambda>_. 0) 0 ?r" 0 "\<lambda>x. replicate 20 7" 1 random_key "[]" 1000]
    by fastforce
qed

end
