(* ===== verification/Uri.thy ===== *)
theory Uri
  imports Handshake
begin

text \<open>
  \<open>parseURI\<close> of uWebSockets' \<open>Hub.cpp\<close>, on byte lists for \<open>std::string\<close>. Positions that the
  code looks for are lengths of prefixes; \<open>std::string::npos\<close> is the length of the string.
\<close>

record uri_parts =
  secure :: bool
  hostname :: "byte list"
  port :: int
  path :: "byte list"

text \<open>\<open>std::stoi\<close>: blanks, a sign, digits; it throws (\<open>None\<close>) without a digit and beyond an \<open>int\<close>.\<close>

definition isspace :: "byte \<Rightarrow> bool" where
  "isspace b \<longleftrightarrow> b = 32 \<or> 9 \<le> b \<and> b \<le> 13"

fun digits_value :: "nat \<Rightarrow> byte list \<Rightarrow> nat" where
  "digits_value acc [] = acc"
| "digits_value acc (b # bs) = (if isdigit b then digits_value (acc * 10 + unat b - 48) bs else acc)"

definition stoi :: "byte list \<Rightarrow> int option" where
  "stoi s =
     (let s = dropWhile isspace s;
          (neg, s) = (case s of b # r \<Rightarrow> if b = 45 then (True, r) else if b = 43 then (False, r) else (False, s) | [] \<Rightarrow> (False, s))
      in if s = [] \<or> \<not> isdigit (hd s) then None
         else let n = (if neg then - int (digits_value 0 s) else int (digits_value 0 s))
           in if - (2 ^ 31) \<le> n \<and> n < 2 ^ 31 then Some n else None)"

definition starts_with :: "byte list \<Rightarrow> byte list \<Rightarrow> bool" where
  "starts_with p s \<longleftrightarrow> take (length p) s = p"

text \<open>\<open>find\<close> and \<open>find_first_of\<close> from the start of what is left.\<close>

definition index_of :: "(byte \<Rightarrow> bool) \<Rightarrow> byte list \<Rightarrow> nat" where
  "index_of P s = length (takeWhile (\<lambda>b. \<not> P b) s)"

text \<open>The part after the host: an optional port, then an optional path.\<close>

definition parse_path :: "byte list \<Rightarrow> uri_parts \<Rightarrow> uri_parts option" where
  "parse_path rest u =
     (if rest = [] then Some (u\<lparr>path := []\<rparr>)
      else if hd rest = 47 then Some (u\<lparr>path := tl rest\<rparr>)
      else Some u)"

definition parse_port :: "byte list \<Rightarrow> uri_parts \<Rightarrow> uri_parts option" where
  "parse_port rest u =
     (if rest = [] then Some (u\<lparr>path := []\<rparr>)
      else if hd rest = 58 then
        let rest = tl rest; portStr = take (index_of (\<lambda>b. b = 47) rest) rest in
        if portStr \<noteq> [] then
          (case stoi portStr of None \<Rightarrow> None
           | Some p \<Rightarrow> parse_path (drop (length portStr) rest) (u\<lparr>port := p\<rparr>))
        else None
      else parse_path rest u)"

definition parse_host :: "byte list \<Rightarrow> uri_parts \<Rightarrow> uri_parts option" where
  "parse_host rest u =
     (if rest = [] then None
      else if hd rest = 91 then
        let rest = tl rest in
        if rest = [] then None
        else if index_of (\<lambda>b. b = 93) rest = length rest then None
        else parse_port (drop (index_of (\<lambda>b. b = 93) rest + 1) rest) (u\<lparr>hostname := take (index_of (\<lambda>b. b = 93) rest) rest\<rparr>)
      else
        let n = index_of (\<lambda>b. b = 58 \<or> b = 47) rest
        in parse_port (drop n rest) (u\<lparr>hostname := take n rest\<rparr>))"

text \<open>\<open>u\<close> holds what the reference parameters hold before the call.\<close>

definition parseURI :: "byte list \<Rightarrow> uri_parts \<Rightarrow> uri_parts option" where
  "parseURI uri u =
     (if starts_with (ascii ''wss://'') uri then parse_host (drop 6 uri) (u\<lparr>port := 443, secure := True\<rparr>)
      else if starts_with (ascii ''ws://'') uri then parse_host (drop 5 uri) (u\<lparr>port := 80, secure := False\<rparr>)
      else None)"

section \<open>Rendering\<close>

definition render_uri :: "bool \<Rightarrow> bool \<Rightarrow> byte list \<Rightarrow> nat option \<Rightarrow> byte list option \<Rightarrow> byte list" where
  "render_uri sec bracket host prt pth =
     (if sec then ascii ''wss://'' else ascii ''ws://'') @
     (if bracket then [91] @ host @ [93] else host) @
     (case prt of None \<Rightarrow> [] | Some p \<Rightarrow> 58 # decimal p) @
     (case pth of None \<Rightarrow> [] | Some p \<Rightarrow> 47 # p)"

definition host_ok :: "bool \<Rightarrow> byte list \<Rightarrow> bool" where
  "host_ok bracket host \<longleftrightarrow>
     (if bracket then 93 \<notin> set host
      else host \<noteq> [] \<and> hd host \<noteq> 91 \<and> 58 \<notin> set host \<and> 47 \<notin> set host)"

lemma index_of_append: "\<forall>b\<in>set s. \<not> P b \<Longrightarrow> t = [] \<or> P (hd t) \<Longrightarrow> index_of P (s @ t) = length s"
  by (cases t) (simp_all add: index_of_def takeWhile_append2 takeWhile_eq_all_conv [THEN iffD2])

lemma digits_value_append: "\<forall>b\<in>set s. isdigit b \<Longrightarrow> digits_value acc (s @ t) = digits_value (digits_value acc s) t"
  by (induction s arbitrary: acc) auto

lemma isdigit_iff: "isdigit b \<longleftrightarrow> 48 \<le> unat b \<and> unat b \<le> 57"
  by (simp add: isdigit_def word_le_nat_alt)

lemma decimal_isdigit: "b \<in> set (decimal n) \<Longrightarrow> isdigit b"
  using decimal_digits [of b n] by (simp add: isdigit_iff)

lemma digits_value_decimal: "digits_value 0 (decimal n) = n"
proof (induction n rule: decimal.induct)
  case (1 n)
  have d: "m < 10 \<Longrightarrow> isdigit (48 + word_of_nat m) \<and> unat (48 + word_of_nat m :: byte) = 48 + m" for m
    by (simp add: isdigit_iff unat_word_ariths)
  show ?case
  proof (cases "n < 10")
    case True
    then show ?thesis using d [of n] by (simp add: decimal.simps)
  next
    case False
    have "n mod 10 < 10" by simp
    with False 1 d [of "n mod 10"] decimal_isdigit show ?thesis
      by (subst decimal.simps) (simp add: digits_value_append)
  qed
qed

lemma decimal_nonempty: "decimal n \<noteq> []"
  by (subst decimal.simps) simp

lemma stoi_decimal: "n < 2 ^ 31 \<Longrightarrow> stoi (decimal n) = Some (int n)"
proof -
  obtain b r where b: "decimal n = b # r" using decimal_nonempty by (cases "decimal n") auto
  then have "isdigit b" using decimal_isdigit [of b n] by simp
  then have "b \<noteq> 45" "b \<noteq> 43" "\<not> isspace b"
    by (auto simp: isdigit_iff isspace_def word_le_nat_alt)
  moreover have "int n < 2 ^ 31" if "n < 2 ^ 31" using that by simp
  ultimately show "n < 2 ^ 31 \<Longrightarrow> stoi (decimal n) = Some (int n)"
    using b \<open>isdigit b\<close> digits_value_decimal [of n] by (simp add: stoi_def Let_def)
qed

lemma parse_port_rendered:
  assumes "case prt of None \<Rightarrow> True | Some p \<Rightarrow> p < 2 ^ 31"
  shows "parse_port ((case prt of None \<Rightarrow> [] | Some p \<Rightarrow> 58 # decimal p) @ (case pth of None \<Rightarrow> [] | Some p \<Rightarrow> 47 # p)) u =
    Some (u\<lparr>port := (case prt of None \<Rightarrow> port u | Some p \<Rightarrow> int p), path := (case pth of None \<Rightarrow> [] | Some p \<Rightarrow> p)\<rparr>)"
proof (cases prt)
  case None
  then show ?thesis by (cases pth) (simp_all add: parse_port_def parse_path_def)
next
  case (Some p)
  let ?t = "case pth of None \<Rightarrow> [] | Some p \<Rightarrow> 47 # p"
  have "index_of (\<lambda>b. b = 47) (decimal p @ ?t) = length (decimal p)"
    using decimal_digits [of _ p] by (intro index_of_append) (fastforce split: option.splits)+
  then show ?thesis
    using Some assms stoi_decimal [of p] decimal_nonempty
    by (cases pth) (simp_all add: parse_port_def parse_path_def)
qed

lemma parse_host_rendered:
  assumes "host_ok bracket host" "t = [] \<or> hd t = 58 \<or> hd t = 47"
  shows "parse_host ((if bracket then [91] @ host @ [93] else host) @ t) u = parse_port t (u\<lparr>hostname := host\<rparr>)"
proof (cases bracket)
  case True
  then have "index_of (\<lambda>b. b = 93) (host @ 93 # t) = length host"
    using assms(1) by (intro index_of_append) (auto simp: host_ok_def)
  then show ?thesis using True by (simp add: parse_host_def Let_def)
next
  case False
  then have "index_of (\<lambda>b. b = 58 \<or> b = 47) (host @ t) = length host"
    using assms by (intro index_of_append) (auto simp: host_ok_def)
  then show ?thesis using False assms(1) by (simp add: parse_host_def Let_def host_ok_def)
qed

section \<open>Properties\<close>

text \<open>
  C36: \<open>parseURI\<close> inverts the rendering of WebSocket URIs: for \<open>ws\<close> and \<open>wss\<close>, a host (in brackets
  when it may contain colons), an optional port below 2^31 and an optional path, all four parts
  come back, the port defaulting to 80 or 443.
\<close>

theorem parseURI_roundtrip:
  assumes "host_ok bracket host" "case prt of None \<Rightarrow> True | Some p \<Rightarrow> p < 2 ^ 31"
  shows "parseURI (render_uri sec bracket host prt pth) u = Some
    (u\<lparr>secure := sec, hostname := host,
       port := (case prt of None \<Rightarrow> if sec then 443 else 80 | Some p \<Rightarrow> int p),
       path := (case pth of None \<Rightarrow> [] | Some p \<Rightarrow> p)\<rparr>)"
proof -
  let ?t = "(case prt of None \<Rightarrow> [] | Some p \<Rightarrow> 58 # decimal p) @ (case pth of None \<Rightarrow> [] | Some p \<Rightarrow> 47 # p)"
  have "?t = [] \<or> hd ?t = 58 \<or> hd ?t = 47" by (auto split: option.splits)
  note h = parse_host_rendered [OF assms(1) this]
  have "\<not> starts_with (ascii ''wss://'') (ascii ''ws://'' @ r)" "starts_with (ascii ''ws://'') (ascii ''ws://'' @ r)"
    "starts_with (ascii ''wss://'') (ascii ''wss://'' @ r)" "drop 5 (ascii ''ws://'' @ r) = r" "drop 6 (ascii ''wss://'' @ r) = r" for r
    by (simp_all add: starts_with_def)
  then show ?thesis
    unfolding parseURI_def render_uri_def using h parse_port_rendered [OF assms(2)]
    by (cases sec) (simp_all del: ascii_simps split: option.splits)
qed

theorem parseURI_roundtrip_witness:
  "parseURI (render_uri True True (ascii ''::1'') (Some 8443) (Some (ascii ''chat''))) \<lparr>secure = False, hostname = [], port = 0, path = []\<rparr> =
     Some \<lparr>secure = True, hostname = ascii ''::1'', port = 8443, path = ascii ''chat''\<rparr>"
  using parseURI_roundtrip [of True "ascii ''::1''" "Some 8443" True "Some (ascii ''chat'')"
      "\<lparr>secure = False, hostname = [], port = 0, path = []\<rparr>"]
  by (simp add: host_ok_def)

text \<open>
  What \<open>parseURI\<close> rejects: another scheme, nothing after the scheme, an opening bracket without
  a closing one, an empty port and a port without digits. It does not range-check the port:
  a negative number is accepted as it is.
\<close>

theorem parseURI_errors:
  "(\<not> starts_with (ascii ''ws://'') s \<and> \<not> starts_with (ascii ''wss://'') s \<longrightarrow> parseURI s u = None) \<and>
   parseURI (ascii ''ws://'') u = None \<and> parseURI (ascii ''wss://'') u = None \<and>
   parseURI (ascii ''ws://['') u = None \<and> parseURI (ascii ''ws://[::1'') u = None \<and>
   parseURI (ascii ''ws://h:'') u = None \<and> parseURI (ascii ''ws://h:/x'') u = None \<and> parseURI (ascii ''ws://h:x/y'') u = None \<and>
   parseURI (ascii ''ws://h:-1/y'') u = Some (u\<lparr>secure := False, hostname := ascii ''h'', port := -1, path := ascii ''y''\<rparr>)"
  by (simp add: parseURI_def starts_with_def parse_host_def parse_port_def parse_path_def index_of_def stoi_def
      isspace_def isdigit_def Let_def)

theorem parseURI_errors_witness:
  "parseURI (ascii ''http://h'') \<lparr>secure = False, hostname = [], port = 0, path = []\<rparr> = None"
  using parseURI_errors [of "ascii ''http://h''" "\<lparr>secure = False, hostname = [], port = 0, path = []\<rparr>"]
  by (simp add: starts_with_def)

end
