(* ===== verification/MsgQueue.thy ===== *)
theory MsgQueue
  imports Base
begin

text \<open>
  \<open>Socket::Queue\<close> (uWebSockets \<open>Socket.h\<close>): the singly linked queue of outgoing messages, with
  explicit pointers, and its refinement to a list. The memory is a map from addresses to the
  \<open>nextMessage\<close> field; \<open>delete\<close> removes an address.
\<close>

section \<open>The linked queue\<close>

record queue =
  q_head :: "nat option"
  q_tail :: "nat option"

type_synonym links = "nat \<Rightarrow> nat option option"

definition queue_empty :: "queue \<Rightarrow> bool" where
  "queue_empty q \<longleftrightarrow> q_head q = None"

definition queue_front :: "queue \<Rightarrow> nat option" where
  "queue_front q = q_head q"

text \<open>\<open>None\<close> where a null or a dangling pointer would be followed.\<close>

definition queue_pop :: "links \<times> queue \<Rightarrow> (links \<times> queue) option" where
  "queue_pop s =
     (case s of (m, q) \<Rightarrow>
       case q_head q of None \<Rightarrow> None
       | Some h \<Rightarrow>
           (case m h of None \<Rightarrow> None
            | Some (Some n) \<Rightarrow> Some (m(h := None), q\<lparr>q_head := Some n\<rparr>)
            | Some None \<Rightarrow> Some (m(h := None), \<lparr>q_head = None, q_tail = None\<rparr>)))"

definition queue_push :: "nat \<Rightarrow> links \<times> queue \<Rightarrow> (links \<times> queue) option" where
  "queue_push a s =
     (case s of (m, q) \<Rightarrow>
       let m = m(a := Some None) in
       case q_tail q of
         Some t \<Rightarrow> (if m t = None then None else Some (m(t := Some (Some a)), q\<lparr>q_tail := Some a\<rparr>))
       | None \<Rightarrow> Some (m, \<lparr>q_head = Some a, q_tail = Some a\<rparr>))"

section \<open>Refinement to lists\<close>

fun chain :: "links \<Rightarrow> nat list \<Rightarrow> bool" where
  "chain m [] \<longleftrightarrow> True"
| "chain m [a] \<longleftrightarrow> m a = Some None"
| "chain m (a # b # as) \<longleftrightarrow> m a = Some (Some b) \<and> chain m (b # as)"

definition queue_rel :: "links \<times> queue \<Rightarrow> nat list \<Rightarrow> bool" where
  "queue_rel s as \<longleftrightarrow> (case s of (m, q) \<Rightarrow> distinct as \<and> chain m as \<and>
     q_head q = (if as = [] then None else Some (hd as)) \<and> q_tail q = (if as = [] then None else Some (last as)))"

lemma chain_upd: "a \<notin> set as \<Longrightarrow> chain (m(a := x)) as = chain m as"
  by (induction as rule: chain.induct) auto

lemma chain_snoc:
  "chain m as \<Longrightarrow> distinct as \<Longrightarrow> a \<notin> set as \<Longrightarrow> as \<noteq> [] \<Longrightarrow> chain (m(a := Some None, last as := Some (Some a))) (as @ [a])"
proof (induction as)
  case (Cons x as)
  show ?case
  proof (cases as)
    case Nil
    with Cons.prems show ?thesis by simp
  next
    case c: (Cons y bs)
    with Cons.prems have as: "chain m as" "distinct as" "a \<notin> set as" "as \<noteq> []" "m x = Some (Some y)" "x \<noteq> a" "x \<notin> set as"
      by auto
    then have "x \<noteq> last as" using last_in_set by metis
    then show ?thesis using Cons.IH [OF as(1-4)] as(5,6) c by simp
  qed
qed simp

lemma chain_allocated: "chain m as \<Longrightarrow> a \<in> set as \<Longrightarrow> m a \<noteq> None"
proof (induction as)
  case (Cons x as)
  then show ?case by (cases as) auto
qed simp

lemma queue_push_rel:
  assumes "queue_rel s as" "a \<notin> set as"
  shows "\<exists>s'. queue_push a s = Some s' \<and> queue_rel s' (as @ [a])"
proof (cases "as = []")
  case True
  with assms show ?thesis by (cases s) (simp add: queue_rel_def queue_push_def)
next
  case False
  obtain m q where s: "s = (m, q)" by (cases s)
  have "m (last as) \<noteq> None" "last as \<noteq> a"
    using assms False s chain_allocated [of m as "last as"] by (auto simp: queue_rel_def)
  then show ?thesis
    using assms False s chain_snoc [of m as a] by (auto simp: queue_rel_def queue_push_def)
qed

lemma queue_pop_rel:
  assumes "queue_rel s (a # as)"
  shows "queue_front (snd s) = Some a \<and> (\<exists>s'. queue_pop s = Some s' \<and> queue_rel s' as \<and> fst s' = (fst s)(a := None))"
proof -
  obtain m q where s: "s = (m, q)" by (cases s)
  show ?thesis
  proof (cases as)
    case Nil
    with assms s show ?thesis by (simp add: queue_rel_def queue_pop_def queue_front_def)
  next
    case (Cons b bs)
    then have "chain (m(a := None)) as" using assms s by (simp add: queue_rel_def chain_upd)
    with assms s Cons show ?thesis by (simp add: queue_rel_def queue_pop_def queue_front_def)
  qed
qed

lemma queue_empty_rel: "queue_rel s as \<Longrightarrow> queue_empty (snd s) \<longleftrightarrow> as = []"
  by (cases s) (auto simp: queue_rel_def queue_empty_def)

section \<open>The interface of the queue\<close>

text \<open>Pushing a sequence and popping until empty.\<close>

fun push_all :: "('a \<Rightarrow> 's \<Rightarrow> 's option) \<Rightarrow> 'a list \<Rightarrow> 's \<Rightarrow> 's option" where
  "push_all push [] s = Some s"
| "push_all push (a # as) s = (case push a s of None \<Rightarrow> None | Some s' \<Rightarrow> push_all push as s')"

fun pop_all :: "('s \<Rightarrow> bool) \<Rightarrow> ('s \<Rightarrow> 'a option) \<Rightarrow> ('s \<Rightarrow> 's option) \<Rightarrow> nat \<Rightarrow> 's \<Rightarrow> 'a list option" where
  "pop_all is_empty front pop 0 s = (if is_empty s then Some [] else None)"
| "pop_all is_empty front pop (Suc n) s =
     (if is_empty s then Some []
      else case front s of None \<Rightarrow> None
        | Some a \<Rightarrow> (case pop s of None \<Rightarrow> None | Some s' \<Rightarrow> map_option ((#) a) (pop_all is_empty front pop n s')))"

text \<open>What the socket code relies on: first in, first out, and no element lost.\<close>

locale message_queue =
  fixes rel :: "'s \<Rightarrow> 'a list \<Rightarrow> bool"
    and push :: "'a \<Rightarrow> 's \<Rightarrow> 's option"
    and pop :: "'s \<Rightarrow> 's option"
    and front :: "'s \<Rightarrow> 'a option"
    and is_empty :: "'s \<Rightarrow> bool"
  assumes push_law: "rel s as \<Longrightarrow> a \<notin> set as \<Longrightarrow> \<exists>s'. push a s = Some s' \<and> rel s' (as @ [a])"
    and pop_law: "rel s (a # as) \<Longrightarrow> front s = Some a \<and> (\<exists>s'. pop s = Some s' \<and> rel s' as)"
    and empty_law: "rel s as \<Longrightarrow> is_empty s \<longleftrightarrow> as = []"
begin

lemma push_all_rel: "rel s as \<Longrightarrow> distinct (as @ bs) \<Longrightarrow> \<exists>s'. push_all push bs s = Some s' \<and> rel s' (as @ bs)"
proof (induction bs arbitrary: s as)
  case (Cons b bs)
  then obtain s' where s': "push b s = Some s'" "rel s' (as @ [b])" using push_law [of s as b] by auto
  have "\<exists>s''. push_all push bs s' = Some s'' \<and> rel s'' ((as @ [b]) @ bs)"
    using s'(2) Cons.prems(2) by (intro Cons.IH) auto
  with s' show ?case by auto
qed auto

lemma pop_all_rel: "rel s as \<Longrightarrow> length as \<le> n \<Longrightarrow> pop_all is_empty front pop n s = Some as"
proof (induction n arbitrary: s as)
  case 0
  then show ?case using empty_law by auto
next
  case (Suc n)
  show ?case
  proof (cases as)
    case Nil
    then show ?thesis using Suc.prems empty_law by auto
  next
    case (Cons a as')
    then obtain s' where "front s = Some a" "pop s = Some s'" "rel s' as'" using Suc.prems pop_law [of s a as'] by auto
    then show ?thesis using Suc Cons empty_law by auto
  qed
qed

lemma fifo: "rel s as \<Longrightarrow> distinct (as @ bs) \<Longrightarrow> \<exists>s'. push_all push bs s = Some s' \<and> pop_all is_empty front pop (length (as @ bs)) s' = Some (as @ bs)"
  using push_all_rel pop_all_rel by (metis order_refl)

end

interpretation linked: message_queue queue_rel queue_push queue_pop "queue_front \<circ> snd" "queue_empty \<circ> snd"
  by unfold_locales (auto dest: queue_push_rel queue_pop_rel queue_empty_rel)

section \<open>Properties\<close>

text \<open>
  C25: The linked queue of messages is a FIFO queue without memory errors. From a state that
  represents the list \<open>as\<close>, pushing new messages \<open>bs\<close> and then taking front and popping
  until empty returns exactly \<open>as @ bs\<close>; no null or freed pointer is followed on the way.
\<close>

theorem message_queue_fifo:
  assumes "queue_rel s as" "distinct (as @ bs)"
  shows "\<exists>s'. push_all queue_push bs s = Some s' \<and> pop_all (queue_empty \<circ> snd) (queue_front \<circ> snd) queue_pop (length (as @ bs)) s' = Some (as @ bs)"
  using assms by (rule linked.fifo)

theorem message_queue_fifo_witness:
  "\<exists>s'. push_all queue_push [7, 5] (Map.empty, \<lparr>q_head = None, q_tail = None\<rparr>) = Some s' \<and> pop_all (queue_empty \<circ> snd) (queue_front \<circ> snd) queue_pop 2 s' = Some [7, 5]"
  using message_queue_fifo [of "(Map.empty, \<lparr>q_head = None, q_tail = None\<rparr>)" "[]" "[7, 5]"]
  by (simp add: queue_rel_def numeral_2_eq_2)

end
