(* ===== verification/MemPool.thy ===== *)
theory MemPool
  imports Base
begin

text \<open>
  The pool of small memory blocks of \<open>NodeData\<close> (uWebSockets \<open>Networking.h\<close>; the array is
  created and destroyed by \<open>Node\<close>, \<open>Node.cpp\<close>): one cached block per size class of 16 bytes. A
  block is an address; \<open>blocks\<close> gives the size of every live allocation.
\<close>

section \<open>The code\<close>

definition preAllocMaxSize :: nat where "preAllocMaxSize = 1024"

record pool =
  preAlloc :: "nat option list"
  blocks :: "nat \<Rightarrow> nat option"
  next_addr :: nat

definition getMemoryBlockIndex :: "nat \<Rightarrow> nat" where
  "getMemoryBlockIndex len = drop_bit 4 len + (if len AND 15 \<noteq> 0 then 1 else 0)"

definition new_block :: "nat \<Rightarrow> pool \<Rightarrow> nat \<times> pool" where
  "new_block sz p = (next_addr p, p\<lparr>blocks := (blocks p)(next_addr p := Some sz), next_addr := next_addr p + 1\<rparr>)"

definition delete_block :: "nat \<Rightarrow> pool \<Rightarrow> pool" where
  "delete_block a p = p\<lparr>blocks := (blocks p)(a := None)\<rparr>"

definition getSmallMemoryBlock :: "nat \<Rightarrow> pool \<Rightarrow> nat \<times> pool" where
  "getSmallMemoryBlock i p =
     (case preAlloc p ! i of
        Some a \<Rightarrow> (a, p\<lparr>preAlloc := (preAlloc p)[i := None]\<rparr>)
      | None \<Rightarrow> new_block (i * 16) p)"

definition freeSmallMemoryBlock :: "nat \<Rightarrow> nat \<Rightarrow> pool \<Rightarrow> pool" where
  "freeSmallMemoryBlock a i p =
     (if preAlloc p ! i = None then p\<lparr>preAlloc := (preAlloc p)[i := Some a]\<rparr> else delete_block a p)"

definition pool_indices :: nat where
  "pool_indices = getMemoryBlockIndex preAllocMaxSize + 1"

definition Node_preAlloc :: "pool \<Rightarrow> pool" where
  "Node_preAlloc p = p\<lparr>preAlloc := map (\<lambda>i. None) [0..<pool_indices]\<rparr>"

definition destroy_preAlloc :: "pool \<Rightarrow> pool" where
  "destroy_preAlloc p =
     (fold (\<lambda>i p. case preAlloc p ! i of Some a \<Rightarrow> delete_block a p | None \<Rightarrow> p) [0..<pool_indices] p)\<lparr>preAlloc := []\<rparr>"

section \<open>Invariant\<close>

lemma getMemoryBlockIndex_eq: "getMemoryBlockIndex len = (len + 15) div 16"
proof -
  have "(n + 15) div 16 = n div 16 + (if n mod 16 \<noteq> 0 then 1 else 0)" for n :: nat
  proof -
    define q r where "q = n div 16" and "r = n mod 16"
    have n: "n = q * 16 + r" "r < 16" by (simp_all add: q_def r_def)
    have "(n + 15) div 16 = q + (if r \<noteq> 0 then 1 else 0)"
      by (rule div_nat_eqI) (use n in \<open>auto split: if_splits\<close>)
    then show ?thesis by (simp only: q_def r_def)
  qed
  moreover have "drop_bit 4 len = len div 16" by (simp add: drop_bit_eq_div)
  moreover have "len AND 15 = len mod 16"
    using take_bit_eq_mask [of 4 len] by (simp add: take_bit_eq_mod mask_eq_exp_minus_1)
  ultimately show ?thesis unfolding getMemoryBlockIndex_def by (simp only:)
qed

lemma pool_indices_eq: "pool_indices = 65"
  by (simp add: pool_indices_def getMemoryBlockIndex_eq preAllocMaxSize_def)

definition pool_inv :: "pool \<Rightarrow> bool" where
  "pool_inv p \<longleftrightarrow> length (preAlloc p) = pool_indices \<and> (\<forall>a. blocks p a \<noteq> None \<longrightarrow> a < next_addr p) \<and>
     (\<forall>i < pool_indices. \<forall>a. preAlloc p ! i = Some a \<longrightarrow> blocks p a = Some (i * 16)) \<and>
     (\<forall>i < pool_indices. \<forall>j < pool_indices. \<forall>a. preAlloc p ! i = Some a \<longrightarrow> preAlloc p ! j = Some a \<longrightarrow> i = j)"

definition cached :: "pool \<Rightarrow> nat \<Rightarrow> bool" where
  "cached p a \<longleftrightarrow> (\<exists>i < pool_indices. preAlloc p ! i = Some a)"

lemma pool_inv_get:
  assumes "pool_inv p" "i < pool_indices" "getSmallMemoryBlock i p = (a, p')"
  shows "pool_inv p' \<and> blocks p' a = Some (i * 16) \<and> \<not> cached p' a \<and>
    (\<forall>b. blocks p b \<noteq> None \<longrightarrow> \<not> cached p b \<longrightarrow> b \<noteq> a \<and> blocks p' b = blocks p b \<and> \<not> cached p' b)"
proof (cases "preAlloc p ! i")
  case None
  then have p': "p' = p\<lparr>blocks := (blocks p)(next_addr p := Some (i * 16)), next_addr := next_addr p + 1\<rparr>" "a = next_addr p"
    using assms(3) by (auto simp: getSmallMemoryBlock_def new_block_def)
  have old: "preAlloc p ! j \<noteq> Some (next_addr p)" if "j < pool_indices" for j
  proof
    assume "preAlloc p ! j = Some (next_addr p)"
    then have "blocks p (next_addr p) = Some (j * 16)" using assms(1) that by (simp add: pool_inv_def)
    then have "next_addr p < next_addr p" using assms(1) unfolding pool_inv_def by (metis option.discI)
    then show False by simp
  qed
  have fresh: "blocks p (next_addr p) = None" using assms(1) unfolding pool_inv_def by (metis less_irrefl)
  show ?thesis
    using assms(1) old fresh unfolding p' pool_inv_def cached_def by (auto simp: less_Suc_eq)
next
  case (Some c)
  then have p': "p' = p\<lparr>preAlloc := (preAlloc p)[i := None]\<rparr>" "a = c"
    using assms(3) by (simp_all add: getSmallMemoryBlock_def)
  show ?thesis
    using assms(1,2) Some unfolding p' pool_inv_def cached_def
    by (auto simp: nth_list_update split: if_splits)
qed

lemma pool_inv_free:
  assumes "pool_inv p" "i < pool_indices" "blocks p a = Some (i * 16)" "\<not> cached p a"
  shows "pool_inv (freeSmallMemoryBlock a i p)"
proof (cases "preAlloc p ! i")
  case None
  then show ?thesis
    using assms unfolding freeSmallMemoryBlock_def pool_inv_def cached_def
    by (auto simp: nth_list_update split: if_splits)
next
  case (Some c)
  then show ?thesis
    using assms unfolding freeSmallMemoryBlock_def pool_inv_def cached_def delete_block_def by auto
qed

section \<open>Properties\<close>

text \<open>
  C26: Small blocks are big enough and never shared. For a request of up to
  \<open>preAllocMaxSize\<close> bytes the size class is an index of the array, the block that
  \<open>getSmallMemoryBlock\<close> returns is a live allocation of the rounded-up size, it is no longer in the
  cache and differs from every block handed out before, and returning it keeps the pool consistent.
\<close>

theorem small_block_exclusive:
  assumes "pool_inv p" "len \<le> preAllocMaxSize" "getSmallMemoryBlock (getMemoryBlockIndex len) p = (a, p')"
  shows "getMemoryBlockIndex len < length (preAlloc p) \<and> pool_inv p' \<and>
    (\<exists>sz. blocks p' a = Some sz \<and> len \<le> sz \<and> sz < len + 16) \<and> \<not> cached p' a \<and>
    (\<forall>b. blocks p b \<noteq> None \<longrightarrow> \<not> cached p b \<longrightarrow> b \<noteq> a \<and> blocks p' b = blocks p b \<and> \<not> cached p' b) \<and>
    pool_inv (freeSmallMemoryBlock a (getMemoryBlockIndex len) p')"
proof -
  have i: "getMemoryBlockIndex len < pool_indices"
    using assms(2) by (simp add: getMemoryBlockIndex_eq pool_indices_eq preAllocMaxSize_def)
  note g = pool_inv_get [OF assms(1) i assms(3)]
  have "length (preAlloc p) = pool_indices" using assms(1) by (simp add: pool_inv_def)
  moreover have "len \<le> getMemoryBlockIndex len * 16 \<and> getMemoryBlockIndex len * 16 < len + 16"
    unfolding getMemoryBlockIndex_eq by presburger
  moreover have "pool_inv (freeSmallMemoryBlock a (getMemoryBlockIndex len) p')"
    using g i by (intro pool_inv_free) auto
  ultimately show ?thesis using g i by auto
qed

definition pool0 :: pool where
  "pool0 = Node_preAlloc \<lparr>preAlloc = [], blocks = Map.empty, next_addr = 0\<rparr>"

theorem small_block_exclusive_witness:
  "pool_inv (snd (getSmallMemoryBlock (getMemoryBlockIndex 100) pool0)) \<and>
   (\<exists>sz. blocks (snd (getSmallMemoryBlock (getMemoryBlockIndex 100) pool0))
      (fst (getSmallMemoryBlock (getMemoryBlockIndex 100) pool0)) = Some sz \<and> 100 \<le> sz \<and> sz < 116)"
proof -
  have "pool_inv pool0" by (simp add: pool_inv_def pool0_def Node_preAlloc_def)
  then show ?thesis
    using small_block_exclusive [of pool0 100 "fst (getSmallMemoryBlock (getMemoryBlockIndex 100) pool0)"
        "snd (getSmallMemoryBlock (getMemoryBlockIndex 100) pool0)"]
    by (auto simp: preAllocMaxSize_def)
qed

end
