(* ===== verification/EventLoop.thy ===== *)
theory EventLoop
  imports Base
begin

text \<open>
  The event loop of the epoll backend (uWebSockets \<open>Epoll.h\<close>): the sorted timer queue of \<open>Loop\<close>
  with \<open>Timer::start\<close> and \<open>Timer::stop\<close>, the counter of polls and the list of polls that are
  being closed, and the table of callbacks behind the 4-bit \<open>cbIndex\<close>. Times are nanoseconds.
  \<open>'t\<close> are the timer callbacks, \<open>'c\<close> the callbacks of \<open>Poll::close\<close>.
\<close>

section \<open>Loop and timers\<close>

record 't timepoint =
  tp_cb :: 't
  tp_timer :: nat
  tp_time :: int
  nextDelay :: int

record ('t, 'c) loop =
  epfd :: int
  numPolls :: int
  cancelledLastTimer :: bool
  delay :: int
  now_tp :: int
  timers :: "'t timepoint list"
  closing :: "(nat \<times> 'c) list"

definition Loop_init :: "int \<Rightarrow> int \<Rightarrow> ('t, 'c) loop" where
  "Loop_init ep now = \<lparr>epfd = ep, numPolls = 0, cancelledLastTimer = False, delay = -1, now_tp = now, timers = [], closing = []\<rparr>"

definition ms_ns :: int where "ms_ns = 1000000"

text \<open>\<open>std::upper_bound\<close> on the sorted vector: behind all timers that are not later.\<close>

fun insert_timer :: "'t timepoint \<Rightarrow> 't timepoint list \<Rightarrow> 't timepoint list" where
  "insert_timer t [] = [t]"
| "insert_timer t (x # xs) = (if tp_time t < tp_time x then t # x # xs else x # insert_timer t xs)"

definition set_delay :: "('t, 'c) loop \<Rightarrow> ('t, 'c) loop" where
  "set_delay l =
     l\<lparr>delay := (if timers l \<noteq> [] then max ((tp_time (hd (timers l)) - now_tp l) div ms_ns) 0 else -1)\<rparr>"

text \<open>\<open>now\<close> is what \<open>system_clock::now\<close> returns.\<close>

definition Timer_start :: "int \<Rightarrow> nat \<Rightarrow> 't \<Rightarrow> int \<Rightarrow> int \<Rightarrow> ('t, 'c) loop \<Rightarrow> ('t, 'c) loop" where
  "Timer_start now this cb timeout repeat l =
     (let l = l\<lparr>now_tp := now\<rparr>;
          t = \<lparr>tp_cb = cb, tp_timer = this, tp_time = now + timeout * ms_ns, nextDelay = repeat\<rparr>
      in set_delay (l\<lparr>timers := insert_timer t (timers l)\<rparr>))"

fun erase_timer :: "nat \<Rightarrow> 't timepoint list \<Rightarrow> 't timepoint list" where
  "erase_timer this [] = []"
| "erase_timer this (x # xs) = (if tp_timer x = this then xs else x # erase_timer this xs)"

definition Timer_stop :: "nat \<Rightarrow> ('t, 'c) loop \<Rightarrow> ('t, 'c) loop" where
  "Timer_stop this l = set_delay (l\<lparr>timers := erase_timer this (timers l), cancelledLastTimer := True\<rparr>)"

text \<open>The state \<open>Poll(loop, fd)\<close> adds to the loop, and \<open>Poll::close\<close>.\<close>

definition Poll_add :: "('t, 'c) loop \<Rightarrow> ('t, 'c) loop" where
  "Poll_add l = l\<lparr>numPolls := numPolls l + 1\<rparr>"

definition Poll_close :: "nat \<Rightarrow> 'c \<Rightarrow> ('t, 'c) loop \<Rightarrow> ('t, 'c) loop" where
  "Poll_close p cb l = l\<lparr>closing := closing l @ [(p, cb)]\<rparr>"

section \<open>The expiry of timers\<close>

text \<open>
  One turn of the timer loop of \<open>doEpoll\<close> on a state \<open>'w\<close> that holds the loop (\<open>get\<close>, \<open>put\<close>): what
  comes before and after the callback, and the turn for a callback effect \<open>fire\<close>; \<open>now\<close> is the
  clock for the restart.
\<close>

definition timer_begin :: "('w \<Rightarrow> ('t, 'c) loop) \<Rightarrow> (('t, 'c) loop \<Rightarrow> 'w \<Rightarrow> 'w) \<Rightarrow> 'w \<Rightarrow> 'w" where
  "timer_begin get put w = put ((get w)\<lparr>cancelledLastTimer := False\<rparr>) w"

definition timer_finish :: "('w \<Rightarrow> ('t, 'c) loop) \<Rightarrow> (('t, 'c) loop \<Rightarrow> 'w \<Rightarrow> 'w) \<Rightarrow> ('w \<Rightarrow> int) \<Rightarrow> nat \<Rightarrow> 'w \<Rightarrow> 'w" where
  "timer_finish get put now timer w =
     (if cancelledLastTimer (get w) then w
      else
        let t0 = hd (timers (get w));
            w = put ((get w)\<lparr>timers := tl (timers (get w))\<rparr>) w
        in if nextDelay t0 \<noteq> 0
           then put (Timer_start (now w) timer (tp_cb t0) (nextDelay t0) (nextDelay t0) (get w)) w
           else w)"

definition timer_turn ::
  "('w \<Rightarrow> ('t, 'c) loop) \<Rightarrow> (('t, 'c) loop \<Rightarrow> 'w \<Rightarrow> 'w) \<Rightarrow> ('w \<Rightarrow> int) \<Rightarrow> ('t \<Rightarrow> nat \<Rightarrow> 'w \<Rightarrow> 'w) \<Rightarrow> 'w \<Rightarrow> 'w" where
  "timer_turn get put now fire w =
     (let t = hd (timers (get w));
          w = timer_begin get put w
      in timer_finish get put now (tp_timer t) (fire (tp_cb t) (tp_timer t) w))"

definition timer_due :: "('t, 'c) loop \<Rightarrow> bool" where
  "timer_due l \<longleftrightarrow> timers l \<noteq> [] \<and> tp_time (hd (timers l)) < now_tp l"

section \<open>The callback table\<close>

text \<open>
  \<open>setCb\<close>: the index of \<open>cb\<close> in the table, appended when it is new. The index field of a poll has
  four bits.
\<close>

fun cb_index :: "'cb \<Rightarrow> 'cb list \<Rightarrow> nat" where
  "cb_index cb [] = 0"
| "cb_index cb (c # cs) = (if c = cb then 0 else Suc (cb_index cb cs))"

definition setCb :: "'cb \<Rightarrow> 'cb list \<Rightarrow> nat \<times> 'cb list" where
  "setCb cb callbacks =
     (let i = cb_index cb callbacks
      in (i mod 16, if i = length callbacks then callbacks @ [cb] else callbacks))"

definition getCb :: "nat \<Rightarrow> 'cb list \<Rightarrow> 'cb" where
  "getCb i callbacks = callbacks ! i"

lemma cb_index_le: "cb_index cb cs \<le> length cs"
  by (induction cs) auto

lemma cb_index_nth: "cb_index cb cs < length cs \<Longrightarrow> cs ! cb_index cb cs = cb"
  by (induction cs) auto

lemma cb_index_notin: "cb_index cb cs = length cs \<Longrightarrow> cb \<notin> set cs"
  by (induction cs) (auto split: if_splits)

lemma setCb_correct:
  assumes "setCb cb cs = (i, cs')" "distinct cs" "card (set cs \<union> {cb}) \<le> 16"
  shows "getCb i cs' = cb \<and> i < length cs' \<and> distinct cs' \<and> set cs' = set cs \<union> {cb} \<and>
    (\<forall>j < length cs. getCb j cs' = getCb j cs)"
proof (cases "cb_index cb cs = length cs")
  case True
  then have new: "cb \<notin> set cs" by (rule cb_index_notin)
  then have "length cs < 16" using assms(2,3) distinct_card [of cs] by simp
  then show ?thesis
    using True new assms(1,2) by (auto simp: setCb_def Let_def getCb_def nth_append)
next
  case False
  then have lt: "cb_index cb cs < length cs" using cb_index_le [of cb cs] by simp
  then have "cs ! cb_index cb cs = cb" by (rule cb_index_nth)
  moreover from this lt have mem: "cb \<in> set cs" by (metis nth_mem)
  moreover have "cb_index cb cs < 16"
    using lt assms(2,3) distinct_card [of cs] mem by (simp add: insert_absorb)
  ultimately show ?thesis
    using False lt assms(1,2) by (auto simp: setCb_def Let_def getCb_def)
qed

section \<open>Sorted timers\<close>

definition timers_sorted :: "'t timepoint list \<Rightarrow> bool" where
  "timers_sorted ts \<longleftrightarrow> sorted (map tp_time ts)"

lemma set_insert_timer: "set (insert_timer t ts) = insert t (set ts)"
  by (induction ts) auto

lemma mset_insert_timer_sorted: "timers_sorted ts \<Longrightarrow> timers_sorted (insert_timer t ts)"
proof (induction ts)
  case (Cons x xs)
  then show ?case by (auto simp: timers_sorted_def set_insert_timer)
qed (simp add: timers_sorted_def)

lemma insert_timer_split:
  "timers_sorted ts \<Longrightarrow> insert_timer t ts = filter (\<lambda>x. tp_time x \<le> tp_time t) ts @ t # filter (\<lambda>x. tp_time t < tp_time x) ts"
proof (induction ts)
  case (Cons x xs)
  show ?case
  proof (cases "tp_time t < tp_time x")
    case True
    with Cons.prems have "\<forall>y\<in>set xs. tp_time t < tp_time y" by (auto simp: timers_sorted_def)
    then have "filter (\<lambda>x. tp_time x \<le> tp_time t) xs = []" "filter (\<lambda>x. tp_time t < tp_time x) xs = xs"
      by (auto simp: filter_empty_conv filter_id_conv)
    with True show ?thesis by simp
  qed (use Cons in \<open>simp add: timers_sorted_def\<close>)
qed simp

lemma set_erase_timer: "set (erase_timer this ts) \<subseteq> set ts"
  by (induction ts) auto

lemma erase_timer_sorted: "timers_sorted ts \<Longrightarrow> timers_sorted (erase_timer this ts)"
proof (induction ts)
  case (Cons x xs)
  then show ?case using set_erase_timer [of this xs] by (auto simp: timers_sorted_def)
qed (simp add: timers_sorted_def)

lemma erase_timer_gone: "distinct (map tp_timer ts) \<Longrightarrow> this \<notin> tp_timer ` set (erase_timer this ts)"
  by (induction ts) auto

lemma erase_timer_others: "filter (\<lambda>x. tp_timer x \<noteq> this) (erase_timer this ts) = filter (\<lambda>x. tp_timer x \<noteq> this) ts"
  by (induction ts) auto

lemma erase_timer_eq: "distinct (map tp_timer ts) \<Longrightarrow> erase_timer this ts = filter (\<lambda>x. tp_timer x \<noteq> this) ts"
proof (induction ts)
  case (Cons x xs)
  from Cons.prems have "\<forall>y\<in>set xs. tp_timer y \<noteq> tp_timer x" by (auto intro: rev_image_eqI)
  then have "filter (\<lambda>y. tp_timer y \<noteq> tp_timer x) xs = xs" by (simp add: filter_id_conv)
  with Cons show ?case by auto
qed simp

text \<open>
  Time points are compared by their time alone: a preorder, with \<open>a < b\<close> the comparison that
  \<open>Timer::start\<close> hands to \<open>std::upper_bound\<close>. The queue is sorted by it, and \<open>insert_timer\<close> puts
  the new time point before the first that is greater.
\<close>

instantiation timepoint_ext :: (type, type) preorder
begin

definition less_eq_timepoint_ext :: "('a, 'b) timepoint_scheme \<Rightarrow> ('a, 'b) timepoint_scheme \<Rightarrow> bool" where
  "less_eq_timepoint_ext a b \<longleftrightarrow> tp_time a \<le> tp_time b"

definition less_timepoint_ext :: "('a, 'b) timepoint_scheme \<Rightarrow> ('a, 'b) timepoint_scheme \<Rightarrow> bool" where
  "less_timepoint_ext a b \<longleftrightarrow> tp_time a < tp_time b"

instance
  by standard (auto simp: less_eq_timepoint_ext_def less_timepoint_ext_def)

end

lemma timers_sorted_wrt: "timers_sorted ts \<longleftrightarrow> sorted_wrt (\<le>) ts"
  by (simp add: timers_sorted_def sorted_map less_eq_timepoint_ext_def [abs_def])

lemma insert_timer_upper_bound:
  "insert_timer t ts = takeWhile (\<lambda>x. \<not> t < x) ts @ t # dropWhile (\<lambda>x. \<not> t < x) ts"
  by (induction ts) (auto simp: less_timepoint_ext_def)

section \<open>Properties\<close>

text \<open>
  What happens to the queue of a loop: the program starts and stops timers, \<open>doEpoll\<close> reads the
  clock, and fires the first timer when it is due; its callback starts and stops timers.
\<close>

datatype 't timer_call = Starts int nat 't int int | Stops nat

fun do_timer_call :: "'t timer_call \<Rightarrow> ('t, 'c) loop \<Rightarrow> ('t, 'c) loop" where
  "do_timer_call (Starts now this cb timeout repeat) l = Timer_start now this cb timeout repeat l"
| "do_timer_call (Stops this) l = Timer_stop this l"

datatype 't loop_event = Call "'t timer_call" | Clock int | Fire int "'t timer_call list"

fun do_loop_event :: "'t loop_event \<Rightarrow> ('t, 'c) loop \<Rightarrow> ('t, 'c) loop" where
  "do_loop_event (Call c) l = do_timer_call c l"
| "do_loop_event (Clock now) l = l\<lparr>now_tp := now\<rparr>"
| "do_loop_event (Fire now cs) l =
     (if timer_due l then timer_turn id (\<lambda>l _. l) (\<lambda>_. now) (\<lambda>_ _. fold do_timer_call cs) l else l)"

lemma timer_call_sorted: "timers_sorted (timers l) \<Longrightarrow> timers_sorted (timers (do_timer_call c l))"
  by (cases c) (simp_all add: Timer_start_def Timer_stop_def set_delay_def Let_def mset_insert_timer_sorted erase_timer_sorted)

lemma timer_calls_sorted: "timers_sorted (timers l) \<Longrightarrow> timers_sorted (timers (fold do_timer_call cs l))"
  by (induction cs arbitrary: l) (simp_all add: timer_call_sorted)

lemma timers_sorted_tl: "timers_sorted ts \<Longrightarrow> timers_sorted (tl ts)"
  by (cases ts) (auto simp: timers_sorted_def)

lemma loop_event_sorted: "timers_sorted (timers l) \<Longrightarrow> timers_sorted (timers (do_loop_event e l))"
proof (cases e)
  case (Fire now cs)
  assume "timers_sorted (timers l)"
  then have "timers_sorted (timers (fold do_timer_call cs (l\<lparr>cancelledLastTimer := False\<rparr>)))"
    by (intro timer_calls_sorted) simp
  then show ?thesis
    using Fire \<open>timers_sorted (timers l)\<close>
    by (auto simp: timer_turn_def timer_begin_def timer_finish_def Let_def Timer_start_def set_delay_def
        mset_insert_timer_sorted timers_sorted_tl)
qed (simp_all add: timer_call_sorted)

lemma loop_events_sorted: "timers_sorted (timers l) \<Longrightarrow> timers_sorted (timers (fold do_loop_event es l))"
  by (induction es arbitrary: l) (simp_all add: loop_event_sorted)

text \<open>The timeout of the next \<open>epoll_wait\<close> as \<open>start\<close> and \<open>stop\<close> compute it.\<close>

definition timeout_set :: "('t, 'c) loop \<Rightarrow> bool" where
  "timeout_set l \<longleftrightarrow>
     delay l = (if timers l = [] then -1 else max ((tp_time (hd (timers l)) - now_tp l) div ms_ns) 0)"


text \<open>A timer that repeats every 20 ms and one for 50 ms; the clock moves to 30 ms and the first fires.\<close>

definition ticking :: "(unit, unit) loop" where
  "ticking = fold do_loop_event [Call (Starts 0 1 () 20 20), Call (Starts 0 2 () 50 0), Clock 30000000, Fire 30000000 []] (Loop_init 3 0)"

lemma ticking_eq: "ticking = \<lparr>epfd = 3, numPolls = 0, cancelledLastTimer = False, delay = 20, now_tp = 30000000,
  timers = [\<lparr>tp_cb = (), tp_timer = 2, tp_time = 50000000, nextDelay = 0\<rparr>, \<lparr>tp_cb = (), tp_timer = 1, tp_time = 50000000, nextDelay = 20\<rparr>],
  closing = []\<rparr>"
  by (simp add: ticking_def Loop_init_def Timer_start_def set_delay_def ms_ns_def timer_due_def timer_turn_def timer_begin_def
      timer_finish_def Let_def)


text \<open>
  A timer that is due at once and does not repeat makes the loop poll without waiting from then on: it
  is taken out, and the timeout that \<open>epoll_wait\<close> is called with stays 0 until the next \<open>start\<close> or \<open>stop\<close>.
\<close>

theorem immediate_timer_leaves_busy_loop:
  assumes "timers l = []" "now < later"
  shows "let l' = fold do_loop_event [Call (Starts now this cb 0 0), Clock later, Fire later []] l
    in timers l' = [] \<and> delay l' = 0"
  using assms by (simp add: Timer_start_def set_delay_def timer_due_def timer_turn_def timer_begin_def timer_finish_def Let_def)

text \<open>
  A callback that stops another timer makes its own timer fire again at once. \<open>stop\<close> sets
  \<open>cancelledLastTimer\<close> whichever timer it removes; the loop then skips both the removal and the
  re-arming of the timer that has just fired, which is still first and still due.
\<close>

theorem stopping_another_timer_refires:
  assumes "timer_due (get w)" "\<And>l w. get (put l w) = l"
    "fire = (\<lambda>cb this w. put (Timer_stop other (get w)) w)" "tp_timer (hd (timers (get w))) \<noteq> other"
  shows "hd (timers (get (timer_turn get put now fire w))) = hd (timers (get w)) \<and>
    timer_due (get (timer_turn get put now fire w))"
proof -
  obtain t ts where t: "timers (get w) = t # ts" using assms(1) by (cases "timers (get w)") (auto simp: timer_due_def)
  then show ?thesis
    using assms by (simp add: timer_turn_def timer_begin_def timer_finish_def timer_due_def Let_def Timer_stop_def set_delay_def)
qed

definition two_timers :: "(unit, unit) loop" where
  "two_timers = (Loop_init 3 100)\<lparr>timers := [\<lparr>tp_cb = (), tp_timer = 1, tp_time = 50, nextDelay = 0\<rparr>,
     \<lparr>tp_cb = (), tp_timer = 2, tp_time = 900, nextDelay = 0\<rparr>]\<rparr>"

theorem stopping_another_timer_refires_witness:
  "hd (timers (timer_turn id (\<lambda>l w. l) (\<lambda>w. 0) (\<lambda>cb this w. Timer_stop 2 w) two_timers)) = hd (timers two_timers)"
  using stopping_another_timer_refires [of id two_timers "\<lambda>l w. l" "\<lambda>cb this w. Timer_stop 2 w" 2 "\<lambda>w. 0"]
  by (simp add: two_timers_def Loop_init_def timer_due_def)

end
