(* ===== verification/World.thy ===== *)
theory World
  imports ProtocolInv Uri MsgQueue MemPool EventLoop
begin

text \<open>
  The state of a running uWebSockets program: sockets, groups, loops, HTTP responses, prepared
  messages, compression streams, the pool of small blocks and the trace of system calls. There is
  one \<open>Hub\<close> (its pool, compression streams and buffers); groups of other hubs may receive sockets.
  Pointers are numbers. A socket object is one record with the fields of \<open>uS::Socket\<close> (\<open>Socket.h\<close>),
  \<open>HttpSocket\<close> (\<open>HTTPSocket.h\<close>), \<open>WebSocket\<close> (\<open>WebSocket.h\<close>) and \<open>ListenSocket\<close>. What the operating
  system, OpenSSL and zlib answer, and what the application's handlers do, is a parameter
  (\<open>env\<close>): answers are functions of the trace so far, handlers are functions on the state, with the
  value \<open>None\<close> when they do not return.
\<close>

section \<open>Objects\<close>

type_synonym poll_events = "32 word"

definition UV_READABLE :: poll_events where "UV_READABLE = 1"
definition UV_WRITABLE :: poll_events where "UV_WRITABLE = 4"

datatype poll_cb = Cb_unset | Io_ws bool | SslIo_ws bool | Io_http bool | SslIo_http bool
  | Connect_cb | Accept_poll_cb | Async_cb

datatype timer_cb = Ws_timeout bool | Http_timeout | Auto_ping bool | Http_deadline bool | Accept_timer_cb

datatype close_cb = Delete_socket | Transfer_socket | Delete_async

datatype msg_cb = User_cb nat | Shutdown_cb | Prepared_cb

record message =
  m_data :: "byte list"
  m_cb :: "msg_cb option"
  m_cbdata :: nat
  m_reserved :: nat
  m_addr :: nat

record transfer_data =
  td_fd :: int
  td_ssl :: "nat option"
  pollCb :: poll_cb
  pollEvents :: poll_events
  td_userData :: "nat option"
  destination :: nat
  transferCb :: bool

datatype compression = DISABLED | ENABLED | COMPRESSED_FRAME

record sock =
  s_fd :: int
  s_cb :: poll_cb
  s_poll :: poll_events
  s_shutting :: bool
  s_ssl :: "nat option"
  s_user :: "nat option"
  s_node :: nat
  s_queue :: "message list"
  s_next :: "nat option"
  s_prev :: "nat option"
  s_deleted :: bool
  httpUser :: "nat option"
  outstandingResponsesHead :: "nat option"
  outstandingResponsesTail :: "nat option"
  preAllocatedResponse :: "nat option"
  httpBuffer :: "byte list"
  contentLength :: nat
  missedDeadline :: bool
  fragmentBuffer :: "byte list"
  compressionStatus :: compression
  controlTipLength :: nat
  hasOutstandingPong :: bool
  slidingDeflateWindow :: "nat option"
  s_ws :: wstate
  l_timer :: "nat option"
  l_ssl :: "nat option"

record group =
  g_loop :: nat
  g_maxPayload :: "32 word"
  extensionOptions :: "32 word"
  g_timer :: "nat option"
  httpTimer :: "nat option"
  userPingMessage :: "byte list"
  iterators :: "nat option list"
  g_userData :: "nat option"
  g_user :: "nat option"
  webSocketHead :: "nat option"
  httpSocketHead :: "nat option"
  g_async :: "nat option"
  transferQueue :: "nat list"
  changePollQueue :: "nat list"
  g_tid :: nat

record response =
  r_socket :: nat
  r_next :: "nat option"
  r_userData :: "nat option"
  r_queue :: "message option list"  \<comment> \<open>\<open>None\<close>: already freed, or linked into the queue of the socket\<close>
  r_hasEnded :: bool
  r_hasHead :: bool

record prepared =
  pm_buffer :: "byte list"
  pm_size :: nat
  pm_references :: int
  pm_callback :: "nat option"

section \<open>The trace\<close>

record addrinfo =
  ai_inet6 :: bool
  ai_addr :: nat

datatype event =
    E_send int "byte list" int
  | E_recv int nat
  | E_ssl_write nat "byte list" int
  | E_ssl_read nat nat
  | E_ssl_new "nat option" nat
  | E_ssl_free nat
  | E_ssl_shutdown nat
  | E_shutdown int
  | E_close int
  | E_cork int bool
  | E_nodelay int bool
  | E_setsockopt int string
  | E_nonblock int
  | E_epoll_add int int nat poll_events
  | E_epoll_mod int int nat poll_events
  | E_epoll_del int int
  | E_epoll_wait int int
  | E_eventfd_write int
  | E_eventfd_read int
  | E_accept int int
  | E_socket int
  | E_connect int nat
  | E_resolve "byte list option" int
  | E_bind_listen int nat
  | E_rand
  | E_delete_socket nat
  | E_delete_response nat
  | E_delete_prepared nat
  | E_new_timer nat
  | E_close_timer nat

datatype ssl_error = WANT_READ | WANT_WRITE | SSL_FATAL
datatype ssl_state = SSL_NOTHING | SSL_READING | SSL_WRITING

datatype zret = Z_OK | Z_BUF_ERROR | Z_STREAM_END | Z_OTHER

text \<open>The object of the application (\<open>WSClient\<close> of \<open>wsclient.hpp\<close>).\<close>

record wsclient =
  wc_is_connected :: bool
  wc_ws :: "nat option"

record world =
  socks :: "nat \<Rightarrow> sock"
  groups :: "nat \<Rightarrow> group"
  loops :: "nat \<Rightarrow> (timer_cb, close_cb) loop"
  timer_data :: "nat \<Rightarrow> nat"
  timer_loop :: "nat \<Rightarrow> nat"
  transfers :: "nat \<Rightarrow> transfer_data"
  resps :: "nat \<Rightarrow> response"
  prepareds :: "nat \<Rightarrow> prepared"
  w_pool :: pool
  fresh :: nat
  zstreams :: "nat \<Rightarrow> nat"
  deflationStream :: nat
  inflationStream :: nat
  dynamicZlibBuffer :: "byte list"
  client :: wsclient
  trace :: "event list"

text \<open>
  The parameters. \<open>zdeflate st input room\<close> and \<open>zinflate st input room\<close> are one call of zlib with
  \<open>avail_in\<close> input bytes and \<open>avail_out\<close> = \<open>room\<close>: status, output, rest of the input, new stream state.
\<close>

record env =
  sys_send :: "event list \<Rightarrow> int \<Rightarrow> byte list \<Rightarrow> int"
  sys_would_block :: "event list \<Rightarrow> bool"
  sys_recv :: "event list \<Rightarrow> int \<Rightarrow> nat \<Rightarrow> byte list option"
  ssl_write :: "event list \<Rightarrow> nat \<Rightarrow> byte list \<Rightarrow> int"
  ssl_read :: "event list \<Rightarrow> nat \<Rightarrow> nat \<Rightarrow> byte list option"
  ssl_get_error :: "event list \<Rightarrow> nat \<Rightarrow> ssl_error"
  ssl_want :: "event list \<Rightarrow> nat \<Rightarrow> ssl_state"
  ssl_pending :: "event list \<Rightarrow> nat \<Rightarrow> bool"
  sys_accept :: "event list \<Rightarrow> int \<Rightarrow> int"
  sys_socket :: "event list \<Rightarrow> int"
  sys_getaddrinfo :: "event list \<Rightarrow> byte list option \<Rightarrow> int \<Rightarrow> addrinfo list option"
  sys_bind_listen :: "event list \<Rightarrow> int \<Rightarrow> nat \<Rightarrow> bool"
  sys_epoll_wait :: "event list \<Rightarrow> int \<Rightarrow> (nat \<times> poll_events) list"
  sys_now :: "event list \<Rightarrow> int"
  sys_eventfd :: "event list \<Rightarrow> int"
  sys_epoll_create :: "event list \<Rightarrow> int"
  sys_eventfd_read :: "event list \<Rightarrow> int \<Rightarrow> bool"
  sys_getpeername :: "event list \<Rightarrow> int \<Rightarrow> (bool \<times> byte list \<times> byte list) option"
  inet_ntop :: "bool \<Rightarrow> byte list \<Rightarrow> byte list"
  sys_rand :: "event list \<Rightarrow> 32 word"
  sys_self :: "event list \<Rightarrow> nat"
  threadSafeChange :: bool
  sha1 :: "byte list \<Rightarrow> byte list"
  zdeflate :: "nat \<Rightarrow> byte list \<Rightarrow> nat \<Rightarrow> zret \<times> byte list \<times> byte list \<times> nat"
  zinflate :: "nat \<Rightarrow> byte list \<Rightarrow> nat \<Rightarrow> zret \<times> byte list \<times> byte list \<times> nat"
  zreset :: nat
  recv_memory :: "event list \<Rightarrow> mem"
  recv_buffer :: nat
  recv_length :: nat
  user_callback :: "nat \<Rightarrow> nat option \<Rightarrow> nat \<Rightarrow> bool \<Rightarrow> nat \<Rightarrow> world \<Rightarrow> world option"
  connectionHandler :: "nat \<Rightarrow> nat \<Rightarrow> mem \<times> request \<Rightarrow> world \<Rightarrow> world option"
  transferHandler :: "nat \<Rightarrow> nat \<Rightarrow> world \<Rightarrow> world option"
  messageHandler :: "nat \<Rightarrow> nat \<Rightarrow> byte list \<Rightarrow> byte \<Rightarrow> world \<Rightarrow> world option"
  disconnectionHandler :: "nat \<Rightarrow> nat \<Rightarrow> nat \<Rightarrow> byte list \<Rightarrow> world \<Rightarrow> world option"
  pingHandler :: "nat \<Rightarrow> nat \<Rightarrow> byte list \<Rightarrow> world \<Rightarrow> world option"
  pongHandler :: "nat \<Rightarrow> nat \<Rightarrow> byte list \<Rightarrow> world \<Rightarrow> world option"
  httpConnectionHandler :: "nat \<Rightarrow> nat \<Rightarrow> world \<Rightarrow> world option"
  httpRequestHandler :: "nat \<Rightarrow> (nat \<Rightarrow> mem \<times> request \<Rightarrow> byte list \<Rightarrow> nat \<Rightarrow> world \<Rightarrow> world option) option"
  httpDataHandler :: "nat \<Rightarrow> nat option \<Rightarrow> byte list \<Rightarrow> nat \<Rightarrow> world \<Rightarrow> world option"
  httpCancelledRequestHandler :: "nat \<Rightarrow> nat \<Rightarrow> world \<Rightarrow> world option"
  httpDisconnectionHandler :: "nat \<Rightarrow> nat \<Rightarrow> world \<Rightarrow> world option"
  httpUpgradeHandler :: "nat \<Rightarrow> (nat \<Rightarrow> mem \<times> request \<Rightarrow> world \<Rightarrow> world option) option"
  errorHandler :: "nat \<Rightarrow> nat option \<Rightarrow> world \<Rightarrow> world option"
  listenErrorHandler :: "nat \<Rightarrow> int \<Rightarrow> world \<Rightarrow> world option"

section \<open>Access\<close>

definition log :: "event \<Rightarrow> world \<Rightarrow> world" where
  "log e w = w\<lparr>trace := trace w @ [e]\<rparr>"

definition upd_sock :: "nat \<Rightarrow> (sock \<Rightarrow> sock) \<Rightarrow> world \<Rightarrow> world" where
  "upd_sock s f w = w\<lparr>socks := (socks w)(s := f (socks w s))\<rparr>"

definition upd_group :: "nat \<Rightarrow> (group \<Rightarrow> group) \<Rightarrow> world \<Rightarrow> world" where
  "upd_group g f w = w\<lparr>groups := (groups w)(g := f (groups w g))\<rparr>"

definition upd_loop :: "nat \<Rightarrow> ((timer_cb, close_cb) loop \<Rightarrow> (timer_cb, close_cb) loop) \<Rightarrow> world \<Rightarrow> world" where
  "upd_loop l f w = w\<lparr>loops := (loops w)(l := f (loops w l))\<rparr>"

definition upd_resp :: "nat \<Rightarrow> (response \<Rightarrow> response) \<Rightarrow> world \<Rightarrow> world" where
  "upd_resp r f w = w\<lparr>resps := (resps w)(r := f (resps w r))\<rparr>"

definition upd_prepared :: "nat \<Rightarrow> (prepared \<Rightarrow> prepared) \<Rightarrow> world \<Rightarrow> world" where
  "upd_prepared p f w = w\<lparr>prepareds := (prepareds w)(p := f (prepareds w p))\<rparr>"

definition upd_pool :: "(pool \<Rightarrow> pool) \<Rightarrow> world \<Rightarrow> world" where
  "upd_pool f w = w\<lparr>w_pool := f (w_pool w)\<rparr>"

definition new_id :: "world \<Rightarrow> nat \<times> world" where
  "new_id w = (fresh w, w\<lparr>fresh := fresh w + 1\<rparr>)"

definition sock_group :: "world \<Rightarrow> nat \<Rightarrow> group" where
  "sock_group w s = groups w (s_node (socks w s))"

definition sock_loop :: "world \<Rightarrow> nat \<Rightarrow> nat" where
  "sock_loop w s = g_loop (sock_group w s)"

named_theorems access \<open>reading a state after an update\<close>

lemma upd_simps [access]:
  "trace (upd_sock s f w) = trace w" "groups (upd_sock s f w) = groups w" "loops (upd_sock s f w) = loops w"
  "resps (upd_sock s f w) = resps w" "prepareds (upd_sock s f w) = prepareds w" "fresh (upd_sock s f w) = fresh w"
  "w_pool (upd_sock s f w) = w_pool w" "timer_data (upd_sock s f w) = timer_data w"
  "socks (upd_sock s f w) t = (if t = s then f (socks w s) else socks w t)"
  "socks (upd_group g h w) = socks w" "trace (upd_group g h w) = trace w" "loops (upd_group g h w) = loops w"
  "resps (upd_group g h w) = resps w" "w_pool (upd_group g h w) = w_pool w" "prepareds (upd_group g h w) = prepareds w"
  "groups (upd_group g h w) i = (if i = g then h (groups w g) else groups w i)"
  "socks (upd_loop l k w) = socks w" "trace (upd_loop l k w) = trace w" "groups (upd_loop l k w) = groups w"
  "resps (upd_loop l k w) = resps w" "w_pool (upd_loop l k w) = w_pool w" "prepareds (upd_loop l k w) = prepareds w"
  "loops (upd_loop l k w) i = (if i = l then k (loops w l) else loops w i)"
  "socks (log e w) = socks w" "groups (log e w) = groups w" "loops (log e w) = loops w" "trace (log e w) = trace w @ [e]"
  "resps (log e w) = resps w" "w_pool (log e w) = w_pool w" "prepareds (log e w) = prepareds w"
  "socks (upd_resp r j w) = socks w" "trace (upd_resp r j w) = trace w" "groups (upd_resp r j w) = groups w"
  "resps (upd_resp r j w) i = (if i = r then j (resps w r) else resps w i)"
  by (simp_all add: upd_sock_def upd_group_def upd_loop_def upd_resp_def log_def)

lemma upd_simps2 [access]:
  "fresh (log e w) = fresh w" "fresh (upd_group g h w) = fresh w" "fresh (upd_loop l k w) = fresh w"
  "dynamicZlibBuffer (log e w) = dynamicZlibBuffer w" "dynamicZlibBuffer (upd_sock s f w) = dynamicZlibBuffer w"
  "timer_data (log e w) = timer_data w"
  "socks (upd_prepared p z w) = socks w" "trace (upd_prepared p z w) = trace w" "groups (upd_prepared p z w) = groups w"
  "prepareds (upd_prepared p z w) i = (if i = p then z (prepareds w p) else prepareds w i)"
  by (simp_all add: upd_sock_def upd_group_def upd_loop_def upd_prepared_def log_def)

lemma upd_simps3 [access]:
  "socks (upd_pool p w) = socks w" "trace (upd_pool p w) = trace w" "groups (upd_pool p w) = groups w"
  "loops (upd_pool p w) = loops w" "prepareds (upd_pool p w) = prepareds w" "resps (upd_pool p w) = resps w"
  "w_pool (upd_pool p w) = p (w_pool w)"
  by (simp_all add: upd_pool_def)

lemma upd_sock_id [simp]: "upd_sock s (\<lambda>x. x) w = w"
  by (simp add: upd_sock_def)

lemma upd_sock_twice: "upd_sock s f (upd_sock s g w) = upd_sock s (\<lambda>x. f (g x)) w"
  by (simp add: upd_sock_def)

end
