(* ===== verification/Sample.thy ===== *)
theory Sample
  imports World
begin

text \<open>
  A concrete environment and a concrete initial state, at which the properties of the socket layer
  are instantiated: the system takes at most two bytes per \<open>send\<close>, and the handlers do nothing.
\<close>

definition sock0 :: sock where
  "sock0 = \<lparr>s_fd = 7, s_cb = Cb_unset, s_poll = UV_READABLE, s_shutting = False, s_ssl = None, s_user = None, s_node = 0,
     s_queue = [], s_next = None, s_prev = None, s_deleted = False, httpUser = None,
     outstandingResponsesHead = None, outstandingResponsesTail = None, preAllocatedResponse = None,
     httpBuffer = [], contentLength = 0, missedDeadline = False, fragmentBuffer = [], compressionStatus = DISABLED,
     controlTipLength = 0, hasOutstandingPong = False, slidingDeflateWindow = None, s_ws = State_init raw0,
     l_timer = None, l_ssl = None\<rparr>"

definition group0 :: group where
  "group0 = \<lparr>g_loop = 0, g_maxPayload = 16777216, extensionOptions = 0, g_timer = None, httpTimer = None,
     userPingMessage = [], iterators = [], g_userData = None, g_user = None, webSocketHead = None,
     httpSocketHead = None, g_async = None, transferQueue = [], changePollQueue = [], g_tid = 0\<rparr>"

definition world0 :: world where
  "world0 = \<lparr>socks = (\<lambda>_. sock0), groups = (\<lambda>_. group0), loops = (\<lambda>_. Loop_init 3 0), timer_data = (\<lambda>_. 0),
     timer_loop = (\<lambda>_. 0),
     transfers = (\<lambda>_. \<lparr>td_fd = 0, td_ssl = None, pollCb = Cb_unset, pollEvents = 0, td_userData = None, destination = 0,
       transferCb = False\<rparr>),
     resps = (\<lambda>_. \<lparr>r_socket = 0, r_next = None, r_userData = None, r_queue = [], r_hasEnded = False, r_hasHead = False\<rparr>),
     prepareds = (\<lambda>_. \<lparr>pm_buffer = [], pm_size = 0, pm_references = 0, pm_callback = None\<rparr>),
     w_pool = Node_preAlloc \<lparr>preAlloc = [], blocks = (\<lambda>_. None), next_addr = 1\<rparr>, fresh = 100,
     zstreams = (\<lambda>_. 0), deflationStream = 0, inflationStream = 1, dynamicZlibBuffer = [],
     client = \<lparr>wc_is_connected = False, wc_ws = None\<rparr>, trace = []\<rparr>"

definition env0 :: env where
  "env0 = \<lparr>sys_send = (\<lambda>_ _ d. min 2 (int (length d))), sys_would_block = (\<lambda>_. True), sys_recv = (\<lambda>_ _ _. None),
     ssl_write = (\<lambda>_ _ d. int (length d)), ssl_read = (\<lambda>_ _ _. None), ssl_get_error = (\<lambda>_ _. WANT_READ),
     ssl_want = (\<lambda>_ _. SSL_NOTHING), ssl_pending = (\<lambda>_ _. False), sys_accept = (\<lambda>_ _. -1), sys_socket = (\<lambda>_. 9),
     sys_getaddrinfo = (\<lambda>_ _ _. None), sys_bind_listen = (\<lambda>_ _ _. False), sys_epoll_wait = (\<lambda>_ _. []),
     sys_now = (\<lambda>_. 0), sys_eventfd = (\<lambda>_. 5), sys_epoll_create = (\<lambda>_. 3), sys_eventfd_read = (\<lambda>_ _. True),
     sys_getpeername = (\<lambda>_ _. None), inet_ntop = (\<lambda>_ _. []), sys_rand = (\<lambda>_. 0), sys_self = (\<lambda>_. 0),
     threadSafeChange = True, sha1 = (\<lambda>_. replicate 20 0), zdeflate = (\<lambda>st d _. (Z_OK, d, [], st)),
     zinflate = (\<lambda>st d _. (Z_OK, d, [], st)), zreset = 0, recv_memory = (\<lambda>_ _. 0), recv_buffer = 13,
     recv_length = 307183, user_callback = (\<lambda>_ _ _ _ _ w. Some w), connectionHandler = (\<lambda>_ _ _ w. Some w),
     transferHandler = (\<lambda>_ _ w. Some w), messageHandler = (\<lambda>_ _ _ _ w. Some w), disconnectionHandler = (\<lambda>_ _ _ _ w. Some w),
     pingHandler = (\<lambda>_ _ _ w. Some w), pongHandler = (\<lambda>_ _ _ w. Some w), httpConnectionHandler = (\<lambda>_ _ w. Some w),
     httpRequestHandler = (\<lambda>_. Some (\<lambda>_ _ _ _ w. Some w)), httpDataHandler = (\<lambda>_ _ _ _ w. Some w),
     httpCancelledRequestHandler = (\<lambda>_ _ w. Some w), httpDisconnectionHandler = (\<lambda>_ _ w. Some w),
     httpUpgradeHandler = (\<lambda>_. None), errorHandler = (\<lambda>_ _ w. Some w), listenErrorHandler = (\<lambda>_ _ w. Some w)\<rparr>"

end
