(* ===== verification/SocketIO.thy ===== *)
theory SocketIO
  imports World
begin

text \<open>
  \<open>uS::Socket\<close> (uWebSockets \<open>Socket.h\<close>, \<open>Socket.cpp\<close>) on the epoll \<open>Poll\<close> (\<open>Epoll.h\<close>): polling,
  writing with the message queue, the two I/O handlers, timeouts, transfers and closing. A socket
  is its number \<open>s\<close>. The I/O handlers take \<open>STATE::onData\<close> and \<open>STATE::onEnd\<close> as arguments; their
  value is \<open>None\<close> when a loop does not end or a null pointer is followed.
\<close>

section \<open>Poll\<close>

definition Poll_ctor :: "nat \<Rightarrow> nat \<Rightarrow> int \<Rightarrow> world \<Rightarrow> world" where
  "Poll_ctor s l fd w = upd_loop l Poll_add (upd_sock s (\<lambda>x. x\<lparr>s_fd := fd\<rparr>) (log (E_nonblock fd) w))"

definition reInit :: "nat \<Rightarrow> nat \<Rightarrow> int \<Rightarrow> world \<Rightarrow> world" where
  "reInit s l fd w = upd_loop l Poll_add (upd_sock s (\<lambda>x. x\<lparr>s_fd := fd\<rparr>) w)"

definition poll_start :: "nat \<Rightarrow> nat \<Rightarrow> poll_events \<Rightarrow> world \<Rightarrow> world" where
  "poll_start l s events w = log (E_epoll_add (epfd (loops w l)) (s_fd (socks w s)) s events) w"

definition poll_change :: "nat \<Rightarrow> nat \<Rightarrow> poll_events \<Rightarrow> world \<Rightarrow> world" where
  "poll_change l s events w = log (E_epoll_mod (epfd (loops w l)) (s_fd (socks w s)) s events) w"

definition poll_stop :: "nat \<Rightarrow> nat \<Rightarrow> world \<Rightarrow> world" where
  "poll_stop l s w = log (E_epoll_del (epfd (loops w l)) (s_fd (socks w s))) w"

definition fastTransfer :: "nat \<Rightarrow> nat \<Rightarrow> nat \<Rightarrow> poll_events \<Rightarrow> world \<Rightarrow> world" where
  "fastTransfer l newLoop s events w =
     upd_loop newLoop Poll_add (upd_loop l (\<lambda>x. x\<lparr>numPolls := numPolls x - 1\<rparr>)
       (poll_start newLoop s events (poll_stop l s w)))"

definition poll_close :: "nat \<Rightarrow> nat \<Rightarrow> close_cb \<Rightarrow> world \<Rightarrow> world" where
  "poll_close l s cb w = upd_loop l (Poll_close s cb) (upd_sock s (\<lambda>x. x\<lparr>s_fd := -1\<rparr>) w)"

definition isClosed :: "world \<Rightarrow> nat \<Rightarrow> bool" where
  "isClosed w s \<longleftrightarrow> s_fd (socks w s) = -1"

definition set_cb :: "nat \<Rightarrow> poll_cb \<Rightarrow> world \<Rightarrow> world" where
  "set_cb s cb = upd_sock s (\<lambda>x. x\<lparr>s_cb := cb\<rparr>)"

definition setPoll :: "nat \<Rightarrow> poll_events \<Rightarrow> world \<Rightarrow> world" where
  "setPoll s p = upd_sock s (\<lambda>x. x\<lparr>s_poll := p\<rparr>)"

definition getPoll :: "world \<Rightarrow> nat \<Rightarrow> poll_events" where
  "getPoll w s = s_poll (socks w s)"

definition getFd :: "world \<Rightarrow> nat \<Rightarrow> int" where
  "getFd w s = s_fd (socks w s)"

text \<open>A change from another thread: \<open>epoll_ctl\<close> is thread safe, and \<open>True\<close> says that it is done.\<close>

definition epoll_threadSafeChange :: "nat \<Rightarrow> nat \<Rightarrow> poll_events \<Rightarrow> world \<Rightarrow> bool \<times> world" where
  "epoll_threadSafeChange l s events w = (True, poll_change l s events w)"

definition getEpollFd :: "world \<Rightarrow> nat \<Rightarrow> int" where
  "getEpollFd w l = epfd (loops w l)"

definition loop_destroy :: "nat \<Rightarrow> world \<Rightarrow> world" where
  "loop_destroy l w = log (E_close (epfd (loops w l))) w"

text \<open>\<open>change(nodeData->loop, this, setPoll(p))\<close>.\<close>

definition change_to :: "nat \<Rightarrow> poll_events \<Rightarrow> world \<Rightarrow> world" where
  "change_to s p w = (let w = setPoll s p w in poll_change (sock_loop w s) s p w)"

section \<open>Async\<close>

definition async_new :: "env \<Rightarrow> nat \<Rightarrow> world \<Rightarrow> nat \<times> world" where
  "async_new E l w =
     (let (a, w) = new_id w; fd = sys_eventfd E (trace w) in (a, Poll_ctor a l fd w))"

definition async_start :: "nat \<Rightarrow> nat \<Rightarrow> world \<Rightarrow> world" where
  "async_start l a w = poll_start l a UV_READABLE (set_cb a Async_cb w)"

definition async_send :: "nat \<Rightarrow> world \<Rightarrow> world" where
  "async_send a w = log (E_eventfd_write (s_fd (socks w a))) w"

definition async_close :: "nat \<Rightarrow> nat \<Rightarrow> world \<Rightarrow> world" where
  "async_close l a w =
     (let w = poll_stop l a w; w = log (E_close (s_fd (socks w a))) w in poll_close l a Delete_async w)"

section \<open>Small operations of Socket\<close>

definition isShuttingDown :: "world \<Rightarrow> nat \<Rightarrow> bool" where
  "isShuttingDown w s \<longleftrightarrow> s_shutting (socks w s)"

definition setShuttingDown :: "nat \<Rightarrow> bool \<Rightarrow> world \<Rightarrow> world" where
  "setShuttingDown s b = upd_sock s (\<lambda>x. x\<lparr>s_shutting := b\<rparr>)"

definition getNodeData :: "world \<Rightarrow> nat \<Rightarrow> nat" where
  "getNodeData w s = s_node (socks w s)"

definition getUserData :: "world \<Rightarrow> nat \<Rightarrow> nat option" where
  "getUserData w s = s_user (socks w s)"

definition setUserData :: "nat \<Rightarrow> nat option \<Rightarrow> world \<Rightarrow> world" where
  "setUserData s u = upd_sock s (\<lambda>x. x\<lparr>s_user := u\<rparr>)"

definition setNoDelay :: "nat \<Rightarrow> bool \<Rightarrow> world \<Rightarrow> world" where
  "setNoDelay s enable w = log (E_nodelay (s_fd (socks w s)) enable) w"

definition cork :: "nat \<Rightarrow> bool \<Rightarrow> world \<Rightarrow> world" where
  "cork s enable w = log (E_cork (s_fd (socks w s)) enable) w"

definition sock_shutdown :: "nat \<Rightarrow> world \<Rightarrow> world" where
  "sock_shutdown s w =
     (case s_ssl (socks w s) of
        Some ssl \<Rightarrow> log (E_ssl_shutdown ssl) w
      | None \<Rightarrow> log (E_shutdown (s_fd (socks w s))) w)"

record address =
  a_port :: nat
  a_address :: "byte list"
  a_family :: string

definition getAddress :: "env \<Rightarrow> nat \<Rightarrow> world \<Rightarrow> address" where
  "getAddress E s w =
     (case sys_getpeername E (trace w) (s_fd (socks w s)) of
        None \<Rightarrow> \<lparr>a_port = 0, a_address = [], a_family = []\<rparr>
      | Some (ipv4, pt, addr) \<Rightarrow>
          if ipv4 then \<lparr>a_port = be_val pt, a_address = inet_ntop E True addr, a_family = ''IPv4''\<rparr>
          else \<lparr>a_port = be_val pt, a_address = inet_ntop E False addr, a_family = ''IPv6''\<rparr>)"

text \<open>\<open>isServer\<close> and the kind of socket select the instance of the handler template.\<close>

definition setState :: "bool \<Rightarrow> bool \<Rightarrow> nat \<Rightarrow> world \<Rightarrow> world" where
  "setState websocket isServer s w =
     (if s_ssl (socks w s) \<noteq> None
      then set_cb s (if websocket then SslIo_ws isServer else SslIo_http isServer) w
      else set_cb s (if websocket then Io_ws isServer else Io_http isServer) w)"

definition Socket_init :: "nat \<Rightarrow> nat option \<Rightarrow> sock \<Rightarrow> sock" where
  "Socket_init g ssl x = x\<lparr>s_cb := Cb_unset, s_poll := 0, s_shutting := False, s_ssl := ssl, s_user := None,
     s_node := g, s_queue := [], s_next := None, s_prev := None\<rparr>"

definition Socket_ctor :: "nat \<Rightarrow> nat \<Rightarrow> nat \<Rightarrow> int \<Rightarrow> nat option \<Rightarrow> world \<Rightarrow> world" where
  "Socket_ctor s g l fd ssl w = upd_sock s (Socket_init g ssl) (Poll_ctor s l fd w)"

section \<open>Timeouts\<close>

definition timer_new :: "nat \<Rightarrow> nat \<Rightarrow> world \<Rightarrow> nat \<times> world" where
  "timer_new l d w =
     (let (t, w) = new_id w
      in (t, (log (E_new_timer t) w)\<lparr>timer_data := (timer_data w)(t := d), timer_loop := (timer_loop w)(t := l)\<rparr>))"

definition timer_setData :: "nat \<Rightarrow> nat \<Rightarrow> world \<Rightarrow> world" where
  "timer_setData t d w = w\<lparr>timer_data := (timer_data w)(t := d)\<rparr>"

definition timer_getData :: "world \<Rightarrow> nat \<Rightarrow> nat" where
  "timer_getData w t = timer_data w t"

definition timer_start :: "env \<Rightarrow> nat \<Rightarrow> timer_cb \<Rightarrow> int \<Rightarrow> int \<Rightarrow> world \<Rightarrow> world" where
  "timer_start E t cb timeout repeat w =
     upd_loop (timer_loop w t) (Timer_start (sys_now E (trace w)) t cb timeout repeat) w"

definition timer_stop :: "nat \<Rightarrow> world \<Rightarrow> world" where
  "timer_stop t w = upd_loop (timer_loop w t) (Timer_stop t) w"

definition timer_close :: "nat \<Rightarrow> world \<Rightarrow> world" where
  "timer_close t w = log (E_close_timer t) w"

definition startTimeout :: "env \<Rightarrow> timer_cb \<Rightarrow> int \<Rightarrow> nat \<Rightarrow> world \<Rightarrow> world" where
  "startTimeout E cb timeoutMs s w =
     (let (t, w) = timer_new (sock_loop w s) s w;
          w = timer_start E t cb timeoutMs 0 w
      in setUserData s (Some t) w)"

definition cancelTimeout :: "nat \<Rightarrow> world \<Rightarrow> world" where
  "cancelTimeout s w =
     (case getUserData w s of
        Some t \<Rightarrow> setUserData s None (timer_close t (timer_stop t w))
      | None \<Rightarrow> w)"

text \<open>The lambda of \<open>startTimeout\<close>.\<close>

definition timeout_cb :: "(nat \<Rightarrow> world \<Rightarrow> world option) \<Rightarrow> nat \<Rightarrow> world \<Rightarrow> world option" where
  "timeout_cb onTimeout t w = (let s = timer_data w t in onTimeout s (cancelTimeout s w))"

section \<open>Transfer and closing\<close>

definition transfer_start :: "nat \<Rightarrow> bool \<Rightarrow> nat \<Rightarrow> world \<Rightarrow> world" where
  "transfer_start g cb s w =
     (let x = socks w s; (d, w) = new_id w;
          td = \<lparr>td_fd = s_fd x, td_ssl = s_ssl x, pollCb = s_cb x, pollEvents = s_poll x, td_userData = s_user x,
                destination = g, transferCb = cb\<rparr>;
          w = setUserData s (Some d) (w\<lparr>transfers := (transfers w)(d := td)\<rparr>);
          w = poll_stop (sock_loop w s) s w
      in poll_close (sock_loop w s) s Transfer_socket w)"

definition send_async :: "nat \<Rightarrow> world \<Rightarrow> world" where
  "send_async g w = async_send (the (g_async (groups w g))) w"

text \<open>The lambda of \<open>transfer\<close>, called when the closed poll is taken out of the loop.\<close>

definition transfer_closed :: "nat \<Rightarrow> world \<Rightarrow> world" where
  "transfer_closed s w =
     (let td = transfers w (the (getUserData w s));
          wasEmpty = transferQueue (groups w (destination td)) = [];
          w = upd_group (destination td) (\<lambda>g. g\<lparr>transferQueue := transferQueue g @ [s]\<rparr>) w
      in if wasEmpty then send_async (destination td) w else w)"

definition changePoll :: "env \<Rightarrow> nat \<Rightarrow> world \<Rightarrow> world" where
  "changePoll E s w =
     (if threadSafeChange E then poll_change (sock_loop w s) s (getPoll w s) w
      else if g_tid (sock_group w s) \<noteq> sys_self E (trace w)
      then let g = s_node (socks w s); w = upd_group g (\<lambda>x. x\<lparr>changePollQueue := changePollQueue x @ [s]\<rparr>) w
           in send_async g w
      else poll_change (sock_loop w s) s (getPoll w s) w)"

definition closeSocket :: "nat \<Rightarrow> world \<Rightarrow> world" where
  "closeSocket s w =
     (let fd = s_fd (socks w s);
          w = poll_stop (sock_loop w s) s w;
          w = log (E_close fd) w;
          w = (case s_ssl (socks w s) of Some ssl \<Rightarrow> log (E_ssl_free ssl) w | None \<Rightarrow> w)
      in poll_close (sock_loop w s) s Delete_socket w)"

definition clearPendingPollChanges :: "nat \<Rightarrow> nat \<Rightarrow> world \<Rightarrow> world" where
  "clearPendingPollChanges g s = upd_group g (\<lambda>x. x\<lparr>changePollQueue := removeAll s (changePollQueue x)\<rparr>)"

end
