(* ===== verification/SocketWrite.thy ===== *)
theory SocketWrite
  imports SocketIO "HOL-Library.Monad_Syntax"
begin

text \<open>
  Writing (uWebSockets \<open>Socket.h\<close>): \<open>write\<close>, \<open>sendTransformed\<close>, and the two I/O handlers that
  drain the message queue and read. A message is a value with the bytes it still has to send and
  the address of its block.
\<close>

section \<open>Messages\<close>

text \<open>\<open>sizeof(Queue::Message)\<close>.\<close>

definition MESSAGE_HEADER :: nat where "MESSAGE_HEADER = 48"

definition new_message :: "nat \<Rightarrow> byte list \<Rightarrow> message" where
  "new_message a data = \<lparr>m_data = data, m_cb = None, m_cbdata = 0, m_reserved = 0, m_addr = a\<rparr>"

definition allocMessage :: "nat \<Rightarrow> world \<Rightarrow> nat \<times> world" where
  "allocMessage len w =
     (let (a, p) = new_block (MESSAGE_HEADER + len) (w_pool w) in (a, upd_pool (\<lambda>_. p) w))"

definition freeMessage :: "nat \<Rightarrow> world \<Rightarrow> world" where
  "freeMessage a = upd_pool (delete_block a)"

definition hasEmptyQueue :: "world \<Rightarrow> nat \<Rightarrow> bool" where
  "hasEmptyQueue w s \<longleftrightarrow> s_queue (socks w s) = []"

definition enqueue :: "nat \<Rightarrow> message \<Rightarrow> world \<Rightarrow> world" where
  "enqueue s m = upd_sock s (\<lambda>x. x\<lparr>s_queue := s_queue x @ [m]\<rparr>)"

text \<open>\<open>messageQueue.pop()\<close>; \<open>None\<close> on an empty queue.\<close>

definition pop_message :: "nat \<Rightarrow> world \<Rightarrow> world option" where
  "pop_message s w =
     (case s_queue (socks w s) of
        [] \<Rightarrow> None
      | m # ms \<Rightarrow> Some (upd_sock s (\<lambda>x. x\<lparr>s_queue := ms\<rparr>) (freeMessage (m_addr m) w)))"

text \<open>The lambda of \<open>sendPrepared\<close> that releases a reference.\<close>

definition prepared_cb :: "env \<Rightarrow> nat option \<Rightarrow> nat \<Rightarrow> bool \<Rightarrow> nat \<Rightarrow> world \<Rightarrow> world option" where
  "prepared_cb E s p cancelled reserved w =
     (let w = upd_prepared p (\<lambda>x. x\<lparr>pm_references := pm_references x - 1\<rparr>) w;
          lastReference = (pm_references (prepareds w p) = 0)
      in do {
        w \<leftarrow> (case pm_callback (prepareds w p) of
                Some n \<Rightarrow> user_callback E n s reserved cancelled (if lastReference then 1 else 0) w
              | None \<Rightarrow> Some w);
        Some (if lastReference then log (E_delete_prepared p) w else w) })"

text \<open>A call of \<open>message->callback\<close>, which may be null.\<close>

definition call_cb :: "env \<Rightarrow> msg_cb option \<Rightarrow> nat option \<Rightarrow> nat \<Rightarrow> bool \<Rightarrow> nat \<Rightarrow> world \<Rightarrow> world option" where
  "call_cb E cb s data cancelled reserved w =
     (case cb of
        None \<Rightarrow> Some w
      | Some (User_cb n) \<Rightarrow> user_callback E n s data cancelled reserved w
      | Some Shutdown_cb \<Rightarrow> Some (if cancelled then w else sock_shutdown (the s) w)
      | Some Prepared_cb \<Rightarrow> prepared_cb E s data cancelled reserved w)"

section \<open>write\<close>

text \<open>The result: the return value, \<open>wasTransferred\<close> and the new state.\<close>

definition push_transferred :: "nat \<Rightarrow> message \<Rightarrow> world \<Rightarrow> bool \<times> bool \<times> world" where
  "push_transferred s m w = (True, True, enqueue s m w)"

definition poll_writable :: "env \<Rightarrow> nat \<Rightarrow> world \<Rightarrow> world" where
  "poll_writable E s w =
     (if getPoll w s AND UV_WRITABLE = 0 then changePoll E s (setPoll s (getPoll w s OR UV_WRITABLE) w) else w)"

definition write_ssl :: "env \<Rightarrow> nat \<Rightarrow> nat \<Rightarrow> message \<Rightarrow> world \<Rightarrow> bool \<times> bool \<times> world" where
  "write_ssl E s ssl m w =
     (let sent = ssl_write E (trace w) ssl (m_data m);
          w = log (E_ssl_write ssl (m_data m) sent) w
      in if sent = int (length (m_data m)) then (True, False, w)
         else if sent < 0 then
           (case ssl_get_error E (trace w) ssl of
              WANT_READ \<Rightarrow> push_transferred s m w
            | WANT_WRITE \<Rightarrow> push_transferred s m (poll_writable E s w)
            | SSL_FATAL \<Rightarrow> (False, False, w))
         else push_transferred s m w)"

definition write_plain :: "env \<Rightarrow> nat \<Rightarrow> message \<Rightarrow> world \<Rightarrow> bool \<times> bool \<times> world" where
  "write_plain E s m w =
     (let fd = s_fd (socks w s);
          sent = sys_send E (trace w) fd (m_data m);
          w = log (E_send fd (m_data m) sent) w
      in if sent = int (length (m_data m)) then (True, False, w)
         else if sent = -1 then
           (if \<not> sys_would_block E (trace w) then (False, False, w)
            else push_transferred s m (poll_writable E s w))
         else push_transferred s (m\<lparr>m_data := drop (nat sent) (m_data m)\<rparr>) (poll_writable E s w))"

definition sock_write :: "env \<Rightarrow> nat \<Rightarrow> message \<Rightarrow> world \<Rightarrow> bool \<times> bool \<times> world" where
  "sock_write E s m w =
     (if s_queue (socks w s) = [] then
        (case s_ssl (socks w s) of Some ssl \<Rightarrow> write_ssl E s ssl m w | None \<Rightarrow> write_plain E s m w)
      else push_transferred s m w)"

text \<open>The assignments to the fields of a message that was pushed: it is the tail of the queue.\<close>

definition set_callback :: "nat \<Rightarrow> msg_cb option \<Rightarrow> nat \<Rightarrow> nat \<Rightarrow> world \<Rightarrow> world" where
  "set_callback s cb data reserved =
     upd_sock s (\<lambda>x. x\<lparr>s_queue := butlast (s_queue x) @
       [(last (s_queue x))\<lparr>m_cb := cb, m_cbdata := data, m_reserved := reserved\<rparr>]\<rparr>)"

definition getSmall :: "nat \<Rightarrow> world \<Rightarrow> nat \<times> world" where
  "getSmall i w = (let (a, p) = getSmallMemoryBlock i (w_pool w) in (a, upd_pool (\<lambda>_. p) w))"

definition freeSmall :: "nat \<Rightarrow> nat \<Rightarrow> world \<Rightarrow> world" where
  "freeSmall a i = upd_pool (freeSmallMemoryBlock a i)"

text \<open>What follows the \<open>write\<close> of a message, with the way to free it; the callback takes \<open>data\<close> and \<open>reserved\<close>.\<close>

definition after_write ::
  "env \<Rightarrow> nat \<Rightarrow> (world \<Rightarrow> world) \<Rightarrow> msg_cb option \<Rightarrow> nat \<Rightarrow> nat \<Rightarrow> bool \<times> bool \<times> world \<Rightarrow> world option" where
  "after_write E s free cb data reserved r =
     (case r of (ok, wasTransferred, w) \<Rightarrow>
       if ok then
         (if \<not> wasTransferred then call_cb E cb (Some s) data False reserved (free w)
          else Some (set_callback s cb data reserved w))
       else call_cb E cb (Some s) data True reserved (free w))"

text \<open>\<open>est\<close> and \<open>transform\<close> are \<open>T::estimate\<close> and \<open>T::transform\<close> for the given message.\<close>

definition sendTransformed ::
  "env \<Rightarrow> nat \<Rightarrow> nat \<Rightarrow> (world \<Rightarrow> (byte list \<times> world) option) \<Rightarrow> msg_cb option \<Rightarrow> nat \<Rightarrow> world \<Rightarrow> world option" where
  "sendTransformed E s est transform cb data w =
     (let estimatedLength = est + MESSAGE_HEADER in
      if hasEmptyQueue w s then
        if estimatedLength \<le> preAllocMaxSize then
          let memoryIndex = getMemoryBlockIndex estimatedLength;
              (a, w) = getSmall memoryIndex w
          in do {
            (bytes, w) \<leftarrow> transform w;
            after_write E s (freeSmall a memoryIndex) cb data 0 (sock_write E s (new_message a bytes) w) }
        else
          let (a, w) = allocMessage est w
          in do {
            (bytes, w) \<leftarrow> transform w;
            after_write E s (freeMessage a) cb data 0 (sock_write E s (new_message a bytes) w) }
      else
        let (a, w) = allocMessage est w
        in do {
          (bytes, w) \<leftarrow> transform w;
          Some (enqueue s ((new_message a bytes)\<lparr>m_cb := cb, m_cbdata := data\<rparr>) w) })"

section \<open>The I/O handlers\<close>

type_synonym on_data = "nat \<Rightarrow> mem \<Rightarrow> nat \<Rightarrow> nat \<Rightarrow> world \<Rightarrow> (nat \<times> world) option"
type_synonym on_end = "nat \<Rightarrow> world \<Rightarrow> world option"

text \<open>The loops that drain the queue; the first component tells that \<open>onEnd\<close> was called.\<close>

definition message_sent :: "env \<Rightarrow> nat \<Rightarrow> message \<Rightarrow> world \<Rightarrow> world option" where
  "message_sent E s m w =
     do { w \<leftarrow> call_cb E (m_cb m) (Some s) (m_cbdata m) False (m_reserved m) w; pop_message s w }"

partial_function (option) drain_queue :: "env \<Rightarrow> on_end \<Rightarrow> nat \<Rightarrow> world \<Rightarrow> (bool \<times> world) option" where
  "drain_queue E onEnd s w =
     (case s_queue (socks w s) of
        [] \<Rightarrow> None
      | m # ms \<Rightarrow>
          let fd = s_fd (socks w s);
              sent = sys_send E (trace w) fd (m_data m);
              w = log (E_send fd (m_data m) sent) w
          in if sent = int (length (m_data m)) then
               do { w \<leftarrow> message_sent E s m w;
                    if s_queue (socks w s) = [] then Some (False, change_to s UV_READABLE w)
                    else drain_queue E onEnd s w }
             else if sent = -1 then
               (if \<not> sys_would_block E (trace w) then map_option (Pair True) (onEnd s w) else Some (False, w))
             else Some (False, upd_sock s (\<lambda>x. x\<lparr>s_queue := m\<lparr>m_data := drop (nat sent) (m_data m)\<rparr> # ms\<rparr>) w))"

partial_function (option) drain_ssl :: "env \<Rightarrow> on_end \<Rightarrow> nat \<Rightarrow> world \<Rightarrow> (bool \<times> world) option" where
  "drain_ssl E onEnd s w =
     (case s_queue (socks w s) of
        [] \<Rightarrow> None
      | m # ms \<Rightarrow>
          let ssl = the (s_ssl (socks w s));
              sent = ssl_write E (trace w) ssl (m_data m);
              w = log (E_ssl_write ssl (m_data m) sent) w
          in if sent = int (length (m_data m)) then
               do { w \<leftarrow> message_sent E s m w;
                    if s_queue (socks w s) = [] then
                      Some (False, if getPoll w s AND UV_WRITABLE \<noteq> 0 \<and> ssl_want E (trace w) ssl \<noteq> SSL_WRITING
                                   then change_to s UV_READABLE w else w)
                    else drain_ssl E onEnd s w }
             else if sent \<le> 0 then
               (case ssl_get_error E (trace w) ssl of
                  WANT_READ \<Rightarrow> Some (False, w)
                | WANT_WRITE \<Rightarrow>
                    Some (False, if getPoll w s AND UV_WRITABLE = 0 then change_to s (getPoll w s OR UV_WRITABLE) w else w)
                | SSL_FATAL \<Rightarrow> map_option (Pair True) (onEnd s w))
             else drain_ssl E onEnd s w)"

text \<open>The receive buffer after the system has stored \<open>bytes\<close> in it; what it held before is arbitrary.\<close>

definition received :: "env \<Rightarrow> byte list \<Rightarrow> world \<Rightarrow> mem" where
  "received E bytes w = wr (recv_memory E (trace w)) (recv_buffer E) bytes"


definition ioHandler ::
  "env \<Rightarrow> on_data \<Rightarrow> on_end \<Rightarrow> nat \<Rightarrow> int \<Rightarrow> poll_events \<Rightarrow> world \<Rightarrow> world option" where
  "ioHandler E onData onEnd s status events w =
     (if status < 0 then onEnd s w
      else do {
        (ended, w) \<leftarrow>
          (if events AND UV_WRITABLE \<noteq> 0 \<and> s_queue (socks w s) \<noteq> [] then
             do { (ended, w) \<leftarrow> drain_queue E onEnd s (cork s True w);
                  Some (ended, if ended then w else cork s False w) }
           else Some (False, w));
        if ended then Some w
        else if events AND UV_READABLE \<noteq> 0 then
          (let r = sys_recv E (trace w) (s_fd (socks w s)) (recv_length E);
               len = (case r of Some bytes \<Rightarrow> int (length bytes) | None \<Rightarrow> -1);
               w = log (E_recv (s_fd (socks w s)) (nat len)) w
           in if len > 0 then
                map_option snd (onData s (received E (the r) w) (recv_buffer E) (nat len) w)
              else if len \<le> 0 \<or> (len = -1 \<and> \<not> sys_would_block E (trace w)) then onEnd s w
              else Some w)
        else Some w })"

partial_function (option) ssl_read_loop ::
  "env \<Rightarrow> on_data \<Rightarrow> on_end \<Rightarrow> nat \<Rightarrow> nat \<Rightarrow> world \<Rightarrow> world option" where
  "ssl_read_loop E onData onEnd p s w =
     (let ssl = the (s_ssl (socks w s));
          r = ssl_read E (trace w) ssl (recv_length E);
          w = log (E_ssl_read ssl (case r of Some bytes \<Rightarrow> length bytes | None \<Rightarrow> 0)) w
      in if r = None \<or> r = Some [] then
           (case ssl_get_error E (trace w) ssl of
              WANT_READ \<Rightarrow> Some w
            | WANT_WRITE \<Rightarrow>
                Some (if getPoll w s AND UV_WRITABLE = 0 then change_to s (getPoll w s OR UV_WRITABLE) w else w)
            | SSL_FATAL \<Rightarrow> onEnd p w)
         else do {
           (s, w) \<leftarrow> onData p (received E (the r) w) (recv_buffer E) (length (the r)) w;
           if isClosed w s \<or> isShuttingDown w s then Some w
           else if ssl_pending E (trace w) (the (s_ssl (socks w s))) then ssl_read_loop E onData onEnd p s w
           else Some w })"

definition sslIoHandler ::
  "env \<Rightarrow> on_data \<Rightarrow> on_end \<Rightarrow> nat \<Rightarrow> int \<Rightarrow> poll_events \<Rightarrow> world \<Rightarrow> world option" where
  "sslIoHandler E onData onEnd s status events w =
     (if status < 0 then onEnd s w
      else do {
        (ended, w) \<leftarrow>
          (if s_queue (socks w s) \<noteq> [] \<and>
              (events AND UV_WRITABLE \<noteq> 0 \<or> ssl_want E (trace w) (the (s_ssl (socks w s))) = SSL_READING) then
             do { (ended, w) \<leftarrow> drain_ssl E onEnd s (cork s True w);
                  Some (ended, if ended then w else cork s False w) }
           else Some (False, w));
        if ended then Some w
        else if events AND UV_READABLE \<noteq> 0 then ssl_read_loop E onData onEnd s s w
        else Some w })"

end
