(* ===== verification/SocketStream.thy ===== *)
theory SocketStream
  imports SocketWrite Sample
begin

text \<open>
  The contract of a plain socket's outgoing stream: whatever the sequence of writes and of
  writable events, and however much the system accepts at each \<open>send\<close>, the bytes sent so far
  followed by the bytes queued are the concatenation of everything written, and a socket with
  queued bytes polls for writability.
\<close>

section \<open>The stream of a socket\<close>

definition sent_ev :: "int \<Rightarrow> event \<Rightarrow> byte list" where
  "sent_ev fd e = (case e of E_send f d r \<Rightarrow> (if f = fd then take (nat r) d else []) | _ \<Rightarrow> [])"

definition sent_on :: "int \<Rightarrow> event list \<Rightarrow> byte list" where
  "sent_on fd tr = concat (map (sent_ev fd) tr)"

definition queued :: "world \<Rightarrow> nat \<Rightarrow> byte list" where
  "queued w s = concat (map m_data (s_queue (socks w s)))"

definition stream :: "world \<Rightarrow> nat \<Rightarrow> byte list" where
  "stream w s = sent_on (s_fd (socks w s)) (trace w) @ queued w s"

text \<open>\<open>send\<close> returns -1 or the number of bytes it took, and fails only because it would block.\<close>

definition send_contract :: "env \<Rightarrow> bool" where
  "send_contract E \<longleftrightarrow> (\<forall>tr fd d. -1 \<le> sys_send E tr fd d \<and> sys_send E tr fd d \<le> int (length d)) \<and>
     (\<forall>tr. sys_would_block E tr)"

text \<open>The callbacks of messages only observe.\<close>

definition quiet_callbacks :: "env \<Rightarrow> bool" where
  "quiet_callbacks E \<longleftrightarrow> (\<forall>n so d c r w. \<exists>w'. user_callback E n so d c r w = Some w' \<and>
     socks w' = socks w \<and> trace w' = trace w)"

definition user_cb :: "msg_cb option \<Rightarrow> bool" where
  "user_cb cb \<longleftrightarrow> (case cb of None \<Rightarrow> True | Some (User_cb n) \<Rightarrow> True | _ \<Rightarrow> False)"

definition plain_sock :: "sock \<Rightarrow> bool" where
  "plain_sock x \<longleftrightarrow> s_ssl x = None \<and> list_all (\<lambda>m. user_cb (m_cb m)) (s_queue x) \<and>
     (s_queue x \<noteq> [] \<longrightarrow> s_poll x AND UV_WRITABLE \<noteq> 0)"

lemma sent_on_snoc [simp]: "sent_on fd (tr @ [e]) = sent_on fd tr @ sent_ev fd e"
  by (simp add: sent_on_def)

lemma sent_ev_simps [simp]:
  "sent_ev fd (E_send f d r) = (if f = fd then take (nat r) d else [])"
  "sent_ev fd (E_epoll_mod a b c e) = []" "sent_ev fd (E_eventfd_write a) = []" "sent_ev fd (E_cork a z) = []"
  by (simp_all add: sent_ev_def)

lemma quiet_call:
  assumes "quiet_callbacks E" "user_cb cb"
  shows "\<exists>w'. call_cb E cb so d c r w = Some w' \<and> socks w' = socks w \<and> trace w' = trace w"
  using assms by (auto simp: quiet_callbacks_def user_cb_def call_cb_def split: option.splits msg_cb.splits)

text \<open>The operations on polls send nothing and only touch the poll bits.\<close>

lemma changePoll_frame [simp]:
  "socks (changePoll E s w) = socks w" "sent_on fd (trace (changePoll E s w)) = sent_on fd (trace w)"
  by (simp_all add: changePoll_def poll_change_def send_async_def async_send_def access Let_def)

lemma writable_or: "(p OR UV_WRITABLE) AND UV_WRITABLE \<noteq> 0"
proof -
  have "(p OR UV_WRITABLE) AND UV_WRITABLE = UV_WRITABLE"
    by (rule bit_word_eqI) (auto simp: bit_simps)
  then show ?thesis by (simp add: UV_WRITABLE_def)
qed

lemma UV_nonzero [simp]: "UV_WRITABLE \<noteq> 0" "UV_READABLE \<noteq> 0" "UV_WRITABLE AND UV_WRITABLE = UV_WRITABLE"
  "UV_WRITABLE AND UV_READABLE = 0"
  by (simp_all add: UV_WRITABLE_def UV_READABLE_def)

lemma poll_writable_frame:
  "sent_on fd (trace (poll_writable E s w)) = sent_on fd (trace w)"
  "s_queue (socks (poll_writable E s w) t) = s_queue (socks w t)"
  "s_fd (socks (poll_writable E s w) t) = s_fd (socks w t)"
  "s_ssl (socks (poll_writable E s w) t) = s_ssl (socks w t)"
  "s_poll (socks (poll_writable E s w) s) AND UV_WRITABLE \<noteq> 0"
  by (simp_all add: poll_writable_def setPoll_def getPoll_def access writable_or UV_nonzero)

lemma enqueue_frame [simp]:
  "trace (enqueue s m w) = trace w" "queued (enqueue s m w) s = queued w s @ m_data m"
  "s_queue (socks (enqueue s m w) s) = s_queue (socks w s) @ [m]"
  "s_fd (socks (enqueue s m w) s) = s_fd (socks w s)" "s_ssl (socks (enqueue s m w) s) = s_ssl (socks w s)"
  "s_poll (socks (enqueue s m w) s) = s_poll (socks w s)"
  by (simp_all add: enqueue_def queued_def access)

section \<open>Writing\<close>

lemma write_stream:
  assumes "send_contract E" "plain_sock (socks w s)" "user_cb (m_cb m)" "sock_write E s m w = (ok, tr, w')"
  shows "ok \<and> plain_sock (socks w' s) \<and> stream w' s = stream w s @ m_data m \<and>
    s_fd (socks w' s) = s_fd (socks w s) \<and> (tr \<longrightarrow> s_queue (socks w' s) \<noteq> [])"
proof (cases "s_queue (socks w s) = []")
  case False
  with assms show ?thesis
    by (auto simp: sock_write_def push_transferred_def stream_def plain_sock_def)
next
  case True
  define sent where "sent = sys_send E (trace w) (s_fd (socks w s)) (m_data m)"
  define w1 where "w1 = log (E_send (s_fd (socks w s)) (m_data m) sent) w"
  define w2 where "w2 = poll_writable E s w1"
  have b: "-1 \<le> sent" "sent \<le> int (length (m_data m))"
    using assms(1) by (auto simp: sent_def send_contract_def)
  have w1: "socks w1 = socks w" "sent_on (s_fd (socks w s)) (trace w1) = sent_on (s_fd (socks w s)) (trace w) @ take (nat sent) (m_data m)"
    by (simp_all add: w1_def access)
  have wr: "sock_write E s m w =
    (if sent = int (length (m_data m)) then (True, False, w1)
     else if sent = -1 then push_transferred s m w2
     else push_transferred s (m\<lparr>m_data := drop (nat sent) (m_data m)\<rparr>) w2)"
    using True assms(1,2)
    by (simp add: sock_write_def write_plain_def plain_sock_def Let_def sent_def w1_def w2_def send_contract_def)
  have q0: "queued w s = []" "queued w2 s = []" "queued w1 s = []" using True
    by (simp_all add: queued_def w2_def poll_writable_frame w1)
  show ?thesis
  proof (cases "sent = int (length (m_data m))")
    case True
    with assms(2,4) wr q0 w1 show ?thesis by (auto simp: stream_def)
  next
    case ne: False
    show ?thesis
    proof (cases "sent = -1")
      case True
      with ne assms(2-4) wr w1 q0 \<open>s_queue (socks w s) = []\<close> show ?thesis
        by (auto simp: push_transferred_def stream_def plain_sock_def w2_def poll_writable_frame)
    next
      case False
      with ne b have "nat sent < length (m_data m)" by linarith
      with ne False assms(2-4) wr w1 q0 \<open>s_queue (socks w s) = []\<close> show ?thesis
        by (auto simp: push_transferred_def stream_def plain_sock_def w2_def poll_writable_frame)
    qed
  qed
qed

lemma set_callback_frame:
  assumes "s_queue (socks w s) \<noteq> []"
  shows "trace (set_callback s cb d r w) = trace w" "s_fd (socks (set_callback s cb d r w) s) = s_fd (socks w s)"
    "queued (set_callback s cb d r w) s = queued w s"
    "plain_sock (socks w s) \<Longrightarrow> user_cb cb \<Longrightarrow> plain_sock (socks (set_callback s cb d r w) s)"
proof -
  obtain q m where q: "s_queue (socks w s) = q @ [m]" using assms by (cases "s_queue (socks w s)" rule: rev_cases) auto
  show "trace (set_callback s cb d r w) = trace w" "s_fd (socks (set_callback s cb d r w) s) = s_fd (socks w s)"
    by (simp_all add: set_callback_def access)
  show "queued (set_callback s cb d r w) s = queued w s"
    by (simp add: set_callback_def access queued_def q)
  show "plain_sock (socks w s) \<Longrightarrow> user_cb cb \<Longrightarrow> plain_sock (socks (set_callback s cb d r w) s)"
    by (simp add: set_callback_def access plain_sock_def q)
qed

lemma free_frame [simp]:
  "socks (freeSmall a i w) = socks w" "trace (freeSmall a i w) = trace w"
  "socks (freeMessage a w) = socks w" "trace (freeMessage a w) = trace w"
  by (simp_all add: freeSmall_def freeMessage_def access)

lemma alloc_frame [simp]:
  "socks (snd (getSmall i w)) = socks w" "trace (snd (getSmall i w)) = trace w"
  "socks (snd (allocMessage n w)) = socks w" "trace (snd (allocMessage n w)) = trace w"
  by (simp_all add: getSmall_def allocMessage_def Let_def access split: prod.splits)

lemma stream_cong: "socks w' s = socks w s \<Longrightarrow> trace w' = trace w \<Longrightarrow> stream w' s = stream w s"
  by (simp add: stream_def queued_def)

lemma after_write_stream:
  assumes "send_contract E" "quiet_callbacks E" "plain_sock (socks w s)" "user_cb cb"
    "\<And>w. socks (free w) = socks w" "\<And>w. trace (free w) = trace w"
  shows "\<exists>w'. after_write E s free cb d r (sock_write E s (new_message a bytes) w) = Some w' \<and>
    plain_sock (socks w' s) \<and> stream w' s = stream w s @ bytes \<and> s_fd (socks w' s) = s_fd (socks w s)"
proof -
  obtain ok tr w1 where wr: "sock_write E s (new_message a bytes) w = (ok, tr, w1)"
    by (cases "sock_write E s (new_message a bytes) w") auto
  have "user_cb (m_cb (new_message a bytes))" by (simp add: user_cb_def new_message_def)
  from write_stream [OF assms(1,3) this wr]
  have w1: "ok" "plain_sock (socks w1 s)" "stream w1 s = stream w s @ bytes"
    "s_fd (socks w1 s) = s_fd (socks w s)" "tr \<Longrightarrow> s_queue (socks w1 s) \<noteq> []"
    by (auto simp: new_message_def)
  show ?thesis
  proof (cases tr)
    case True
    note f = set_callback_frame [OF w1(5) [OF True]]
    have "stream (set_callback s cb d r w1) s = stream w1 s" by (simp add: stream_def f(1-3))
    with True w1 f(2,4) assms(4) show ?thesis by (simp add: after_write_def wr)
  next
    case False
    obtain w2 where c: "call_cb E cb (Some s) d False r (free w1) = Some w2" "socks w2 = socks w1" "trace w2 = trace w1"
      using quiet_call [OF assms(2,4), of "Some s" d False r "free w1"] by (auto simp: assms(5,6))
    then have "stream w2 s = stream w1 s" by (intro stream_cong) simp_all
    with False w1 c show ?thesis by (simp add: after_write_def wr)
  qed
qed

lemma sendTransformed_stream:
  assumes "send_contract E" "quiet_callbacks E" "plain_sock (socks w s)" "user_cb cb"
  shows "\<exists>w'. sendTransformed E s est (\<lambda>w. Some (bytes, w)) cb d w = Some w' \<and>
    plain_sock (socks w' s) \<and> stream w' s = stream w s @ bytes \<and> s_fd (socks w' s) = s_fd (socks w s)"
proof (cases "hasEmptyQueue w s")
  case True
  have st: "stream (snd (getSmall i w)) s = stream w s" "stream (snd (allocMessage n w)) s = stream w s" for i n
    by (rule stream_cong; simp)+
  show ?thesis
    using True assms st
      after_write_stream [OF assms(1,2) _ assms(4), of "snd (getSmall (getMemoryBlockIndex (est + MESSAGE_HEADER)) w)" s
        "freeSmall (fst (getSmall (getMemoryBlockIndex (est + MESSAGE_HEADER)) w)) (getMemoryBlockIndex (est + MESSAGE_HEADER))"
        d 0 "fst (getSmall (getMemoryBlockIndex (est + MESSAGE_HEADER)) w)" bytes]
      after_write_stream [OF assms(1,2) _ assms(4), of "snd (allocMessage est w)" s
        "freeMessage (fst (allocMessage est w))" d 0 "fst (allocMessage est w)" bytes]
    by (simp add: sendTransformed_def Let_def case_prod_beta)
next
  case False
  define a w1 where "a = fst (allocMessage est w)" and "w1 = snd (allocMessage est w)"
  have w1: "socks w1 = socks w" "trace w1 = trace w" by (simp_all add: w1_def)
  have st: "stream w1 s = stream w s" by (rule stream_cong) (simp_all add: w1)
  have e: "sendTransformed E s est (\<lambda>w. Some (bytes, w)) cb d w =
    Some (enqueue s ((new_message a bytes)\<lparr>m_cb := cb, m_cbdata := d\<rparr>) w1)"
    using False by (simp add: sendTransformed_def Let_def a_def w1_def split: prod.splits)
  show ?thesis
    using False assms(3,4) st unfolding e
    by (auto simp: Let_def stream_def plain_sock_def new_message_def hasEmptyQueue_def w1)
qed


section \<open>Draining\<close>

lemma message_sent_stream:
  assumes "quiet_callbacks E" "s_queue (socks w s) = m # ms" "user_cb (m_cb m)"
  shows "\<exists>w'. message_sent E s m w = Some w' \<and> socks w' = (socks w)(s := (socks w s)\<lparr>s_queue := ms\<rparr>) \<and> trace w' = trace w"
proof -
  obtain w1 where "call_cb E (m_cb m) (Some s) (m_cbdata m) False (m_reserved m) w = Some w1"
    "socks w1 = socks w" "trace w1 = trace w"
    using quiet_call [OF assms(1,3)] by blast
  then show ?thesis
    using assms(2) by (simp add: message_sent_def pop_message_def upd_sock_def freeMessage_def upd_pool_def)
qed

lemma drain_stream:
  assumes "send_contract E" "quiet_callbacks E"
  shows "plain_sock (socks w s) \<Longrightarrow> s_queue (socks w s) \<noteq> [] \<Longrightarrow>
    \<exists>w'. drain_queue E onEnd s w = Some (False, w') \<and> plain_sock (socks w' s) \<and> stream w' s = stream w s \<and>
      s_fd (socks w' s) = s_fd (socks w s)"
proof (induction "length (s_queue (socks w s))" arbitrary: w)
  case (Suc n)
  obtain m ms where q: "s_queue (socks w s) = m # ms" using Suc.prems(2) by (cases "s_queue (socks w s)") auto
  define fd where "fd = s_fd (socks w s)"
  define sent where "sent = sys_send E (trace w) fd (m_data m)"
  define w1 where "w1 = log (E_send fd (m_data m) sent) w"
  have w1: "socks w1 = socks w" "trace w1 = trace w @ [E_send fd (m_data m) sent]" by (simp_all add: w1_def access)
  have b: "-1 \<le> sent" "sent \<le> int (length (m_data m))" and wb: "sys_would_block E (trace w1)"
    using assms(1) by (auto simp: sent_def send_contract_def)
  have m: "user_cb (m_cb m)" using Suc.prems(1) q by (simp add: plain_sock_def)
  have st1: "stream w s = sent_on fd (trace w) @ m_data m @ concat (map m_data ms)"
    by (simp add: stream_def queued_def q fd_def)
  consider (full) "sent = int (length (m_data m))" | (block) "sent \<noteq> int (length (m_data m))" "sent = -1"
    | (part) "sent \<noteq> int (length (m_data m))" "sent \<noteq> -1" by blast
  then show ?case
  proof cases
    case full
    obtain w2 where w2: "message_sent E s m w1 = Some w2" "socks w2 = (socks w)(s := (socks w s)\<lparr>s_queue := ms\<rparr>)" "trace w2 = trace w1"
      using message_sent_stream [OF assms(2), of w1 s m ms] m q w1(1) by auto
    have p2: "plain_sock (socks w2 s)" "s_fd (socks w2 s) = fd" using Suc.prems(1) w2(2) q by (auto simp: plain_sock_def fd_def)
    have st2: "stream w2 s = stream w s" using full st1 by (simp add: stream_def queued_def w2(2,3) w1(2) fd_def)
    show ?thesis
    proof (cases "ms = []")
      case True
      have u: "drain_queue E onEnd s w = Some (False, change_to s UV_READABLE w2)"
        using q full w2(1,2) True by (simp add: drain_queue.simps [of E onEnd s w] Let_def fd_def sent_def w1_def)
      have c: "socks (change_to s UV_READABLE w2) s = (socks w2 s)\<lparr>s_poll := UV_READABLE\<rparr>"
        "sent_on fd (trace (change_to s UV_READABLE w2)) = sent_on fd (trace w2)"
        by (simp_all add: change_to_def Let_def setPoll_def poll_change_def access)
      have "stream (change_to s UV_READABLE w2) s = stream w2 s" "plain_sock (socks (change_to s UV_READABLE w2) s)"
        using p2 w2(2) True c by (simp_all add: stream_def queued_def plain_sock_def)
      with u st2 p2 c show ?thesis by (auto simp: fd_def)
    next
      case False
      have u: "drain_queue E onEnd s w = drain_queue E onEnd s w2"
        using q full w2(1,2) False by (simp add: drain_queue.simps [of E onEnd s w] Let_def fd_def sent_def w1_def)
      have "n = length (s_queue (socks w2 s))" "s_queue (socks w2 s) \<noteq> []" using Suc.hyps(2) q False w2(2) by auto
      from Suc.hyps(1) [OF this(1) p2(1) this(2)] show ?thesis using u st2 p2(2) by (simp add: fd_def)
    qed
  next
    case block
    have "drain_queue E onEnd s w = Some (False, w1)"
      using q block wb by (simp add: drain_queue.simps [of E onEnd s w] Let_def fd_def sent_def w1_def)
    moreover have "stream w1 s = stream w s" using block by (simp add: stream_def queued_def w1)
    ultimately show ?thesis using Suc.prems(1) by (simp add: w1)
  next
    case part
    define w2 where "w2 = upd_sock s (\<lambda>x. x\<lparr>s_queue := m\<lparr>m_data := drop (nat sent) (m_data m)\<rparr> # ms\<rparr>) w1"
    have "drain_queue E onEnd s w = Some (False, w2)"
      using q part by (simp add: drain_queue.simps [of E onEnd s w] Let_def fd_def sent_def w1_def w2_def)
    moreover have "stream w2 s = stream w s"
      unfolding st1 by (simp add: stream_def queued_def w2_def access w1 fd_def)
    moreover have "plain_sock (socks w2 s)" using Suc.prems(1) q by (auto simp: w2_def access w1 plain_sock_def)
    ultimately show ?thesis by (simp add: w2_def access w1)
  qed
qed simp

section \<open>Any sequence of writes and writable events\<close>

datatype sock_op = Write "byte list" "nat option" nat | Writable

fun written :: "sock_op list \<Rightarrow> byte list" where
  "written [] = []"
| "written (Write bytes cb d # ops) = bytes @ written ops"
| "written (Writable # ops) = written ops"

fun socket_run :: "env \<Rightarrow> on_data \<Rightarrow> on_end \<Rightarrow> nat \<Rightarrow> sock_op list \<Rightarrow> world \<Rightarrow> world option" where
  "socket_run E onData onEnd s [] w = Some w"
| "socket_run E onData onEnd s (Write bytes cb d # ops) w =
     do { w \<leftarrow> sendTransformed E s (length bytes) (\<lambda>w. Some (bytes, w)) (map_option User_cb cb) d w;
          socket_run E onData onEnd s ops w }"
| "socket_run E onData onEnd s (Writable # ops) w =
     do { w \<leftarrow> ioHandler E onData onEnd s 0 UV_WRITABLE w; socket_run E onData onEnd s ops w }"

lemma cork_frame [simp]: "socks (cork s b w) = socks w" "sent_on fd (trace (cork s b w)) = sent_on fd (trace w)"
  by (simp_all add: cork_def access)

lemma cork_stream [simp]: "stream (cork s b w) t = stream w t"
  by (simp add: stream_def queued_def)

lemma writable_stream:
  assumes "send_contract E" "quiet_callbacks E" "plain_sock (socks w s)"
  shows "\<exists>w'. ioHandler E onData onEnd s 0 UV_WRITABLE w = Some w' \<and> plain_sock (socks w' s) \<and>
    stream w' s = stream w s \<and> s_fd (socks w' s) = s_fd (socks w s)"
proof (cases "s_queue (socks w s) = []")
  case True
  with assms(3) show ?thesis by (simp add: ioHandler_def)
next
  case False
  then obtain w1 where "drain_queue E onEnd s (cork s True w) = Some (False, w1)" "plain_sock (socks w1 s)"
    "stream w1 s = stream w s" "s_fd (socks w1 s) = s_fd (socks w s)"
    using drain_stream [OF assms(1,2), of "cork s True w" s onEnd] assms(3) by auto
  with False show ?thesis by (simp add: ioHandler_def)
qed

lemma socket_run_stream:
  assumes "send_contract E" "quiet_callbacks E"
  shows "plain_sock (socks w s) \<Longrightarrow> \<exists>w'. socket_run E onData onEnd s ops w = Some w' \<and>
    plain_sock (socks w' s) \<and> stream w' s = stream w s @ written ops \<and> s_fd (socks w' s) = s_fd (socks w s)"
proof (induction ops arbitrary: w)
  case (Cons op ops)
  show ?case
  proof (cases op)
    case (Write bytes cb d)
    have "user_cb (map_option User_cb cb)" by (cases cb) (simp_all add: user_cb_def)
    from sendTransformed_stream [OF assms Cons.prems this, of "length bytes" bytes d]
    obtain w1 where "sendTransformed E s (length bytes) (\<lambda>w. Some (bytes, w)) (map_option User_cb cb) d w = Some w1"
      "plain_sock (socks w1 s)" "stream w1 s = stream w s @ bytes" "s_fd (socks w1 s) = s_fd (socks w s)" by blast
    then show ?thesis using Cons.IH [of w1] Write by simp
  next
    case Writable
    obtain w1 where "ioHandler E onData onEnd s 0 UV_WRITABLE w = Some w1" "plain_sock (socks w1 s)"
      "stream w1 s = stream w s" "s_fd (socks w1 s) = s_fd (socks w s)"
      using writable_stream [OF assms Cons.prems] by blast
    then show ?thesis using Cons.IH [of w1] Writable by simp
  qed
qed simp

section \<open>Properties\<close>

text \<open>
  C15: The outgoing stream of a plain socket loses, duplicates and reorders nothing: after any
  sequence of writes and writable events, with the system taking any part of each \<open>send\<close>, the
  handlers have returned, the bytes the system accepted followed by the bytes still queued are
  exactly everything written, and a socket whose queue is not empty polls for writability.
\<close>

theorem socket_stream_integrity:
  assumes "send_contract E" "quiet_callbacks E" "s_ssl (socks w s) = None" "s_queue (socks w s) = []"
  shows "\<exists>w'. socket_run E onData onEnd s ops w = Some w' \<and>
    sent_on (s_fd (socks w s)) (trace w') @ queued w' s = sent_on (s_fd (socks w s)) (trace w) @ written ops \<and>
    (if s_queue (socks w' s) = [] then True else getPoll w' s AND UV_WRITABLE \<noteq> 0)"
proof -
  have p: "plain_sock (socks w s)" using assms by (simp add: plain_sock_def)
  obtain w' where w': "socket_run E onData onEnd s ops w = Some w'" "plain_sock (socks w' s)"
    "stream w' s = stream w s @ written ops" "s_fd (socks w' s) = s_fd (socks w s)"
    using socket_run_stream [OF assms(1,2) p] by blast
  then show ?thesis
    using assms(4) by (auto simp: stream_def queued_def plain_sock_def getPoll_def)
qed

theorem socket_stream_integrity_witness:
  "\<exists>w'. socket_run env0 (\<lambda>s m a n w. Some (s, w)) (\<lambda>s w. Some w) 1
       [Write [1, 2, 3] (Some 5) 0, Write [4] None 0, Writable, Writable] world0 = Some w' \<and>
    sent_on 7 (trace w') @ queued w' 1 = [1, 2, 3, 4] \<and>
    (if s_queue (socks w' 1) = [] then True else getPoll w' 1 AND UV_WRITABLE \<noteq> 0)"
  using socket_stream_integrity [of env0 world0 1 "\<lambda>s m a n w. Some (s, w)" "\<lambda>s w. Some w"
      "[Write [1, 2, 3] (Some 5) 0, Write [4] None 0, Writable, Writable]"]
  by (simp add: send_contract_def quiet_callbacks_def env0_def world0_def sock0_def sent_on_def)

end
