(* ===== verification/GroupList.thy ===== *)
theory GroupList
  imports SocketIO Sample "HOL-Library.Monad_Syntax"
begin

text \<open>
  The sockets of a group (uWebSockets \<open>Group.cpp\<close>, \<open>Group.h\<close>): two intrusive doubly linked lists
  through \<open>next\<close> and \<open>prev\<close>, with the stack of iterators that \<open>removeWebSocket\<close> keeps valid,
  their refinement to lists, and the traversals \<open>forEach\<close> and \<open>forEachHttpSocket\<close>.
\<close>

section \<open>The code\<close>

definition set_next :: "nat \<Rightarrow> nat option \<Rightarrow> world \<Rightarrow> world" where
  "set_next s n = upd_sock s (\<lambda>x. x\<lparr>s_next := n\<rparr>)"

definition set_prev :: "nat \<Rightarrow> nat option \<Rightarrow> world \<Rightarrow> world" where
  "set_prev s n = upd_sock s (\<lambda>x. x\<lparr>s_prev := n\<rparr>)"

definition addWebSocket :: "nat \<Rightarrow> nat \<Rightarrow> world \<Rightarrow> world" where
  "addWebSocket g s w =
     (let w = (case webSocketHead (groups w g) of
                 Some h \<Rightarrow> set_next s (Some h) (set_prev h (Some s) w)
               | None \<Rightarrow> set_next s None w)
      in set_prev s None (upd_group g (\<lambda>x. x\<lparr>webSocketHead := Some s\<rparr>) w))"

text \<open>\<open>iterators.top() = next\<close>, when there is an iterator.\<close>

definition move_iterator :: "nat \<Rightarrow> nat option \<Rightarrow> world \<Rightarrow> world" where
  "move_iterator g n w =
     (if iterators (groups w g) \<noteq> [] then upd_group g (\<lambda>x. x\<lparr>iterators := n # tl (iterators x)\<rparr>) w else w)"

definition removeWebSocket :: "nat \<Rightarrow> nat \<Rightarrow> world \<Rightarrow> world" where
  "removeWebSocket g s w =
     (let w = move_iterator g (s_next (socks w s)) w in
      if s_prev (socks w s) = s_next (socks w s) then upd_group g (\<lambda>x. x\<lparr>webSocketHead := None\<rparr>) w
      else
        let w = (case s_prev (socks w s) of
                   Some p \<Rightarrow> set_next p (s_next (socks w s)) w
                 | None \<Rightarrow> upd_group g (\<lambda>x. x\<lparr>webSocketHead := s_next (socks w s)\<rparr>) w)
        in (case s_next (socks w s) of Some n \<Rightarrow> set_prev n (s_prev (socks w s)) w | None \<Rightarrow> w))"

text \<open>The list of HTTP sockets also owns the timer of the group.\<close>

definition addHttpSocket :: "env \<Rightarrow> bool \<Rightarrow> nat \<Rightarrow> nat \<Rightarrow> world \<Rightarrow> world" where
  "addHttpSocket E isServer g s w =
     (let w = (case httpSocketHead (groups w g) of
                 Some h \<Rightarrow> set_next s (Some h) (set_prev h (Some s) w)
               | None \<Rightarrow>
                   let w = set_next s None w;
                       (t, w) = timer_new (g_loop (groups w g)) g w;
                       w = upd_group g (\<lambda>x. x\<lparr>httpTimer := Some t\<rparr>) w
                   in timer_start E t (Http_deadline isServer) 1000 1000 w)
      in set_prev s None (upd_group g (\<lambda>x. x\<lparr>httpSocketHead := Some s\<rparr>) w))"

definition removeHttpSocket :: "nat \<Rightarrow> nat \<Rightarrow> world \<Rightarrow> world" where
  "removeHttpSocket g s w =
     (let w = move_iterator g (s_next (socks w s)) w in
      if s_prev (socks w s) = s_next (socks w s) then
        let w = upd_group g (\<lambda>x. x\<lparr>httpSocketHead := None\<rparr>) w; t = the (httpTimer (groups w g))
        in timer_close t (timer_stop t w)
      else
        let w = (case s_prev (socks w s) of
                   Some p \<Rightarrow> set_next p (s_next (socks w s)) w
                 | None \<Rightarrow> upd_group g (\<lambda>x. x\<lparr>httpSocketHead := s_next (socks w s)\<rparr>) w)
        in (case s_next (socks w s) of Some n \<Rightarrow> set_prev n (s_prev (socks w s)) w | None \<Rightarrow> w))"

text \<open>\<open>iterators.push(iterator)\<close>, the loop and \<open>iterators.pop()\<close>; \<open>None\<close> when the loop does not end.\<close>

definition push_iterator :: "nat \<Rightarrow> nat option \<Rightarrow> world \<Rightarrow> world" where
  "push_iterator g it = upd_group g (\<lambda>x. x\<lparr>iterators := it # iterators x\<rparr>)"

definition pop_iterator :: "nat \<Rightarrow> world \<Rightarrow> world" where
  "pop_iterator g = upd_group g (\<lambda>x. x\<lparr>iterators := tl (iterators x)\<rparr>)"

partial_function (option) for_each_loop :: "(nat \<Rightarrow> world \<Rightarrow> world option) \<Rightarrow> nat \<Rightarrow> nat option \<Rightarrow> world \<Rightarrow> world option" where
  "for_each_loop cb g iterator w =
     (case iterator of
        None \<Rightarrow> Some w
      | Some s \<Rightarrow> do {
          w \<leftarrow> cb s w;
          let iterator = hd (iterators (groups w g));
          (if iterator = Some s
           then let n = s_next (socks w s) in for_each_loop cb g n (move_iterator g n w)
           else for_each_loop cb g iterator w) })"

definition forEach :: "(nat \<Rightarrow> world \<Rightarrow> world option) \<Rightarrow> nat \<Rightarrow> world \<Rightarrow> world option" where
  "forEach cb g w =
     (let it = webSocketHead (groups w g)
      in map_option (pop_iterator g) (for_each_loop cb g it (push_iterator g it w)))"

definition forEachHttpSocket :: "(nat \<Rightarrow> world \<Rightarrow> world option) \<Rightarrow> nat \<Rightarrow> world \<Rightarrow> world option" where
  "forEachHttpSocket cb g w =
     (let it = httpSocketHead (groups w g)
      in map_option (pop_iterator g) (for_each_loop cb g it (push_iterator g it w)))"

section \<open>Refinement to lists\<close>

fun linked_list :: "(nat \<Rightarrow> sock) \<Rightarrow> nat option \<Rightarrow> nat option \<Rightarrow> nat list \<Rightarrow> bool" where
  "linked_list f p h [] \<longleftrightarrow> h = None"
| "linked_list f p h (x # xs) \<longleftrightarrow> h = Some x \<and> s_prev (f x) = p \<and> linked_list f (Some x) (s_next (f x)) xs"

definition ws_list :: "world \<Rightarrow> nat \<Rightarrow> nat list \<Rightarrow> bool" where
  "ws_list w g xs \<longleftrightarrow> distinct xs \<and> linked_list (socks w) None (webSocketHead (groups w g)) xs"

definition http_list :: "world \<Rightarrow> nat \<Rightarrow> nat list \<Rightarrow> bool" where
  "http_list w g xs \<longleftrightarrow> distinct xs \<and> linked_list (socks w) None (httpSocketHead (groups w g)) xs"

text \<open>The pointer updates of both lists, as functions on the sockets.\<close>

definition ll_add :: "nat \<Rightarrow> nat option \<Rightarrow> (nat \<Rightarrow> sock) \<Rightarrow> nat \<Rightarrow> sock" where
  "ll_add s h f =
     (let f = (case h of Some x \<Rightarrow> f(x := (f x)\<lparr>s_prev := Some s\<rparr>) | None \<Rightarrow> f)
      in f(s := (f s)\<lparr>s_next := h, s_prev := None\<rparr>))"

definition ll_remove :: "nat \<Rightarrow> (nat \<Rightarrow> sock) \<Rightarrow> nat \<Rightarrow> sock" where
  "ll_remove s f =
     (let f' = (case s_prev (f s) of Some p \<Rightarrow> f(p := (f p)\<lparr>s_next := s_next (f s)\<rparr>) | None \<Rightarrow> f)
      in case s_next (f s) of Some n \<Rightarrow> f'(n := (f' n)\<lparr>s_prev := s_prev (f s)\<rparr>) | None \<Rightarrow> f')"

lemma linked_list_cong:
  "(\<And>x. x \<in> set xs \<Longrightarrow> s_next (f x) = s_next (f' x) \<and> s_prev (f x) = s_prev (f' x)) \<Longrightarrow>
    linked_list f p h xs = linked_list f' p h xs"
  by (induction xs arbitrary: p h) auto

lemma linked_list_head: "linked_list f p h xs \<Longrightarrow> h = (if xs = [] then None else Some (hd xs))"
  by (cases xs) auto

lemma linked_list_next:
  "linked_list f p h (xs @ s # ys) \<Longrightarrow> s_next (f s) = (if ys = [] then None else Some (hd ys))"
  by (induction xs arbitrary: p h) (auto dest: linked_list_head)

lemma linked_list_prev:
  "linked_list f p h (xs @ s # ys) \<Longrightarrow> s_prev (f s) = (if xs = [] then p else Some (last xs))"
  by (induction xs arbitrary: p h) auto

lemma ll_add_list:
  assumes "linked_list f None h xs" "distinct xs" "s \<notin> set xs"
  shows "linked_list (ll_add s h f) None (Some s) (s # xs)"
proof (cases xs)
  case Nil
  with assms show ?thesis by (simp add: ll_add_def)
next
  case (Cons x ys)
  with assms have "linked_list f (Some x) (s_next (f x)) ys" "h = Some x" "x \<noteq> s" "x \<notin> set ys" "s \<notin> set ys" by auto
  then have "linked_list (ll_add s h f) (Some x) (s_next (f x)) ys"
    by (subst linked_list_cong [where f' = f]) (auto simp: ll_add_def)
  with \<open>h = Some x\<close> \<open>x \<noteq> s\<close> Cons show ?thesis by (simp add: ll_add_def)
qed

text \<open>Unlinking an element in the middle of a list segment.\<close>

lemma ll_unlink:
  assumes "linked_list f p h (xs @ s # ys)" "distinct (xs @ s # ys)" "p = None \<or> the p \<notin> set (xs @ s # ys)"
    "f' = ll_remove s f" "xs = [] \<Longrightarrow> p = None"
  shows "linked_list f' p (if xs = [] then s_next (f s) else h) (xs @ ys)"
proof -
  have nx: "s_next (f s) = (if ys = [] then None else Some (hd ys))" by (rule linked_list_next [OF assms(1)])
  have pv: "s_prev (f s) = (if xs = [] then p else Some (last xs))" by (rule linked_list_prev [OF assms(1)])
  have f': "s_next (f' x) = (if xs \<noteq> [] \<and> x = last xs then s_next (f s) else s_next (f x))"
    "s_prev (f' x) = (if ys \<noteq> [] \<and> x = hd ys then s_prev (f s) else s_prev (f x))" if "x \<noteq> s" for x
    using assms(4,5) nx pv that by (auto simp: ll_remove_def)
  have tail: "linked_list f' (s_prev (f s)) (s_next (f s)) ys" if ys: "linked_list f (Some s) (s_next (f s)) ys"
  proof (cases ys)
    case (Cons y zs)
    have lx: "xs \<noteq> [] \<Longrightarrow> last xs \<notin> set ys" using assms(2) by (metis (no_types) last_in_set disjoint_iff distinct_append list.set_intros(2))
    have d: "y \<noteq> s" "s \<notin> set zs" "y \<notin> set zs" using assms(2) Cons by auto
    have same: "s_next (f' x) = s_next (f x) \<and> s_prev (f' x) = s_prev (f x)" if "x \<in> set zs" for x
    proof -
      have "x \<noteq> s" "x \<noteq> y" "xs \<noteq> [] \<Longrightarrow> x \<noteq> last xs" using that d lx Cons by auto
      then show ?thesis using f' [of x] Cons by auto
    qed
    have "linked_list f' (Some y) (s_next (f y)) zs"
      using ys Cons linked_list_cong [of zs f' f, OF same] by simp
    moreover have "s_next (f' y) = s_next (f y)" "s_prev (f' y) = s_prev (f s)"
      using Cons d lx f' [of y] by auto
    ultimately show ?thesis using Cons nx by simp
  qed (use nx in simp)
  have "linked_list f' q (if zs = [] then s_next (f s) else k) (zs @ ys)"
    if "linked_list f q k (zs @ s # ys)" "set zs \<subseteq> set xs" "distinct zs" "zs \<noteq> [] \<Longrightarrow> last zs = last xs"
      "zs = [] \<Longrightarrow> q = s_prev (f s)" for zs q k
    using that
  proof (induction zs arbitrary: q k)
    case Nil
    then show ?case using tail by simp
  next
    case (Cons z zs)
    have z: "z \<noteq> s" "z \<notin> set ys" "z \<in> set xs" using Cons.prems(2) assms(2) by auto
    have "z \<noteq> hd ys" if "ys \<noteq> []" using z that hd_in_set by metis
    then have pz: "s_prev (f' z) = s_prev (f z)" using f'(2) [OF z(1)] by auto
    have pz': "zs = [] \<Longrightarrow> Some z = s_prev (f s)" using Cons.prems(2,4) pv z(3) by auto
    have nz: "zs \<noteq> [] \<Longrightarrow> s_next (f' z) = s_next (f z)" "zs = [] \<Longrightarrow> s_next (f' z) = s_next (f s)"
    proof -
      show "s_next (f' z) = s_next (f z)" if "zs \<noteq> []"
      proof -
        have "z \<noteq> last xs" using that Cons.prems(3,4) by (metis distinct.simps(2) last_ConsR last_in_set list.distinct(1))
        then show ?thesis using f'(1) [OF z(1)] by auto
      qed
      show "s_next (f' z) = s_next (f s)" if "zs = []"
        using that Cons.prems(4) f'(1) [OF z(1)] z(3) by auto
    qed
    have "linked_list f' (Some z) (if zs = [] then s_next (f s) else s_next (f z)) (zs @ ys)"
      using Cons.prems pz' by (intro Cons.IH) auto
    with Cons.prems(1) pz nz show ?case by (cases "zs = []") auto
  qed
  from this [OF assms(1)] show ?thesis using assms(2) pv by auto
qed

lemma ll_remove_list:
  assumes "linked_list f None h xs" "distinct xs" "s \<in> set xs"
  shows "linked_list (ll_remove s f) None (if s_prev (f s) = None then s_next (f s) else h) (removeAll s xs)"
proof -
  obtain as bs where xs: "xs = as @ s # bs" using assms(3) by (meson split_list)
  with assms have "linked_list (ll_remove s f) None (if as = [] then s_next (f s) else h) (as @ bs)"
    by (intro ll_unlink) auto
  moreover have "removeAll s xs = as @ bs" using xs assms(2) by (simp add: removeAll_id)
  moreover have "s_prev (f s) = None \<longleftrightarrow> as = []" using linked_list_prev [of f None h as s bs] assms(1) xs by auto
  ultimately show ?thesis by simp
qed

lemma iterators_move: "iterators (groups (move_iterator g n w) g) = (if iterators (groups w g) = [] then [] else n # tl (iterators (groups w g)))"
  by (simp add: move_iterator_def access)

lemma move_iterator_frame [simp]:
  "socks (move_iterator g n w) = socks w" "trace (move_iterator g n w) = trace w"
  "webSocketHead (groups (move_iterator g n w) k) = webSocketHead (groups w k)"
  "httpSocketHead (groups (move_iterator g n w) k) = httpSocketHead (groups w k)"
  "httpTimer (groups (move_iterator g n w) k) = httpTimer (groups w k)"
  by (simp_all add: move_iterator_def access)

text \<open>What removing an element of a list does, in the two cases of the code.\<close>

lemma linked_ends:
  assumes "linked_list f None h xs" "distinct xs" "s \<in> set xs"
  shows "s_prev (f s) = s_next (f s) \<longleftrightarrow> xs = [s]" "s_prev (f s) \<noteq> Some s" "s_next (f s) \<noteq> Some s"
    "s_prev (f s) = s_next (f s) \<Longrightarrow> s_next (f s) = None"
proof -
  obtain as bs where xs: "xs = as @ s # bs" using assms(3) by (meson split_list)
  have p: "s_prev (f s) = (if as = [] then None else Some (last as))"
    using linked_list_prev [of f None h as s bs] assms(1) xs by simp
  have n: "s_next (f s) = (if bs = [] then None else Some (hd bs))"
    using linked_list_next [of f None h as s bs] assms(1) xs by simp
  have d: "s \<notin> set as" "s \<notin> set bs" "set as \<inter> set bs = {}" using assms(2) xs by auto
  have la: "as \<noteq> [] \<Longrightarrow> last as \<in> set as" "bs \<noteq> [] \<Longrightarrow> hd bs \<in> set bs" by simp_all
  show "s_prev (f s) \<noteq> Some s" "s_next (f s) \<noteq> Some s" using p n d la by (metis option.discI option.inject)+
  have "as \<noteq> [] \<Longrightarrow> bs \<noteq> [] \<Longrightarrow> last as \<noteq> hd bs" using d(3) la by (metis disjoint_iff)
  moreover have "xs = [s] \<longleftrightarrow> as = [] \<and> bs = []" using xs by (cases as) auto
  ultimately show "s_prev (f s) = s_next (f s) \<longleftrightarrow> xs = [s]" "s_prev (f s) = s_next (f s) \<Longrightarrow> s_next (f s) = None"
    using p n by (auto split: if_splits)
qed

lemma addWebSocket_list:
  assumes "ws_list w g xs" "s \<notin> set xs"
  shows "ws_list (addWebSocket g s w) g (s # xs)"
proof -
  have h: "webSocketHead (groups w g) = (if xs = [] then None else Some (hd xs))" "distinct xs"
    "linked_list (socks w) None (webSocketHead (groups w g)) xs"
    using assms(1) by (auto simp: ws_list_def dest: linked_list_head)
  have "socks (addWebSocket g s w) = ll_add s (webSocketHead (groups w g)) (socks w)"
    using h(1) assms(2) by (auto simp: addWebSocket_def Let_def set_next_def set_prev_def access ll_add_def fun_eq_iff)
  moreover have "webSocketHead (groups (addWebSocket g s w) g) = Some s"
    by (simp add: addWebSocket_def Let_def set_next_def set_prev_def access)
  ultimately show ?thesis using ll_add_list [OF h(3,2) assms(2)] h(2) assms(2) by (simp add: ws_list_def)
qed

lemma addHttpSocket_list:
  assumes "http_list w g xs" "s \<notin> set xs"
  shows "http_list (addHttpSocket E isServer g s w) g (s # xs)"
proof -
  have h: "httpSocketHead (groups w g) = (if xs = [] then None else Some (hd xs))" "distinct xs"
    "linked_list (socks w) None (httpSocketHead (groups w g)) xs"
    using assms(1) by (auto simp: http_list_def dest: linked_list_head)
  have "socks (addHttpSocket E isServer g s w) = ll_add s (httpSocketHead (groups w g)) (socks w)"
    using h(1) assms(2)
    by (auto simp: addHttpSocket_def Let_def set_next_def set_prev_def access ll_add_def fun_eq_iff timer_new_def
        timer_start_def new_id_def)
  moreover have "httpSocketHead (groups (addHttpSocket E isServer g s w) g) = Some s"
    by (simp add: addHttpSocket_def Let_def set_next_def set_prev_def access)
  ultimately show ?thesis using ll_add_list [OF h(3,2) assms(2)] h(2) assms(2) by (simp add: http_list_def)
qed

lemma removeWebSocket_list:
  assumes "ws_list w g xs" "s \<in> set xs"
  shows "ws_list (removeWebSocket g s w) g (removeAll s xs)"
proof -
  have d: "distinct xs" "linked_list (socks w) None (webSocketHead (groups w g)) xs"
    using assms(1) by (auto simp: ws_list_def)
  note e = linked_ends [OF d(2,1) assms(2)]
  show ?thesis
  proof (cases "s_prev (socks w s) = s_next (socks w s)")
    case True
    with e(1) have "removeAll s xs = []" by simp
    with True show ?thesis by (simp add: ws_list_def removeWebSocket_def access Let_def)
  next
    case False
    have "socks (removeWebSocket g s w) = ll_remove s (socks w)"
      using False e(2,3)
      by (auto simp: removeWebSocket_def Let_def set_next_def set_prev_def access ll_remove_def fun_eq_iff split: option.splits)
    moreover have "webSocketHead (groups (removeWebSocket g s w) g) =
      (if s_prev (socks w s) = None then s_next (socks w s) else webSocketHead (groups w g))"
      using False e(2,3) by (auto simp: removeWebSocket_def Let_def set_next_def set_prev_def access split: option.splits)
    ultimately show ?thesis
      using ll_remove_list [OF d(2,1) assms(2)] d(1) by (simp add: ws_list_def distinct_removeAll)
  qed
qed

lemma removeHttpSocket_list:
  assumes "http_list w g xs" "s \<in> set xs"
  shows "http_list (removeHttpSocket g s w) g (removeAll s xs)"
proof -
  have d: "distinct xs" "linked_list (socks w) None (httpSocketHead (groups w g)) xs"
    using assms(1) by (auto simp: http_list_def)
  note e = linked_ends [OF d(2,1) assms(2)]
  show ?thesis
  proof (cases "s_prev (socks w s) = s_next (socks w s)")
    case True
    with e(1) have "removeAll s xs = []" by simp
    with True show ?thesis by (simp add: http_list_def removeHttpSocket_def access Let_def timer_close_def timer_stop_def)
  next
    case False
    have "socks (removeHttpSocket g s w) = ll_remove s (socks w)"
      using False e(2,3)
      by (auto simp: removeHttpSocket_def Let_def set_next_def set_prev_def access ll_remove_def fun_eq_iff split: option.splits)
    moreover have "httpSocketHead (groups (removeHttpSocket g s w) g) =
      (if s_prev (socks w s) = None then s_next (socks w s) else httpSocketHead (groups w g))"
      using False e(2,3) by (auto simp: removeHttpSocket_def Let_def set_next_def set_prev_def access split: option.splits)
    ultimately show ?thesis
      using ll_remove_list [OF d(2,1) assms(2)] d(1) by (simp add: http_list_def distinct_removeAll)
  qed
qed

section \<open>The interface of a registry of sockets\<close>

datatype registry_op = Add nat | Remove nat

fun registry_run :: "(nat \<Rightarrow> world \<Rightarrow> world) \<Rightarrow> (nat \<Rightarrow> world \<Rightarrow> world) \<Rightarrow> registry_op list \<Rightarrow> world \<Rightarrow> world" where
  "registry_run add remove [] w = w"
| "registry_run add remove (Add s # ops) w = registry_run add remove ops (add s w)"
| "registry_run add remove (Remove s # ops) w = registry_run add remove ops (remove s w)"

text \<open>The list after the operations; \<open>None\<close> when one adds a member or removes a stranger.\<close>

fun registry_spec :: "registry_op list \<Rightarrow> nat list \<Rightarrow> nat list option" where
  "registry_spec [] xs = Some xs"
| "registry_spec (Add s # ops) xs = (if s \<in> set xs then None else registry_spec ops (s # xs))"
| "registry_spec (Remove s # ops) xs = (if s \<in> set xs then registry_spec ops (removeAll s xs) else None)"

locale socket_registry =
  fixes add remove :: "nat \<Rightarrow> world \<Rightarrow> world"
    and members :: "world \<Rightarrow> nat list \<Rightarrow> bool"
  assumes add_members: "members w xs \<Longrightarrow> s \<notin> set xs \<Longrightarrow> members (add s w) (s # xs)"
    and remove_members: "members w xs \<Longrightarrow> s \<in> set xs \<Longrightarrow> members (remove s w) (removeAll s xs)"
begin

lemma run_members:
  "members w xs \<Longrightarrow> registry_spec ops xs = Some ys \<Longrightarrow> members (registry_run add remove ops w) ys"
proof (induction ops arbitrary: w xs)
  case (Cons op ops)
  then show ?case by (cases op) (auto split: if_splits intro: add_members remove_members)
qed simp

end

interpretation ws_reg: socket_registry "addWebSocket g" "removeWebSocket g" "\<lambda>w. ws_list w g" for g
  by unfold_locales (rule addWebSocket_list removeWebSocket_list; assumption)+

interpretation http_reg: socket_registry "addHttpSocket E isServer g" "removeHttpSocket g" "\<lambda>w. http_list w g" for E isServer g
  by unfold_locales (rule addHttpSocket_list removeHttpSocket_list; assumption)+

section \<open>Traversal\<close>

text \<open>
  The specification: the callback is called for each socket of the list in order, the iterator
  moves to the next one in between.
\<close>

fun visit_all :: "(nat \<Rightarrow> world \<Rightarrow> world option) \<Rightarrow> nat \<Rightarrow> nat list \<Rightarrow> world \<Rightarrow> world option" where
  "visit_all cb g [] w = Some w"
| "visit_all cb g (s # ss) w = do {
     w \<leftarrow> cb s w;
     visit_all cb g ss (move_iterator g (if ss = [] then None else Some (hd ss)) w) }"

text \<open>
  The contract of a callback: called for \<open>s\<close>, it leaves the list and the iterator alone, or
  removes \<open>s\<close> itself.
\<close>

definition removes_only_self :: "(world \<Rightarrow> nat list \<Rightarrow> bool) \<Rightarrow> (nat \<Rightarrow> world \<Rightarrow> world option) \<Rightarrow> nat \<Rightarrow> bool" where
  "removes_only_self members cb g \<longleftrightarrow>
     (\<forall>w w' xs s ys. members w (xs @ s # ys) \<and> iterators (groups w g) \<noteq> [] \<and>
         hd (iterators (groups w g)) = Some s \<and> cb s w = Some w' \<longrightarrow>
       iterators (groups w' g) \<noteq> [] \<and>
       (members w' (xs @ s # ys) \<and> hd (iterators (groups w' g)) = Some s \<or>
        members w' (xs @ ys) \<and> hd (iterators (groups w' g)) = (if ys = [] then None else Some (hd ys))))"

lemma iterators_move_hd: "iterators (groups w g) \<noteq> [] \<Longrightarrow> hd (iterators (groups w g)) = n \<Longrightarrow> move_iterator g n w = w"
proof -
  assume "iterators (groups w g) \<noteq> []" "hd (iterators (groups w g)) = n"
  then have "(groups w g)\<lparr>iterators := n # tl (iterators (groups w g))\<rparr> = groups w g" by auto
  then show ?thesis by (simp add: move_iterator_def upd_group_def)
qed

lemma for_each_visits:
  assumes ok: "removes_only_self members cb g"
    and dist: "\<And>w xs. members w xs \<Longrightarrow> distinct xs"
    and move: "\<And>w xs n. members (move_iterator g n w) xs \<longleftrightarrow> members w xs"
    and next_ok: "\<And>w xs s ys. members w (xs @ s # ys) \<Longrightarrow> s_next (socks w s) = (if ys = [] then None else Some (hd ys))"
  shows "members w (xs @ ys) \<Longrightarrow> iterators (groups w g) \<noteq> [] \<Longrightarrow> hd (iterators (groups w g)) = it \<Longrightarrow>
    it = (if ys = [] then None else Some (hd ys)) \<Longrightarrow> for_each_loop cb g it w = visit_all cb g ys w"
proof (induction ys arbitrary: xs w it)
  case Nil
  then show ?case by (simp add: for_each_loop.simps)
next
  case (Cons s ys)
  show ?case
  proof (cases "cb s w")
    case None
    with Cons.prems show ?thesis by (simp add: for_each_loop.simps)
  next
    case (Some w1)
    define n where "n = (if ys = [] then None else Some (hd ys))"
    have c: "iterators (groups w1 g) \<noteq> []" "members w1 (xs @ s # ys) \<and> hd (iterators (groups w1 g)) = Some s \<or>
        members w1 (xs @ ys) \<and> hd (iterators (groups w1 g)) = n"
    proof -
      have it: "hd (iterators (groups w g)) = Some s" using Cons.prems(3,4) by simp
      have "iterators (groups w1 g) \<noteq> [] \<and> (members w1 (xs @ s # ys) \<and> hd (iterators (groups w1 g)) = Some s \<or>
          members w1 (xs @ ys) \<and> hd (iterators (groups w1 g)) = n)"
        using ok [unfolded removes_only_self_def, rule_format, of w xs s ys w1] Cons.prems(1,2) it Some
        by (simp add: n_def)
      then show "iterators (groups w1 g) \<noteq> []" "members w1 (xs @ s # ys) \<and> hd (iterators (groups w1 g)) = Some s \<or>
        members w1 (xs @ ys) \<and> hd (iterators (groups w1 g)) = n" by auto
    qed
    have d: "s \<notin> set ys" using dist [OF Cons.prems(1)] by simp
    then have ns: "n \<noteq> Some s" by (auto simp: n_def)
    have step: "for_each_loop cb g it w = for_each_loop cb g n (move_iterator g n w1)"
      using c(2)
    proof
      assume l: "members w1 (xs @ s # ys) \<and> hd (iterators (groups w1 g)) = Some s"
      then show ?thesis using Cons.prems(4) Some next_ok [of w1 xs s ys]
        by (simp add: for_each_loop.simps [of cb g "Some s"] n_def [symmetric])
    next
      assume l: "members w1 (xs @ ys) \<and> hd (iterators (groups w1 g)) = n"
      then show ?thesis using Cons.prems(4) Some ns c(1)
        by (simp add: for_each_loop.simps [of cb g "Some s"] iterators_move_hd)
    qed
    have "\<exists>zs. members (move_iterator g n w1) (zs @ ys)"
      using c(2) move by (metis append.assoc append_Cons append_Nil)
    then obtain zs where "members (move_iterator g n w1) (zs @ ys)" by blast
    from Cons.IH [OF this _ _ n_def] c(1) show ?thesis
      using step Some by (simp add: iterators_move n_def)
  qed
qed

lemma ws_list_distinct: "ws_list w g xs \<Longrightarrow> distinct xs"
  by (simp add: ws_list_def)

lemma http_list_distinct: "http_list w g xs \<Longrightarrow> distinct xs"
  by (simp add: http_list_def)

lemma ws_list_move: "ws_list (move_iterator g n w) g xs \<longleftrightarrow> ws_list w g xs"
  by (simp add: ws_list_def)

lemma http_list_move: "http_list (move_iterator g n w) g xs \<longleftrightarrow> http_list w g xs"
  by (simp add: http_list_def)

lemma ws_list_next: "ws_list w g (xs @ s # ys) \<Longrightarrow> s_next (socks w s) = (if ys = [] then None else Some (hd ys))"
  unfolding ws_list_def by (metis linked_list_next)

lemma http_list_next: "http_list w g (xs @ s # ys) \<Longrightarrow> s_next (socks w s) = (if ys = [] then None else Some (hd ys))"
  unfolding http_list_def by (metis linked_list_next)

lemma push_iterator_simps [simp]:
  "iterators (groups (push_iterator g it w) g) = it # iterators (groups w g)"
  "ws_list (push_iterator g it w) g xs = ws_list w g xs" "http_list (push_iterator g it w) g xs = http_list w g xs"
  by (simp_all add: push_iterator_def access ws_list_def http_list_def)

lemma forEach_eq:
  assumes "ws_list w g xs" "removes_only_self (\<lambda>w. ws_list w g) cb g"
  shows "forEach cb g w = map_option (pop_iterator g) (visit_all cb g xs (push_iterator g (webSocketHead (groups w g)) w))"
proof -
  have h: "webSocketHead (groups w g) = (if xs = [] then None else Some (hd xs))"
    using assms(1) by (auto simp: ws_list_def dest: linked_list_head)
  have "for_each_loop cb g (webSocketHead (groups w g)) (push_iterator g (webSocketHead (groups w g)) w) =
      visit_all cb g xs (push_iterator g (webSocketHead (groups w g)) w)"
    by (rule for_each_visits [OF assms(2) ws_list_distinct ws_list_move ws_list_next, where xs = "[]"])
       (use assms(1) h in simp_all)
  then show ?thesis by (simp add: forEach_def Let_def)
qed

lemma forEachHttpSocket_eq:
  assumes "http_list w g xs" "removes_only_self (\<lambda>w. http_list w g) cb g"
  shows "forEachHttpSocket cb g w =
    map_option (pop_iterator g) (visit_all cb g xs (push_iterator g (httpSocketHead (groups w g)) w))"
proof -
  have h: "httpSocketHead (groups w g) = (if xs = [] then None else Some (hd xs))"
    using assms(1) by (auto simp: http_list_def dest: linked_list_head)
  have "for_each_loop cb g (httpSocketHead (groups w g)) (push_iterator g (httpSocketHead (groups w g)) w) =
      visit_all cb g xs (push_iterator g (httpSocketHead (groups w g)) w)"
    by (rule for_each_visits [OF assms(2) http_list_distinct http_list_move http_list_next, where xs = "[]"])
       (use assms(1) h in simp_all)
  then show ?thesis by (simp add: forEachHttpSocket_def Let_def)
qed

text \<open>Removing the visited socket meets the contract.\<close>

lemma remove_iterators [simp]:
  "iterators (groups (removeWebSocket g s w) g) =
    (if iterators (groups w g) = [] then [] else s_next (socks w s) # tl (iterators (groups w g)))"
  "iterators (groups (removeHttpSocket g s w) g) =
    (if iterators (groups w g) = [] then [] else s_next (socks w s) # tl (iterators (groups w g)))"
  by (simp_all add: removeWebSocket_def removeHttpSocket_def Let_def set_next_def set_prev_def access iterators_move
      timer_close_def timer_stop_def split: option.splits)

lemma removeWebSocket_self:
  assumes "ws_list w g (xs @ s # ys)" "iterators (groups w g) \<noteq> []"
  shows "ws_list (removeWebSocket g s w) g (xs @ ys)"
    "hd (iterators (groups (removeWebSocket g s w) g)) = (if ys = [] then None else Some (hd ys))"
    "iterators (groups (removeWebSocket g s w) g) \<noteq> []"
proof -
  have d: "s \<notin> set xs" "s \<notin> set ys" using ws_list_distinct [OF assms(1)] by auto
  have "ws_list (removeWebSocket g s w) g (removeAll s (xs @ s # ys))"
    by (rule removeWebSocket_list [OF assms(1)]) simp
  with d show "ws_list (removeWebSocket g s w) g (xs @ ys)" by simp
qed (use assms ws_list_next [OF assms(1)] in simp_all)

section \<open>Properties\<close>

text \<open>
  C28: The intrusive lists of a group refine lists: after any sequence of \<open>addWebSocket\<close> and
  \<open>removeWebSocket\<close> (or of \<open>addHttpSocket\<close> and \<open>removeHttpSocket\<close>) that adds no member twice and
  removes only members, following \<open>next\<close> from the head gives exactly the members, latest first,
  and every \<open>prev\<close> is the inverse of \<open>next\<close>.
\<close>

theorem group_lists_refine:
  assumes "ws_list w g ws" "registry_spec ops ws = Some ws'" "http_list v g hs" "registry_spec ops' hs = Some hs'"
  shows "ws_list (registry_run (addWebSocket g) (removeWebSocket g) ops w) g ws' \<and>
    http_list (registry_run (addHttpSocket E isServer g) (removeHttpSocket g) ops' v) g hs'"
  using ws_reg.run_members [OF assms(1,2)] http_reg.run_members [OF assms(3,4)] by simp

theorem group_lists_refine_witness:
  "ws_list (registry_run (addWebSocket 0) (removeWebSocket 0) [Add 1, Add 2, Add 3, Remove 2] world0) 0 [3, 1] \<and>
    http_list (registry_run (addHttpSocket env0 True 0) (removeHttpSocket 0) [Add 4, Remove 4] world0) 0 []"
  by (rule group_lists_refine [where ws = "[]" and hs = "[]"])
     (simp_all add: ws_list_def http_list_def world0_def group0_def)

text \<open>
  C29: \<open>forEach\<close> visits every WebSocket of the group exactly once and in order, and returns,
  for every callback that leaves the list alone or removes (closes, terminates, transfers) the
  socket it is called for: the traversal is the sequence of the calls for the members the list
  had at the start.
\<close>

theorem forEach_visits_all:
  assumes "ws_list w g xs" "removes_only_self (\<lambda>w. ws_list w g) cb g"
  shows "forEach cb g w =
    map_option (pop_iterator g) (visit_all cb g xs (push_iterator g (if xs = [] then None else Some (hd xs)) w))"
proof -
  have "webSocketHead (groups w g) = (if xs = [] then None else Some (hd xs))"
    using assms(1) by (auto simp: ws_list_def dest: linked_list_head)
  then show ?thesis using forEach_eq [OF assms] by simp
qed

lemma remove_even_ok: "removes_only_self (\<lambda>w. ws_list w g) (\<lambda>s w. Some (if even s then removeWebSocket g s w else w)) g"
  unfolding removes_only_self_def
proof (intro allI impI, elim conjE)
  fix w w' xs s ys
  assume "ws_list w g (xs @ s # ys)" "iterators (groups w g) \<noteq> []" "hd (iterators (groups w g)) = Some s"
    "Some (if even s then removeWebSocket g s w else w) = Some w'"
  then show "iterators (groups w' g) \<noteq> [] \<and>
       (ws_list w' g (xs @ s # ys) \<and> hd (iterators (groups w' g)) = Some s \<or>
        ws_list w' g (xs @ ys) \<and> hd (iterators (groups w' g)) = (if ys = [] then None else Some (hd ys)))"
    using removeWebSocket_self [of w g xs s ys] by (cases "even s") (simp_all del: remove_iterators)
qed

theorem forEach_visits_all_witness:
  "forEach (\<lambda>s w. Some (if even s then removeWebSocket 0 s w else w)) 0 (addWebSocket 0 2 (addWebSocket 0 3 world0)) =
    map_option (pop_iterator 0) (visit_all (\<lambda>s w. Some (if even s then removeWebSocket 0 s w else w)) 0 [2, 3]
      (push_iterator 0 (Some 2) (addWebSocket 0 2 (addWebSocket 0 3 world0))))"
proof -
  have "ws_list world0 0 []" by (simp add: ws_list_def world0_def group0_def)
  then have "ws_list (addWebSocket 0 2 (addWebSocket 0 3 world0)) 0 [2, 3]"
    by (intro addWebSocket_list) simp_all
  from forEach_visits_all [OF this remove_even_ok] show ?thesis by simp
qed

text \<open>
  A callback of \<open>forEach\<close> that removes another socket breaks the traversal: \<open>removeWebSocket\<close>
  moves the iterator of the traversal to the successor of the removed socket, wherever that is.
  When the callback for the first socket removes the last one, the traversal ends there, and the
  sockets between them are never visited.
\<close>

theorem forEach_skips:
  assumes "ws_list w g (s # xs @ [t])" "cb s (push_iterator g (Some s) w) = Some (removeWebSocket g t (push_iterator g (Some s) w))"
  shows "forEach cb g w = Some (pop_iterator g (removeWebSocket g t (push_iterator g (Some s) w)))"
proof -
  have h: "webSocketHead (groups w g) = Some s" using assms(1) by (simp add: ws_list_def)
  let ?w = "push_iterator g (Some s) w"
  have "s_next (socks ?w t) = None" using ws_list_next [of ?w g "s # xs" t "[]"] assms(1) by simp
  then show ?thesis using assms(2) h
    by (simp add: forEach_def Let_def for_each_loop.simps [of cb g "Some s"] for_each_loop.simps [of cb g None])
qed

theorem forEach_skips_witness:
  "forEach (\<lambda>s w. Some (removeWebSocket 0 1 w)) 0 (addWebSocket 0 3 (addWebSocket 0 2 (addWebSocket 0 1 world0))) =
    Some (pop_iterator 0 (removeWebSocket 0 1 (push_iterator 0 (Some 3) (addWebSocket 0 3 (addWebSocket 0 2 (addWebSocket 0 1 world0))))))"
proof -
  have "ws_list world0 0 []" by (simp add: ws_list_def world0_def group0_def)
  then have "ws_list (addWebSocket 0 3 (addWebSocket 0 2 (addWebSocket 0 1 world0))) 0 (3 # [2] @ [1])"
    by (simp add: addWebSocket_list)
  from forEach_skips [OF this] show ?thesis by simp
qed

end
