(* ===== verification/Deflate.thy ===== *)
theory Deflate
  imports SocketWrite Sample
begin

text \<open>
  The compression of \<open>Hub\<close> (uWebSockets \<open>Hub.cpp\<close>): the loops around zlib's \<open>deflate\<close> and
  \<open>inflate\<close>. zlib is a parameter: one call takes the stream state, the input and the room in the
  output buffer, and gives the status, the output, the rest of the input and the new stream state.
\<close>

definition LARGE_BUFFER_SIZE :: nat where "LARGE_BUFFER_SIZE = 300 * 1024"

definition set_stream :: "nat \<Rightarrow> nat \<Rightarrow> world \<Rightarrow> world" where
  "set_stream z st w = w\<lparr>zstreams := (zstreams w)(z := st)\<rparr>"

definition allocateDefaultCompressor :: "env \<Rightarrow> nat \<Rightarrow> world \<Rightarrow> world" where
  "allocateDefaultCompressor E z w = set_stream z (zreset E) w"

text \<open>The loop: \<open>dynamicZlibBuffer\<close>, the last output in \<open>zlibBuffer\<close> and the stream state.\<close>

partial_function (option) deflate_loop :: "env \<Rightarrow> nat \<Rightarrow> byte list \<Rightarrow> byte list \<Rightarrow> (byte list \<times> byte list \<times> nat) option" where
  "deflate_loop E st inp dyn =
     (case zdeflate E st inp LARGE_BUFFER_SIZE of (err, out, rest, st') \<Rightarrow>
       if err = Z_OK \<and> length out = LARGE_BUFFER_SIZE then deflate_loop E st' rest (dyn @ out)
       else Some (dyn, out, st'))"

text \<open>
  The last four bytes, the marker of the flush, are cut off. \<open>None\<close> also where there are not four
  bytes: the length wraps around, and the caller copies beyond the buffer.
\<close>

definition hub_deflate :: "env \<Rightarrow> byte list \<Rightarrow> nat option \<Rightarrow> world \<Rightarrow> (byte list \<times> world) option" where
  "hub_deflate E data slidingWindow w =
     (let w = w\<lparr>dynamicZlibBuffer := []\<rparr>;
          compressor = (case slidingWindow of Some z \<Rightarrow> z | None \<Rightarrow> deflationStream w)
      in do {
        (dyn, out, st) \<leftarrow> deflate_loop E (zstreams w compressor) (take (length data mod 2 ^ 32) data) [];
        let w = set_stream compressor (if slidingWindow = None then zreset E else st) w;
        let res = (if dyn \<noteq> [] then dyn @ out else out);
        let w = w\<lparr>dynamicZlibBuffer := (if dyn \<noteq> [] then dyn @ out else [])\<rparr>;
        if length res < 4 then None else Some (take (length res - 4) res, w) })"

text \<open>The loop of \<open>inflate\<close>: the status, \<open>dynamicZlibBuffer\<close> and the last output.\<close>

partial_function (option) inflate_loop ::
  "env \<Rightarrow> nat \<Rightarrow> nat \<Rightarrow> byte list \<Rightarrow> byte list \<Rightarrow> (zret \<times> byte list \<times> byte list) option" where
  "inflate_loop E limit st inp dyn =
     (case zinflate E st inp LARGE_BUFFER_SIZE of (err, out, rest, st') \<Rightarrow>
       if rest = [] then Some (err, dyn, out)
       else let dyn = dyn @ out in
         if err = Z_BUF_ERROR \<and> length dyn \<le> limit then inflate_loop E limit st' rest dyn
         else Some (err, dyn, out))"

text \<open>The result is \<open>None\<close> for \<open>nullptr\<close>.\<close>

definition hub_inflate :: "env \<Rightarrow> byte list \<Rightarrow> nat \<Rightarrow> world \<Rightarrow> (byte list option \<times> world) option" where
  "hub_inflate E data limit w =
     do {
       (err, dyn, out) \<leftarrow> inflate_loop E limit (zstreams w (inflationStream w)) (take (length data mod 2 ^ 32) data) [];
       let w = set_stream (inflationStream w) (zreset E) w;
       if err \<noteq> Z_BUF_ERROR \<and> err \<noteq> Z_OK \<or> length dyn > limit then Some (None, w\<lparr>dynamicZlibBuffer := dyn\<rparr>)
       else if dyn \<noteq> [] then Some (Some (dyn @ out), w\<lparr>dynamicZlibBuffer := dyn @ out\<rparr>)
       else Some (Some out, w\<lparr>dynamicZlibBuffer := []\<rparr>) }"

section \<open>Bounds\<close>

text \<open>
  What is used of zlib: \<open>inflate\<close> writes no more than the room it is given, and when it answers
  \<open>Z_BUF_ERROR\<close> with input left over it was short of room, so it has written something.
\<close>

definition zlib_room :: "env \<Rightarrow> bool" where
  "zlib_room E \<longleftrightarrow> (\<forall>st inp n. length (fst (snd (zinflate E st inp n))) \<le> n)"

definition zlib_progress :: "env \<Rightarrow> bool" where
  "zlib_progress E \<longleftrightarrow>
     (\<forall>st inp n. 0 < n \<longrightarrow>
       (case zinflate E st inp n of (err, out, rest, st') \<Rightarrow> err = Z_BUF_ERROR \<longrightarrow> rest \<noteq> [] \<longrightarrow> out \<noteq> []))"

lemma inflate_loop_returns:
  assumes "zlib_room E" "zlib_progress E" "length dyn \<le> limit"
  shows "\<exists>err dyn' out. inflate_loop E limit st inp dyn = Some (err, dyn', out)
    \<and> length dyn' \<le> limit + LARGE_BUFFER_SIZE \<and> length out \<le> LARGE_BUFFER_SIZE"
  using assms(3)
proof (induction "limit - length dyn" arbitrary: st inp dyn rule: less_induct)
  case less
  obtain e o1 rest st' where z: "zinflate E st inp LARGE_BUFFER_SIZE = (e, o1, rest, st')"
    by (cases "zinflate E st inp LARGE_BUFFER_SIZE") auto
  have room: "length o1 \<le> LARGE_BUFFER_SIZE"
    using assms(1) z unfolding zlib_room_def by (metis fst_conv snd_conv)
  show ?case
  proof (cases "rest \<noteq> [] \<and> e = Z_BUF_ERROR \<and> length (dyn @ o1) \<le> limit")
    case True
    have "o1 \<noteq> []"
      using assms(2)[unfolded zlib_progress_def, rule_format, of LARGE_BUFFER_SIZE st inp] z True
      by (simp add: LARGE_BUFFER_SIZE_def)
    with True have "limit - length (dyn @ o1) < limit - length dyn" by (cases o1) auto
    from less.hyps [OF this] True show ?thesis by (subst inflate_loop.simps) (simp add: z Let_def)
  next
    case False
    then show ?thesis using less.prems room by (subst inflate_loop.simps) (auto simp: z Let_def)
  qed
qed

text \<open>
  C30: The decompression of a message always returns, whatever the peer sends, and never holds more
  than the maximum payload of the group plus one output buffer of 300 KiB: the loop gives up as
  soon as the collected output exceeds the maximum. The same bound holds for the message it
  returns. (It is not the maximum itself: the last buffer is added after the test.)
\<close>

theorem inflate_bounded:
  assumes "zlib_room E" "zlib_progress E"
  shows "\<exists>r w'. hub_inflate E data limit w = Some (r, w') \<and>
    length (dynamicZlibBuffer w') \<le> limit + LARGE_BUFFER_SIZE \<and>
    (case r of None \<Rightarrow> True | Some out \<Rightarrow> length out \<le> limit + LARGE_BUFFER_SIZE)"
proof -
  obtain err dyn o1 where
    l: "inflate_loop E limit (zstreams w (inflationStream w)) (take (length data mod 2 ^ 32) data) [] = Some (err, dyn, o1)"
    and b: "length dyn \<le> limit + LARGE_BUFFER_SIZE" "length o1 \<le> LARGE_BUFFER_SIZE"
    using inflate_loop_returns [OF assms, of "[]" limit "zstreams w (inflationStream w)" "take (length data mod 2 ^ 32) data"]
    by auto
  show ?thesis unfolding hub_inflate_def l using b by (auto simp: Let_def)
qed

text \<open>A stream that inflates without end.\<close>

definition bomb_env :: env where
  "bomb_env = env0\<lparr>zinflate := (\<lambda>st d n. (Z_BUF_ERROR, replicate n 0, d, st))\<rparr>"

theorem inflate_bounded_witness:
  "\<exists>r w'. hub_inflate bomb_env [1] 5 world0 = Some (r, w') \<and>
    length (dynamicZlibBuffer w') \<le> 5 + LARGE_BUFFER_SIZE \<and>
    (case r of None \<Rightarrow> True | Some out \<Rightarrow> length out \<le> 5 + LARGE_BUFFER_SIZE)"
  by (rule inflate_bounded) (simp_all add: zlib_room_def zlib_progress_def bomb_env_def)

end
