(* ===== verification/WebSocket.thy ===== *)
theory WebSocket
  imports GroupList Deflate SocketStream
begin

text \<open>
  \<open>WebSocket<isServer>\<close> (uWebSockets \<open>WebSocket.h\<close>, \<open>WebSocket.cpp\<close>): construction, sending,
  prepared messages, receiving through the frame parser of \<open>Protocol\<close>, closing and transfers. The
  parameter of the frame parser is here the real one (\<open>ws_impl\<close>). An operation that calls the
  application or loops has the value \<open>None\<close> when it does not return.
\<close>

section \<open>Construction\<close>

text \<open>\<open>new WebSocket(perMessageDeflate, socket)\<close>: the \<open>Socket\<close> part is copied from \<open>s\<close> to \<open>t\<close>.\<close>

definition WebSocket_ctor :: "env \<Rightarrow> bool \<Rightarrow> nat \<Rightarrow> world \<Rightarrow> nat \<times> world" where
  "WebSocket_ctor E pmd s w =
     (let (t, w) = new_id w;
          w = upd_sock t (\<lambda>_. (socks w s)\<lparr>s_deleted := False, fragmentBuffer := [],
                compressionStatus := (if pmd then ENABLED else DISABLED),
                controlTipLength := 0, hasOutstandingPong := False, slidingDeflateWindow := None,
                s_ws := State_init (s_ws (socks w s))\<rparr>) w
      in if extensionOptions (sock_group w t) AND SLIDING_DEFLATE_WINDOW \<noteq> 0 then
           let (z, w) = new_id w
           in (t, upd_sock t (\<lambda>x. x\<lparr>slidingDeflateWindow := Some z\<rparr>) (allocateDefaultCompressor E z w))
         else (t, w))"

section \<open>Sending\<close>

text \<open>\<open>formatMessage\<close> with the random number a client draws.\<close>

definition format_random :: "env \<Rightarrow> bool \<Rightarrow> byte list \<Rightarrow> byte \<Rightarrow> bool \<Rightarrow> world \<Rightarrow> byte list \<times> world" where
  "format_random E isServer data opc compressed w =
     (formatMessage isServer (sys_rand E (trace w)) data opc (length data) compressed,
      if isServer then w else log E_rand w)"

definition ws_transform :: "env \<Rightarrow> bool \<Rightarrow> nat \<Rightarrow> byte list \<Rightarrow> byte \<Rightarrow> bool \<Rightarrow> world \<Rightarrow> (byte list \<times> world) option" where
  "ws_transform E isServer s message opc compress w =
     (if compress then do {
        (deflated, w) \<leftarrow> hub_deflate E message (slidingDeflateWindow (socks w s)) w;
        Some (format_random E isServer deflated opc True w) }
      else Some (format_random E isServer message opc False w))"

definition ws_send ::
  "env \<Rightarrow> bool \<Rightarrow> nat \<Rightarrow> byte list \<Rightarrow> byte \<Rightarrow> msg_cb option \<Rightarrow> nat \<Rightarrow> bool \<Rightarrow> world \<Rightarrow> world option" where
  "ws_send E isServer s message opc cb data compress w =
     sendTransformed E s (length message + LONG_MESSAGE_HEADER (\<not> isServer))
       (ws_transform E isServer s message opc (compress \<and> compressionStatus (socks w s) = ENABLED \<and> opc < 3)) cb data w"

text \<open>The overloads for C strings: up to the terminating NUL.\<close>

definition ws_send_string :: "env \<Rightarrow> bool \<Rightarrow> nat \<Rightarrow> byte list \<Rightarrow> byte \<Rightarrow> world \<Rightarrow> world option" where
  "ws_send_string E isServer s message opc = ws_send E isServer s (takeWhile (\<lambda>b. b \<noteq> 0) message) opc None 0 False"

definition ws_ping :: "env \<Rightarrow> bool \<Rightarrow> nat \<Rightarrow> byte list \<Rightarrow> world \<Rightarrow> world option" where
  "ws_ping E isServer s message = ws_send_string E isServer s message PING"

section \<open>Prepared messages\<close>

definition prepareMessage ::
  "env \<Rightarrow> bool \<Rightarrow> byte list \<Rightarrow> byte \<Rightarrow> bool \<Rightarrow> nat option \<Rightarrow> world \<Rightarrow> nat \<times> world" where
  "prepareMessage E isServer data opc compressed cb w =
     (let (p, w) = new_id w;
          (buf, w) = format_random E isServer data opc compressed w
      in (p, upd_prepared p (\<lambda>_. \<lparr>pm_buffer = buf, pm_size = length data + 10, pm_references = 1, pm_callback = cb\<rparr>) w))"

fun format_batch :: "env \<Rightarrow> bool \<Rightarrow> byte list list \<Rightarrow> byte \<Rightarrow> bool \<Rightarrow> world \<Rightarrow> byte list \<times> world" where
  "format_batch E isServer [] opc compressed w = ([], w)"
| "format_batch E isServer (m # ms) opc compressed w =
     (let (b, w) = format_random E isServer m opc compressed w;
          (bs, w) = format_batch E isServer ms opc compressed w
      in (b @ bs, w))"

definition prepareMessageBatch ::
  "env \<Rightarrow> bool \<Rightarrow> byte list list \<Rightarrow> byte \<Rightarrow> bool \<Rightarrow> nat option \<Rightarrow> world \<Rightarrow> nat \<times> world" where
  "prepareMessageBatch E isServer messages opc compressed cb w =
     (let batchLength = sum_list (map length messages);
          (p, w) = new_id w;
          (buf, w) = format_batch E isServer messages opc compressed w
      in (p, upd_prepared p (\<lambda>_. \<lparr>pm_buffer = buf, pm_size = batchLength + 10 * length messages,
             pm_references = 1, pm_callback = cb\<rparr>) w))"

definition sendPrepared :: "env \<Rightarrow> nat \<Rightarrow> nat \<Rightarrow> nat \<Rightarrow> world \<Rightarrow> world option" where
  "sendPrepared E s p callbackData w =
     (let w = upd_prepared p (\<lambda>x. x\<lparr>pm_references := pm_references x + 1\<rparr>) w;
          memoryIndex = getMemoryBlockIndex MESSAGE_HEADER;
          (a, w) = getSmall memoryIndex w
      in after_write E s (freeSmall a memoryIndex) (Some Prepared_cb) p callbackData
           (sock_write E s (new_message a (pm_buffer (prepareds w p))) w))"

definition finalizeMessage :: "nat \<Rightarrow> world \<Rightarrow> world" where
  "finalizeMessage p w =
     (let w = upd_prepared p (\<lambda>x. x\<lparr>pm_references := pm_references x - 1\<rparr>) w
      in if pm_references (prepareds w p) = 0 then log (E_delete_prepared p) w else w)"

section \<open>The end of a connection\<close>

text \<open>The loop of \<open>onEnd\<close> over the message queue.\<close>

partial_function (option) cancel_queue :: "env \<Rightarrow> nat \<Rightarrow> world \<Rightarrow> world option" where
  "cancel_queue E s w =
     (case s_queue (socks w s) of
        [] \<Rightarrow> Some w
      | m # ms \<Rightarrow> do {
          w \<leftarrow> call_cb E (m_cb m) None (m_cbdata m) True 0 w;
          w \<leftarrow> pop_message s w;
          cancel_queue E s w })"

definition ws_onEnd :: "env \<Rightarrow> nat \<Rightarrow> world \<Rightarrow> world option" where
  "ws_onEnd E s w =
     do {
       w \<leftarrow> (if \<not> isShuttingDown w s
             then let g = s_node (socks w s) in disconnectionHandler E g s 1006 [] (removeWebSocket g s w)
             else Some (cancelTimeout s w));
       w \<leftarrow> cancel_queue E s (closeSocket s w);
       let w = clearPendingPollChanges (s_node (socks w s)) s w;
       Some (upd_sock s (\<lambda>x. x\<lparr>slidingDeflateWindow := None\<rparr>) w) }"

definition ws_terminate :: "env \<Rightarrow> nat \<Rightarrow> world \<Rightarrow> world option" where
  "ws_terminate E s w = ws_onEnd E s w"

definition MAX_CLOSE_PAYLOAD :: nat where "MAX_CLOSE_PAYLOAD = 123"

definition ws_close :: "env \<Rightarrow> bool \<Rightarrow> nat \<Rightarrow> nat \<Rightarrow> byte list \<Rightarrow> world \<Rightarrow> world option" where
  "ws_close E isServer s code message w =
     (let message = take MAX_CLOSE_PAYLOAD message; g = s_node (socks w s) in
      do {
        w \<leftarrow> disconnectionHandler E g s code message (removeWebSocket g s w);
        let w = startTimeout E (Ws_timeout isServer) 15000 s (setShuttingDown s True w);
        ws_send E isServer s (formatClosePayload code message) CLOSE (Some Shutdown_cb) 0 False w })"

section \<open>Transfer\<close>

definition ws_transfer :: "env \<Rightarrow> bool \<Rightarrow> nat \<Rightarrow> nat \<Rightarrow> world \<Rightarrow> world option" where
  "ws_transfer E isServer s g w =
     (let w = removeWebSocket (s_node (socks w s)) s w in
      if g_loop (groups w g) = sock_loop w s then
        transferHandler E g s (addWebSocket g s (upd_sock s (\<lambda>x. x\<lparr>s_node := g\<rparr>) w))
      else Some (transfer_start g isServer s w))"

text \<open>The lambda of the slow path.\<close>

definition ws_transferred :: "env \<Rightarrow> nat \<Rightarrow> world \<Rightarrow> world option" where
  "ws_transferred E s w = (let g = s_node (socks w s) in transferHandler E g s (addWebSocket g s w))"

section \<open>Receiving\<close>

text \<open>The result of \<open>handleFragment\<close>: the return value (\<open>True\<close> stops the parser) and the state.\<close>

definition stop_if_gone :: "nat \<Rightarrow> world \<Rightarrow> bool \<times> world" where
  "stop_if_gone s w = (isClosed w s \<or> isShuttingDown w s, w)"

definition force_close :: "env \<Rightarrow> nat \<Rightarrow> world \<Rightarrow> (bool \<times> world) option" where
  "force_close E s w = map_option (Pair True) (ws_terminate E s w)"

text \<open>The test of text messages and the call of the handler, the same in both branches.\<close>

definition deliver :: "env \<Rightarrow> nat \<Rightarrow> nat \<Rightarrow> byte list \<Rightarrow> byte \<Rightarrow> world \<Rightarrow> (bool \<times> world) option" where
  "deliver E g s data opc w =
     (if opc = 1 \<and> \<not> isValidUtf8 data then force_close E s w
      else map_option (stop_if_gone s) (messageHandler E g s data opc w))"

definition inflate_frame :: "env \<Rightarrow> nat \<Rightarrow> nat \<Rightarrow> byte list \<Rightarrow> world \<Rightarrow> (byte list option \<times> world) option" where
  "inflate_frame E g s data w =
     hub_inflate E data (unat (g_maxPayload (groups w g))) (upd_sock s (\<lambda>x. x\<lparr>compressionStatus := ENABLED\<rparr>) w)"

definition handle_data :: "env \<Rightarrow> nat \<Rightarrow> nat \<Rightarrow> byte list \<Rightarrow> nat \<Rightarrow> byte \<Rightarrow> bool \<Rightarrow> world \<Rightarrow> (bool \<times> world) option" where
  "handle_data E g s data remaining opc fin w =
     (if remaining = 0 \<and> fin \<and> fragmentBuffer (socks w s) = [] then
        (if compressionStatus (socks w s) = COMPRESSED_FRAME then do {
           (r, w) \<leftarrow> inflate_frame E g s data w;
           (case r of None \<Rightarrow> force_close E s w | Some out \<Rightarrow> deliver E g s out opc w) }
         else deliver E g s data opc w)
      else
        let w = upd_sock s (\<lambda>x. x\<lparr>fragmentBuffer := fragmentBuffer x @ data\<rparr>) w in
        if remaining = 0 \<and> fin then
          let whole = fragmentBuffer (socks w s) in
          do {
            (stop, w) \<leftarrow>
              (if compressionStatus (socks w s) = COMPRESSED_FRAME then do {
                 (r, w) \<leftarrow> inflate_frame E g s whole (upd_sock s (\<lambda>x. x\<lparr>fragmentBuffer := whole @ replicate 4 46\<rparr>) w);
                 (case r of None \<Rightarrow> force_close E s w | Some out \<Rightarrow> deliver E g s out opc w) }
               else deliver E g s whole opc w);
            Some (stop, if stop then w else upd_sock s (\<lambda>x. x\<lparr>fragmentBuffer := []\<rparr>) w) }
        else Some (False, w))"

text \<open>A complete control frame.\<close>

definition handle_control :: "env \<Rightarrow> bool \<Rightarrow> nat \<Rightarrow> nat \<Rightarrow> byte list \<Rightarrow> byte \<Rightarrow> world \<Rightarrow> (bool \<times> world) option" where
  "handle_control E isServer g s data opc w =
     (if opc = CLOSE then
        let cf = parseClosePayload data
        in map_option (Pair True) (ws_close E isServer s (cf_code cf) (cf_message cf) w)
      else if opc = PING then do {
        w \<leftarrow> ws_send E isServer s data PONG None 0 False w;
        w \<leftarrow> pingHandler E g s data w;
        Some (stop_if_gone s w) }
      else if opc = PONG then do {
        w \<leftarrow> pongHandler E g s data w;
        Some (stop_if_gone s w) }
      else Some (False, w))"

definition handle_fragment ::
  "env \<Rightarrow> bool \<Rightarrow> nat \<Rightarrow> byte list \<Rightarrow> nat \<Rightarrow> byte \<Rightarrow> bool \<Rightarrow> world \<Rightarrow> (bool \<times> world) option" where
  "handle_fragment E isServer s data remaining opc fin w =
     (let g = s_node (socks w s) in
      if opc < 3 then handle_data E g s data remaining opc fin w
      else if remaining = 0 \<and> fin \<and> controlTipLength (socks w s) = 0 then handle_control E isServer g s data opc w
      else
        let w = upd_sock s (\<lambda>x. x\<lparr>fragmentBuffer := fragmentBuffer x @ data,
                  controlTipLength := (controlTipLength x + length data) mod 256\<rparr>) w in
        if remaining = 0 \<and> fin then
          let x = socks w s;
              controlBuffer = drop (length (fragmentBuffer x) - controlTipLength x) (fragmentBuffer x)
          in do {
            (stop, w) \<leftarrow> handle_control E isServer g s controlBuffer opc w;
            Some (stop, if stop then w else
              upd_sock s (\<lambda>x. x\<lparr>fragmentBuffer := take (length (fragmentBuffer x) - controlTipLength x) (fragmentBuffer x),
                controlTipLength := 0\<rparr>) w) }
        else Some (False, w))"

text \<open>The four functions the frame parser calls; a state that is not reached is \<open>None\<close>.\<close>

definition ws_maxPayload :: "nat \<Rightarrow> world \<Rightarrow> 32 word" where
  "ws_maxPayload s w = g_maxPayload (sock_group w s)"

definition ws_setCompressed :: "nat \<Rightarrow> world \<Rightarrow> bool \<times> world" where
  "ws_setCompressed s w =
     (if compressionStatus (socks w s) = ENABLED
      then (True, upd_sock s (\<lambda>x. x\<lparr>compressionStatus := COMPRESSED_FRAME\<rparr>) w) else (False, w))"

definition ws_impl :: "env \<Rightarrow> bool \<Rightarrow> nat \<Rightarrow> world option impl" where
  "ws_impl E isServer s =
     \<lparr>forceClose = (\<lambda>u. u \<bind> ws_terminate E s),
      maxPayload = (\<lambda>u. case u of Some w \<Rightarrow> ws_maxPayload s w | None \<Rightarrow> 0),
      setCompressed = (\<lambda>u. case u of Some w \<Rightarrow> map_prod id Some (ws_setCompressed s w) | None \<Rightarrow> (False, None)),
      handleFragment = (\<lambda>data remaining opc fin u.
        case u \<bind> handle_fragment E isServer s data remaining opc fin of
          Some (stop, w) \<Rightarrow> (stop, Some w) | None \<Rightarrow> (True, None))\<rparr>"

definition ws_consume :: "env \<Rightarrow> bool \<Rightarrow> nat \<Rightarrow> mem \<Rightarrow> nat \<Rightarrow> nat \<Rightarrow> world \<Rightarrow> world option" where
  "ws_consume E isServer s m data len w =
     (let c = consume (ws_impl E isServer s)
                isServer \<lparr>pm = m, psrc = data, plen = len mod 2 ^ 32, pws = s_ws (socks w s), pu = Some w\<rparr>
      in map_option (upd_sock s (\<lambda>x. x\<lparr>s_ws := pws c\<rparr>)) (pu c))"

definition ws_onData :: "env \<Rightarrow> bool \<Rightarrow> on_data" where
  "ws_onData E isServer s m data len w =
     (let w = upd_sock s (\<lambda>x. x\<lparr>hasOutstandingPong := False\<rparr>) w in
      if \<not> isShuttingDown w s then do {
        w \<leftarrow> ws_consume E isServer s m data len (cork s True w);
        Some (s, if \<not> isClosed w s then cork s False w else w) }
      else Some (s, w))"

end
