(* ===== verification/Group.thy ===== *)
theory Group
  imports WebSocket
begin

text \<open>
  \<open>Group<isServer>\<close> (uWebSockets \<open>Group.h\<close>, \<open>Group.cpp\<close>): construction, the handlers, broadcasting,
  automatic pings, and closing all sockets. The handlers of all groups are fields of the
  environment; setting one gives a new environment.
\<close>

section \<open>Construction\<close>

text \<open>The \<open>NodeData\<close> part is a copy of the record \<open>n\<close> of the node.\<close>

definition Group_ctor :: "nat \<Rightarrow> 32 word \<Rightarrow> 32 word \<Rightarrow> nat \<Rightarrow> world \<Rightarrow> world" where
  "Group_ctor g options limit n w =
     upd_group g (\<lambda>_. (groups w n)\<lparr>g_maxPayload := limit,
       extensionOptions := options OR (CLIENT_NO_CONTEXT_TAKEOVER OR SERVER_NO_CONTEXT_TAKEOVER),
       g_timer := None, httpTimer := None, userPingMessage := [], iterators := [], g_userData := None,
       webSocketHead := None, httpSocketHead := None\<rparr>) w"

definition Group_handlers :: "nat \<Rightarrow> env \<Rightarrow> env" where
  "Group_handlers g E =
     E\<lparr>connectionHandler := (connectionHandler E)(g := \<lambda>_ _ w. Some w),
       transferHandler := (transferHandler E)(g := \<lambda>_ w. Some w),
       messageHandler := (messageHandler E)(g := \<lambda>_ _ _ w. Some w),
       disconnectionHandler := (disconnectionHandler E)(g := \<lambda>_ _ _ w. Some w),
       pingHandler := (pingHandler E)(g := \<lambda>_ _ w. Some w),
       pongHandler := (pongHandler E)(g := \<lambda>_ _ w. Some w),
       errorHandler := (errorHandler E)(g := \<lambda>_ w. Some w),
       listenErrorHandler := (listenErrorHandler E)(g := \<lambda>_ w. Some w),
       httpRequestHandler := (httpRequestHandler E)(g := Some (\<lambda>_ _ _ _ w. Some w)),
       httpConnectionHandler := (httpConnectionHandler E)(g := \<lambda>_ w. Some w),
       httpDisconnectionHandler := (httpDisconnectionHandler E)(g := \<lambda>_ w. Some w),
       httpCancelledRequestHandler := (httpCancelledRequestHandler E)(g := \<lambda>_ w. Some w),
       httpDataHandler := (httpDataHandler E)(g := \<lambda>_ _ _ w. Some w),
       httpUpgradeHandler := (httpUpgradeHandler E)(g := None)\<rparr>"

section \<open>Handlers and user data\<close>

definition group_setUserData :: "nat \<Rightarrow> nat option \<Rightarrow> world \<Rightarrow> world" where
  "group_setUserData g u = upd_group g (\<lambda>x. x\<lparr>g_userData := u\<rparr>)"

definition group_getUserData :: "world \<Rightarrow> nat \<Rightarrow> nat option" where
  "group_getUserData w g = g_userData (groups w g)"

definition onConnection :: "nat \<Rightarrow> (nat \<Rightarrow> mem \<times> request \<Rightarrow> world \<Rightarrow> world option) \<Rightarrow> env \<Rightarrow> env" where
  "onConnection g h E = E\<lparr>connectionHandler := (connectionHandler E)(g := h)\<rparr>"

definition onTransfer :: "nat \<Rightarrow> (nat \<Rightarrow> world \<Rightarrow> world option) \<Rightarrow> env \<Rightarrow> env" where
  "onTransfer g h E = E\<lparr>transferHandler := (transferHandler E)(g := h)\<rparr>"

definition onMessage :: "nat \<Rightarrow> (nat \<Rightarrow> byte list \<Rightarrow> byte \<Rightarrow> world \<Rightarrow> world option) \<Rightarrow> env \<Rightarrow> env" where
  "onMessage g h E = E\<lparr>messageHandler := (messageHandler E)(g := h)\<rparr>"

definition onDisconnection :: "nat \<Rightarrow> (nat \<Rightarrow> nat \<Rightarrow> byte list \<Rightarrow> world \<Rightarrow> world option) \<Rightarrow> env \<Rightarrow> env" where
  "onDisconnection g h E = E\<lparr>disconnectionHandler := (disconnectionHandler E)(g := h)\<rparr>"

definition onPing :: "nat \<Rightarrow> (nat \<Rightarrow> byte list \<Rightarrow> world \<Rightarrow> world option) \<Rightarrow> env \<Rightarrow> env" where
  "onPing g h E = E\<lparr>pingHandler := (pingHandler E)(g := h)\<rparr>"

definition onPong :: "nat \<Rightarrow> (nat \<Rightarrow> byte list \<Rightarrow> world \<Rightarrow> world option) \<Rightarrow> env \<Rightarrow> env" where
  "onPong g h E = E\<lparr>pongHandler := (pongHandler E)(g := h)\<rparr>"

text \<open>\<open>errorType\<close> is \<open>int\<close> for servers and \<open>void *\<close> for clients.\<close>

definition onError_server :: "nat \<Rightarrow> (int \<Rightarrow> world \<Rightarrow> world option) \<Rightarrow> env \<Rightarrow> env" where
  "onError_server g h E = E\<lparr>listenErrorHandler := (listenErrorHandler E)(g := h)\<rparr>"

definition onError_client :: "nat \<Rightarrow> (nat option \<Rightarrow> world \<Rightarrow> world option) \<Rightarrow> env \<Rightarrow> env" where
  "onError_client g h E = E\<lparr>errorHandler := (errorHandler E)(g := h)\<rparr>"

definition onHttpConnection :: "nat \<Rightarrow> (nat \<Rightarrow> world \<Rightarrow> world option) \<Rightarrow> env \<Rightarrow> env" where
  "onHttpConnection g h E = E\<lparr>httpConnectionHandler := (httpConnectionHandler E)(g := h)\<rparr>"

definition onHttpRequest ::
  "nat \<Rightarrow> (nat \<Rightarrow> mem \<times> request \<Rightarrow> byte list \<Rightarrow> nat \<Rightarrow> world \<Rightarrow> world option) option \<Rightarrow> env \<Rightarrow> env" where
  "onHttpRequest g h E = E\<lparr>httpRequestHandler := (httpRequestHandler E)(g := h)\<rparr>"

definition onHttpData :: "nat \<Rightarrow> (nat option \<Rightarrow> byte list \<Rightarrow> nat \<Rightarrow> world \<Rightarrow> world option) \<Rightarrow> env \<Rightarrow> env" where
  "onHttpData g h E = E\<lparr>httpDataHandler := (httpDataHandler E)(g := h)\<rparr>"

definition onHttpDisconnection :: "nat \<Rightarrow> (nat \<Rightarrow> world \<Rightarrow> world option) \<Rightarrow> env \<Rightarrow> env" where
  "onHttpDisconnection g h E = E\<lparr>httpDisconnectionHandler := (httpDisconnectionHandler E)(g := h)\<rparr>"

definition onCancelledHttpRequest :: "nat \<Rightarrow> (nat \<Rightarrow> world \<Rightarrow> world option) \<Rightarrow> env \<Rightarrow> env" where
  "onCancelledHttpRequest g h E = E\<lparr>httpCancelledRequestHandler := (httpCancelledRequestHandler E)(g := h)\<rparr>"

definition onHttpUpgrade :: "nat \<Rightarrow> (nat \<Rightarrow> mem \<times> request \<Rightarrow> world \<Rightarrow> world option) option \<Rightarrow> env \<Rightarrow> env" where
  "onHttpUpgrade g h E = E\<lparr>httpUpgradeHandler := (httpUpgradeHandler E)(g := h)\<rparr>"

section \<open>The asynchronous wakeup\<close>

text \<open>\<open>NodeData::addAsync\<close>; the data of the async is the group.\<close>

definition node_addAsync :: "env \<Rightarrow> nat \<Rightarrow> world \<Rightarrow> world" where
  "node_addAsync E g w =
     (let (a, w) = async_new E (g_loop (groups w g)) w;
          w = upd_group g (\<lambda>x. x\<lparr>g_async := Some a\<rparr>) w;
          w = setUserData a (Some g) w
      in async_start (g_loop (groups w g)) a w)"

definition group_addAsync :: "env \<Rightarrow> nat \<Rightarrow> world \<Rightarrow> world" where
  "group_addAsync E g w = (if g_async (groups w g) = None then node_addAsync E g w else w)"

definition listen_transfers :: "env \<Rightarrow> nat \<Rightarrow> world \<Rightarrow> world" where
  "listen_transfers E g w = (if g_async (groups w g) = None then group_addAsync E g w else w)"

section \<open>Broadcasting and automatic pings\<close>

definition broadcast :: "env \<Rightarrow> bool \<Rightarrow> nat \<Rightarrow> byte list \<Rightarrow> byte \<Rightarrow> world \<Rightarrow> world option" where
  "broadcast E isServer g message opc w =
     (let (p, w) = prepareMessage E isServer message opc False None w
      in map_option (finalizeMessage p) (forEach (\<lambda>s. sendPrepared E s p 0) g w))"

definition ping_or_terminate :: "env \<Rightarrow> nat \<Rightarrow> world \<Rightarrow> world option" where
  "ping_or_terminate E s w =
     (if hasOutstandingPong (socks w s) then ws_terminate E s w
      else Some (upd_sock s (\<lambda>x. x\<lparr>hasOutstandingPong := True\<rparr>) w))"

definition timerCallback :: "env \<Rightarrow> bool \<Rightarrow> nat \<Rightarrow> world \<Rightarrow> world option" where
  "timerCallback E isServer t w =
     (let g = timer_data w t in
      do {
        w \<leftarrow> forEach (ping_or_terminate E) g w;
        (if userPingMessage (groups w g) \<noteq> [] then broadcast E isServer g (userPingMessage (groups w g)) TEXT w
         else broadcast E isServer g [] PING w) })"

definition startAutoPing :: "env \<Rightarrow> bool \<Rightarrow> nat \<Rightarrow> int \<Rightarrow> byte list \<Rightarrow> world \<Rightarrow> world" where
  "startAutoPing E isServer g intervalMs userMessage w =
     (let (t, w) = timer_new (g_loop (groups w g)) g w;
          w = upd_group g (\<lambda>x. x\<lparr>g_timer := Some t\<rparr>) w;
          w = timer_start E t (Auto_ping isServer) intervalMs intervalMs w
      in upd_group g (\<lambda>x. x\<lparr>userPingMessage := userMessage\<rparr>) w)"

section \<open>Closing\<close>

definition stop_timer :: "nat option \<Rightarrow> world \<Rightarrow> world" where
  "stop_timer t w = (case t of Some t \<Rightarrow> timer_close t (timer_stop t w) | None \<Rightarrow> w)"

definition stopListening :: "bool \<Rightarrow> nat \<Rightarrow> world \<Rightarrow> world" where
  "stopListening isServer g w =
     (let w = (if isServer then
                 (case g_user (groups w g) of
                    Some ls \<Rightarrow>
                      let w = stop_timer (l_timer (socks w ls)) w
                      in upd_group g (\<lambda>x. x\<lparr>g_user := None\<rparr>) (closeSocket ls w)
                  | None \<Rightarrow> w)
               else w)
      in case g_async (groups w g) of Some a \<Rightarrow> async_close (g_loop (groups w g)) a w | None \<Rightarrow> w)"

definition group_terminate :: "env \<Rightarrow> bool \<Rightarrow> nat \<Rightarrow> world \<Rightarrow> world option" where
  "group_terminate E isServer g w = map_option (stopListening isServer g) (forEach (ws_terminate E) g w)"

definition group_close :: "env \<Rightarrow> bool \<Rightarrow> nat \<Rightarrow> nat \<Rightarrow> byte list \<Rightarrow> world \<Rightarrow> world option" where
  "group_close E isServer g code message w =
     do {
       w \<leftarrow> forEach (\<lambda>s. ws_close E isServer s code message) g w;
       let w = stopListening isServer g w;
       Some (stop_timer (g_timer (groups w g)) w) }"

end
