(* ===== verification/HttpServer.thy ===== *)
theory HttpServer
  imports Group
begin

text \<open>
  \<open>HttpSocket<isServer>\<close> and \<open>HttpResponse\<close> (uWebSockets \<open>HTTPSocket.h\<close>, \<open>HTTPSocket.cpp\<close>): the
  request loop with bodies, pipelining and the upgrade to a WebSocket, the responses with their
  order, and the end of a connection. Buffers are memory with addresses, as in \<open>HttpParser\<close>.
\<close>

section \<open>Construction\<close>

text \<open>\<open>new HttpSocket(socket)\<close>: the \<open>Socket\<close> part is copied from \<open>s\<close> to \<open>t\<close>.\<close>

definition HttpSocket_ctor :: "nat \<Rightarrow> world \<Rightarrow> nat \<times> world" where
  "HttpSocket_ctor s w =
     (let (t, w) = new_id w
      in (t, upd_sock t (\<lambda>_. (socks w s)\<lparr>s_deleted := False, outstandingResponsesHead := None,
            outstandingResponsesTail := None, preAllocatedResponse := None, httpBuffer := [], contentLength := 0,
            missedDeadline := False\<rparr>) w))"

definition delete_socket :: "nat \<Rightarrow> world \<Rightarrow> world" where
  "delete_socket s w = log (E_delete_socket s) (upd_sock s (\<lambda>x. x\<lparr>s_deleted := True\<rparr>) w)"

section \<open>Responses\<close>

text \<open>A response that was cached is handed out as it is.\<close>

definition allocateResponse :: "nat \<Rightarrow> world \<Rightarrow> nat \<times> world" where
  "allocateResponse s w =
     (case preAllocatedResponse (socks w s) of
        Some r \<Rightarrow> (r, upd_sock s (\<lambda>x. x\<lparr>preAllocatedResponse := None\<rparr>) w)
      | None \<Rightarrow>
          let (r, w) = new_id w
          in (r, upd_resp r (\<lambda>_. \<lparr>r_socket = s, r_next = None, r_userData = None, r_queue = [], r_hasEnded = False,
                 r_hasHead = False\<rparr>) w))"

definition freeResponse :: "nat \<Rightarrow> nat \<Rightarrow> world \<Rightarrow> world" where
  "freeResponse r s w =
     (if preAllocatedResponse (socks w s) \<noteq> None then log (E_delete_response r) w
      else upd_sock s (\<lambda>x. x\<lparr>preAllocatedResponse := Some r\<rparr>) w)"

definition response_setUserData :: "nat \<Rightarrow> nat option \<Rightarrow> world \<Rightarrow> world" where
  "response_setUserData r u = upd_resp r (\<lambda>x. x\<lparr>r_userData := u\<rparr>)"

definition response_getUserData :: "world \<Rightarrow> nat \<Rightarrow> nat option" where
  "response_getUserData w r = r_userData (resps w r)"

definition getHttpSocket :: "world \<Rightarrow> nat \<Rightarrow> nat" where
  "getHttpSocket w r = r_socket (resps w r)"

definition response_write :: "env \<Rightarrow> nat \<Rightarrow> byte list \<Rightarrow> msg_cb option \<Rightarrow> nat \<Rightarrow> world \<Rightarrow> world option" where
  "response_write E r message cb data w =
     map_option (upd_resp r (\<lambda>x. x\<lparr>r_hasHead := True\<rparr>))
       (sendTransformed E (r_socket (resps w r)) (length message) (\<lambda>w. Some (message, w)) cb data w)"

text \<open>\<open>HttpTransformer::transform\<close>.\<close>

definition response_bytes :: "bool \<Rightarrow> byte list \<Rightarrow> byte list" where
  "response_bytes hasHead src =
     (if hasHead then []
      else ascii ''HTTP/1.1 200 OK'' @ crlf @ ascii ''Content-Length: '' @ decimal (length src mod 2 ^ 32) @ crlf @ crlf) @ src"

text \<open>
  The loop that empties the queue of the response \<open>h\<close>; the callback is that of the call of \<open>end\<close>, its
  first argument the response. \<open>True\<close>: a write failed (\<open>goto updateHead\<close>). The field \<open>messageQueue\<close> keeps its
  pointers: a message that has been freed or linked into the queue of the socket is marked, and reading it
  again is undefined (\<open>None\<close>).
\<close>

definition dangle :: "nat \<Rightarrow> 'a option list \<Rightarrow> 'a option list" where
  "dangle n q = q[length q - Suc n := None]"

fun flush_messages ::
  "env \<Rightarrow> nat \<Rightarrow> nat \<Rightarrow> msg_cb option \<Rightarrow> nat \<Rightarrow> nat \<Rightarrow> message option list \<Rightarrow> world \<Rightarrow> (bool \<times> world) option" where
  "flush_messages E s this cb data h [] w = Some (False, w)"
| "flush_messages E s this cb data h (None # ms) w = None"
| "flush_messages E s this cb data h (Some m # ms) w =
     (case sock_write E s m w of (ok, wasTransferred, w) \<Rightarrow>
       let w = upd_resp h (\<lambda>x. x\<lparr>r_queue := dangle (length ms) (r_queue x)\<rparr>) w in
       if ok then
         (if \<not> wasTransferred then do {
            w \<leftarrow> call_cb E cb (Some this) data False 0 (freeMessage (m_addr m) w);
            flush_messages E s this cb data h ms w }
          else flush_messages E s this cb data h ms (set_callback s cb data (m_reserved m) w))
       else map_option (Pair True) (call_cb E cb (Some this) data True 0 (freeMessage (m_addr m) w)))"

text \<open>The loop that moves the head of the outstanding responses; the result is the new head.\<close>

partial_function (option) advance_head ::
  "env \<Rightarrow> nat \<Rightarrow> nat \<Rightarrow> msg_cb option \<Rightarrow> nat \<Rightarrow> nat option \<Rightarrow> world \<Rightarrow> (nat option \<times> world) option" where
  "advance_head E s this cb data head w =
     (case head of
        None \<Rightarrow> Some (None, w)
      | Some h \<Rightarrow> do {
          (failed, w) \<leftarrow> flush_messages E s this cb data h (r_queue (resps w h)) w;
          if failed then Some (Some h, w)
          else if \<not> r_hasEnded (resps w h) then Some (Some h, w)
          else let n = r_next (resps w h) in advance_head E s this cb data n (freeResponse h s w) })"

definition response_end :: "env \<Rightarrow> nat \<Rightarrow> byte list \<Rightarrow> msg_cb option \<Rightarrow> nat \<Rightarrow> world \<Rightarrow> world option" where
  "response_end E r message cb data w =
     (let hasHead = r_hasHead (resps w r); s = r_socket (resps w r) in
      if outstandingResponsesHead (socks w s) \<noteq> Some r then
        let (a, w) = allocMessage (length message + 128) w;
            m = (new_message a (response_bytes hasHead message))\<lparr>m_cb := cb, m_cbdata := data\<rparr>
        in Some (upd_resp r (\<lambda>x. x\<lparr>r_queue := Some m # r_queue x, r_hasEnded := True\<rparr>) w)
      else do {
        w \<leftarrow> sendTransformed E s (length message + 128) (\<lambda>w. Some (response_bytes hasHead message, w)) cb data w;
        (head, w) \<leftarrow> advance_head E s r cb data (r_next (resps w r)) w;
        let w = upd_sock s (\<lambda>x. x\<lparr>outstandingResponsesHead := head\<rparr>) w;
        let w = (if head = None then upd_sock s (\<lambda>x. x\<lparr>outstandingResponsesTail := None\<rparr>) w else w);
        Some (freeResponse r s w) })"

section \<open>The end of a connection\<close>

partial_function (option) cancel_responses :: "env \<Rightarrow> nat \<Rightarrow> world \<Rightarrow> world option" where
  "cancel_responses E s w =
     (case outstandingResponsesHead (socks w s) of
        None \<Rightarrow> Some w
      | Some r \<Rightarrow> do {
          w \<leftarrow> httpCancelledRequestHandler E (s_node (socks w s)) r w;
          (case outstandingResponsesHead (socks w s) of
             None \<Rightarrow> None
           | Some r \<Rightarrow>
               let n = r_next (resps w r)
               in cancel_responses E s (upd_sock s (\<lambda>x. x\<lparr>outstandingResponsesHead := n\<rparr>) (log (E_delete_response r) w))) })"

definition http_onEnd :: "env \<Rightarrow> bool \<Rightarrow> nat \<Rightarrow> world \<Rightarrow> world option" where
  "http_onEnd E isServer s w =
     do {
       w \<leftarrow> (if \<not> isShuttingDown w s then
               (if isServer then
                  let g = s_node (socks w s) in httpDisconnectionHandler E g s (removeHttpSocket g s w)
                else Some w)
             else Some (cancelTimeout s w));
       w \<leftarrow> cancel_queue E s (closeSocket s w);
       w \<leftarrow> cancel_responses E s w;
       let w = (case preAllocatedResponse (socks w s) of Some r \<Rightarrow> log (E_delete_response r) w | None \<Rightarrow> w);
       let w = clearPendingPollChanges (s_node (socks w s)) s w;
       (if \<not> isServer then
          let w = cancelTimeout s w in errorHandler E (s_node (socks w s)) (httpUser (socks w s)) w
        else Some w) }"

definition http_terminate :: "env \<Rightarrow> bool \<Rightarrow> nat \<Rightarrow> world \<Rightarrow> world option" where
  "http_terminate E isServer s w = http_onEnd E isServer s w"

text \<open>The timer of the group's HTTP sockets.\<close>

definition http_deadline_check :: "env \<Rightarrow> bool \<Rightarrow> nat \<Rightarrow> world \<Rightarrow> world option" where
  "http_deadline_check E isServer s w =
     (if missedDeadline (socks w s) then http_terminate E isServer s w
      else if outstandingResponsesHead (socks w s) = None then Some (upd_sock s (\<lambda>x. x\<lparr>missedDeadline := True\<rparr>) w)
      else Some w)"

definition http_deadline :: "env \<Rightarrow> bool \<Rightarrow> nat \<Rightarrow> world \<Rightarrow> world option" where
  "http_deadline E isServer t w = forEachHttpSocket (http_deadline_check E isServer) (timer_data w t) w"

section \<open>The upgrade\<close>

text \<open>The message that is written, and \<open>*perMessageDeflate\<close>.\<close>

definition upgrade_message ::
  "env \<Rightarrow> bool \<Rightarrow> nat \<Rightarrow> byte list \<Rightarrow> byte list \<Rightarrow> byte list \<Rightarrow> world \<Rightarrow> byte list \<times> bool \<times> world" where
  "upgrade_message E isServer s secKey extensions subprotocol w =
     (if isServer then
        case upgrade_response (sha1 E) (extensionOptions (sock_group w s)) secKey extensions subprotocol of
          (bytes, pmd) \<Rightarrow> (bytes, pmd, w)
      else (httpBuffer (socks w s), False, upd_sock s (\<lambda>x. x\<lparr>httpBuffer := []\<rparr>) w))"

definition upgrade ::
  "env \<Rightarrow> bool \<Rightarrow> nat \<Rightarrow> byte list \<Rightarrow> byte list \<Rightarrow> byte list \<Rightarrow> world \<Rightarrow> bool \<times> world" where
  "upgrade E isServer s secKey extensions subprotocol w =
     (let (bytes, pmd, w) = upgrade_message E isServer s secKey extensions subprotocol w;
          (a, w) = allocMessage (length bytes) w
      in (pmd,
        case sock_write E s (new_message a bytes) w of (ok, wasTransferred, w) \<Rightarrow>
          if ok then (if \<not> wasTransferred then freeMessage a w else set_callback s None 0 0 w)
          else freeMessage a w))"

section \<open>Receiving\<close>

definition MAX_HEADER_BUFFER_SIZE :: nat where "MAX_HEADER_BUFFER_SIZE = 4096"

text \<open>
  \<open>atoi\<close> of the C library, on the bytes from a pointer on: an \<open>int\<close>. \<open>None\<close> if the value is not
  representable (undefined behaviour). The result is converted to \<open>size_t\<close>, with its sign extended.
\<close>

definition atoi :: "byte list \<Rightarrow> 32 word option" where
  "atoi bs =
     (let bs = dropWhile isspace bs;
          neg = (bs \<noteq> [] \<and> hd bs = 45);
          ds = takeWhile isdigit (if bs \<noteq> [] \<and> (hd bs = 45 \<or> hd bs = 43) then tl bs else bs);
          n = (if neg then - int (digits_value 0 ds) else int (digits_value 0 ds))
      in if - (2 ^ 31) \<le> n \<and> n < 2 ^ 31 then Some (word_of_int n) else None)"

definition to_size_t :: "32 word \<Rightarrow> nat" where
  "to_size_t n = unat (scast n :: 64 word)"

definition header_value :: "mem \<Rightarrow> header \<Rightarrow> byte list" where
  "header_value m h = (case val h of Some v \<Rightarrow> rd m v (valueLength h) | None \<Rightarrow> [])"

text \<open>The bytes of a body that comes before the next request: the new data pointer and length.\<close>

definition http_body :: "env \<Rightarrow> nat \<Rightarrow> mem \<Rightarrow> nat \<Rightarrow> nat \<Rightarrow> world \<Rightarrow> (bool \<times> nat \<times> nat \<times> world) option" where
  "http_body E s m data len w =
     (if contentLength (socks w s) \<noteq> 0 then
        let w = upd_sock s (\<lambda>x. x\<lparr>missedDeadline := False\<rparr>) w; g = s_node (socks w s) in
        if contentLength (socks w s) \<ge> len then
          let w = upd_sock s (\<lambda>x. x\<lparr>contentLength := contentLength x - len\<rparr>) w in
          do {
            w \<leftarrow> httpDataHandler E g (outstandingResponsesTail (socks w s)) (rd m data len) (contentLength (socks w s)) w;
            Some (True, data, len, w) }
        else do {
          w \<leftarrow> httpDataHandler E g (outstandingResponsesTail (socks w s)) (rd m data (contentLength (socks w s))) 0 w;
          let n = contentLength (socks w s);
          Some (False, data + n, len - n, upd_sock s (\<lambda>x. x\<lparr>contentLength := 0\<rparr>) w) }
      else Some (False, data, len, w))"

text \<open>The branch of a server whose request asks for an upgrade: the socket that is returned.\<close>

definition http_upgrade_request :: "env \<Rightarrow> nat \<Rightarrow> mem \<Rightarrow> request \<Rightarrow> world \<Rightarrow> (nat \<times> world) option" where
  "http_upgrade_request E s m req w =
     (let g = s_node (socks w s) in
      case httpUpgradeHandler E g of
        Some h \<Rightarrow> map_option (Pair s) (h s (m, req) w)
      | None \<Rightarrow>
          let secKey = getHeader m req (ascii ''sec-websocket-key'');
              extensions = getHeader m req (ascii ''sec-websocket-extensions'');
              subprotocol = getHeader m req (ascii ''sec-websocket-protocol'')
          in if valueLength secKey = 24 then
               let (pmd, w) = upgrade E True s (header_value m secKey) (header_value m extensions)
                                (header_value m subprotocol) w;
                   w = removeHttpSocket g s w;
                   (ws, w) = WebSocket_ctor E pmd s w;
                   w = change_to ws UV_READABLE (setState True True ws w);
                   w = cork ws True (addWebSocket (s_node (socks w ws)) ws w)
               in do {
                 w \<leftarrow> connectionHandler E (s_node (socks w ws)) ws (m, req) w;
                 Some (ws, delete_socket s (cork ws False w)) }
             else map_option (Pair s) (http_onEnd E True s w))"

text \<open>The branch of any other request: the new cursor, and whether \<open>onData\<close> returns.\<close>

definition link_response :: "nat \<Rightarrow> nat \<Rightarrow> world \<Rightarrow> world" where
  "link_response s r w =
     (let w = (case outstandingResponsesTail (socks w s) of
                 Some t \<Rightarrow> upd_resp t (\<lambda>x. x\<lparr>r_next := Some r\<rparr>) w
               | None \<Rightarrow> upd_sock s (\<lambda>x. x\<lparr>outstandingResponsesHead := Some r\<rparr>) w)
      in upd_sock s (\<lambda>x. x\<lparr>outstandingResponsesTail := Some r\<rparr>) w)"

definition http_request :: "env \<Rightarrow> nat \<Rightarrow> mem \<Rightarrow> request \<Rightarrow> nat \<Rightarrow> nat \<Rightarrow> world \<Rightarrow> (bool \<times> nat \<times> world) option" where
  "http_request E s m req cursor e w =
     (case httpRequestHandler E (s_node (socks w s)) of
        Some h \<Rightarrow>
          let (res, w) = allocateResponse s w;
              w = link_response s res w;
              cl = getHeader m req (ascii ''content-length'')
          in do {
            (cursor, w) \<leftarrow>
              (if getMethod m req \<noteq> METHOD_GET \<and> key cl \<noteq> None then
                 (case atoi (rd m (the (val cl)) (e - the (val cl))) of
                    None \<Rightarrow> None
                  | Some n \<Rightarrow>
                      let total = to_size_t n; bytesToRead = min total (e - cursor);
                          w = upd_sock s (\<lambda>x. x\<lparr>contentLength := total - bytesToRead\<rparr>) w
                      in map_option (Pair (cursor + bytesToRead)) (h res (m, req) (rd m cursor bytesToRead) (total - bytesToRead) w))
               else map_option (Pair cursor) (h res (m, req) [] 0 w));
            Some (isClosed w s \<or> isShuttingDown w s, cursor, w) }
      | None \<Rightarrow> map_option (\<lambda>w. (True, cursor, w)) (http_onEnd E True s w))"

text \<open>The branch of a client: the answer to the upgrade.\<close>

definition http_answer :: "env \<Rightarrow> nat \<Rightarrow> mem \<Rightarrow> request \<Rightarrow> nat \<Rightarrow> nat \<Rightarrow> world \<Rightarrow> (nat \<times> world) option" where
  "http_answer E s m req cursor e w =
     (if key (getHeader m req (ascii ''upgrade'')) \<noteq> None then
        let (ws, w) = WebSocket_ctor E False s w;
            w = cancelTimeout s w;
            w = setUserData ws (httpUser (socks w s)) w;
            w = change_to ws UV_READABLE (setState True False ws w);
            w = cork ws True (addWebSocket (s_node (socks w ws)) ws w)
        in do {
          w \<leftarrow> connectionHandler E (s_node (socks w ws)) ws (m, req) w;
          w \<leftarrow> (if \<not> (isClosed w ws \<or> isShuttingDown w ws) then ws_consume E False ws m cursor (e - cursor) w
                else Some w);
          Some (ws, delete_socket s (cork ws False w)) }
      else map_option (Pair s) (http_onEnd E False s w))"

text \<open>Parsing works in place: what it changed, when the data are in \<open>httpBuffer\<close> (at address 0).\<close>

definition parsed_in_place :: "nat \<Rightarrow> mem \<Rightarrow> world \<Rightarrow> world" where
  "parsed_in_place s m = upd_sock s (\<lambda>x. x\<lparr>httpBuffer := rd m 0 (length (httpBuffer x))\<rparr>)"

text \<open>The headers are incomplete: keep them for the next call, unless they are already in \<open>httpBuffer\<close>.\<close>

definition http_incomplete :: "env \<Rightarrow> bool \<Rightarrow> nat \<Rightarrow> mem \<Rightarrow> nat \<Rightarrow> nat \<Rightarrow> nat \<Rightarrow> world \<Rightarrow> (nat \<times> world) option" where
  "http_incomplete E isServer s m lastCursor e len w =
     (if httpBuffer (socks w s) = [] then
        if len > MAX_HEADER_BUFFER_SIZE then map_option (Pair s) (http_onEnd E isServer s w)
        else Some (s, upd_sock s (\<lambda>x. x\<lparr>httpBuffer := rd m lastCursor (e - lastCursor)\<rparr>) w)
      else Some (s, w))"

definition trim_version :: "header list \<Rightarrow> header list" where
  "trim_version hs = (case hs of h # hs \<Rightarrow> h\<lparr>valueLength := valueLength h - 9\<rparr> # hs | [] \<Rightarrow> [])"

partial_function (option) http_loop ::
  "env \<Rightarrow> bool \<Rightarrow> nat \<Rightarrow> mem \<Rightarrow> nat \<Rightarrow> nat \<Rightarrow> nat \<Rightarrow> world \<Rightarrow> (nat \<times> world) option" where
  "http_loop E isServer s m lastCursor e len w =
     (case getHeaders MAX_HEADERS True m lastCursor e [] of
        None \<Rightarrow> None
      | Some (m, found) \<Rightarrow>
          let w = parsed_in_place s m w
          in case found of
               None \<Rightarrow> http_incomplete E isServer s m lastCursor e len w
             | Some (cursor, hs) \<Rightarrow>
                 if isServer then
                   let req = Some (trim_version hs);
                       w = upd_sock s (\<lambda>x. x\<lparr>missedDeadline := False\<rparr>) w
                   in if key (getHeader m req (ascii ''upgrade'')) \<noteq> None then http_upgrade_request E s m req w
                      else do {
                        (stop, cursor, w) \<leftarrow> http_request E s m req cursor e w;
                        if stop then Some (s, w)
                        else if cursor \<noteq> e then http_loop E isServer s m cursor e len w
                        else Some (s, upd_sock s (\<lambda>x. x\<lparr>httpBuffer := []\<rparr>) (cork s False w)) }
                 else http_answer E s m (Some hs) cursor e w)"

text \<open>
  \<open>onData\<close>. When headers are already buffered, parsing goes on in the memory of \<open>httpBuffer\<close>, here
  at address 0. The carriage return behind the data ends the scans.
\<close>

definition http_onData :: "env \<Rightarrow> bool \<Rightarrow> on_data" where
  "http_onData E isServer s m data len w =
     (let w = cork s True w in
      do {
        (done, data, len, w) \<leftarrow> http_body E s m data len w;
        if done then Some (s, w)
        else if httpBuffer (socks w s) \<noteq> [] then
          (if length (httpBuffer (socks w s)) + len > MAX_HEADER_BUFFER_SIZE then
             map_option (Pair s) (http_onEnd E isServer s w)
           else
             let w = upd_sock s (\<lambda>x. x\<lparr>httpBuffer := httpBuffer x @ rd m data len\<rparr>) w;
                 buf = httpBuffer (socks w s)
             in http_loop E isServer s (wr (recv_memory E (trace w)) 0 (buf @ [13])) 0 (length buf) (length buf) w)
        else http_loop E isServer s (m(data + len := 13)) data (data + len) len w })"

end
