(* ===== verification/Node.thy ===== *)
theory Node
  imports HttpServer
begin

text \<open>
  \<open>uS::Node\<close> (uWebSockets \<open>Node.h\<close>, \<open>Node.cpp\<close>) and the \<open>Context\<close> of \<open>Networking.h\<close>: accepting,
  connecting, listening, and the queue of transferred sockets. The template arguments of the code
  (what is done with an accepted socket, what a connecting socket is turned into) are arguments.
\<close>

section \<open>Context\<close>

definition acceptSocket :: "env \<Rightarrow> int \<Rightarrow> world \<Rightarrow> int \<times> world" where
  "acceptSocket E fd w = (let r = sys_accept E (trace w) fd in (r, log (E_accept fd r) w))"

definition createSocket :: "env \<Rightarrow> world \<Rightarrow> int \<times> world" where
  "createSocket E w = (let r = sys_socket E (trace w) in (r, log (E_socket r) w))"

definition context_closeSocket :: "int \<Rightarrow> world \<Rightarrow> world" where
  "context_closeSocket fd w = log (E_close fd) w"

definition wouldBlock :: "env \<Rightarrow> world \<Rightarrow> bool" where
  "wouldBlock E w \<longleftrightarrow> sys_would_block E (trace w)"

section \<open>Construction and destruction\<close>

text \<open>The receive buffer: its offset in the memory block and its length.\<close>

definition node_recv :: "int \<Rightarrow> int \<Rightarrow> int \<Rightarrow> int \<times> int" where
  "node_recv recvLength prePadding postPadding = (prePadding, recvLength - prePadding - postPadding)"

text \<open>The new \<open>NodeData\<close> is the record \<open>n\<close>, the loop is \<open>l\<close>.\<close>

definition Node_ctor :: "env \<Rightarrow> nat \<Rightarrow> nat \<Rightarrow> world \<Rightarrow> world" where
  "Node_ctor E n l w =
     (let w = upd_group n (\<lambda>x. x\<lparr>g_user := None, g_async := None, transferQueue := [], changePollQueue := [],
                g_tid := sys_self E (trace w)\<rparr>) w;
          w = upd_loop l (\<lambda>_. Loop_init (sys_epoll_create E (trace w)) (sys_now E (trace w))) w;
          w = upd_group n (\<lambda>x. x\<lparr>g_loop := l\<rparr>) w
      in upd_pool Node_preAlloc w)"

definition Node_dtor :: "nat \<Rightarrow> world \<Rightarrow> world" where
  "Node_dtor l w = log (E_close (epfd (loops w l))) (upd_pool destroy_preAlloc w)"

section \<open>Accepting\<close>

definition new_ssl :: "nat option \<Rightarrow> world \<Rightarrow> nat \<times> world" where
  "new_ssl ctx w = (let (ssl, w) = new_id w in (ssl, log (E_ssl_new ctx ssl) w))"

definition accepted :: "(nat \<Rightarrow> world \<Rightarrow> world option) \<Rightarrow> nat \<Rightarrow> int \<Rightarrow> world \<Rightarrow> world option" where
  "accepted A ls clientFd w =
     (let (ssl, w) = (case l_ssl (socks w ls) of
                        Some ctx \<Rightarrow> (case new_ssl (Some ctx) w of (ssl, w) \<Rightarrow> (Some ssl, w))
                      | None \<Rightarrow> (None, w));
          (s, w) = new_id w;
          w = Socket_ctor s (s_node (socks w ls)) (sock_loop w ls) clientFd ssl w;
          w = setPoll s UV_READABLE w
      in A s w)"

partial_function (option) accept_loop ::
  "env \<Rightarrow> (nat \<Rightarrow> world \<Rightarrow> world option) \<Rightarrow> nat \<Rightarrow> int \<Rightarrow> int \<Rightarrow> world \<Rightarrow> world option" where
  "accept_loop E A ls serverFd clientFd w =
     do {
       w \<leftarrow> accepted A ls clientFd w;
       let (fd, w) = acceptSocket E serverFd w;
       (if fd \<noteq> -1 then accept_loop E A ls serverFd fd w else Some w) }"

definition accept_cb :: "env \<Rightarrow> (nat \<Rightarrow> world \<Rightarrow> world option) \<Rightarrow> bool \<Rightarrow> nat \<Rightarrow> world \<Rightarrow> world option" where
  "accept_cb E A TIMER ls w =
     (let serverFd = s_fd (socks w ls);
          (clientFd, w) = acceptSocket E serverFd w
      in if clientFd = -1 then
           (if \<not> TIMER \<and> \<not> wouldBlock E w then
              let w = poll_stop (sock_loop w ls) ls w;
                  (t, w) = timer_new (sock_loop w ls) ls w;
                  w = upd_sock ls (\<lambda>x. x\<lparr>l_timer := Some t\<rparr>) w
              in Some (timer_start E t Accept_timer_cb 1000 1000 w)
            else Some w)
         else
           let w = (if TIMER then
                      let t = the (l_timer (socks w ls));
                          w = timer_close t (timer_stop t w);
                          w = upd_sock ls (\<lambda>x. x\<lparr>l_timer := None\<rparr>) w;
                          w = set_cb ls Accept_poll_cb w
                      in poll_start (sock_loop w ls) ls UV_READABLE w
                    else w)
           in accept_loop E A ls serverFd clientFd w)"

definition accept_poll_cb :: "env \<Rightarrow> (nat \<Rightarrow> world \<Rightarrow> world option) \<Rightarrow> nat \<Rightarrow> world \<Rightarrow> world option" where
  "accept_poll_cb E A p w = accept_cb E A False p w"

definition accept_timer_cb :: "env \<Rightarrow> (nat \<Rightarrow> world \<Rightarrow> world option) \<Rightarrow> nat \<Rightarrow> world \<Rightarrow> world option" where
  "accept_timer_cb E A t w = accept_cb E A True (timer_data w t) w"

definition connect_cb :: "(nat \<Rightarrow> bool \<Rightarrow> world \<Rightarrow> world option) \<Rightarrow> nat \<Rightarrow> int \<Rightarrow> world \<Rightarrow> world option" where
  "connect_cb C p status w = C p (status < 0) w"

section \<open>Connecting and listening\<close>

text \<open>\<open>I\<close> turns the initial socket into the object that is used; the result is \<open>nullptr\<close> or the socket.\<close>

definition node_connect ::
  "env \<Rightarrow> (nat \<Rightarrow> world \<Rightarrow> nat \<times> world) \<Rightarrow> nat \<Rightarrow> nat \<Rightarrow> byte list \<Rightarrow> int \<Rightarrow> bool \<Rightarrow> world \<Rightarrow> nat option \<times> world" where
  "node_connect E I l g host pt tls w =
     (let res = sys_getaddrinfo E (trace w) (Some host) pt; w = log (E_resolve (Some host) pt) w in
      case res of None \<Rightarrow> (None, w)
      | Some addrs \<Rightarrow>
          let (fd, w) = createSocket E w in
          if fd = -1 then (None, w)
          else
            let w = log (E_connect fd (ai_addr (hd addrs))) w;
                (ssl, w) = (if tls then case new_ssl None w of (ssl, w) \<Rightarrow> (Some ssl, w) else (None, w));
                (initialSocket, w) = new_id w;
                w = Socket_ctor initialSocket g l fd ssl w;
                (s, w) = I initialSocket w;
                w = set_cb s Connect_cb w;
                w = setPoll s UV_WRITABLE w
            in (Some s, poll_start l s UV_WRITABLE w))"

definition REUSE_PORT :: "32 word" where "REUSE_PORT = 1"
definition ONLY_IPV4 :: "32 word" where "ONLY_IPV4 = 2"

text \<open>One of the loops over the addresses: the first socket that can be created for the family.\<close>

fun listen_socket :: "env \<Rightarrow> bool \<Rightarrow> addrinfo list \<Rightarrow> int \<times> nat \<Rightarrow> world \<Rightarrow> (int \<times> nat) \<times> world" where
  "listen_socket E inet6 [] found w = (found, w)"
| "listen_socket E inet6 (a # as) found w =
     (if fst found \<noteq> -1 then (found, w)
      else if ai_inet6 a = inet6 then
        let (fd, w) = createSocket E w in listen_socket E inet6 as (fd, ai_addr a) w
      else listen_socket E inet6 as found w)"

text \<open>The result is \<open>True\<close> on errors.\<close>

definition node_listen ::
  "env \<Rightarrow> nat \<Rightarrow> nat \<Rightarrow> byte list option \<Rightarrow> int \<Rightarrow> nat option \<Rightarrow> 32 word \<Rightarrow> world \<Rightarrow> bool \<times> world" where
  "node_listen E l g host pt sslContext options w =
     (let res = sys_getaddrinfo E (trace w) host pt; w = log (E_resolve host pt) w in
      case res of None \<Rightarrow> (True, w)
      | Some addrs \<Rightarrow>
          let (found, w) = (if options AND ONLY_IPV4 = 0 then listen_socket E True addrs (-1, 0) w else ((-1, 0), w));
              ((listenFd, listenAddr), w) = listen_socket E False addrs found w
          in if listenFd = -1 then (True, w)
             else
               let w = (if options AND REUSE_PORT \<noteq> 0 then log (E_setsockopt listenFd ''SO_REUSEPORT'') w else w);
                   w = log (E_setsockopt listenFd ''SO_REUSEADDR'') w;
                   ok = sys_bind_listen E (trace w) listenFd listenAddr;
                   w = log (E_bind_listen listenFd listenAddr) w
               in if \<not> ok then (True, context_closeSocket listenFd w)
                  else
                    let (ls, w) = new_id w;
                        w = Socket_ctor ls g l listenFd None w;
                        w = upd_sock ls (\<lambda>x. x\<lparr>l_timer := None, l_ssl := sslContext\<rparr>) w;
                        w = set_cb ls Accept_poll_cb w;
                        w = poll_start l ls UV_READABLE w
                    in (False, upd_group g (\<lambda>x. x\<lparr>g_user := Some ls\<rparr>) w))"

section \<open>Transferred sockets\<close>

text \<open>The body of the first loop of \<open>asyncCallback\<close>; \<open>T\<close> is the transfer callback.\<close>

definition receive_transfer :: "(nat \<Rightarrow> world \<Rightarrow> world option) \<Rightarrow> nat \<Rightarrow> nat \<Rightarrow> world \<Rightarrow> world option" where
  "receive_transfer T g s w =
     (let td = transfers w (the (getUserData w s)); l = g_loop (groups w g);
          w = reInit s l (td_fd td) w;
          w = set_cb s (pollCb td) w;
          w = setPoll s (pollEvents td) w;
          w = poll_start l s (pollEvents td) w;
          w = upd_sock s (\<lambda>x. x\<lparr>s_node := destination td\<rparr>) w;
          w = setUserData s (td_userData td) w
      in T s w)"

fun receive_transfers :: "(nat \<Rightarrow> world \<Rightarrow> world option) \<Rightarrow> nat \<Rightarrow> nat list \<Rightarrow> world \<Rightarrow> world option" where
  "receive_transfers T g [] w = Some w"
| "receive_transfers T g (s # ss) w = do { w \<leftarrow> receive_transfer T g s w; receive_transfers T g ss w }"

definition asyncCallback :: "(nat \<Rightarrow> world \<Rightarrow> world option) \<Rightarrow> nat \<Rightarrow> world \<Rightarrow> world option" where
  "asyncCallback T a w =
     (let g = the (getUserData w a) in
      do {
        w \<leftarrow> receive_transfers T g (transferQueue (groups w g)) w;
        let w = fold (\<lambda>s w. poll_change (sock_loop w s) s (getPoll w s) w) (changePollQueue (groups w g)) w;
        Some (upd_group g (\<lambda>x. x\<lparr>changePollQueue := [], transferQueue := []\<rparr>) w) })"

text \<open>The lambda of \<open>Async::start\<close>.\<close>

definition async_fired :: "env \<Rightarrow> (nat \<Rightarrow> world \<Rightarrow> world option) \<Rightarrow> nat \<Rightarrow> world \<Rightarrow> world option" where
  "async_fired E T a w =
     (let fd = s_fd (socks w a); ok = sys_eventfd_read E (trace w) fd; w = log (E_eventfd_read fd) w
      in if ok then asyncCallback T a w else Some w)"

end
