(* ===== verification/Hub.thy ===== *)
theory Hub
  imports Node
begin

text \<open>
  \<open>uWS::Hub\<close> (uWebSockets \<open>Hub.h\<close>, \<open>Hub.cpp\<close>) and the event loop that drives it (\<open>Epoll.cpp\<close>):
  what happens to accepted and connected sockets, listening, connecting and upgrading, and the
  dispatch of events, expired timers and closed polls to the handlers of the other theories.
\<close>

section \<open>Accepted and connected sockets\<close>

definition onServerAccept :: "env \<Rightarrow> nat \<Rightarrow> world \<Rightarrow> world option" where
  "onServerAccept E s w =
     (let (h, w) = HttpSocket_ctor s w;
          w = delete_socket s w;
          w = setState False True h w;
          w = setPoll h UV_READABLE w;
          w = poll_start (sock_loop w h) h UV_READABLE w;
          w = setNoDelay h True w;
          g = s_node (socks w h)
      in httpConnectionHandler E g h (addHttpSocket E True g h w))"

definition onClientConnection :: "env \<Rightarrow> nat \<Rightarrow> bool \<Rightarrow> world \<Rightarrow> world option" where
  "onClientConnection E s error w =
     (if error then http_onEnd E False s w
      else
        let w = setState False False s w;
            w = change_to s UV_READABLE w;
            w = setNoDelay s True w
        in Some (snd (upgrade E False s [] [] [] w)))"

definition allocateHttpSocket :: "nat \<Rightarrow> world \<Rightarrow> nat \<times> world" where
  "allocateHttpSocket s w = HttpSocket_ctor s w"

section \<open>The interface of the application\<close>

text \<open>\<open>def\<close> is the hub's own group, used when no group is given; \<open>l\<close> is its loop.\<close>

definition hub_listen ::
  "env \<Rightarrow> nat \<Rightarrow> nat \<Rightarrow> byte list option \<Rightarrow> int \<Rightarrow> nat option \<Rightarrow> 32 word \<Rightarrow> nat option \<Rightarrow> world \<Rightarrow> (bool \<times> world) option" where
  "hub_listen E l def host pt sslContext options eh w =
     (let g = (case eh of Some g \<Rightarrow> g | None \<Rightarrow> def) in
      case node_listen E l g host pt sslContext options w of (failed, w) \<Rightarrow>
        if failed then map_option (Pair False) (listenErrorHandler E g pt w) else Some (True, w))"

definition hub_listen_port ::
  "env \<Rightarrow> nat \<Rightarrow> nat \<Rightarrow> int \<Rightarrow> nat option \<Rightarrow> 32 word \<Rightarrow> nat option \<Rightarrow> world \<Rightarrow> (bool \<times> world) option" where
  "hub_listen_port E l def pt sslContext options eh w = hub_listen E l def None pt sslContext options eh w"

text \<open>What the local variables hold before \<open>parseURI\<close>; it assigns all it is read for.\<close>

definition no_uri :: uri_parts where
  "no_uri = \<lparr>secure = False, hostname = [], port = 0, path = []\<rparr>"

definition hub_connect ::
  "env \<Rightarrow> nat \<Rightarrow> nat \<Rightarrow> byte list \<Rightarrow> nat option \<Rightarrow> (byte list \<times> byte list) list \<Rightarrow> int \<Rightarrow> nat option \<Rightarrow> world \<Rightarrow> world option" where
  "hub_connect E l def uri user extraHeaders timeoutMs eh w =
     (let g = (case eh of Some g \<Rightarrow> g | None \<Rightarrow> def) in
      case parseURI uri no_uri of
        None \<Rightarrow> errorHandler E g user w
      | Some u \<Rightarrow>
          (case node_connect E allocateHttpSocket l g (takeWhile (\<lambda>b. b \<noteq> 0) (hostname u)) (port u) (secure u) w of
             (None, w) \<Rightarrow> errorHandler E g user w
           | (Some s, w) \<Rightarrow>
               let w = startTimeout E Http_timeout timeoutMs s w
               in Some (upd_sock s (\<lambda>x. x\<lparr>httpUser := user,
                      httpBuffer := connect_request (path u) (hostname u) (port u) extraHeaders\<rparr>) w)))"

definition hub_upgrade ::
  "env \<Rightarrow> nat \<Rightarrow> int \<Rightarrow> byte list \<Rightarrow> nat option \<Rightarrow> byte list \<Rightarrow> byte list \<Rightarrow> nat option \<Rightarrow> world \<Rightarrow> world option" where
  "hub_upgrade E def fd secKey ssl extensions subprotocol serverGroup w =
     (let g = (case serverGroup of Some g \<Rightarrow> g | None \<Rightarrow> def);
          (s, w) = new_id w;
          w = Socket_ctor s g (g_loop (groups w g)) fd ssl w;
          w = setNoDelay s True w;
          (h, w) = HttpSocket_ctor s w;
          w = setState False True h w;
          w = change_to h UV_READABLE w;
          (pmd, w) = upgrade E True h secKey extensions subprotocol w;
          (ws, w) = WebSocket_ctor E pmd h w;
          w = delete_socket h w;
          w = setState True True ws w;
          w = change_to ws UV_READABLE w;
          w = addWebSocket g ws w
      in connectionHandler E g ws (recv_memory E (trace w), None) w)"

definition hub_maxPayload_default :: "32 word" where "hub_maxPayload_default = 16777216"

definition createGroup :: "nat \<Rightarrow> 32 word \<Rightarrow> 32 word \<Rightarrow> world \<Rightarrow> nat \<times> world" where
  "createGroup n options limit w = (let (g, w) = new_id w in (g, Group_ctor g options limit n w))"

text \<open>\<open>sg\<close> and \<open>cg\<close> are the two base classes \<open>Group<SERVER>\<close> and \<open>Group<CLIENT>\<close> of the hub.\<close>

definition Hub_recv :: "int \<times> int" where
  "Hub_recv = node_recv (int LARGE_BUFFER_SIZE) (int (CONSUME_PRE_PADDING True)) (int CONSUME_POST_PADDING)"

definition Hub_ctor :: "env \<Rightarrow> nat \<Rightarrow> nat \<Rightarrow> nat \<Rightarrow> nat \<Rightarrow> 32 word \<Rightarrow> 32 word \<Rightarrow> world \<Rightarrow> world" where
  "Hub_ctor E n l sg cg options limit w =
     (let w = Node_ctor E n l w;
          w = Group_ctor sg options limit n w;
          w = Group_ctor cg 0 limit n w;
          w = set_stream (inflationStream w) (zreset E) w
      in allocateDefaultCompressor E (deflationStream w) w)"

section \<open>Dispatch\<close>

text \<open>The callback of a poll.\<close>

definition poll_dispatch :: "env \<Rightarrow> nat \<Rightarrow> int \<Rightarrow> poll_events \<Rightarrow> world \<Rightarrow> world option" where
  "poll_dispatch E s status events w =
     (case s_cb (socks w s) of
        Cb_unset \<Rightarrow> None
      | Io_ws isServer \<Rightarrow> ioHandler E (ws_onData E isServer) (ws_onEnd E) s status events w
      | SslIo_ws isServer \<Rightarrow> sslIoHandler E (ws_onData E isServer) (ws_onEnd E) s status events w
      | Io_http isServer \<Rightarrow> ioHandler E (http_onData E isServer) (http_onEnd E isServer) s status events w
      | SslIo_http isServer \<Rightarrow> sslIoHandler E (http_onData E isServer) (http_onEnd E isServer) s status events w
      | Connect_cb \<Rightarrow> connect_cb (onClientConnection E) s status w
      | Accept_poll_cb \<Rightarrow> accept_poll_cb E (onServerAccept E) s w
      | Async_cb \<Rightarrow> async_fired E (ws_transferred E) s w)"

definition timer_dispatch :: "env \<Rightarrow> timer_cb \<Rightarrow> nat \<Rightarrow> world \<Rightarrow> world option" where
  "timer_dispatch E cb t w =
     (case cb of
        Ws_timeout isServer \<Rightarrow> timeout_cb (ws_onEnd E) t w
      | Http_timeout \<Rightarrow> timeout_cb (http_onEnd E False) t w
      | Auto_ping isServer \<Rightarrow> timerCallback E isServer t w
      | Http_deadline isServer \<Rightarrow> http_deadline E isServer t w
      | Accept_timer_cb \<Rightarrow> accept_timer_cb E (onServerAccept E) t w)"

definition close_dispatch :: "close_cb \<Rightarrow> nat \<Rightarrow> world \<Rightarrow> world" where
  "close_dispatch cb s w =
     (case cb of
        Delete_socket \<Rightarrow> delete_socket s w
      | Transfer_socket \<Rightarrow> transfer_closed s w
      | Delete_async \<Rightarrow> delete_socket s w)"

section \<open>The event loop\<close>

text \<open>The first loop of \<open>doEpoll\<close>; \<open>True\<close>: the last poll is gone, \<open>doEpoll\<close> returns.\<close>

fun close_polls :: "nat \<Rightarrow> (nat \<times> close_cb) list \<Rightarrow> world \<Rightarrow> bool \<times> world" where
  "close_polls l [] w = (False, w)"
| "close_polls l ((s, cb) # cs) w =
     (let w = upd_loop l (\<lambda>x. x\<lparr>numPolls := numPolls x - 1\<rparr>) w;
          w = close_dispatch cb s w
      in if numPolls (loops w l) = 0 then (True, w) else close_polls l cs w)"

definition EPOLLERR :: poll_events where "EPOLLERR = 8"

fun ready_polls :: "env \<Rightarrow> (nat \<times> poll_events) list \<Rightarrow> world \<Rightarrow> world option" where
  "ready_polls E [] w = Some w"
| "ready_polls E ((s, events) # rs) w =
     do {
       w \<leftarrow> poll_dispatch E s (if events AND EPOLLERR \<noteq> 0 then -1 else 0) events w;
       ready_polls E rs w }"

partial_function (option) expired_timers :: "env \<Rightarrow> nat \<Rightarrow> world \<Rightarrow> world option" where
  "expired_timers E l w =
     (if timer_due (loops w l) then
        let t = hd (timers (loops w l));
            get = (\<lambda>w. loops w l); put = (\<lambda>x. upd_loop l (\<lambda>_. x))
        in do {
          w \<leftarrow> timer_dispatch E (tp_cb t) (tp_timer t) (timer_begin get put w);
          expired_timers E l (timer_finish get put (\<lambda>w. sys_now E (trace w)) (tp_timer t) w) }
      else Some w)"

definition doEpoll :: "env \<Rightarrow> nat \<Rightarrow> int \<Rightarrow> world \<Rightarrow> world option" where
  "doEpoll E l epollTimeout w =
     (case close_polls l (closing (loops w l)) w of (gone, w) \<Rightarrow>
       let w = upd_loop l (\<lambda>x. x\<lparr>closing := []\<rparr>) w in
       if gone then Some w
       else
         let ready = sys_epoll_wait E (trace w) epollTimeout;
             w = log (E_epoll_wait (epfd (loops w l)) epollTimeout) w;
             w = upd_loop l (\<lambda>x. x\<lparr>now_tp := sys_now E (trace w)\<rparr>) w
         in do { w \<leftarrow> ready_polls E ready w; expired_timers E l w })"

partial_function (option) run_loop :: "env \<Rightarrow> nat \<Rightarrow> world \<Rightarrow> world option" where
  "run_loop E l w =
     (if numPolls (loops w l) \<noteq> 0 then do { w \<leftarrow> doEpoll E l (delay (loops w l)) w; run_loop E l w } else Some w)"

definition update_time :: "env \<Rightarrow> nat \<Rightarrow> world \<Rightarrow> world" where
  "update_time E l w = upd_loop l (\<lambda>x. x\<lparr>now_tp := sys_now E (trace w)\<rparr>) w"

definition loop_run :: "env \<Rightarrow> nat \<Rightarrow> world \<Rightarrow> world option" where
  "loop_run E l w = run_loop E l (update_time E l w)"

definition loop_poll :: "env \<Rightarrow> nat \<Rightarrow> world \<Rightarrow> world option" where
  "loop_poll E l w =
     (if numPolls (loops w l) \<noteq> 0 then doEpoll E l 0 w else Some (update_time E l w))"

text \<open>\<open>Node::run\<close> and \<open>Node::poll\<close>; the thread id is set in the node's own \<open>NodeData\<close> \<open>n\<close> only.\<close>

definition node_run :: "env \<Rightarrow> nat \<Rightarrow> nat \<Rightarrow> world \<Rightarrow> world option" where
  "node_run E n l w = loop_run E l (upd_group n (\<lambda>x. x\<lparr>g_tid := sys_self E (trace w)\<rparr>) w)"

definition node_poll :: "env \<Rightarrow> nat \<Rightarrow> world \<Rightarrow> world option" where
  "node_poll E l w = loop_poll E l w"

end
