(* ===== verification/WsClient.thy ===== *)
theory WsClient
  imports Hub
begin

text \<open>
  \<open>WSClient\<close> (\<open>wsclient.hpp\<close>), the application of the library: a client hub that runs in its own
  thread and records its connection. Group 1 is the hub's client group, group 0 its server group,
  record 2 its node, loop 0 its loop. The lines written to \<open>std::cout\<close> are left out.
\<close>

definition WSClient_init :: wsclient where
  "WSClient_init = \<lparr>wc_is_connected = False, wc_ws = None\<rparr>"

definition isConnected :: "world \<Rightarrow> bool" where
  "isConnected w \<longleftrightarrow> wc_is_connected (client w)"

definition on_recv :: "byte list \<Rightarrow> world \<Rightarrow> world" where
  "on_recv pData w = w"

text \<open>\<open>pData\<close> is a C string pointer: the bytes from there on; \<open>len\<close> is not used.\<close>

definition wsclient_send :: "env \<Rightarrow> byte list \<Rightarrow> 32 word \<Rightarrow> world \<Rightarrow> (int \<times> world) option" where
  "wsclient_send E pData len w =
     (case wc_ws (client w) of
        Some ws \<Rightarrow>
          if wc_is_connected (client w) then map_option (Pair 0) (ws_send_string E False ws pData BINARY w)
          else Some (0, w)
      | None \<Rightarrow> Some (0, w))"

definition on_connection :: "nat \<Rightarrow> mem \<times> request \<Rightarrow> world \<Rightarrow> world option" where
  "on_connection ws req w = Some (w\<lparr>client := (client w)\<lparr>wc_ws := Some ws, wc_is_connected := True\<rparr>\<rparr>)"

definition on_message :: "nat \<Rightarrow> byte list \<Rightarrow> byte \<Rightarrow> world \<Rightarrow> world option" where
  "on_message ws message opc w = Some (on_recv message w)"

text \<open>The environment of the thread: the handlers it sets on its hub.\<close>

definition wsclient_env :: "env \<Rightarrow> env" where
  "wsclient_env E = onMessage 1 on_message (onConnection 1 on_connection (Group_handlers 0 (Group_handlers 1 E)))"

definition wsclient_run :: "env \<Rightarrow> byte list \<Rightarrow> world \<Rightarrow> world option" where
  "wsclient_run E strURI w =
     (let E = wsclient_env E; w = Hub_ctor E 2 0 0 1 0 hub_maxPayload_default w
      in do {
        w \<leftarrow> hub_connect E 0 1 (takeWhile (\<lambda>b. b \<noteq> 0) strURI) None [] 5000 None w;
        node_run E 2 0 w })"

text \<open>\<open>connect\<close> starts the thread; here it is the run of the thread.\<close>

definition wsclient_connect :: "env \<Rightarrow> byte list \<Rightarrow> world \<Rightarrow> int \<times> world option" where
  "wsclient_connect E pURI w = (0, wsclient_run E (takeWhile (\<lambda>b. b \<noteq> 0) pURI) w)"

end
