(* ===== verification/Tls.thy ===== *)
theory Tls
  imports Base
begin

text \<open>
  \<open>uS::TLS::Context\<close> (uWebSockets \<open>Networking.h\<close>, \<open>Networking.cpp\<close>): a handle on a reference-counted
  \<open>SSL_CTX\<close> of OpenSSL. The contexts are numbered; \<open>ctx_refs\<close> are their reference counts, a context
  is released when its count reaches 0.
\<close>

section \<open>The code\<close>

record tls =
  ctx_refs :: "nat \<Rightarrow> nat"
  next_ctx :: nat

type_synonym tls_context = "nat option"

definition SSL_CTX_up_ref :: "nat \<Rightarrow> tls \<Rightarrow> tls" where
  "SSL_CTX_up_ref c t = t\<lparr>ctx_refs := (ctx_refs t)(c := ctx_refs t c + 1)\<rparr>"

definition SSL_CTX_free :: "nat \<Rightarrow> tls \<Rightarrow> tls" where
  "SSL_CTX_free c t = t\<lparr>ctx_refs := (ctx_refs t)(c := ctx_refs t c - 1)\<rparr>"

definition SSL_CTX_new :: "tls \<Rightarrow> nat \<times> tls" where
  "SSL_CTX_new t = (next_ctx t, t\<lparr>ctx_refs := (ctx_refs t)(next_ctx t := 1), next_ctx := next_ctx t + 1\<rparr>)"

definition context_copy :: "tls_context \<Rightarrow> tls \<Rightarrow> tls_context \<times> tls" where
  "context_copy other t = (case other of Some c \<Rightarrow> (Some c, SSL_CTX_up_ref c t) | None \<Rightarrow> (None, t))"

text \<open>The old value of the assigned object, the right-hand side.\<close>

definition context_assign :: "tls_context \<Rightarrow> tls_context \<Rightarrow> tls \<Rightarrow> tls_context \<times> tls" where
  "context_assign this other t = (case other of Some c \<Rightarrow> (Some c, SSL_CTX_up_ref c t) | None \<Rightarrow> (this, t))"

definition context_destroy :: "tls_context \<Rightarrow> tls \<Rightarrow> tls" where
  "context_destroy this t = (case this of Some c \<Rightarrow> SSL_CTX_free c t | None \<Rightarrow> t)"

definition context_bool :: "tls_context \<Rightarrow> bool" where
  "context_bool this \<longleftrightarrow> this \<noteq> None"

text \<open>
  \<open>createContext\<close>: the answers of OpenSSL are the arguments (whether a context is made, whether
  the certificate chain and the key are accepted). The local object is returned as it is, or
  destroyed.
\<close>

definition createContext :: "bool \<Rightarrow> bool \<Rightarrow> bool \<Rightarrow> tls \<Rightarrow> tls_context \<times> tls" where
  "createContext made chain_ok key_ok t =
     (if \<not> made then (None, t)
      else let (c, t) = SSL_CTX_new t in
        if \<not> chain_ok then (None, context_destroy (Some c) t)
        else if \<not> key_ok then (None, context_destroy (Some c) t)
        else (Some c, t))"

text \<open>The buffer after the callback, which starts at address \<open>buf\<close>, and the result.\<close>

definition passwordCallback :: "mem \<Rightarrow> nat \<Rightarrow> nat \<Rightarrow> byte list \<Rightarrow> mem \<times> nat" where
  "passwordCallback m buf sz password =
     (let len = min sz (length password);
          m = wr m buf (take len password);
          m = m(buf + len := 0)
      in (m, len))"

section \<open>Reference counts\<close>

datatype context_op = Copy nat nat | Assign nat nat | Destroy nat

text \<open>A program with handles: \<open>Copy i j\<close> makes handle \<open>i\<close> a copy of \<open>j\<close>, \<open>Assign i j\<close> is \<open>i = j\<close>.\<close>

fun context_step :: "context_op \<Rightarrow> (nat \<Rightarrow> tls_context) \<times> tls \<Rightarrow> (nat \<Rightarrow> tls_context) \<times> tls" where
  "context_step (Copy i j) (h, t) = (let (c, t) = context_copy (h j) t in (h(i := c), t))"
| "context_step (Assign i j) (h, t) = (let (c, t) = context_assign (h i) (h j) t in (h(i := c), t))"
| "context_step (Destroy i) (h, t) = (h(i := None), context_destroy (h i) t)"

text \<open>The handles in \<open>H\<close> hold as many references to every context as its count says.\<close>

definition holders :: "nat set \<Rightarrow> (nat \<Rightarrow> tls_context) \<Rightarrow> nat \<Rightarrow> nat set" where
  "holders H h c = {i\<in>H. h i = Some c}"

definition counted :: "nat set \<Rightarrow> (nat \<Rightarrow> tls_context) \<times> tls \<Rightarrow> bool" where
  "counted H s \<longleftrightarrow> finite H \<and> (\<forall>i. i \<notin> H \<longrightarrow> fst s i = None) \<and> (\<forall>c. ctx_refs (snd s) c = card (holders H (fst s) c))"

text \<open>Copies go to dead handles, assignments to empty ones.\<close>

fun op_ok :: "nat set \<Rightarrow> (nat \<Rightarrow> tls_context) \<Rightarrow> context_op \<Rightarrow> bool" where
  "op_ok H h (Copy i j) \<longleftrightarrow> i \<in> H \<and> h i = None"
| "op_ok H h (Assign i j) \<longleftrightarrow> i \<in> H \<and> h i = None"
| "op_ok H h (Destroy i) \<longleftrightarrow> True"

lemma holders_set:
  "i \<in> H \<Longrightarrow> h i = None \<Longrightarrow> holders H (h(i := Some c)) d = (if c = d then insert i (holders H h d) else holders H h d)"
  by (auto simp: holders_def)

lemma holders_clear: "holders H (h(i := None)) d = holders H h d - {i}"
  by (auto simp: holders_def)

lemma finite_holders: "finite H \<Longrightarrow> finite (holders H h d)"
  by (simp add: holders_def)

lemma counted_acquire:
  assumes "counted H (h, t)" "i \<in> H" "h i = None"
  shows "counted H (h(i := Some c), SSL_CTX_up_ref c t)"
proof -
  have "i \<notin> holders H h d" for d using assms(3) by (simp add: holders_def)
  with assms show ?thesis
    by (auto simp: counted_def SSL_CTX_up_ref_def holders_set finite_holders)
qed

lemma counted_release:
  assumes "counted H (h, t)" "h i = Some c"
  shows "counted H (h(i := None), SSL_CTX_free c t)"
proof -
  have "i \<in> H" using assms by (auto simp: counted_def)
  then have "i \<in> holders H h d \<longleftrightarrow> c = d" for d using assms(2) by (auto simp: holders_def)
  with assms show ?thesis
    by (auto simp: counted_def SSL_CTX_free_def holders_clear finite_holders card_Diff_singleton_if)
qed

lemma counted_step:
  assumes "counted H (h, t)" "op_ok H h op"
  shows "counted H (context_step op (h, t))"
proof -
  have none: "h i = None \<Longrightarrow> h(i := None) = h" for i by auto
  show ?thesis
    using assms none
    by (cases op) (auto simp: Let_def context_copy_def context_assign_def context_destroy_def
        split: option.splits intro!: counted_acquire counted_release)
qed

fun context_run :: "context_op list \<Rightarrow> (nat \<Rightarrow> tls_context) \<times> tls \<Rightarrow> (nat \<Rightarrow> tls_context) \<times> tls" where
  "context_run [] s = s"
| "context_run (op # ops) s = context_run ops (context_step op s)"

fun ops_ok :: "nat set \<Rightarrow> context_op list \<Rightarrow> (nat \<Rightarrow> tls_context) \<times> tls \<Rightarrow> bool" where
  "ops_ok H [] s \<longleftrightarrow> True"
| "ops_ok H (op # ops) s \<longleftrightarrow> op_ok H (fst s) op \<and> ops_ok H ops (context_step op s)"

lemma counted_run: "counted H s \<Longrightarrow> ops_ok H ops s \<Longrightarrow> counted H (context_run ops s)"
proof (induction ops arbitrary: s)
  case (Cons op ops)
  then show ?case using counted_step [of H "fst s" "snd s" op] by simp
qed simp

section \<open>Properties\<close>

text \<open>
  Copies, assignments to empty handles and destructions of \<open>TLS::Context\<close> keep the reference
  counts exact: at any moment the count of a context is the number of live handles on it, so a
  context is released exactly when its last handle is gone. An assignment to a handle that holds
  a context is not balanced: the count of the old context keeps the lost reference for ever.
\<close>

theorem tls_references:
  assumes "counted H s" "ops_ok H ops s" "fst s i = Some c" "fst s j = Some d" "c \<noteq> d"
  shows "counted H (context_run ops s) \<and>
    ctx_refs (snd (context_step (Assign i j) s)) c = card (holders H (fst (context_step (Assign i j) s)) c) + 1"
proof -
  obtain h t where s: "s = (h, t)" by (cases s)
  then have hi: "h i = Some c" "h j = Some d" "i \<in> H" using assms by (auto simp: counted_def)
  have "holders H (h(i := Some d)) c = holders H h c - {i}" "i \<in> holders H h c" "finite (holders H h c)"
    using assms(1,5) hi s by (auto simp: holders_def counted_def)
  then have "card (holders H h c) = card (holders H (h(i := Some d)) c) + 1"
    using card_Suc_Diff1 [of "holders H h c" i] by simp
  then show ?thesis
    using counted_run [OF assms(1,2)] assms(1,5) hi s
    by (simp add: context_assign_def Let_def SSL_CTX_up_ref_def counted_def)
qed

theorem tls_references_witness:
  "counted {0, 1, 2} (context_run [Copy 2 0, Destroy 0, Assign 0 2] (Map.empty(0 \<mapsto> 5, 1 \<mapsto> 6), \<lparr>ctx_refs = (\<lambda>_. 0)(5 := 1, 6 := 1), next_ctx = 7\<rparr>)) \<and>
   ctx_refs (snd (context_step (Assign 0 1) (Map.empty(0 \<mapsto> 5, 1 \<mapsto> 6), \<lparr>ctx_refs = (\<lambda>_. 0)(5 := 1, 6 := 1), next_ctx = 7\<rparr>))) 5 =
     card (holders {0, 1, 2} (fst (context_step (Assign 0 1) (Map.empty(0 \<mapsto> 5, 1 \<mapsto> 6), \<lparr>ctx_refs = (\<lambda>_. 0)(5 := 1, 6 := 1), next_ctx = 7\<rparr>))) 5) + 1"
proof (rule tls_references [where c = 5 and d = 6])
  have "holders {0, 1, 2} (Map.empty(0 \<mapsto> 5, 1 \<mapsto> 6)) c = (if c = 5 then {0} else if c = 6 then {1} else {})" for c
    by (auto simp: holders_def)
  then show "counted {0, 1, 2} (Map.empty(0 \<mapsto> 5, 1 \<mapsto> 6), \<lparr>ctx_refs = (\<lambda>_. 0)(5 := 1, 6 := 1), next_ctx = 7\<rparr>)"
    by (auto simp: counted_def)
qed (simp_all add: context_copy_def context_destroy_def Let_def)

text \<open>
  The password callback stays within the buffer OpenSSL gives it only for passwords shorter
  than the buffer: the terminating NUL is written behind the copied bytes, so a password of at
  least the size of the buffer makes it write one byte past the end.
\<close>

theorem password_callback_writes:
  "agree_off m (fst (passwordCallback m buf sz password)) buf (buf + sz) \<longleftrightarrow>
     length password < sz \<or> m (buf + sz) = 0"
  by (cases "length password < sz") (auto simp: agree_off_def passwordCallback_def Let_def wr_def min_def)

end
