(* ===== verification/ProtocolStream.thy ===== *)
theory ProtocolStream
  imports ProtocolInv
begin

text \<open>
  The two ends of a connection together: what \<open>formatMessage\<close> of one peer writes, cut into
  arbitrary reads, is what \<open>consume\<close> of the other peer hands to its socket. The parser's state
  between two reads is related to the rest of the byte stream (\<open>in_stream\<close>), and each of its
  steps (a header spilled, a whole frame, a frame begun, a frame continued) keeps that relation.
\<close>

section \<open>The sender's stream and the receiving application\<close>

type_synonym sent_frame = "byte \<times> 32 word \<times> byte list"

definition frame_of :: "bool \<Rightarrow> sent_frame \<Rightarrow> byte list" where
  "frame_of isServer = (\<lambda>(opc, r, p). formatMessage (\<not> isServer) r p opc (length p) False)"

definition legal :: "32 word \<Rightarrow> sent_frame \<Rightarrow> bool" where
  "legal limit = (\<lambda>(opc, r, p). opc \<in> {TEXT, BINARY, CLOSE, PING, PONG} \<and> length p \<le> unat limit \<and>
     (if opc \<in> {TEXT, BINARY} then True else length p \<le> 125))"

definition receivable :: "32 word \<Rightarrow> (byte \<Rightarrow> byte list \<Rightarrow> bool) \<Rightarrow> sent_frame \<Rightarrow> bool" where
  "receivable limit ok msg \<longleftrightarrow> legal limit msg \<and> (case msg of (opc, r, p) \<Rightarrow> ok opc p)"

definition content :: "sent_frame \<Rightarrow> byte \<times> byte list" where
  "content = (\<lambda>(opc, r, p). (opc, p))"

text \<open>
  What the receiving socket makes of the fragments: the bytes of the message in progress, whether
  it is a control frame, the messages that are complete, and whether the parser closed the socket
  by force.
\<close>

record app =
  ap_buffer :: "byte list"
  ap_control :: bool
  ap_messages :: "(byte \<times> byte list) list"
  ap_closed :: bool

definition app_step :: "byte \<Rightarrow> byte list \<Rightarrow> nat \<Rightarrow> app \<Rightarrow> app" where
  "app_step opc d remaining a =
     (if remaining = 0 then
        a\<lparr>ap_buffer := [], ap_control := False, ap_messages := ap_messages a @ [(opc, ap_buffer a @ d)]\<rparr>
      else a\<lparr>ap_buffer := ap_buffer a @ d, ap_control := (ap_buffer a @ d \<noteq> [] \<and> 2 < opc)\<rparr>)"

text \<open>The bytes of the message in progress, if any, belong to a frame of the same kind.\<close>

definition same_kind :: "byte \<Rightarrow> app \<Rightarrow> bool" where
  "same_kind opc a \<longleftrightarrow> ap_buffer a = [] \<or> ap_control a = (2 < opc)"

lemma same_kind_simps [simp]:
  "ap_buffer a = [] \<Longrightarrow> same_kind opc a" "r \<noteq> 0 \<Longrightarrow> same_kind opc (app_step opc d r a)"
  by (auto simp: same_kind_def app_step_def)

text \<open>
  The interface between the parser and its socket. \<open>view\<close> reads the abstract state out of the
  socket, \<open>ready\<close> is what the socket keeps true, and \<open>ok\<close> are the messages the socket takes
  without closing. The law: a fragment of such a message is taken (the parser is not stopped), and
  the socket does with it what \<open>app_step\<close> says.
\<close>

locale receiver =
  fixes I :: "'u impl" and limit :: "32 word" and ok :: "byte \<Rightarrow> byte list \<Rightarrow> bool"
    and ready :: "'u \<Rightarrow> bool" and view :: "'u \<Rightarrow> app"
  assumes ready_limit: "ready u \<Longrightarrow> maxPayload I u = limit"
    and ready_open: "ready u \<Longrightarrow> \<not> ap_closed (view u)"
    and takes_fragment: "ready u \<Longrightarrow> same_kind opc (view u) \<Longrightarrow> ok opc (ap_buffer (view u) @ d @ later) \<Longrightarrow>
      \<exists>u'. handleFragment I d (length later) opc True u = (False, u') \<and> ready u' \<and>
        view u' = app_step opc d (length later) (view u)"

text \<open>The simplest receiver records the messages. \<open>ap_closed\<close> shows a forced close.\<close>

definition reassemble :: "32 word \<Rightarrow> app impl" where
  "reassemble limit = \<lparr>forceClose = \<lambda>u. u\<lparr>ap_closed := True\<rparr>, maxPayload = \<lambda>u. limit,
     setCompressed = \<lambda>u. (False, u),
     handleFragment = \<lambda>d remaining opc fin u. (False, app_step opc d (if fin then remaining else Suc remaining) u)\<rparr>"

interpretation recorder: receiver "reassemble limit" limit "\<lambda>opc p. True" "\<lambda>u. \<not> ap_closed u" "\<lambda>u. u"
  by unfold_locales (auto simp: reassemble_def app_step_def)

text \<open>
  A sequence of reads: each fills the receive buffer, at the same address, over what the reads
  and the parser left there before.
\<close>

fun feed :: "'u impl \<Rightarrow> bool \<Rightarrow> nat \<Rightarrow> byte list list \<Rightarrow> 'u ctx \<Rightarrow> 'u ctx" where
  "feed I isServer a [] c = c"
| "feed I isServer a (b # bs) c =
     feed I isServer a bs (consume I isServer (c\<lparr>pm := wr (pm c) a b, psrc := a, plen := length b\<rparr>))"

section \<open>The header that formatMessage writes\<close>

definition length_code :: "nat \<Rightarrow> nat" where
  "length_code n = (if n < 126 then n else if n \<le> 65535 then 126 else 127)"

definition extended :: "nat \<Rightarrow> byte list" where
  "extended n = (if n < 126 then [] else if n \<le> 65535 then be_bytes 2 n else be_bytes 8 n)"

definition sender_mask :: "32 word \<Rightarrow> byte list" where
  "sender_mask r = le_bytes 4 (unat r)"

definition body :: "bool \<Rightarrow> byte list \<Rightarrow> byte list \<Rightarrow> byte list" where
  "body isServer msk p = (if isServer then mask_from 0 msk p else p)"

lemma length_sender_mask [simp]: "length (sender_mask r) = 4"
  by (simp add: sender_mask_def)

lemma length_body [simp]: "length (body isServer msk p) = length p"
  by (simp add: body_def)

lemma frame_of_eq:
  "frame_of isServer (opc, r, p) =
     [128 OR opc, (if isServer then word_of_nat (length_code (length p)) OR 128 else word_of_nat (length_code (length p)))] @
     extended (length p) @ (if isServer then sender_mask r else []) @ body isServer (sender_mask r) p"
  by (simp add: frame_of_def formatMessage_def Let_def length_code_def extended_def sender_mask_def body_def
      SND_NO_FIN_def SND_CONTINUATION_def del: be_bytes.simps le_bytes.simps)

lemma length_frame_of:
  "length (frame_of isServer (opc, r, p)) = format_header_length (\<not> isServer) (length p) + length p"
  by (simp add: frame_of_def length_formatMessage)

lemma format_header_length_eq:
  "format_header_length (\<not> isServer) n = 2 + length (extended n) + (if isServer then 4 else 0)"
  by (simp add: format_header_length_def extended_def del: be_bytes.simps)

lemma length_code_le: "length_code n \<le> 127"
  by (simp add: length_code_def)

lemma length_byte_and: "n \<le> 127 \<Longrightarrow> unat ((word_of_nat n :: byte) AND 127) = n"
  by (simp add: byte_simps)

lemma length_byte_or_and: "n \<le> 127 \<Longrightarrow> unat ((word_of_nat n OR 128 :: byte) AND 127) = n"
proof -
  assume n: "n \<le> 127"
  have "(word_of_nat n OR 128 :: byte) AND 127 = word_of_nat n AND 127"
    by (simp add: and.left_commute bit.conj_disj_distrib2)
  with n show ?thesis by (simp add: length_byte_and)
qed

lemma rd_prefix_nth: "rd m a n = bs @ cs \<Longrightarrow> i < length bs \<Longrightarrow> m (a + i) = bs ! i"
proof -
  assume rd: "rd m a n = bs @ cs" and i: "i < length bs"
  have "n = length bs + length cs" using arg_cong [OF rd, of length] by simp
  with i have "m (a + i) = rd m a n ! i" by (simp add: nth_rd)
  with rd i show ?thesis by (simp add: nth_append)
qed

lemma rd_sub:
  assumes "rd m a n = bs @ cs @ ds"
  shows "rd m (a + length bs) (length cs) = cs"
proof -
  have "n = length bs + (length cs + length ds)" using arg_cong [OF assms, of length] by simp
  then show ?thesis using assms by (simp add: rd_add)
qed

text \<open>The two header bytes, for each of the five opcodes the library sends.\<close>

lemma opcode_bits:
  assumes "opc \<in> {TEXT, BINARY, CLOSE, PING, PONG}"
  shows "(128 OR opc) AND 15 = (opc :: byte)" "(128 OR opc) AND 128 \<noteq> 0" "(128 OR opc) AND 48 = 0"
    "(128 OR opc) AND 64 = 0" "opc \<noteq> 0" "\<not> (2 < opc \<and> opc < 8)" "opc \<le> 10"
    "2 < opc \<longleftrightarrow> opc \<notin> {TEXT, BINARY}"
  using assms by (auto simp: opcode_defs)


section \<open>Decoding a received frame\<close>

definition begins :: "mem \<Rightarrow> nat \<Rightarrow> nat \<Rightarrow> byte list \<Rightarrow> byte list \<Rightarrow> bool" where
  "begins m a n bytes future \<longleftrightarrow> rd m a n @ future = bytes"

lemma begins_rd:
  assumes "begins m a n bytes F" "i + j \<le> n"
  shows "rd m (a + i) j = take j (drop i bytes)"
proof -
  have "n = i + (j + (n - i - j))" using assms(2) by simp
  then have "rd m a n = rd m a i @ rd m (a + i) j @ rd m (a + i + j) (n - i - j)"
    by (metis rd_add)
  then show ?thesis using assms(1) by (auto simp: begins_def)
qed

lemma begins_nth:
  assumes "begins m a n bytes F" "i < n"
  shows "m (a + i) = bytes ! i"
  using assms nth_rd [of i n m a] by (auto simp: begins_def nth_append)

lemma begins_length: "begins m a n bytes F \<Longrightarrow> length bytes = n + length F"
  by (auto simp: begins_def)

lemma length_extended_le: "length (extended n) \<le> 8"
  by (simp add: extended_def del: be_bytes.simps)

text \<open>A legal frame is next in the buffer, with enough of it to look at its first two bytes.\<close>

definition arrives :: "32 word \<Rightarrow> bool \<Rightarrow> mem \<Rightarrow> nat \<Rightarrow> nat \<Rightarrow> sent_frame \<Rightarrow> byte list \<Rightarrow> byte list \<Rightarrow> bool" where
  "arrives limit isServer m a n msg rest F \<longleftrightarrow>
     legal limit msg \<and> begins m a n (frame_of isServer msg @ rest) F \<and> SHORT_MESSAGE_HEADER isServer \<le> n"

abbreviation head_size :: "bool \<Rightarrow> byte list \<Rightarrow> nat" where
  "head_size isServer p \<equiv> format_header_length (\<not> isServer) (length p)"

lemma arrives_begins:
  assumes "arrives limit isServer m a n (opc, r, p) rest F"
  shows "begins m a n (frame_of isServer (opc, r, p) @ rest) F" "2 \<le> n"
  using assms by (auto simp: arrives_def header_defs split: if_splits)

lemma legal_facts:
  assumes "legal limit (opc, r, p)"
  shows "opc \<in> {TEXT, BINARY, CLOSE, PING, PONG}" "length p < 2 ^ 32" "\<not> unat limit < length p"
proof -
  have "unat limit < 2 ^ LENGTH(32)" by (rule unsigned_less)
  with assms show "opc \<in> {TEXT, BINARY, CLOSE, PING, PONG}" "length p < 2 ^ 32" "\<not> unat limit < length p"
    by (simp_all add: legal_def)
qed

lemma arrives_first_byte:
  assumes A: "arrives limit isServer m a n (opc, r, p) rest F"
  shows "isFin m a" "getOpCode m a = opc" "\<not> rsv1 m a" "\<not> rsv23 m a"
proof -
  have "m a = 128 OR opc"
    using begins_nth [OF arrives_begins(1) [OF A], of 0] arrives_begins(2) [OF A] by (simp add: frame_of_eq)
  moreover have "opc \<in> {TEXT, BINARY, CLOSE, PING, PONG}"
    using A legal_facts(1) [of limit opc r p] by (simp add: arrives_def)
  ultimately show "isFin m a" "getOpCode m a = opc" "\<not> rsv1 m a" "\<not> rsv23 m a"
    using opcode_bits [of opc] by (simp_all add: isFin_def getOpCode_def rsv1_def rsv23_def)
qed

lemma arrives_length_code:
  assumes A: "arrives limit isServer m a n (opc, r, p) rest F"
  shows "payloadLength m a = length_code (length p)"
proof -
  have "m (a + 1) = (if isServer then word_of_nat (length_code (length p)) OR 128 else word_of_nat (length_code (length p)))"
    using begins_nth [OF arrives_begins(1) [OF A], of 1] arrives_begins(2) [OF A] by (simp add: frame_of_eq)
  then show ?thesis
    by (simp add: payloadLength_def length_byte_and length_byte_or_and length_code_le)
qed

lemma arrives_check:
  assumes A: "arrives limit isServer (pm c) (psrc c) n (opc, r, p) rest F"
  shows "frame_check I c = (False, c)"
proof -
  have l: "legal limit (opc, r, p)" using A by (simp add: arrives_def)
  note opc = opcode_bits [OF legal_facts(1) [OF l]]
  have "2 < opc \<Longrightarrow> length p \<le> 125"
    using l opc(8) by (auto simp: legal_def)
  then have "2 < opc \<Longrightarrow> payloadLength (pm c) (psrc c) \<le> 125"
    by (simp add: arrives_length_code [OF A] length_code_def)
  then show ?thesis
    using opc by (simp add: frame_check_def Let_def arrives_first_byte [OF A]) (auto simp: not_less)
qed

lemma arrives_extended:
  assumes A: "arrives limit isServer m a n (opc, r, p) rest F" and "2 + length (extended (length p)) \<le> n"
  shows "be_val (rd m (a + 2) (length (extended (length p)))) = (if length p < 126 then 0 else length p)"
proof -
  have "rd m (a + 2) (length (extended (length p))) = extended (length p)"
    using begins_rd [OF arrives_begins(1) [OF A] assms(2)] by (simp add: frame_of_eq numeral_2_eq_2)
  moreover have "length p < 2 ^ 32" using A using legal_facts(2) [of limit opc r p] by (simp add: arrives_def)
  ultimately show ?thesis
    using be_val_be_bytes [of 2 "length p"] be_val_be_bytes [of 8 "length p"]
    by (simp add: extended_def del: be_bytes.simps split: if_splits)
qed

lemma arrives_header:
  assumes A: "arrives limit isServer m a n (opc, r, p) rest F"
  shows "frame_header isServer m a n =
    (if head_size isServer p \<le> n then Some (head_size isServer p, if length p \<le> 65535 then 32 else 64, length p) else None)"
proof -
  have "SHORT_MESSAGE_HEADER isServer \<le> n" using A by (simp add: arrives_def)
  then show ?thesis
    using arrives_extended [OF A]
    by (auto simp: frame_header_def arrives_length_code [OF A] length_code_def format_header_length_def header_defs
        extended_def simp del: be_bytes.simps split: if_splits)
qed

lemma arrives_mask:
  assumes A: "arrives limit isServer m a n (opc, r, p) rest F" and isServer "head_size isServer p \<le> n"
  shows "rd m (a + head_size isServer p - 4) 4 = sender_mask r"
proof -
  have "a + head_size isServer p - 4 = a + (2 + length (extended (length p)))" "2 + length (extended (length p)) + 4 \<le> n"
    using assms format_header_length_eq [of isServer "length p"] by simp_all
  then show ?thesis
    using begins_rd [OF arrives_begins(1) [OF A], of "2 + length (extended (length p))" 4] assms(2)
    by (simp add: frame_of_eq)
qed

lemma arrives_payload:
  assumes A: "arrives limit isServer m a n (opc, r, p) rest F" and "head_size isServer p + k \<le> n" "k \<le> length p"
  shows "rd m (a + head_size isServer p) k = take k (body isServer (sender_mask r) p)"
  using begins_rd [OF arrives_begins(1) [OF A] assms(2)] assms(3) format_header_length_eq [of isServer "length p"]
  by (auto simp: frame_of_eq)


section \<open>The parser between two reads\<close>

definition at_head :: "32 word \<Rightarrow> (byte \<Rightarrow> byte list \<Rightarrow> bool) \<Rightarrow> bool \<Rightarrow> (byte \<times> byte list) list \<Rightarrow> wstate \<Rightarrow> app \<Rightarrow> byte list \<Rightarrow> bool" where
  "at_head limit ok isServer all ws u bytes \<longleftrightarrow>
     wantsHead ws \<and> opStack ws = -1 \<and> lastFin ws \<and> length (opCode ws) = 2 \<and> \<not> ap_closed u \<and> ap_buffer u = [] \<and>
     (\<exists>ms. list_all (receivable limit ok) ms \<and> bytes = concat (map (frame_of isServer) ms) \<and>
       all = ap_messages u @ map content ms)"

definition inside :: "32 word \<Rightarrow> (byte \<Rightarrow> byte list \<Rightarrow> bool) \<Rightarrow> bool \<Rightarrow> (byte \<times> byte list) list \<Rightarrow> wstate \<Rightarrow> app \<Rightarrow> byte list \<Rightarrow> bool" where
  "inside limit ok isServer all ws u bytes \<longleftrightarrow>
     \<not> wantsHead ws \<and> opStack ws = 0 \<and> lastFin ws \<and> length (opCode ws) = 2 \<and> \<not> ap_closed u \<and>
     0 < remainingBytes ws \<and> (isServer \<longrightarrow> length (wmask ws) = 4) \<and>
     (\<exists>p ms. list_all (receivable limit ok) ms \<and> length p = remainingBytes ws \<and>
       bytes = body isServer (wmask ws) p @ concat (map (frame_of isServer) ms) \<and>
       ok (opCode ws ! 0) (ap_buffer u @ p) \<and> same_kind (opCode ws ! 0) u \<and>
       all = ap_messages u @ (opCode ws ! 0, ap_buffer u @ p) # map content ms)"

definition spilled :: "wstate \<Rightarrow> byte list" where
  "spilled ws = take (spillLength ws) (spill ws)"

definition in_stream :: "32 word \<Rightarrow> (byte \<Rightarrow> byte list \<Rightarrow> bool) \<Rightarrow> bool \<Rightarrow> (byte \<times> byte list) list \<Rightarrow> wstate \<Rightarrow> app \<Rightarrow> byte list \<Rightarrow> bool" where
  "in_stream limit ok isServer all ws u F \<longleftrightarrow>
     spillLength ws < LONG_MESSAGE_HEADER isServer \<and> spillLength ws \<le> length (spill ws) \<and>
     (if wantsHead ws then at_head limit ok isServer all ws u (spilled ws @ F) \<and> (F = [] \<longrightarrow> spillLength ws = 0)
      else spillLength ws = 0 \<and> inside limit ok isServer all ws u F)"

lemma save_spill_pu [simp]: "pu (save_spill c) = pu c"
  by (simp add: save_spill_def)

lemma save_spill_in_stream:
  assumes "at_head limit ok isServer all (pws c) u (rd (pm c) (psrc c) (plen c) @ F)"
    "plen c < LONG_MESSAGE_HEADER isServer" "plen c = 0 \<longrightarrow> spillLength (pws c) = 0"
    "F = [] \<longrightarrow> plen c = 0"
  shows "in_stream limit ok isServer all (pws (save_spill c)) u F"
  using assms by (auto simp: save_spill_def in_stream_def at_head_def spilled_def header_defs)

text \<open>The state in which \<open>consumeMessage\<close> goes on with the frame at the head of the buffer.\<close>

definition accepted_frame :: "byte \<Rightarrow> 'u ctx \<Rightarrow> 'u ctx" where
  "accepted_frame opc c = c\<lparr>pws := push_opcode opc (pws c)\<lparr>lastFin := True\<rparr>\<rparr>"

lemma accepted_frame_simps [simp]:
  "pm (accepted_frame opc c) = pm c" "psrc (accepted_frame opc c) = psrc c" "plen (accepted_frame opc c) = plen c" "pu (accepted_frame opc c) = pu c"
  "wantsHead (pws (accepted_frame opc c)) = wantsHead (pws c)" "lastFin (pws (accepted_frame opc c))"
  "opStack (pws (accepted_frame opc c)) = opStack (pws c) + 1"
  "length (opCode (pws (accepted_frame opc c))) = length (opCode (pws c))"
  by (simp_all add: accepted_frame_def push_opcode_def)

lemma accepted_frame_top:
  assumes "opStack (pws c) = -1" "length (opCode (pws c)) = 2"
  shows "top_opcode (pws (accepted_frame opc c)) = opc" "opCode (pws (accepted_frame opc c)) ! 0 = opc"
  using assms by (simp_all add: accepted_frame_def push_opcode_def top_opcode_def)

lemma format_header_length_bounds: "2 \<le> head_size isServer p" "isServer \<Longrightarrow> 6 \<le> head_size isServer p"
  by (auto simp: format_header_length_def)

text \<open>The bytes of the buffer after the first \<open>k\<close> do not change while a whole frame is unmasked.\<close>

lemma whole_frame_payload:
  assumes A: "arrives limit isServer m a n (opc, r, p) rest F" and fits: "length p + head_size isServer p \<le> n"
  defines "m' \<equiv> (if isServer then unmaskImpreciseCopyMask m (a + head_size isServer p - 4) (a + head_size isServer p)
      (a + head_size isServer p - 4) (length p mod 2 ^ 32) else m)"
  shows "rd m' (if isServer then a + head_size isServer p - 4 else a + head_size isServer p) (length p) = p"
    and "m' a = m a"
    and "rd m' (a + (length p + head_size isServer p)) (n - (length p + head_size isServer p)) @ F = rest"
proof -
  let ?H = "head_size isServer p" and ?d = "a + head_size isServer p - 4"
  have small: "length p mod 2 ^ 32 = length p"
    using A legal_facts(2) [of limit opc r p] by (simp add: arrives_def)
  have pay: "rd m (a + ?H) (length p) = body isServer (sender_mask r) p"
    using arrives_payload [OF A, of "length p"] fits by simp
  have rest: "rd m (a + (length p + ?H)) (n - (length p + ?H)) @ F = rest"
  proof -
    have "n = (length p + ?H) + (n - (length p + ?H))" using fits by simp
    then have "rd m a n = rd m a (length p + ?H) @ rd m (a + (length p + ?H)) (n - (length p + ?H))"
      by (metis rd_add)
    then show ?thesis
      using arrives_begins(1) [OF A] length_frame_of [of isServer opc r p]
      by (simp add: begins_def append_eq_append_conv_if add.commute)
  qed
  have "rd m' (if isServer then ?d else a + ?H) (length p) = p \<and> m' a = m a \<and>
    rd m' (a + (length p + ?H)) (n - (length p + ?H)) @ F = rest"
  proof (cases isServer)
    case False
    then show ?thesis using pay rest by (simp add: m'_def body_def)
  next
    case True
    then have H: "6 \<le> ?H" by (rule format_header_length_bounds(2))
    define d where "d = a + ?H - 4"
    have d: "a + ?H - 4 = d" "a + ?H = d + 4" using H by (simp_all add: d_def)
    have "rd m d 4 = sender_mask r"
      using arrives_mask [OF A True] fits by (simp add: d)
    then have msk: "[m d, m (d + 1), m (d + 2), m (d + 3)] = sender_mask r"
      by (simp add: rd_def upt_rec numeral_3_eq_3)
    have m': "m' = unmaskImprecise m d (d + 4) (sender_mask r) (length p)"
      by (simp only: m'_def if_P [OF True] unmaskImpreciseCopyMask_def Let_def d msk small add_diff_cancel_right')
    have off: "agree_off m m' d (d + 4 + length p)"
      unfolding m' by (rule unmaskImprecise_tight)
    have "rd m' d (length p) = mask_from 0 (sender_mask r) (rd m (d + 4) (length p))"
      unfolding m' by (rule unmaskImprecise_rd) simp
    moreover have "rd m (d + 4) (length p) = mask_from 0 (sender_mask r) p"
      using pay unfolding d by (simp add: body_def True)
    ultimately have "rd m' ?d (length p) = p" unfolding d by simp
    moreover have "m' a = m a" using off H d by (auto simp: agree_off_def)
    moreover have "rd m' (a + (length p + ?H)) k = rd m (a + (length p + ?H)) k" for k
      by (rule rd_cong) (use off d in \<open>auto simp: agree_off_def\<close>)
    ultimately show ?thesis using rest True by simp
  qed
  then show "rd m' (if isServer then ?d else a + ?H) (length p) = p" "m' a = m a"
    "rd m' (a + (length p + ?H)) (n - (length p + ?H)) @ F = rest" by simp_all
qed


lemma consume_whole_eq:
  assumes "pm c = m" "psrc c = a" "plen c = k"
    "m' = (if isServer then unmaskImpreciseCopyMask m (a + H - 4) (a + H) (a + H - 4) (n mod 2 ^ 32) else m)"
    "(if isServer then rd m' (a + H - 4) n else rd m' (a + H) n) = data" "isFin m' a"
    "handleFragment I data 0 (top_opcode (pws c)) True (pu c) = (False, u)"
  shows "consume_whole I isServer H t n c = (False, c\<lparr>pm := m', psrc := a + t, plen := k - t,
    pws := (pws c)\<lparr>opStack := opStack (pws c) - 1, spillLength := 0\<rparr>, pu := u\<rparr>)"
  using assms by (cases isServer) (simp_all add: consume_whole_def Let_def)

text \<open>A frame of which only the head and a part of the payload have arrived.\<close>

lemma body_drop:
  assumes "length msk = 4"
  shows "drop k (body isServer msk p) = body isServer (rotateMask (4 - k mod 4) msk) (drop k p)"
proof (cases "k \<le> length p")
  case True
  then have "mask_from 0 msk p = mask_from 0 msk (take k p) @ mask_from k msk (drop k p)"
    using mask_from_append [of 0 msk "take k p" "drop k p"] by simp
  with True assms show ?thesis by (simp add: body_def rotateMask_continues)
qed (simp add: body_def)

lemma body_take: "take k (body isServer msk p) = body isServer msk (take k p)"
proof (cases "k \<le> length p")
  case True
  then have "mask_from 0 msk p = mask_from 0 msk (take k p) @ mask_from k msk (drop k p)"
    using mask_from_append [of 0 msk "take k p" "drop k p"] by simp
  with True show ?thesis by (simp add: body_def)
qed (simp add: body_def)

lemma body_involutive [simp]: "isServer \<Longrightarrow> mask_from 0 msk (body isServer msk p) = p"
  by (simp add: body_def)


lemma part_future:
  assumes A: "arrives limit isServer m a n (opc, r, p) rest F" and part: "n = head_size isServer p + k" "k \<le> length p"
  shows "F = drop k (body isServer (sender_mask r) p) @ rest"
proof -
  let ?f = "frame_of isServer (opc, r, p)"
  have "rd m a n @ F = ?f @ rest" using arrives_begins(1) [OF A] by (simp add: begins_def)
  then have "F = drop n (?f @ rest)" by (metis append_eq_conv_conj length_rd)
  also have "\<dots> = drop n ?f @ rest"
    using part length_frame_of [of isServer opc r p] by simp
  also have "drop n ?f = drop k (body isServer (sender_mask r) p)"
    using part(1) format_header_length_eq [of isServer "length p"] by (simp add: frame_of_eq)
  finally show ?thesis .
qed

lemma frames_cases:
  assumes "list_all (receivable limit ok) ms" "b @ F = concat (map (frame_of isServer) ms)" "b \<noteq> []"
  obtains opc r p ms' where "ms = (opc, r, p) # ms'" "legal limit (opc, r, p)" "ok opc p" "list_all (receivable limit ok) ms'"
    "b @ F = frame_of isServer (opc, r, p) @ concat (map (frame_of isServer) ms')"
  using assms by (cases ms) (auto simp: receivable_def)

lemma frame_size: "SHORT_MESSAGE_HEADER isServer \<le> length (frame_of isServer msg)"
  by (cases msg) (simp add: length_frame_of format_header_length_def header_defs)

lemma short_is_no_frame:
  "b = concat (map (frame_of isServer) ms) \<Longrightarrow> length b < SHORT_MESSAGE_HEADER isServer \<Longrightarrow> ms = [] \<and> b = []"
  using frame_size [of isServer "hd ms"] by (cases ms) auto

lemma in_stream_head:
  assumes "at_head limit ok isServer all ws u F" "spillLength ws = 0"
  shows "in_stream limit ok isServer all ws u F"
  using assms by (simp add: in_stream_def at_head_def spilled_def header_defs)

section \<open>The rest of a frame\<close>

lemma mod_4_multiple: "k * 4 \<le> i \<Longrightarrow> i mod 4 = (i - k * 4) mod (4::nat)"
  by (metis le_mod_geq le_add_diff_inverse mod_mult_self2 mult.commute add.commute)

lemma rd_unmask_rest:
  "rd (unmask_rest isServer m src ws) src (remainingBytes ws) =
    (if isServer then mask_from 0 (wmask ws) (rd m src (remainingBytes ws)) else rd m src (remainingBytes ws))"
proof (rule nth_equalityI)
  fix i assume "i < length (rd (unmask_rest isServer m src ws) src (remainingBytes ws))"
  then have i: "i < remainingBytes ws" by simp
  define q t where "q = remainingBytes ws div 4 * 4" and "t = remainingBytes ws mod 4"
  note rt = q_def [symmetric] t_def [symmetric]
  have qt: "4 * ((q + 3) div 4) = q" "t < 4" by (simp_all add: q_def t_def)
  have "remainingBytes ws = q + t" by (simp add: q_def t_def)
  with i have it: "i < q + t" by simp
  show "rd (unmask_rest isServer m src ws) src (remainingBytes ws) ! i =
    (if isServer then mask_from 0 (wmask ws) (rd m src (remainingBytes ws)) else rd m src (remainingBytes ws)) ! i"
  proof (cases "i < q")
    case True
    then show ?thesis
      using i qt by (simp add: unmask_rest_def Let_def rt mem_simps nth_mask_from xor_tail_nth unmaskInplace_nth)
  next
    case False
    then have "i mod 4 = (i - q) mod 4" unfolding q_def by (intro mod_4_multiple) simp
    then have "i mod 4 = i - q" using it qt(2) by simp
    with False show ?thesis
      using i it qt by (simp add: unmask_rest_def Let_def rt mem_simps nth_mask_from xor_tail_nth unmaskInplace_nth)
  qed
qed auto

lemma rd_unmask_chunk:
  "rd (unmask_chunk isServer m src n ws) src n =
    (if isServer then mask_from 0 (wmask ws) (rd m src n) else rd m src n)"
proof -
  have "n \<le> 4 * ((src + (n div 4 + 1) * 4 - src + 3) div 4)" by simp
  then show ?thesis by (simp add: unmask_chunk_def rd_unmaskInplace)
qed

lemma rotate_if_wmask:
  "length (wmask ws) = 4 \<Longrightarrow> isServer \<Longrightarrow> wmask (rotate_if isServer n ws) = rotateMask (4 - n mod 4) (wmask ws)"
  by (auto simp: rotate_if_def length_4 rotateMask_simps)

lemma rotate_if_other [simp]:
  "wantsHead (rotate_if isServer n ws) = wantsHead ws" "opStack (rotate_if isServer n ws) = opStack ws"
  "lastFin (rotate_if isServer n ws) = lastFin ws" "opCode (rotate_if isServer n ws) = opCode ws"
  "remainingBytes (rotate_if isServer n ws) = remainingBytes ws" "spillLength (rotate_if isServer n ws) = spillLength ws"
  by (simp_all add: rotate_if_def)

lemma unmask_body [simp]: "(if isServer then mask_from 0 msk (body isServer msk p) else body isServer msk p) = p"
  by (simp add: body_def)

lemma restore_spill_rd:
  assumes "spillLength (pws c) \<le> psrc c" "spillLength (pws c) \<le> length (spill (pws c))"
  shows "rd (pm (restore_spill c)) (psrc (restore_spill c)) (plen (restore_spill c)) =
    spilled (pws c) @ rd (pm c) (psrc c) (plen c)"
    "plen (restore_spill c) = plen c + spillLength (pws c)"
proof -
  let ?s = "take (spillLength (pws c)) (spill (pws c))"
  have "length ?s = spillLength (pws c)" using assms(2) by simp
  then show "rd (pm (restore_spill c)) (psrc (restore_spill c)) (plen (restore_spill c)) =
    spilled (pws c) @ rd (pm c) (psrc c) (plen c)"
    using rd_wr_left [of "pm c" "psrc c - spillLength (pws c)" ?s "plen c"] assms(1)
    by (auto simp: restore_spill_def Let_def spilled_def add.commute)
  show "plen (restore_spill c) = plen c + spillLength (pws c)"
    by (simp add: restore_spill_def Let_def)
qed

section \<open>Reading with a receiver\<close>

context receiver begin

lemma refuses_nothing: "ready u \<Longrightarrow> legal limit (opc, r, p) \<Longrightarrow> \<not> refusePayloadLength I (length p) u"
  using legal_facts(3) [of limit opc r p] by (simp add: refusePayloadLength_def ready_limit)

lemma takes_whole:
  assumes "ready u" "ap_buffer (view u) = []" "ok opc p"
  obtains u' where "handleFragment I p 0 opc True u = (False, u')" "ready u'" "\<not> ap_closed (view u')"
    "ap_buffer (view u') = []" "ap_messages (view u') = ap_messages (view u) @ [(opc, p)]"
  using takes_fragment [of u opc p "[]"] ready_open assms by (fastforce simp: app_step_def)

lemma consumeMessage_arrives:
  assumes A: "arrives limit isServer (pm c) (psrc c) (plen c) (opc, r, p) rest F" and ready: "ready (pu c)"
    and idle: "opStack (pws c) = -1" "lastFin (pws c)" and header: "head_size isServer p \<le> plen c"
  shows "consumeMessage I isServer (head_size isServer p) (if length p \<le> 65535 then 32 else 64) (length p) c =
    (if length p + head_size isServer p \<le> plen c
     then consume_whole I isServer (head_size isServer p) (length p + head_size isServer p) (length p) (accepted_frame opc c)
     else consume_part I isServer (head_size isServer p) (length p) (accepted_frame opc c))"
proof -
  have l: "legal limit (opc, r, p)" using A by (simp add: arrives_def)
  have "accept_opcode c = Some (accepted_frame opc c)"
    using idle opcode_bits(5) [OF legal_facts(1) [OF l]]
    by (simp add: accept_opcode_def Let_def arrives_first_byte [OF A] accepted_frame_def)
  moreover have "\<not> refusePayloadLength I (length p) (pu c)" by (rule refuses_nothing [OF ready l])
  moreover from this have "(length p + head_size isServer p) mod 2 ^ (if length p \<le> 65535 then 32 else 64) = length p + head_size isServer p"
    by (rule frame_total(1) [OF arrives_header [OF A, unfolded if_P [OF header]]])
  ultimately show ?thesis by (simp only: consumeMessage_def option.case if_False Let_def accepted_frame_simps)
qed

lemma consume_whole_arrives:
  assumes A: "arrives limit isServer (pm c) (psrc c) (plen c) (opc, r, p) rest F" and ready: "ready (pu c)"
    and head: "at_head limit ok isServer all (pws c) (view (pu c)) (rd (pm c) (psrc c) (plen c) @ F)"
    and fits: "length p + head_size isServer p \<le> plen c"
    and rest: "list_all (receivable limit ok) ms" "rest = concat (map (frame_of isServer) ms)" "ok opc p"
      "all = ap_messages (view (pu c)) @ (opc, p) # map content ms"
  obtains c' where
    "consume_whole I isServer (head_size isServer p) (length p + head_size isServer p) (length p) (accepted_frame opc c) = (False, c')"
    "ready (pu c')" "at_head limit ok isServer all (pws c') (view (pu c')) (rd (pm c') (psrc c') (plen c') @ F)"
    "spillLength (pws c') = 0" "spill (pws c') = spill (pws c)" "plen c' < plen c"
proof -
  let ?H = "head_size isServer p" and ?t = "length p + head_size isServer p"
  define m' where "m' = (if isServer then unmaskImpreciseCopyMask (pm c) (psrc c + ?H - 4) (psrc c + ?H)
    (psrc c + ?H - 4) (length p mod 2 ^ 32) else pm c)"
  note w = whole_frame_payload [OF A fits, folded m'_def]
  have data: "(if isServer then rd m' (psrc c + ?H - 4) (length p) else rd m' (psrc c + ?H) (length p)) = p"
    using w(1) by (cases isServer) simp_all
  have fin: "isFin m' (psrc c)" using arrives_first_byte(1) [OF A] w(2) by (simp add: isFin_def)
  have idle: "opStack (pws c) = -1" "length (opCode (pws c)) = 2" "ap_buffer (view (pu c)) = []"
    using head by (simp_all add: at_head_def)
  obtain u where u: "handleFragment I p 0 opc True (pu c) = (False, u)" "ready u" "\<not> ap_closed (view u)"
    "ap_buffer (view u) = []" "ap_messages (view u) = ap_messages (view (pu c)) @ [(opc, p)]"
    using takes_whole [OF ready idle(3) rest(3)] .
  define c' where "c' = (accepted_frame opc c)\<lparr>pm := m', psrc := psrc c + ?t, plen := plen c - ?t,
    pws := (pws (accepted_frame opc c))\<lparr>opStack := opStack (pws (accepted_frame opc c)) - 1, spillLength := 0\<rparr>, pu := u\<rparr>"
  have "consume_whole I isServer ?H ?t (length p) (accepted_frame opc c) = (False, c')"
    unfolding c'_def
    by (rule consume_whole_eq [OF _ _ _ m'_def data fin])
       (use u idle in \<open>simp_all add: accepted_frame_top\<close>)
  moreover have "at_head limit ok isServer all (pws c') (view (pu c')) (rd (pm c') (psrc c') (plen c') @ F)"
    using head rest w(3) u by (auto simp: at_head_def c'_def)
  moreover have "spillLength (pws c') = 0" "spill (pws c') = spill (pws c)" "plen c' < plen c" "ready (pu c')"
    using fits format_header_length_bounds(1) [of isServer p] u(2) by (simp_all add: c'_def accepted_frame_def push_opcode_def)
  ultimately show thesis using that by blast
qed

lemma consume_part_arrives:
  assumes A: "arrives limit isServer (pm c) (psrc c) (plen c) (opc, r, p) rest F" and ready: "ready (pu c)"
    and head: "at_head limit ok isServer all (pws c) (view (pu c)) (rd (pm c) (psrc c) (plen c) @ F)"
    and part: "head_size isServer p \<le> plen c" "plen c < length p + head_size isServer p"
    and rest: "list_all (receivable limit ok) ms" "rest = concat (map (frame_of isServer) ms)" "ok opc p"
      "all = ap_messages (view (pu c)) @ (opc, p) # map content ms"
  defines "c' \<equiv> snd (consume_part I isServer (head_size isServer p) (length p) (accepted_frame opc c))"
  shows "inside limit ok isServer all (pws c') (view (pu c')) F" "spillLength (pws c') = 0" "ready (pu c')"
proof -
  let ?H = "head_size isServer p"
  define k where "k = plen c - ?H"
  have k: "plen c = ?H + k" "k < length p" using part by (simp_all add: k_def)
  have small: "(length p - k) mod 2 ^ 32 = length p - k"
    using A legal_facts(2) [of limit opc r p] by (simp add: arrives_def)
  have idle: "opStack (pws c) = -1" "length (opCode (pws c)) = 2" "lastFin (pws c)" "ap_buffer (view (pu c)) = []"
    using head by (simp_all add: at_head_def)
  have pay: "rd (pm c) (psrc c + ?H) k = take k (body isServer (sender_mask r) p)"
    using arrives_payload [OF A, of k] k by simp
  have fin: "isFin (pm c) (psrc c)" by (rule arrives_first_byte(1) [OF A])
  have F: "F = drop k (body isServer (sender_mask r) p) @ rest" using part_future [OF A] k by simp
  obtain u where u: "handleFragment I (take k p) (length p - k) opc True (pu c) = (False, u)" "ready u"
    "view u = app_step opc (take k p) (length p - k) (view (pu c))"
    using takes_fragment [OF ready, of opc "take k p" "drop k p"] idle(4) rest(3) by fastforce
  have data: "isServer \<Longrightarrow> rd (unmaskImprecise (pm c) (psrc c) (psrc c + ?H) (sender_mask r) k) (psrc c) k = take k p"
    using pay by (simp add: unmaskImprecise_rd body_take)
  have msk: "isServer \<Longrightarrow> rd (pm c) (psrc c + ?H - 4) 4 = sender_mask r"
    using arrives_mask [OF A] part by simp
  have "pu c' = u \<and> pws c' = (pws (accepted_frame opc c))\<lparr>spillLength := 0, wantsHead := False,
      remainingBytes := length p - k,
      wmask := (if isServer then rotateMask (4 - k mod 4) (sender_mask r) else wmask (pws (accepted_frame opc c)))\<rparr>"
    using k pay data msk fin small u(1) accepted_frame_top [OF idle(1,2)]
    by (cases isServer)
       (simp_all add: c'_def consume_part_def Let_def body_def top_opcode_def)
  then have c': "pu c' = u" "spillLength (pws c') = 0" "\<not> wantsHead (pws c')" "opStack (pws c') = 0"
    "lastFin (pws c')" "length (opCode (pws c')) = 2" "opCode (pws c') ! 0 = opc" "remainingBytes (pws c') = length p - k"
    "isServer \<Longrightarrow> wmask (pws c') = rotateMask (4 - k mod 4) (sender_mask r)"
    using idle accepted_frame_top [OF idle(1,2)] by simp_all
  have "drop k (body isServer (sender_mask r) p) = body isServer (wmask (pws c')) (drop k p)"
    using c'(9) by (cases isServer) (simp_all add: body_drop, simp add: body_def)
  moreover have "(opc, p) = (opCode (pws c') ! 0, ap_buffer (view u) @ drop k p)" "ap_messages (view u) = ap_messages (view (pu c))"
    using c' u(3) k(2) idle(4) by (simp_all add: app_step_def)
  moreover have "isServer \<longrightarrow> length (wmask (pws c')) = 4" using c'(9) by simp
  moreover have "\<not> ap_closed (view u)" using u(2) by (rule ready_open)
  moreover have "same_kind opc (view u)" using u(3) k(2) by simp
  ultimately show "inside limit ok isServer all (pws c') (view (pu c')) F"
    using rest c' k(2) F by (auto simp: inside_def intro!: exI [of _ "drop k p"] exI [of _ ms])
  show "spillLength (pws c') = 0" "ready (pu c')" using c' u(2) by simp_all
qed

text \<open>Too little for any header: it is saved.\<close>

lemma consume_loop_short:
  assumes head: "at_head limit ok isServer all (pws c) (view (pu c)) (rd (pm c) (psrc c) (plen c) @ F)"
    and spill: "plen c = 0 \<longrightarrow> spillLength (pws c) = 0" and ready: "ready (pu c)" and short: "plen c < SHORT_MESSAGE_HEADER isServer"
  shows "ready (pu (consume_loop I isServer c)) \<and>
    in_stream limit ok isServer all (pws (consume_loop I isServer c)) (view (pu (consume_loop I isServer c))) F"
proof -
  have "plen c < LONG_MESSAGE_HEADER isServer" using short by (simp add: header_defs split: if_splits)
  moreover have "F = [] \<longrightarrow> plen c = 0"
  proof
    assume "F = []"
    then obtain ms where "rd (pm c) (psrc c) (plen c) = concat (map (frame_of isServer) ms)"
      using head by (auto simp: at_head_def)
    then have "rd (pm c) (psrc c) (plen c) = []" using short short_is_no_frame by (metis length_rd)
    then show "plen c = 0" by (metis length_rd list.size(3))
  qed
  ultimately have "in_stream limit ok isServer all (pws (save_spill c)) (view (pu (save_spill c))) F"
    using head spill unfolding save_spill_pu by (intro save_spill_in_stream)
  with short ready show ?thesis by (subst (1 2 3) consume_loop.simps) simp
qed

text \<open>Otherwise it is the next frame that arrives.\<close>

lemma next_frame_arrives:
  assumes head: "at_head limit ok isServer all (pws c) (view (pu c)) (rd (pm c) (psrc c) (plen c) @ F)"
    and long: "SHORT_MESSAGE_HEADER isServer \<le> plen c"
  obtains opc r p ms where "arrives limit isServer (pm c) (psrc c) (plen c) (opc, r, p) (concat (map (frame_of isServer) ms)) F"
    "rd (pm c) (psrc c) (plen c) @ F = frame_of isServer (opc, r, p) @ concat (map (frame_of isServer) ms)"
    "all = ap_messages (view (pu c)) @ (opc, p) # map content ms" "ok opc p" "list_all (receivable limit ok) ms"
proof -
  note step = that
  have "rd (pm c) (psrc c) (plen c) \<noteq> []" using long by (metis length_rd list.size(3) not_less header_defs(1) zero_less_numeral)
  moreover obtain ms where ms: "list_all (receivable limit ok) ms"
    "rd (pm c) (psrc c) (plen c) @ F = concat (map (frame_of isServer) ms)" "all = ap_messages (view (pu c)) @ map content ms"
    using head by (auto simp: at_head_def)
  ultimately obtain opc r p ms' where m: "ms = (opc, r, p) # ms'" "legal limit (opc, r, p)" "ok opc p"
    "list_all (receivable limit ok) ms'"
    "rd (pm c) (psrc c) (plen c) @ F = frame_of isServer (opc, r, p) @ concat (map (frame_of isServer) ms')"
    by (metis frames_cases)
  have "arrives limit isServer (pm c) (psrc c) (plen c) (opc, r, p) (concat (map (frame_of isServer) ms')) F"
    using m long by (simp add: arrives_def begins_def)
  moreover have "all = ap_messages (view (pu c)) @ (opc, p) # map content ms'" using ms(3) m(1) by (simp add: content_def)
  ultimately show thesis using m(3-5) by (intro step)
qed

text \<open>A part of its header is saved as well.\<close>

lemma consume_loop_header:
  assumes head: "at_head limit ok isServer all (pws c) (view (pu c)) (rd (pm c) (psrc c) (plen c) @ F)"
    and spill: "plen c = 0 \<longrightarrow> spillLength (pws c) = 0" and ready: "ready (pu c)"
    and A: "arrives limit isServer (pm c) (psrc c) (plen c) (opc, r, p) rest F" "SHORT_MESSAGE_HEADER isServer \<le> plen c"
    and part: "rd (pm c) (psrc c) (plen c) @ F = frame_of isServer (opc, r, p) @ rest" "plen c < head_size isServer p"
  shows "ready (pu (consume_loop I isServer c)) \<and>
    in_stream limit ok isServer all (pws (consume_loop I isServer c)) (view (pu (consume_loop I isServer c))) F"
proof -
  have fh: "frame_header isServer (pm c) (psrc c) (plen c) = None" using part(2) by (simp add: arrives_header [OF A(1)])
  have "F \<noteq> []"
  proof
    assume "F = []"
    then have "plen c = length (frame_of isServer (opc, r, p)) + length rest" using arg_cong [OF part(1), of length] by simp
    with part(2) show False by (simp only: length_frame_of)
  qed
  then have incomplete: "F = [] \<longrightarrow> plen c = 0" by simp
  from fh have "consume_loop I isServer c = save_spill c"
    using A(2) arrives_check [OF A(1)] by (subst consume_loop.simps) simp
  then show ?thesis
    using save_spill_in_stream [OF head _ spill] frame_header_None [OF fh] incomplete ready by simp
qed

lemma consume_loop_in_stream:
  assumes "at_head limit ok isServer all (pws c) (view (pu c)) (rd (pm c) (psrc c) (plen c) @ F)"
    "plen c = 0 \<longrightarrow> spillLength (pws c) = 0" "ready (pu c)"
  shows "ready (pu (consume_loop I isServer c)) \<and>
    in_stream limit ok isServer all (pws (consume_loop I isServer c)) (view (pu (consume_loop I isServer c))) F"
  using assms
proof (induction "plen c" arbitrary: c rule: less_induct)
  case less
  note head = less.prems(1) and ready = less.prems(3)
  show ?case
  proof (cases "SHORT_MESSAGE_HEADER isServer \<le> plen c")
    case False
    then show ?thesis using consume_loop_short [OF less.prems] by simp
  next
    case True
    from next_frame_arrives [OF head this] obtain opc r p ms'
      where A: "arrives limit isServer (pm c) (psrc c) (plen c) (opc, r, p) (concat (map (frame_of isServer) ms')) F"
        and m: "rd (pm c) (psrc c) (plen c) @ F = frame_of isServer (opc, r, p) @ concat (map (frame_of isServer) ms')"
        and all: "all = ap_messages (view (pu c)) @ (opc, p) # map content ms'" "ok opc p" "list_all (receivable limit ok) ms'" .
    have idle: "opStack (pws c) = -1" "lastFin (pws c)" using head by (simp_all add: at_head_def)
    show ?thesis
    proof (cases "head_size isServer p \<le> plen c")
      case False
      then show ?thesis using consume_loop_header [OF less.prems A True m] by simp
    next
      case header: True
      note fh = arrives_header [OF A, unfolded if_P [OF header]]
      let ?call = "consumeMessage I isServer (head_size isServer p) (if length p \<le> 65535 then 32 else 64) (length p) c"
      have step: "consume_loop I isServer c = (case ?call of (ret, c2) \<Rightarrow> if ret then c2 else consume_loop I isServer c2)"
        by (subst consume_loop.simps) (simp only: True arrives_check [OF A] fh if_True if_False prod.case option.case)
      note call = consumeMessage_arrives [OF A ready idle header]
      show ?thesis
      proof (cases "length p + head_size isServer p \<le> plen c")
        case fits: True
        obtain c' where c': "?call = (False, c')" "plen c' < plen c" "ready (pu c')"
          "at_head limit ok isServer all (pws c') (view (pu c')) (rd (pm c') (psrc c') (plen c') @ F)" "spillLength (pws c') = 0"
          using consume_whole_arrives [OF A ready head fits all(3) refl all(2,1)] call fits by metis
        then show ?thesis using less.hyps [of c'] step by simp
      next
        case False
        then have part: "plen c < length p + head_size isServer p" by simp
        note p = consume_part_arrives [OF A ready head header part all(3) refl all(2,1)]
        define c' where "c' = snd (consume_part I isServer (head_size isServer p) (length p) (accepted_frame opc c))"
        have "?call = consume_part I isServer (head_size isServer p) (length p) (accepted_frame opc c)"
          using call by (simp only: if_not_P [OF False])
        moreover have "\<dots> = (True, c')" by (simp add: prod_eq_iff c'_def consume_part_True)
        ultimately have "?call = (True, c')" by (rule trans)
        then have "consume_loop I isServer c = c'" using step by (simp only: prod.case if_True)
        then show ?thesis using p by (simp only: c'_def [symmetric]) (simp add: in_stream_def inside_def header_defs)
      qed
    qed
  qed
qed

text \<open>The payload ends in this read, or goes on in the next.\<close>

lemma continuation_ends:
  assumes ins: "inside limit ok isServer all (pws c) (view (pu c)) (rd (pm c) (psrc c) (plen c) @ F)"
      "spillLength (pws c) = 0" "ready (pu c)"
    and ends: "remainingBytes (pws c) \<le> plen c"
  defines "c' \<equiv> snd (consumeContinuation I isServer c)"
  shows "fst (consumeContinuation I isServer c) \<and> ready (pu c') \<and>
    at_head limit ok isServer all (pws c') (view (pu c')) (rd (pm c') (psrc c') (plen c') @ F) \<and> spillLength (pws c') = 0"
proof -
  let ?ws = "pws c" and ?b = "rd (pm c) (psrc c) (plen c)"
  obtain p ms where kind: "same_kind (opCode ?ws ! 0) (view (pu c))"
    and pm: "list_all (receivable limit ok) ms" "length p = remainingBytes ?ws"
    "?b @ F = body isServer (wmask ?ws) p @ concat (map (frame_of isServer) ms)"
    "ok (opCode ?ws ! 0) (ap_buffer (view (pu c)) @ p)"
    "all = ap_messages (view (pu c)) @ (opCode ?ws ! 0, ap_buffer (view (pu c)) @ p) # map content ms"
    using ins(1) by (auto simp: inside_def)
  have st: "\<not> wantsHead ?ws" "opStack ?ws = 0" "lastFin ?ws" "length (opCode ?ws) = 2"
    "0 < remainingBytes ?ws" "isServer \<Longrightarrow> length (wmask ?ws) = 4"
    using ins(1) by (simp_all add: inside_def)
  then have top: "top_opcode ?ws = opCode ?ws ! 0" by (simp add: top_opcode_def)
  define r where "r = remainingBytes ?ws"
  have b: "?b = rd (pm c) (psrc c) r @ rd (pm c) (psrc c + r) (plen c - r)"
    using rd_add [of "pm c" "psrc c" r "plen c - r"] ends by (simp add: r_def)
  have now: "rd (pm c) (psrc c) r = body isServer (wmask ?ws) p"
    "rd (pm c) (psrc c + r) (plen c - r) @ F = concat (map (frame_of isServer) ms)"
    using pm(2,3) by (simp_all add: b r_def append_eq_append_conv)
  define m where "m = unmask_rest isServer (pm c) (psrc c) ?ws"
  have data: "rd m (psrc c) r = p"
    using now(1) by (cases isServer) (simp_all add: m_def r_def rd_unmask_rest body_def)
  have rest: "rd m (psrc c + r) (plen c - r) = rd (pm c) (psrc c + r) (plen c - r)"
    by (rule rd_cong) (use unmask_rest_writes [of "pm c" isServer "psrc c" ?ws] in \<open>simp add: m_def r_def agree_off_def\<close>)
  obtain u where u: "handleFragment I p 0 (opCode ?ws ! 0) True (pu c) = (False, u)" "ready u"
    "view u = app_step (opCode ?ws ! 0) p 0 (view (pu c))"
    using takes_fragment [OF ins(3) kind, of p "[]"] pm(4) by auto
  then show ?thesis
    using now(2) pm st ins(2) ends data rest ready_open [OF u(2)]
    by (auto simp: c'_def consumeContinuation_def Let_def m_def [symmetric] r_def [symmetric] at_head_def top app_step_def)
qed

lemma continuation_goes_on:
  assumes ins: "inside limit ok isServer all (pws c) (view (pu c)) (rd (pm c) (psrc c) (plen c) @ F)"
      "spillLength (pws c) = 0" "ready (pu c)"
    and goes_on: "\<not> remainingBytes (pws c) \<le> plen c"
  defines "c' \<equiv> snd (consumeContinuation I isServer c)"
  shows "\<not> fst (consumeContinuation I isServer c) \<and> ready (pu c') \<and> in_stream limit ok isServer all (pws c') (view (pu c')) F"
proof -
  let ?ws = "pws c" and ?b = "rd (pm c) (psrc c) (plen c)"
  obtain p ms where kind: "same_kind (opCode ?ws ! 0) (view (pu c))"
    and pm: "list_all (receivable limit ok) ms" "length p = remainingBytes ?ws"
    "?b @ F = body isServer (wmask ?ws) p @ concat (map (frame_of isServer) ms)"
    "ok (opCode ?ws ! 0) (ap_buffer (view (pu c)) @ p)"
    "all = ap_messages (view (pu c)) @ (opCode ?ws ! 0, ap_buffer (view (pu c)) @ p) # map content ms"
    using ins(1) by (auto simp: inside_def)
  have st: "\<not> wantsHead ?ws" "opStack ?ws = 0" "lastFin ?ws" "length (opCode ?ws) = 2"
    "0 < remainingBytes ?ws" "isServer \<Longrightarrow> length (wmask ?ws) = 4"
    using ins(1) by (simp_all add: inside_def)
  define k where "k = plen c"
  have k: "k < length p" using goes_on pm(2) by (simp add: k_def)
  have now: "?b = body isServer (wmask ?ws) (take k p)" "F = drop k (body isServer (wmask ?ws) p) @ concat (map (frame_of isServer) ms)"
    using arg_cong [OF pm(3), of "take k"] arg_cong [OF pm(3), of "drop k"] k
    by (simp_all add: k_def body_take)
  define ws' where "ws' = rotate_if isServer k (?ws\<lparr>remainingBytes := remainingBytes ?ws - k\<rparr>)"
  have F: "F = body isServer (wmask ws') (drop k p) @ concat (map (frame_of isServer) ms)"
    using now(2) st(6) by (cases isServer) (simp_all add: ws'_def rotate_if_wmask body_drop, simp add: body_def)
  have data: "rd (unmask_chunk isServer (pm c) (psrc c) k ?ws) (psrc c) k = take k p"
    using now(1) by (cases isServer) (simp_all add: rd_unmask_chunk k_def body_def)
  obtain u where u: "handleFragment I (take k p) (length p - k) (opCode ?ws ! 0) True (pu c) = (False, u)" "ready u"
    "view u = app_step (opCode ?ws ! 0) (take k p) (length p - k) (view (pu c))"
    using takes_fragment [OF ins(3) kind, of "take k p" "drop k p"] pm(4) by auto
  have "same_kind (opCode ?ws ! 0) (view u)" using u(3) k by simp
  moreover have "consumeContinuation I isServer c = (False, c\<lparr>pm := unmask_chunk isServer (pm c) (psrc c) k ?ws, pws := ws', pu := u\<rparr>)"
    using goes_on data k pm(2) u(1) st(2,3)
    by (simp add: consumeContinuation_def Let_def k_def [symmetric] ws'_def top_opcode_def)
  moreover have "inside limit ok isServer all ws' (view u) F"
    using st pm F k u(3) ready_open [OF u(2)] rotate_if_wmask [of "?ws\<lparr>remainingBytes := remainingBytes ?ws - k\<rparr>" isServer k]
      \<open>same_kind (opCode ?ws ! 0) (view u)\<close>
    by (auto simp: inside_def ws'_def app_step_def intro!: exI [of _ "drop k p"] exI [of _ ms])
  ultimately show ?thesis
    using st(1) ins(2) u(2) by (simp add: c'_def in_stream_def ws'_def header_defs)
qed

lemma consumeContinuation_in_stream:
  fixes c :: "'u ctx"
  assumes ins: "inside limit ok isServer all (pws c) (view (pu c)) (rd (pm c) (psrc c) (plen c) @ F)"
      "spillLength (pws c) = 0" "ready (pu c)"
  defines "c' \<equiv> snd (consumeContinuation I isServer c)"
  shows "ready (pu c')"
    and "fst (consumeContinuation I isServer c) \<Longrightarrow>
      at_head limit ok isServer all (pws c') (view (pu c')) (rd (pm c') (psrc c') (plen c') @ F) \<and> spillLength (pws c') = 0"
    and "\<not> fst (consumeContinuation I isServer c) \<Longrightarrow> in_stream limit ok isServer all (pws c') (view (pu c')) F"
  using continuation_ends [OF ins] continuation_goes_on [OF ins] unfolding c'_def by blast+

text \<open>One call of \<open>consume\<close> on one read.\<close>

lemma consume_in_stream:
  assumes st: "in_stream limit ok isServer all (pws c) (view (pu c)) (rd (pm c) (psrc c) (plen c) @ F)"
    and room: "CONSUME_PRE_PADDING isServer \<le> psrc c" and ready: "ready (pu c)"
  shows "ready (pu (consume I isServer c)) \<and>
    in_stream limit ok isServer all (pws (consume I isServer c)) (view (pu (consume I isServer c))) F"
proof -
  let ?c = "restore_spill c"
  have k: "spillLength (pws c) \<le> psrc c" "spillLength (pws c) \<le> length (spill (pws c))"
    using st room by (auto simp: in_stream_def CONSUME_PRE_PADDING_def)
  note r = restore_spill_rd [OF k]
  show ?thesis
  proof (cases "wantsHead (pws c)")
    case True
    then have "at_head limit ok isServer all (pws ?c) (view (pu ?c)) (rd (pm ?c) (psrc ?c) (plen ?c) @ F)"
      using st r(1) by (simp add: in_stream_def)
    then show ?thesis
      using consume_loop_in_stream [of isServer all ?c F] r(2) True ready by (simp add: consume_def Let_def)
  next
    case False
    then have z: "spillLength (pws c) = 0" "inside limit ok isServer all (pws c) (view (pu c)) (rd (pm c) (psrc c) (plen c) @ F)"
      using st by (simp_all add: in_stream_def)
    then have c: "?c = c" by (simp add: restore_spill_def Let_def)
    note cc = consumeContinuation_in_stream [OF z(2,1) ready]
    show ?thesis
    proof (cases "fst (consumeContinuation I isServer c)")
      case True
      with cc False c show ?thesis
        using consume_loop_in_stream [of isServer all "snd (consumeContinuation I isServer c)" F]
        by (simp add: consume_def Let_def case_prod_beta)
    next
      case f: False
      with cc False c show ?thesis by (simp add: consume_def Let_def case_prod_beta)
    qed
  qed
qed

lemma feed_in_stream:
  assumes "in_stream limit ok isServer all (pws c) (view (pu c)) (concat bs @ F)" "CONSUME_PRE_PADDING isServer \<le> a" "ready (pu c)"
  shows "in_stream limit ok isServer all (pws (feed I isServer a bs c)) (view (pu (feed I isServer a bs c))) F"
  using assms
proof (induction bs arbitrary: c)
  case (Cons b bs)
  let ?c = "c\<lparr>pm := wr (pm c) a b, psrc := a, plen := length b\<rparr>"
  have "in_stream limit ok isServer all (pws ?c) (view (pu ?c)) (rd (pm ?c) (psrc ?c) (plen ?c) @ concat bs @ F)"
    using Cons.prems by simp
  then show ?case using Cons.IH Cons.prems(2,3) consume_in_stream by simp
qed simp

end

section \<open>Property\<close>

lemma le_bytes_4: "le_bytes 4 v = [word_of_nat v, word_of_nat (v div 256), word_of_nat (v div 256 div 256),
    word_of_nat (v div 256 div 256 div 256)]"
proof -
  have "4 = Suc (Suc (Suc (Suc 0)))" by simp
  then show ?thesis by (simp only: le_bytes.simps)
qed

definition fresh_ctx :: "wstate \<Rightarrow> mem \<Rightarrow> app ctx" where
  "fresh_ctx raw m = \<lparr>pm = m, psrc = 0, plen = 0, pws = State_init raw,
     pu = \<lparr>ap_buffer = [], ap_control = False, ap_messages = [], ap_closed = False\<rparr>\<rparr>"

lemma in_stream_done:
  assumes "in_stream limit ok isServer all ws u []"
  shows "ap_messages u = all" "ap_buffer u = []" "\<not> ap_closed u" "wantsHead ws" "opStack ws = -1"
proof -
  have w: "wantsHead ws"
  proof (rule ccontr)
    assume "\<not> wantsHead ws"
    with assms have "inside limit ok isServer all ws u []" by (simp add: in_stream_def)
    then obtain p where "0 < remainingBytes ws" "length p = remainingBytes ws" "body isServer (wmask ws) p = []"
      by (auto simp: inside_def)
    then show False by (metis length_body list.size(3) not_less_zero)
  qed
  with assms have "at_head limit ok isServer all ws u []" by (auto simp: in_stream_def spilled_def)
  moreover obtain ms where "concat (map (frame_of isServer) ms) = []" "all = ap_messages u @ map content ms"
    using calculation unfolding at_head_def by metis
  moreover from this have "ms = []"
    using short_is_no_frame [of "[]" isServer ms] by (simp add: header_defs)
  ultimately show "ap_messages u = all" "ap_buffer u = []" "\<not> ap_closed u" "wantsHead ws" "opStack ws = -1"
    by (simp_all add: at_head_def)
qed

text \<open>
  C2: Every cut of the stream delivers every message. Take any messages the sender may send
  (text, binary, close, ping, pong; control payloads of at most 125 bytes; none longer than the
  receiver's \<open>maxPayload\<close>), format each with \<open>formatMessage\<close> (masked with an arbitrary
  \<open>rand()\<close> when the receiver is a server), and cut the stream of bytes at arbitrary places into
  reads, even inside a header, a length or a mask. Then \<open>consume\<close>, called once per read on the
  same receive buffer and the same parser state, hands over exactly the messages sent, in order,
  each with its opcode and its payload unmasked; no fragment is left over, no connection is closed
  by force, and the parser is at the head of a frame again.
\<close>

theorem stream_delivers_messages:
  assumes "list_all (legal limit) ms" "concat reads = concat (map (frame_of isServer) ms)"
    and "CONSUME_PRE_PADDING isServer \<le> a" "length (opCode raw) = 2"
  shows "ap_messages (pu (feed (reassemble limit) isServer a reads (fresh_ctx raw m))) = map content ms \<and>
    ap_buffer (pu (feed (reassemble limit) isServer a reads (fresh_ctx raw m))) = [] \<and>
    \<not> ap_closed (pu (feed (reassemble limit) isServer a reads (fresh_ctx raw m))) \<and>
    wantsHead (pws (feed (reassemble limit) isServer a reads (fresh_ctx raw m))) \<and>
    opStack (pws (feed (reassemble limit) isServer a reads (fresh_ctx raw m))) = -1"
proof -
  let ?c = "fresh_ctx raw m" and ?r = "feed (reassemble limit) isServer a reads (fresh_ctx raw m)"
  let ?ok = "\<lambda>opc p. True"
  have "list_all (receivable limit ?ok) ms" using assms(1) by (auto simp: list_all_iff receivable_def)
  then have "at_head limit ?ok isServer (map content ms) (pws ?c) (pu ?c) (concat reads @ [])"
    using assms by (auto simp: at_head_def fresh_ctx_def State_init_def)
  then have "in_stream limit ?ok isServer (map content ms) (pws ?c) (pu ?c) (concat reads @ [])"
    by (rule in_stream_head) (simp add: fresh_ctx_def State_init_def)
  then have "in_stream limit ?ok isServer (map content ms) (pws ?r) (pu ?r) []"
    using assms(3) by (rule recorder.feed_in_stream) (simp add: fresh_ctx_def)
  from in_stream_done [OF this] show ?thesis by simp
qed

theorem stream_delivers_messages_witness:
  "ap_messages (pu (feed (reassemble 1000) True 13 [[0x82], [0x83, 0, 0, 0], [0, 7, 8], [9, 0x89, 0x80, 1, 2, 3, 4]]
     (fresh_ctx raw0 (\<lambda>i. 0)))) = [(BINARY, [7, 8, 9]), (PING, [])]"
proof -
  let ?ms = "[(BINARY, 0, [7, 8, 9]), (PING, 0x04030201, [])] :: sent_frame list"
    and ?reads = "[[0x82], [0x83, 0, 0, 0], [0, 7, 8], [9, 0x89, 0x80, 1, 2, 3, 4]] :: byte list list"
  have "list_all (legal 1000) ?ms" "CONSUME_PRE_PADDING True \<le> 13" "length (opCode raw0) = 2"
    by (simp_all add: legal_def raw0_def CONSUME_PRE_PADDING_def header_defs)
  moreover have "concat ?reads = concat (map (frame_of True) ?ms)"
    by (simp add: frame_of_eq extended_def length_code_def le_bytes_4 sender_mask_def body_def opcode_defs)
  ultimately have "ap_messages (pu (feed (reassemble 1000) True 13 ?reads (fresh_ctx raw0 (\<lambda>i. 0)))) = map content ?ms"
    using stream_delivers_messages [of 1000 ?ms ?reads True 13 raw0 "\<lambda>i. 0"] by blast
  then show ?thesis by (simp add: content_def)
qed

end
