(* ===== verification/WebSocketStream.thy ===== *)
theory WebSocketStream
  imports WebSocket ProtocolStream
begin

text \<open>
  The receiving side of a whole \<open>WebSocket\<close>: the parser with the socket's own \<open>handleFragment\<close>
  (\<open>ws_impl\<close>) is a \<open>receiver\<close> in the sense of \<open>ProtocolStream\<close>, for every application whose message
  handler leaves the socket open. So the messages a peer formats reach the message handler, once
  each and in order, however the system cuts the stream into reads.
\<close>

section \<open>An observed socket\<close>

definition open_socket :: "32 word \<Rightarrow> nat \<Rightarrow> world \<Rightarrow> bool" where
  "open_socket limit s w \<longleftrightarrow> \<not> isClosed w s \<and> \<not> isShuttingDown w s \<and>
     compressionStatus (socks w s) \<noteq> COMPRESSED_FRAME \<and> ws_maxPayload s w = limit"

definition ok_message :: "byte \<Rightarrow> byte list \<Rightarrow> bool" where
  "ok_message opc p \<longleftrightarrow> opc = BINARY \<or> opc = TEXT \<and> utf8_text p"

text \<open>
  The interface of the application: \<open>obs\<close> is what it makes of the messages it was handed. Its
  message handler returns, records the message and leaves the socket as it is; the library's own
  steps on the socket do not disturb the record.
\<close>

locale observed_socket =
  fixes E :: env and s :: nat and limit :: "32 word" and obs :: "world \<Rightarrow> (byte \<times> byte list) list"
  assumes obs_sock: "obs (upd_sock s f w) = obs w"
    and obs_cork: "obs (cork s b w) = obs w"
    and handler: "open_socket limit s w \<Longrightarrow>
      \<exists>w'. messageHandler E (s_node (socks w s)) s d opc w = Some w' \<and> socks w' s = socks w s \<and>
        ws_maxPayload s w' = limit \<and> obs w' = obs w @ [(opc, d)]"

definition ws_view :: "nat \<Rightarrow> (world \<Rightarrow> (byte \<times> byte list) list) \<Rightarrow> world option \<Rightarrow> app" where
  "ws_view s obs u = (case u of
     Some w \<Rightarrow> \<lparr>ap_buffer = fragmentBuffer (socks w s), ap_control = False, ap_messages = obs w, ap_closed = False\<rparr>
   | None \<Rightarrow> \<lparr>ap_buffer = [], ap_control = False, ap_messages = [], ap_closed = True\<rparr>)"

definition ws_ready :: "32 word \<Rightarrow> nat \<Rightarrow> world option \<Rightarrow> bool" where
  "ws_ready limit s u \<longleftrightarrow> (case u of Some w \<Rightarrow> open_socket limit s w | None \<Rightarrow> False)"

lemma open_socket_upd:
  assumes "s_fd (f (socks w s)) = s_fd (socks w s)" "s_shutting (f (socks w s)) = s_shutting (socks w s)"
    "s_node (f (socks w s)) = s_node (socks w s)" "compressionStatus (f (socks w s)) = compressionStatus (socks w s)"
  shows "open_socket limit s (upd_sock s f w) = open_socket limit s w"
  using assms by (simp add: open_socket_def isClosed_def isShuttingDown_def ws_maxPayload_def sock_group_def access)

lemma open_socket_cork [simp]: "open_socket limit s (cork t b w) = open_socket limit s w"
  by (simp add: open_socket_def isClosed_def isShuttingDown_def ws_maxPayload_def sock_group_def cork_def access)

context observed_socket begin

lemma deliver_open:
  assumes "open_socket limit s w" "ok_message opc d"
  obtains w' where "deliver E (s_node (socks w s)) s d opc w = Some (False, w')" "open_socket limit s w'"
    "socks w' s = socks w s" "obs w' = obs w @ [(opc, d)]"
proof -
  obtain w' where w': "messageHandler E (s_node (socks w s)) s d opc w = Some w'" "socks w' s = socks w s"
    "ws_maxPayload s w' = limit" "obs w' = obs w @ [(opc, d)]"
    using handler [OF assms(1)] by blast
  then have "open_socket limit s w'"
    using assms(1) by (simp add: open_socket_def isClosed_def isShuttingDown_def)
  moreover from this have "deliver E (s_node (socks w s)) s d opc w = Some (False, w')"
    using assms(2) w'(1)
    by (auto simp: deliver_def ok_message_def isValidUtf8_iff stop_if_gone_def open_socket_def TEXT_def BINARY_def)
  ultimately show thesis using w' that by blast
qed

text \<open>A fragment of a data message, with \<open>later\<close> bytes of the message still to come.\<close>

lemma handle_data_open:
  assumes open_s: "open_socket limit s w" and ok: "ok_message opc (fragmentBuffer (socks w s) @ d @ later)"
  obtains w' where "handle_data E (s_node (socks w s)) s d (length later) opc True w = Some (False, w')"
    "open_socket limit s w'"
    "fragmentBuffer (socks w' s) = (if later = [] then [] else fragmentBuffer (socks w s) @ d)"
    "obs w' = (if later = [] then obs w @ [(opc, fragmentBuffer (socks w s) @ d)] else obs w)"
proof -
  let ?B = "fragmentBuffer (socks w s)" and ?g = "s_node (socks w s)"
  have plain: "compressionStatus (socks w s) \<noteq> COMPRESSED_FRAME" using open_s by (simp add: open_socket_def)
  define w1 where "w1 = upd_sock s (\<lambda>x. x\<lparr>fragmentBuffer := fragmentBuffer x @ d\<rparr>) w"
  have w1: "open_socket limit s w1" "fragmentBuffer (socks w1 s) = ?B @ d" "obs w1 = obs w" "s_node (socks w1 s) = ?g"
    "compressionStatus (socks w1 s) = compressionStatus (socks w s)"
    using open_s by (simp_all add: w1_def open_socket_upd access obs_sock)
  consider (now) "later = []" "?B = []" | (last) "later = []" "?B \<noteq> []" | (more) "later \<noteq> []" by blast
  then show thesis
  proof cases
    case now
    with ok obtain w' where "deliver E ?g s d opc w = Some (False, w')" "open_socket limit s w'"
      "socks w' s = socks w s" "obs w' = obs w @ [(opc, d)]"
      using deliver_open [OF open_s, of opc d] by auto
    with now plain show thesis by (intro that [of w']) (simp_all add: handle_data_def)
  next
    case last
    with ok obtain w' where w': "deliver E ?g s (?B @ d) opc w1 = Some (False, w')" "open_socket limit s w'"
      "socks w' s = socks w1 s" "obs w' = obs w1 @ [(opc, ?B @ d)]"
      using deliver_open [OF w1(1), of opc "?B @ d"] w1(4) by auto
    with last plain w1 show thesis
      by (intro that [of "upd_sock s (\<lambda>x. x\<lparr>fragmentBuffer := []\<rparr>) w'"])
         (simp_all add: handle_data_def Let_def w1_def [symmetric] open_socket_upd access obs_sock)
  next
    case more
    with w1 show thesis
      by (intro that [of w1]) (simp_all add: handle_data_def Let_def w1_def [symmetric])
  qed
qed

end

sublocale observed_socket \<subseteq> receiver "ws_impl E isServer s" limit ok_message "ws_ready limit s" "ws_view s obs"
proof
  fix u opc d and later :: "byte list"
  assume "ws_ready limit s u"
  then show "maxPayload (ws_impl E isServer s) u = limit" "\<not> ap_closed (ws_view s obs u)"
    by (auto simp: ws_ready_def ws_impl_def ws_view_def open_socket_def split: option.splits)
next
  fix u opc d and later :: "byte list"
  assume r: "ws_ready limit s u" and ok: "ok_message opc (ap_buffer (ws_view s obs u) @ d @ later)"
  then obtain w where w: "u = Some w" "open_socket limit s w" "ok_message opc (fragmentBuffer (socks w s) @ d @ later)"
    by (auto simp: ws_ready_def ws_view_def split: option.splits)
  obtain w' where w': "handle_data E (s_node (socks w s)) s d (length later) opc True w = Some (False, w')"
    "open_socket limit s w'"
    "fragmentBuffer (socks w' s) = (if later = [] then [] else fragmentBuffer (socks w s) @ d)"
    "obs w' = (if later = [] then obs w @ [(opc, fragmentBuffer (socks w s) @ d)] else obs w)"
    using handle_data_open [OF w(2,3)] .
  have opc: "opc < 3" "\<not> 2 < opc" using ok by (auto simp: ok_message_def TEXT_def BINARY_def)
  with w' have "handle_fragment E isServer s d (length later) opc True w = Some (False, w')"
    by (simp add: handle_fragment_def Let_def)
  with w' w opc(2) show "\<exists>u'. handleFragment (ws_impl E isServer s) d (length later) opc True u = (False, u') \<and>
      ws_ready limit s u' \<and> ws_view s obs u' = app_step opc d (length later) (ws_view s obs u)"
    by (intro exI [of _ "Some w'"]) (simp add: ws_impl_def ws_ready_def ws_view_def app_step_def)
qed

section \<open>A sequence of reads\<close>

text \<open>Each read finds the receive buffer as it is then, and stores its bytes in it.\<close>

fun ws_reads :: "env \<Rightarrow> bool \<Rightarrow> nat \<Rightarrow> (mem \<times> byte list) list \<Rightarrow> world \<Rightarrow> world option" where
  "ws_reads E isServer s [] w = Some w"
| "ws_reads E isServer s ((m, b) # bs) w =
     do { (t, w) \<leftarrow> ws_onData E isServer s (wr m (recv_buffer E) b) (recv_buffer E) (length b) w;
          ws_reads E isServer s bs w }"

lemma cork_socks [simp]: "socks (cork s b w) = socks w"
  by (simp add: cork_def access)

text \<open>
  What a socket behind the parser must keep so that whole calls of \<open>onData\<close> read on in the stream:
  it stays open, and the bookkeeping of \<open>onData\<close> around the parser does not disturb it.
\<close>

locale socket_receiver = receiver "ws_impl E isServer s" limit ok ready view
  for E isServer s limit ok ready view +
  assumes ready_socket: "ready u \<Longrightarrow> \<exists>w. u = Some w \<and> \<not> isClosed w s \<and> \<not> isShuttingDown w s"
    and ready_steps: "ready (Some (upd_sock s (\<lambda>x. x\<lparr>hasOutstandingPong := p\<rparr>) w)) = ready (Some w)"
      "ready (Some (upd_sock s (\<lambda>x. x\<lparr>s_ws := v\<rparr>) w)) = ready (Some w)" "ready (Some (cork s b w)) = ready (Some w)"
    and view_steps: "view (Some (upd_sock s (\<lambda>x. x\<lparr>hasOutstandingPong := p\<rparr>) w)) = view (Some w)"
      "view (Some (upd_sock s (\<lambda>x. x\<lparr>s_ws := v\<rparr>) w)) = view (Some w)" "view (Some (cork s b w)) = view (Some w)"

text \<open>The stream as the socket stands in it between two reads.\<close>

definition reads_on ::
  "32 word \<Rightarrow> (byte \<Rightarrow> byte list \<Rightarrow> bool) \<Rightarrow> (world option \<Rightarrow> bool) \<Rightarrow> (world option \<Rightarrow> app) \<Rightarrow> bool \<Rightarrow> nat \<Rightarrow>
   (byte \<times> byte list) list \<Rightarrow> world \<Rightarrow> byte list \<Rightarrow> bool" where
  "reads_on limit ok ready view isServer s all w F \<longleftrightarrow> ready (Some w) \<and>
     in_stream limit ok isServer all (s_ws (socks w s)) (view (Some w)) F"

context socket_receiver begin

lemma ws_consume_reads_on:
  assumes st: "reads_on limit ok ready view isServer s all w (b @ F)" and room: "CONSUME_PRE_PADDING isServer \<le> a"
    and size: "length b < 2 ^ 32" and mem: "rd m a (length b) = b"
  obtains w' where "ws_consume E isServer s m a (length b) w = Some w'" "reads_on limit ok ready view isServer s all w' F"
proof -
  define c where "c = \<lparr>pm = m, psrc = a, plen = length b mod 2 ^ 32, pws = s_ws (socks w s), pu = Some w\<rparr>"
  define c' where "c' = consume (ws_impl E isServer s) isServer c"
  have "in_stream limit ok isServer all (pws c) (view (pu c)) (rd (pm c) (psrc c) (plen c) @ F)" "ready (pu c)"
    using st size mem by (simp_all add: c_def reads_on_def)
  then have c': "ready (pu c')" "in_stream limit ok isServer all (pws c') (view (pu c')) F"
    using consume_in_stream [of isServer all c F] room unfolding c'_def by (simp_all add: c_def)
  obtain w2 where w2: "pu c' = Some w2" using ready_socket [OF c'(1)] by blast
  define w3 where "w3 = upd_sock s (\<lambda>x. x\<lparr>s_ws := pws c'\<rparr>) w2"
  have "ws_consume E isServer s m a (length b) w = Some w3"
    by (simp only: ws_consume_def Let_def c_def [symmetric] c'_def [symmetric] w2 option.map w3_def)
  moreover have "reads_on limit ok ready view isServer s all w3 F"
    using c' by (simp add: reads_on_def ready_steps view_steps w3_def w2 access)
  ultimately show thesis by (rule that)
qed

text \<open>A step that leaves the socket as it is.\<close>

lemma reads_on_step:
  assumes "reads_on limit ok ready view isServer s all w F" "ready (Some w') = ready (Some w)" "view (Some w') = view (Some w)"
    "s_ws (socks w' s) = s_ws (socks w s)"
  shows "reads_on limit ok ready view isServer s all w' F"
  using assms by (simp add: reads_on_def)

lemma ws_onData_reads_on:
  assumes st: "reads_on limit ok ready view isServer s all w (b @ F)" and room: "CONSUME_PRE_PADDING isServer \<le> a"
    and size: "length b < 2 ^ 32"
  obtains w' where "ws_onData E isServer s (wr m a b) a (length b) w = Some (s, w')"
    "reads_on limit ok ready view isServer s all w' F"
proof -
  define w1 where "w1 = cork s True (upd_sock s (\<lambda>x. x\<lparr>hasOutstandingPong := False\<rparr>) w)"
  have "reads_on limit ok ready view isServer s all w1 (b @ F)"
    using st by (rule reads_on_step) (simp_all add: w1_def ready_steps view_steps access)
  then obtain w3 where w3: "ws_consume E isServer s (wr m a b) a (length b) w1 = Some w3" "reads_on limit ok ready view isServer s all w3 F"
    by (rule ws_consume_reads_on [OF _ room size rd_wr])
  have "\<not> isShuttingDown (upd_sock s (\<lambda>x. x\<lparr>hasOutstandingPong := False\<rparr>) w) s"
    using ready_socket [of "Some w"] st by (simp add: reads_on_def isShuttingDown_def access)
  moreover have "\<not> isClosed w3 s" using ready_socket [of "Some w3"] w3(2) by (auto simp: reads_on_def)
  ultimately have "ws_onData E isServer s (wr m a b) a (length b) w = Some (s, cork s False w3)"
    using w3(1) by (simp add: ws_onData_def Let_def w1_def [symmetric])
  moreover have "reads_on limit ok ready view isServer s all (cork s False w3) F"
    using w3(2) by (rule reads_on_step) (simp_all add: ready_steps view_steps access)
  ultimately show thesis by (rule that)
qed

lemma ws_reads_on:
  assumes "reads_on limit ok ready view isServer s all w (concat (map snd reads) @ F)"
    "CONSUME_PRE_PADDING isServer \<le> recv_buffer E" "list_all (\<lambda>(m, b). length b < 2 ^ 32) reads"
  shows "\<exists>w'. ws_reads E isServer s reads w = Some w' \<and> reads_on limit ok ready view isServer s all w' F"
  using assms
proof (induction reads arbitrary: w)
  case (Cons mb reads)
  obtain m b where mb: "mb = (m, b)" by (cases mb)
  obtain w1 where w1: "ws_onData E isServer s (wr m (recv_buffer E) b) (recv_buffer E) (length b) w = Some (s, w1)"
    "reads_on limit ok ready view isServer s all w1 (concat (map snd reads) @ F)"
    using ws_onData_reads_on [of all w b "concat (map snd reads) @ F" "recv_buffer E" m] Cons.prems mb by auto
  then show ?case using Cons.IH [of w1] Cons.prems mb by simp
qed simp

text \<open>From the head of a frame to the end of the stream.\<close>

lemma reads_on_start:
  assumes "ready (Some w)" "s_ws (socks w s) = State_init raw" "length (opCode raw) = 2"
    and "ap_buffer (view (Some w)) = []" "ap_messages (view (Some w)) = []"
    and "list_all (receivable limit ok) ms" "F = concat (map (frame_of isServer) ms)"
  shows "reads_on limit ok ready view isServer s (map content ms) w F"
proof -
  have "at_head limit ok isServer (map content ms) (s_ws (socks w s)) (view (Some w)) F"
    using assms(2-7) ready_open [OF assms(1)] by (auto simp: at_head_def State_init_def)
  then have "in_stream limit ok isServer (map content ms) (s_ws (socks w s)) (view (Some w)) F"
    by (rule in_stream_head) (simp add: assms(2) State_init_def)
  then show ?thesis using assms(1) by (simp add: reads_on_def)
qed

lemma reads_on_end:
  assumes "reads_on limit ok ready view isServer s all w []"
  shows "ready (Some w)" "ap_messages (view (Some w)) = all" "ap_buffer (view (Some w)) = []"
    "wantsHead (s_ws (socks w s))" "opStack (s_ws (socks w s)) = -1"
  using assms in_stream_done [of limit ok isServer all "s_ws (socks w s)" "view (Some w)"] by (simp_all add: reads_on_def)

lemma stream_received:
  assumes "ready (Some w)" "s_ws (socks w s) = State_init raw" "length (opCode raw) = 2"
    and "ap_buffer (view (Some w)) = []" "ap_messages (view (Some w)) = []"
    and "list_all (receivable limit ok) ms" "concat (map snd reads) = concat (map (frame_of isServer) ms)"
    and "CONSUME_PRE_PADDING isServer \<le> recv_buffer E" "list_all (\<lambda>(m, b). length b < 2 ^ 32) reads"
  obtains w' where "ws_reads E isServer s reads w = Some w'" "ready (Some w')" "ap_messages (view (Some w')) = map content ms"
    "ap_buffer (view (Some w')) = []" "wantsHead (s_ws (socks w' s))" "opStack (s_ws (socks w' s)) = -1"
proof -
  have "reads_on limit ok ready view isServer s (map content ms) w (concat (map snd reads) @ [])"
    using reads_on_start [OF assms(1-6)] assms(7) by simp
  then obtain w' where "ws_reads E isServer s reads w = Some w'" "reads_on limit ok ready view isServer s (map content ms) w' []"
    using ws_reads_on [OF _ assms(8,9)] by blast
  with reads_on_end show thesis by (intro that [of w'])
qed

end

lemma ws_view_cong:
  "fragmentBuffer (socks w s) = fragmentBuffer (socks w' s) \<Longrightarrow> obs w = obs w' \<Longrightarrow> ws_view s obs (Some w) = ws_view s obs (Some w')"
  by (simp add: ws_view_def)

sublocale observed_socket \<subseteq> socket_receiver E isServer s limit ok_message "ws_ready limit s" "ws_view s obs"
proof
  fix u w p v b
  show "ws_ready limit s u \<Longrightarrow> \<exists>w. u = Some w \<and> \<not> isClosed w s \<and> \<not> isShuttingDown w s"
    by (auto simp: ws_ready_def open_socket_def split: option.splits)
  show "ws_ready limit s (Some (upd_sock s (\<lambda>x. x\<lparr>hasOutstandingPong := p\<rparr>) w)) = ws_ready limit s (Some w)"
    "ws_ready limit s (Some (upd_sock s (\<lambda>x. x\<lparr>s_ws := v\<rparr>) w)) = ws_ready limit s (Some w)"
    "ws_ready limit s (Some (cork s b w)) = ws_ready limit s (Some w)"
    by (simp_all add: ws_ready_def open_socket_upd)
  show "ws_view s obs (Some (upd_sock s (\<lambda>x. x\<lparr>hasOutstandingPong := p\<rparr>) w)) = ws_view s obs (Some w)"
    "ws_view s obs (Some (upd_sock s (\<lambda>x. x\<lparr>s_ws := v\<rparr>) w)) = ws_view s obs (Some w)"
    "ws_view s obs (Some (cork s b w)) = ws_view s obs (Some w)"
    by (rule ws_view_cong; simp add: access obs_cork obs_sock)+
qed

context observed_socket begin

lemmas stream_observed = stream_received

end

section \<open>Property\<close>

text \<open>
  A WebSocket hands its application exactly the messages its peer sent. For every list of
  binary and UTF-8 text messages (none longer than the group's \<open>maxPayload\<close>), formatted by
  the peer's \<open>formatMessage\<close> and cut into reads anywhere, the calls of \<open>onData\<close> (one per
  read, on a receive buffer with arbitrary other contents) call the message handler once per
  message, in order, with the message's opcode and its whole payload; the socket is still open
  afterwards and no fragment is left over. \<open>obs\<close> is the application's own record of the messages
  it was handed; it starts empty.
\<close>

theorem websocket_delivers_messages:
  assumes "observed_socket E s limit obs"
    and "open_socket limit s w" "s_ws (socks w s) = State_init raw" "length (opCode raw) = 2"
    and "fragmentBuffer (socks w s) = []" "obs w = []"
    and "list_all (\<lambda>(opc, r, p). ok_message opc p \<and> length p \<le> unat limit) ms"
    and "concat (map snd reads) = concat (map (frame_of isServer) ms)"
    and "list_all (\<lambda>(m, b). length b < 2 ^ 32) reads" "CONSUME_PRE_PADDING isServer \<le> recv_buffer E"
  shows "\<exists>w'. ws_reads E isServer s reads w = Some w' \<and> obs w' = map content ms \<and>
    open_socket limit s w' \<and> fragmentBuffer (socks w' s) = []"
proof -
  have "list_all (receivable limit ok_message) ms"
    using assms(7) by (auto simp: list_all_iff receivable_def legal_def ok_message_def)
  moreover have "ws_ready limit s (Some w)" "ap_buffer (ws_view s obs (Some w)) = []" "ap_messages (ws_view s obs (Some w)) = []"
    using assms(2,5,6) by (simp_all add: ws_ready_def ws_view_def)
  ultimately obtain w' where "ws_reads E isServer s reads w = Some w'" "ws_ready limit s (Some w')"
    "ap_messages (ws_view s obs (Some w')) = map content ms" "ap_buffer (ws_view s obs (Some w')) = []"
    using observed_socket.stream_observed [OF assms(1) _ assms(3,4) _ _ _ assms(8,10,9)] by metis
  then show ?thesis by (simp add: ws_ready_def ws_view_def)
qed

text \<open>The sample application writes each message, with its opcode, to a descriptor of its own.\<close>

definition recording_env :: env where
  "recording_env = env0\<lparr>messageHandler := (\<lambda>g s d opc w. Some (log (E_ssl_write (unat opc) d 0) w))\<rparr>"

definition recorded :: "world \<Rightarrow> (byte \<times> byte list) list" where
  "recorded w = concat (map (\<lambda>e. case e of E_ssl_write n d r \<Rightarrow> [(word_of_nat n, d)] | _ \<Rightarrow> []) (trace w))"

interpretation recording: observed_socket recording_env 4 limit recorded
proof
  fix f w b d opc
  show "recorded (upd_sock 4 f w) = recorded w" "recorded (cork 4 b w) = recorded w"
    by (simp_all add: recorded_def cork_def access)
  show "open_socket limit 4 w \<Longrightarrow> \<exists>w'. messageHandler recording_env (s_node (socks w 4)) 4 d opc w = Some w' \<and>
      socks w' 4 = socks w 4 \<and> ws_maxPayload 4 w' = limit \<and> recorded w' = recorded w @ [(opc, d)]"
    by (simp add: recording_env_def recorded_def access open_socket_def ws_maxPayload_def sock_group_def)
qed

theorem websocket_delivers_messages_witness:
  "\<exists>w'. ws_reads recording_env True 4
      [(\<lambda>i. 0, [0x82, 0x83, 0, 0]), (\<lambda>i. 9, [0, 0, 7]), (\<lambda>i. 1, [8, 9, 0x81, 0x80, 1, 2, 3, 4])] world0 = Some w' \<and>
     recorded w' = [(BINARY, [7, 8, 9]), (TEXT, [])]"
proof -
  let ?ms = "[(BINARY, 0, [7, 8, 9]), (TEXT, 0x04030201, [])] :: sent_frame list"
    and ?reads = "[(\<lambda>i. 0, [0x82, 0x83, 0, 0]), (\<lambda>i. 9, [0, 0, 7]), (\<lambda>i. 1, [8, 9, 0x81, 0x80, 1, 2, 3, 4])] :: (mem \<times> byte list) list"
  have "observed_socket recording_env 4 16777216 recorded" by (rule recording.observed_socket_axioms)
  moreover have "open_socket 16777216 4 world0" "s_ws (socks world0 4) = State_init raw0" "length (opCode raw0) = 2"
    "fragmentBuffer (socks world0 4) = []" "recorded world0 = []" "CONSUME_PRE_PADDING True \<le> recv_buffer recording_env"
    by (simp_all add: open_socket_def world0_def sock0_def isClosed_def isShuttingDown_def ws_maxPayload_def sock_group_def
        group0_def raw0_def recorded_def recording_env_def env0_def CONSUME_PRE_PADDING_def header_defs)
  moreover have "list_all (\<lambda>(opc, r, p). ok_message opc p \<and> length p \<le> unat (16777216 :: 32 word)) ?ms"
    "list_all (\<lambda>(m, b). length b < 2 ^ 32) ?reads"
    by (simp_all add: ok_message_def isValidUtf8_iff [symmetric] isValidUtf8.simps)
  moreover have "concat (map snd ?reads) = concat (map (frame_of True) ?ms)"
    by (simp add: frame_of_eq extended_def length_code_def le_bytes_4 sender_mask_def body_def opcode_defs)
  ultimately have "\<exists>w'. ws_reads recording_env True 4 ?reads world0 = Some w' \<and> recorded w' = map content ?ms \<and>
      open_socket 16777216 4 w' \<and> fragmentBuffer (socks w' 4) = []"
    using websocket_delivers_messages [of recording_env 4 16777216 recorded world0 raw0 ?ms ?reads True] by blast
  then show ?thesis by (auto simp: content_def)
qed

end
