(* ===== verification/SocketFrame.thy ===== *)
theory SocketFrame
  imports SocketStream
begin

text \<open>
  What writing to a socket leaves alone. Every write changes the state by the same few steps: it
  extends the trace, takes and releases blocks of the pool, changes the poll bits and the message
  queue of the one socket, and may put the socket on a queue of its group. A relation that absorbs
  these steps (\<open>write_frame\<close>) holds between the states before and after each operation.
\<close>

definition io_event :: "event \<Rightarrow> bool" where
  "io_event e \<longleftrightarrow> (case e of E_send fd d r \<Rightarrow> True | E_ssl_write n d r \<Rightarrow> True | E_epoll_mod i j n v \<Rightarrow> True
     | E_eventfd_write fd \<Rightarrow> True | E_rand \<Rightarrow> True | E_shutdown fd \<Rightarrow> True | E_ssl_shutdown n \<Rightarrow> True
     | E_cork fd b \<Rightarrow> True | _ \<Rightarrow> False)"

lemma io_event_simps [simp]:
  "io_event (E_send fd d r)" "io_event (E_ssl_write n d r)" "io_event (E_epoll_mod i j n e)" "io_event (E_eventfd_write fd)"
  "io_event E_rand" "io_event (E_shutdown fd)" "io_event (E_ssl_shutdown n)" "io_event (E_cork fd b)"
  by (simp_all add: io_event_def)

locale write_frame =
  fixes Q :: "world \<Rightarrow> world \<Rightarrow> bool" and s :: nat
  assumes same: "Q w w"
    and chain: "Q w w' \<Longrightarrow> Q w' w'' \<Longrightarrow> Q w w''"
    and log: "io_event e \<Longrightarrow> Q w (log e w)"
    and pool: "Q w (upd_pool f w)"
    and group: "Q w (upd_group g (\<lambda>x. x\<lparr>changePollQueue := q x\<rparr>) w)"
    and queue: "Q w (upd_sock s (\<lambda>x. x\<lparr>s_queue := ms x\<rparr>) w)"
    and poll: "Q w (upd_sock s (\<lambda>x. x\<lparr>s_poll := p\<rparr>) w)"
begin

lemmas steps = same log pool group queue poll

lemma chain_log: "Q w w' \<Longrightarrow> io_event e \<Longrightarrow> Q w (log e w')"
  by (rule chain [OF _ log])

lemma changePoll: "Q w (changePoll E s w)"
  by (auto simp: changePoll_def poll_change_def send_async_def async_send_def Let_def intro: steps chain_log)

lemma poll_writable: "Q w (poll_writable E s w)"
  by (auto simp: poll_writable_def setPoll_def intro: chain [OF poll changePoll] steps)

lemma change_to: "Q w (change_to s p w)"
  by (simp add: change_to_def Let_def setPoll_def poll_change_def chain_log poll)

lemma allocs:
  "Q w (snd (getSmall i w))" "Q w (snd (allocMessage n w))" "Q w (freeSmall a i w)" "Q w (freeMessage a w)"
  by (simp_all add: getSmall_def allocMessage_def freeSmall_def freeMessage_def Let_def case_prod_beta pool)

lemma queues: "Q w (enqueue s m w)" "Q w (set_callback s cb d r w)"
  by (simp_all add: enqueue_def set_callback_def queue)

lemma pop: "pop_message s w = Some w' \<Longrightarrow> Q w w'"
  by (auto simp: pop_message_def split: list.splits intro: chain [OF allocs(4) queue])

lemma wrote: "Q w (snd (snd (sock_write E s m w)))"
proof -
  have 1: "io_event e \<Longrightarrow> Q w (enqueue s m (log e w))" for m e by (rule chain [OF log queues(1)])
  have 2: "io_event e \<Longrightarrow> Q w (enqueue s m (poll_writable E s (log e w)))" for m e
    by (rule chain [OF log chain [OF poll_writable queues(1)]])
  show ?thesis
    by (auto simp: sock_write_def write_ssl_def write_plain_def push_transferred_def Let_def queues 1 2 log
        split: option.splits ssl_error.splits)
qed

text \<open>With callbacks that the relation absorbs as well.\<close>

definition absorbs :: "env \<Rightarrow> msg_cb option \<Rightarrow> bool" where
  "absorbs E cb \<longleftrightarrow> (\<forall>so d c r w w'. call_cb E cb so d c r w = Some w' \<longrightarrow> Q w w')"

lemma after_write:
  assumes "absorbs E cb" "\<And>w. Q w (free w)" "after_write E s free cb d r (sock_write E s m w) = Some w'"
  shows "Q w w'"
proof -
  obtain ok tr w1 where w1: "sock_write E s m w = (ok, tr, w1)" by (cases "sock_write E s m w") auto
  then have 1: "Q w w1" using wrote [of w E m] by simp
  show ?thesis
    using assms(1,3) chain [OF 1 assms(2)] chain [OF 1 queues(2)]
    by (auto simp: after_write_def w1 absorbs_def split: if_splits intro: chain)
qed

lemma sendTransformed:
  assumes "absorbs E cb" "\<And>w b w'. transform w = Some (b, w') \<Longrightarrow> Q w w'"
    "sendTransformed E s est transform cb d w = Some w'"
  shows "Q w w'"
proof -
  have step: "Q v w1" if "Q v w2" "transform w2 = Some (b, w3)"
    "after_write E s free cb d r (sock_write E s m w3) = Some w1" "\<And>w. Q w (free w)" for v w1 w2 w3 b m free r
    using chain [OF chain [OF that(1) assms(2) [OF that(2)]] after_write [OF assms(1) that(4,3)]] .
  show ?thesis
  proof (cases "hasEmptyQueue w s")
    case True
    with assms(3) show ?thesis
      by (auto simp: sendTransformed_def Let_def case_prod_beta bind_eq_Some_conv split: if_splits
          elim!: step [rotated] intro: allocs)
  next
    case False
    with assms(3) obtain b w1 where "transform (snd (allocMessage est w)) = Some (b, w1)"
      "w' = enqueue s ((new_message (fst (allocMessage est w)) b)\<lparr>m_cb := cb, m_cbdata := d\<rparr>) w1"
      by (auto simp: sendTransformed_def Let_def case_prod_beta bind_eq_Some_conv)
    then show ?thesis using chain [OF chain [OF allocs(2) assms(2)] queues(1)] by blast
  qed
qed

end

section \<open>Sending returns\<close>

lemma after_write_returns:
  assumes "\<And>so d c r w. \<exists>w'. call_cb E cb so d c r w = Some w'"
  shows "\<exists>w'. after_write E s free cb d r x = Some w'"
  using assms by (cases x) (auto simp: after_write_def)

lemma sendTransformed_returns:
  assumes "\<And>so d c r w. \<exists>w'. call_cb E cb so d c r w = Some w'" "\<And>w. \<exists>r. transform w = Some r"
  shows "\<exists>w'. sendTransformed E s est transform cb d w = Some w'"
proof -
  have "\<exists>w'. do { (bytes, w) \<leftarrow> transform w; f bytes w } = Some w'" if "\<And>b w. \<exists>w'. f b w = Some w'" for f :: "byte list \<Rightarrow> world \<Rightarrow> world option" and w
    using assms(2) [of w] that by (auto simp: case_prod_beta)
  then show ?thesis
    using after_write_returns [OF assms(1)]
    by (auto simp: sendTransformed_def Let_def case_prod_beta)
qed

end
