(* ===== verification/HttpStream.thy ===== *)
theory HttpStream
  imports HttpServer SocketFrame
begin

text \<open>
  The order of HTTP responses (uWebSockets \<open>HTTPSocket.h\<close>): requests are pipelined, an application
  may end their responses in any order, and the bytes leave in the order of the requests. The
  outstanding responses of a socket are a list linked by \<open>next\<close>; \<open>linked\<close> is its shape. The last
  part shows what the cache of responses does to it.
\<close>

section \<open>What writing leaves alone\<close>

definition silent_callbacks :: "env \<Rightarrow> bool" where
  "silent_callbacks E \<longleftrightarrow> (\<forall>n so d c r w. \<exists>w'. user_callback E n so d c r w = Some w' \<and>
     socks w' = socks w \<and> trace w' = trace w \<and> resps w' = resps w)"

lemma silent_quiet: "silent_callbacks E \<Longrightarrow> quiet_callbacks E"
  unfolding silent_callbacks_def quiet_callbacks_def by meson

definition same_http :: "world \<Rightarrow> world \<Rightarrow> bool" where
  "same_http w w' \<longleftrightarrow> resps w' = resps w \<and>
     (\<forall>t. outstandingResponsesHead (socks w' t) = outstandingResponsesHead (socks w t) \<and>
       outstandingResponsesTail (socks w' t) = outstandingResponsesTail (socks w t) \<and>
       preAllocatedResponse (socks w' t) = preAllocatedResponse (socks w t))"

lemma same_http_refl [simp]: "same_http w w"
  by (simp add: same_http_def)

lemma same_http_trans: "same_http w w' \<Longrightarrow> same_http w' w'' \<Longrightarrow> same_http w w''"
  by (simp add: same_http_def)

interpretation http_frame: write_frame same_http s
  by unfold_locales (auto simp: same_http_def access)

lemma silent_absorbed:
  assumes "silent_callbacks E" "user_cb cb"
  shows "http_frame.absorbs E cb"
  unfolding http_frame.absorbs_def
proof (intro allI impI)
  fix so d c r w w'
  assume c: "call_cb E cb so d c r w = Some w'"
  show "same_http w w'"
  proof (cases cb)
    case (Some k)
    then obtain n where n: "cb = Some (User_cb n)" using assms(2) by (cases k) (auto simp: user_cb_def)
    obtain w1 where "user_callback E n so d c r w = Some w1" "socks w1 = socks w" "resps w1 = resps w"
      using assms(1) unfolding silent_callbacks_def by meson
    then show ?thesis using c n by (simp add: call_cb_def same_http_def)
  qed (use c in \<open>simp add: call_cb_def\<close>)
qed

lemmas same_http_write = http_frame.wrote

lemma same_http_sendTransformed:
  "silent_callbacks E \<Longrightarrow> user_cb cb \<Longrightarrow> sendTransformed E s est (\<lambda>w. Some (bytes, w)) cb d w = Some w' \<Longrightarrow> same_http w w'"
  by (rule http_frame.sendTransformed [OF silent_absorbed]) auto

section \<open>The outstanding responses\<close>

definition head_of :: "nat list \<Rightarrow> nat option" where
  "head_of rs = (case rs of [] \<Rightarrow> None | r # _ \<Rightarrow> Some r)"

text \<open>\<open>D\<close> are the responses that have ended while an earlier one is outstanding, \<open>f\<close> their bodies.\<close>

fun linked :: "(nat \<Rightarrow> response) \<Rightarrow> nat \<Rightarrow> nat set \<Rightarrow> (nat \<Rightarrow> byte list) \<Rightarrow> nat list \<Rightarrow> bool" where
  "linked R s D f [] = True"
| "linked R s D f (r # rs) =
     (r \<notin> set rs \<and> r_socket (R r) = s \<and> r_next (R r) = head_of rs \<and> \<not> r_hasHead (R r) \<and>
      (if r \<in> D then r_hasEnded (R r) \<and> (\<exists>m. r_queue (R r) = [Some m] \<and> m_data m = response_bytes False (f r) \<and> user_cb (m_cb m))
       else \<not> r_hasEnded (R r) \<and> r_queue (R r) = []) \<and>
      linked R s D f rs)"

lemma linked_other: "r \<notin> set rs \<Longrightarrow> linked (R(r := x)) s (insert r D) f rs = linked R s D f rs"
  by (induction rs) auto

lemma linked_cong: "(\<And>r. r \<in> set rs \<Longrightarrow> R' r = R r) \<Longrightarrow> linked R' s D f rs = linked R s D f rs"
  by (induction rs) simp_all

lemma linked_end:
  assumes "linked R s D f rs" "r \<in> set rs" "r \<notin> D" "m_data m = response_bytes False (f r)" "user_cb (m_cb m)"
  shows "linked (R(r := (R r)\<lparr>r_queue := Some m # r_queue (R r), r_hasEnded := True\<rparr>)) s (insert r D) f rs"
  using assms
proof (induction rs)
  case (Cons q rs)
  show ?case
  proof (cases "q = r")
    case True
    then show ?thesis using Cons.prems by (auto simp: linked_other simp del: fun_upd_apply) (simp_all add: fun_upd_same)
  next
    case False
    then show ?thesis using Cons by auto
  qed
qed simp

lemma freeResponse_frame [simp]:
  "resps (freeResponse r s w) = resps w"
  "stream (freeResponse r s w) s = stream w s" "plain_sock (socks (freeResponse r s w) s) = plain_sock (socks w s)"
  "outstandingResponsesHead (socks (freeResponse r s w) s) = outstandingResponsesHead (socks w s)"
  by (auto simp: freeResponse_def access same_http_def stream_def queued_def plain_sock_def sent_ev_def)

text \<open>Flushing the one message of a response that has ended.\<close>

definition dangling :: "nat \<Rightarrow> world \<Rightarrow> world" where
  "dangling h = upd_resp h (\<lambda>x. x\<lparr>r_queue := [None]\<rparr>)"

lemma dangling_frame [simp]:
  "socks (dangling h w) = socks w" "trace (dangling h w) = trace w" "w_pool (dangling h w) = w_pool w"
  "resps (dangling h w) = (resps w)(h := (resps w h)\<lparr>r_queue := [None]\<rparr>)"
  by (simp_all add: dangling_def access upd_resp_def)

lemma flush_stream:
  assumes "send_contract E" "silent_callbacks E" "user_cb cb" "plain_sock (socks w s)" "user_cb (m_cb m)"
    "r_queue (resps w h) = [Some m]"
  obtains w' where "flush_messages E s this cb d h [Some m] w = Some (False, w')" "same_http (dangling h w) w'"
    "plain_sock (socks w' s)" "stream w' s = stream w s @ m_data m"
proof -
  obtain ok tr w0 where w0: "sock_write E s m w = (ok, tr, w0)" by (cases "sock_write E s m w") auto
  have same: "same_http w w0" using same_http_write [where w = w and E = E and m = m and s = s] w0 by simp
  define w1 where "w1 = dangling h w0"
  have R: "resps w0 = resps w" using same by (simp add: same_http_def)
  have mark: "upd_resp h (\<lambda>x. x\<lparr>r_queue := dangle 0 (r_queue x)\<rparr>) w0 = w1"
    by (simp add: w1_def dangling_def upd_resp_def dangle_def R assms(6))
  have 1: "same_http (dangling h w) w1" using same by (simp add: same_http_def w1_def)
  have "stream w1 s = stream w0 s" by (rule stream_cong) (simp_all add: w1_def)
  then have 2: "ok" "plain_sock (socks w1 s)" "stream w1 s = stream w s @ m_data m" "tr \<Longrightarrow> s_queue (socks w1 s) \<noteq> []"
    using write_stream [OF assms(1,4,5) w0] by (auto simp: w1_def)
  show thesis
  proof (cases tr)
    case True
    note f = set_callback_frame [OF 2(4) [OF True]]
    have "stream (set_callback s cb d (m_reserved m) w1) s = stream w1 s" by (simp add: stream_def f(1-3))
    then show thesis
      using that [of "set_callback s cb d (m_reserved m) w1"] w0 2 True f(4) assms(3) mark
        same_http_trans [OF 1 http_frame.queues(2)] by simp
  next
    case False
    obtain w2 where c: "call_cb E cb (Some this) d False 0 (freeMessage (m_addr m) w1) = Some w2"
      "socks w2 = socks w1" "trace w2 = trace w1"
      using quiet_call [OF silent_quiet [OF assms(2)] assms(3), of "Some this" d False 0 "freeMessage (m_addr m) w1"] by auto
    then have "same_http (dangling h w) w2"
      using silent_absorbed [OF assms(2,3)] c(1) same_http_trans [OF 1 same_http_trans [OF http_frame.allocs(4)]]
      unfolding http_frame.absorbs_def by blast
    moreover have "stream w2 s = stream w1 s" using c by (intro stream_cong) simp_all
    ultimately show thesis
      using that [of w2] w0 c 2 False mark by simp
  qed
qed

text \<open>The head moves over every ended response, and their bytes go out in order.\<close>

definition bytes_of :: "(nat \<Rightarrow> byte list) \<Rightarrow> nat list \<Rightarrow> byte list" where
  "bytes_of f rs = concat (map (\<lambda>r. response_bytes False (f r)) rs)"

lemma advance_stream:
  assumes "send_contract E" "silent_callbacks E" "user_cb cb"
  shows "linked (resps w) s D f rs \<Longrightarrow> plain_sock (socks w s) \<Longrightarrow>
    \<exists>w'. advance_head E s this cb d (head_of rs) w = Some (head_of (dropWhile (\<lambda>r. r \<in> D) rs), w') \<and>
      (\<forall>r. r \<notin> set (takeWhile (\<lambda>r. r \<in> D) rs) \<longrightarrow> resps w' r = resps w r) \<and>
      plain_sock (socks w' s) \<and> stream w' s = stream w s @ bytes_of f (takeWhile (\<lambda>r. r \<in> D) rs)"
proof (induction rs arbitrary: w)
  case Nil
  show ?case by (subst advance_head.simps) (simp add: head_of_def bytes_of_def Nil.prems)
next
  case (Cons r rs)
  show ?case
  proof (cases "r \<in> D")
    case False
    with Cons.prems show ?thesis
      by (subst advance_head.simps) (simp add: head_of_def bytes_of_def)
  next
    case True
    with Cons.prems obtain m where r: "r_hasEnded (resps w r)" "r_queue (resps w r) = [Some m]" "m_data m = response_bytes False (f r)"
      "user_cb (m_cb m)" "r_next (resps w r) = head_of rs" "linked (resps w) s D f rs" "r \<notin> set rs" by auto
    obtain w1 where w1: "flush_messages E s this cb d r [Some m] w = Some (False, w1)" "same_http (dangling r w) w1"
      "plain_sock (socks w1 s)" "stream w1 s = stream w s @ response_bytes False (f r)"
      using flush_stream [OF assms Cons.prems(2) r(4,2), of this d] r(3) by metis
    let ?w2 = "freeResponse r s w1"
    have R: "resps w1 = (resps w)(r := (resps w r)\<lparr>r_queue := [None]\<rparr>)" using w1(2) by (simp add: same_http_def)
    have "linked (resps w1) s D f rs" using r(6,7) by (subst linked_cong [of _ _ "resps w"]) (auto simp: R)
    then obtain w' where w': "advance_head E s this cb d (head_of rs) ?w2 = Some (head_of (dropWhile (\<lambda>r. r \<in> D) rs), w')"
      "\<forall>q. q \<notin> set (takeWhile (\<lambda>r. r \<in> D) rs) \<longrightarrow> resps w' q = resps w1 q"
      "plain_sock (socks w' s)" "stream w' s = stream ?w2 s @ bytes_of f (takeWhile (\<lambda>r. r \<in> D) rs)"
      using Cons.IH [of ?w2] w1(3) by auto
    have "advance_head E s this cb d (head_of (r # rs)) w = Some (head_of (dropWhile (\<lambda>r. r \<in> D) (r # rs)), w')"
      using True r R w1(1) w'(1) by (subst advance_head.simps) (simp add: head_of_def [of "r # rs"] Let_def)
    then show ?thesis using w'(2-4) w1(4) True by (auto simp: bytes_of_def R)
  qed
qed

section \<open>Ending the responses of a socket\<close>

text \<open>
  The state of a connection: \<open>rs\<close> are the responses of the requests received, in their order, and
  \<open>D\<close> those ended so far. What left the socket are the responses up to the first unfinished one.
\<close>

definition in_order :: "nat \<Rightarrow> (nat \<Rightarrow> byte list) \<Rightarrow> nat list \<Rightarrow> nat set \<Rightarrow> byte list \<Rightarrow> world \<Rightarrow> bool" where
  "in_order s f rs D before w \<longleftrightarrow> (let out = dropWhile (\<lambda>r. r \<in> D) rs in
     plain_sock (socks w s) \<and> outstandingResponsesHead (socks w s) = head_of out \<and> linked (resps w) s D f out \<and>
     stream w s = before @ bytes_of f (takeWhile (\<lambda>r. r \<in> D) rs))"

lemma dropWhile_insert_head:
  assumes "dropWhile (\<lambda>x. x \<in> D) rs = r # out" "distinct rs"
  shows "dropWhile (\<lambda>x. x \<in> insert r D) rs = dropWhile (\<lambda>x. x \<in> D) out"
    "takeWhile (\<lambda>x. x \<in> insert r D) rs = takeWhile (\<lambda>x. x \<in> D) rs @ r # takeWhile (\<lambda>x. x \<in> D) out"
proof -
  let ?t = "takeWhile (\<lambda>x. x \<in> D) rs"
  have rs: "rs = ?t @ r # out" using assms(1) takeWhile_dropWhile_id [of "\<lambda>x. x \<in> D" rs] by simp
  then have d: "r \<notin> set out" using assms(2) by (metis distinct.simps(2) distinct_append)
  have t: "\<forall>x\<in>set ?t. x \<in> insert r D" by (auto dest: set_takeWhileD)
  have "dropWhile (\<lambda>x. x \<in> insert r D) out = dropWhile (\<lambda>x. x \<in> D) out"
    "takeWhile (\<lambda>x. x \<in> insert r D) out = takeWhile (\<lambda>x. x \<in> D) out"
    using d by (auto intro!: dropWhile_cong takeWhile_cong)
  then show "dropWhile (\<lambda>x. x \<in> insert r D) rs = dropWhile (\<lambda>x. x \<in> D) out"
    "takeWhile (\<lambda>x. x \<in> insert r D) rs = ?t @ r # takeWhile (\<lambda>x. x \<in> D) out"
    using t by (subst rs; simp)+
qed

lemma dropWhile_insert_other:
  assumes "dropWhile (\<lambda>x. x \<in> D) rs = q # out" "r \<noteq> q"
  shows "dropWhile (\<lambda>x. x \<in> insert r D) rs = q # out" "takeWhile (\<lambda>x. x \<in> insert r D) rs = takeWhile (\<lambda>x. x \<in> D) rs"
proof -
  let ?t = "takeWhile (\<lambda>x. x \<in> D) rs"
  have rs: "rs = ?t @ q # out" using assms(1) takeWhile_dropWhile_id [of "\<lambda>x. x \<in> D" rs] by simp
  have q: "q \<notin> D" using assms(1) by (metis dropWhile_eq_Cons_conv)
  have t: "\<forall>x\<in>set ?t. x \<in> insert r D" by (auto dest: set_takeWhileD)
  show "dropWhile (\<lambda>x. x \<in> insert r D) rs = q # out" "takeWhile (\<lambda>x. x \<in> insert r D) rs = ?t"
    using t q assms(2) by (subst rs; simp)+
qed

lemma linked_distinct: "linked R s D f rs \<Longrightarrow> distinct rs"
  by (induction rs) auto

lemma linked_in: "linked R s D f rs \<Longrightarrow> r \<in> set rs \<Longrightarrow> r_socket (R r) = s \<and> \<not> r_hasHead (R r)"
  by (induction rs) auto

lemma linked_outside: "r \<notin> set rs \<Longrightarrow> linked R s (insert r D) f rs = linked R s D f rs"
  by (induction rs) auto

lemma linked_dropWhile: "linked R s D f rs \<Longrightarrow> linked R s D f (dropWhile P rs)"
  by (induction rs) auto

lemma response_end_in_order:
  assumes "send_contract E" "silent_callbacks E" "user_cb cb" "distinct rs" "in_order s f rs D before w"
    and r: "r \<in> set rs" "r \<notin> D"
  shows "\<exists>w'. response_end E r (f r) cb d w = Some w' \<and> in_order s f rs (insert r D) before w'"
proof -
  define out where "out = dropWhile (\<lambda>r. r \<in> D) rs"
  have st: "plain_sock (socks w s)" "outstandingResponsesHead (socks w s) = head_of out" "linked (resps w) s D f out"
    "stream w s = before @ bytes_of f (takeWhile (\<lambda>r. r \<in> D) rs)"
    using assms(5) by (simp_all add: in_order_def out_def Let_def)
  have "set rs = set (takeWhile (\<lambda>r. r \<in> D) rs) \<union> set out"
    unfolding out_def by (metis set_append takeWhile_dropWhile_id)
  then have "r \<in> set out" using r by (auto dest: set_takeWhileD)
  then obtain q out' where q: "out = q # out'" by (cases out) auto
  note sock = linked_in [OF st(3) \<open>r \<in> set out\<close>]
  show ?thesis
  proof (cases "r = q")
    case False
    define m where "m = (new_message (fst (allocMessage (length (f r) + 128) w)) (response_bytes False (f r)))\<lparr>m_cb := cb, m_cbdata := d\<rparr>"
    define w1 where "w1 = snd (allocMessage (length (f r) + 128) w)"
    define w' where "w' = upd_resp r (\<lambda>x. x\<lparr>r_queue := Some m # r_queue x, r_hasEnded := True\<rparr>) w1"
    have w1: "resps w1 = resps w" "socks w1 = socks w" "trace w1 = trace w"
      by (simp_all add: w1_def allocMessage_def Let_def access split: prod.splits)
    have "response_end E r (f r) cb d w = Some w'"
      using False q st(2) sock by (simp add: response_end_def head_of_def Let_def w'_def w1_def m_def case_prod_beta)
    moreover have "linked (resps w') s (insert r D) f out"
      using linked_end [OF st(3) \<open>r \<in> set out\<close> r(2), of m] assms(3)
      by (simp add: w'_def upd_resp_def w1 m_def new_message_def)
    moreover have "stream w' s = stream w s" "socks w' = socks w"
      by (simp_all add: w'_def stream_def queued_def access w1)
    ultimately show ?thesis
      using st dropWhile_insert_other [of D rs q out' r] False q by (simp add: in_order_def out_def)
  next
    case True
    have nx: "r_next (resps w r) = head_of out'" "linked (resps w) s D f out'" "r \<notin> set out'"
      using st(3) q True r(2) by auto
    obtain w1 where w1: "sendTransformed E s (length (f r) + 128) (\<lambda>w. Some (response_bytes False (f r), w)) cb d w = Some w1"
      "plain_sock (socks w1 s)" "stream w1 s = stream w s @ response_bytes False (f r)"
      using sendTransformed_stream [OF assms(1) silent_quiet [OF assms(2)] st(1) assms(3)] by blast
    then have 1: "same_http w w1" using same_http_sendTransformed [OF assms(2,3)] by blast
    then have R: "resps w1 = resps w" by (simp add: same_http_def)
    obtain w2 where w2: "advance_head E s r cb d (head_of out') w1 = Some (head_of (dropWhile (\<lambda>r. r \<in> D) out'), w2)"
      "\<forall>q. q \<notin> set (takeWhile (\<lambda>r. r \<in> D) out') \<longrightarrow> resps w2 q = resps w q" "plain_sock (socks w2 s)" "stream w2 s = stream w1 s @ bytes_of f (takeWhile (\<lambda>r. r \<in> D) out')"
      using advance_stream [OF assms(1-3), of w1 s D f out' r d] nx(2) R w1(2) by auto
    define h where "h = head_of (dropWhile (\<lambda>r. r \<in> D) out')"
    define w3 where "w3 = upd_sock s (\<lambda>x. x\<lparr>outstandingResponsesHead := h\<rparr>) w2"
    define w4 where "w4 = (if h = None then upd_sock s (\<lambda>x. x\<lparr>outstandingResponsesTail := None\<rparr>) w3 else w3)"
    have w4: "resps w4 = resps w2" "stream w4 s = stream w2 s" "plain_sock (socks w4 s)" "outstandingResponsesHead (socks w4 s) = h"
      using w2 by (simp_all add: w4_def w3_def access stream_def queued_def plain_sock_def)
    have "response_end E r (f r) cb d w = Some (freeResponse r s w4)"
      using True q st(2) sock w1(1) w2(1) nx(1) R
      by (simp add: response_end_def head_of_def [of "q # out'"] Let_def w4_def w3_def h_def)
    moreover have "linked (resps w2) s (insert r D) f (dropWhile (\<lambda>r. r \<in> D) out')"
    proof -
      have "linked (resps w) s (insert r D) f (dropWhile (\<lambda>r. r \<in> D) out')"
        using nx(2,3) linked_dropWhile linked_outside [of r "dropWhile (\<lambda>r. r \<in> D) out'"]
        by (metis set_dropWhileD)
      moreover have "set (takeWhile (\<lambda>r. r \<in> D) out') \<inter> set (dropWhile (\<lambda>r. r \<in> D) out') = {}"
        using linked_distinct [OF nx(2)] by (metis distinct_append takeWhile_dropWhile_id)
      then have "resps w2 q = resps w q" if "q \<in> set (dropWhile (\<lambda>r. r \<in> D) out')" for q
        using w2(2) that by auto
      ultimately show ?thesis by (subst linked_cong [of _ _ "resps w"]) auto
    qed
    ultimately show ?thesis
      using dropWhile_insert_head [of D rs r out'] assms(4) q True w4 w2(4) w1(3) st(4)
      by (simp add: in_order_def out_def h_def bytes_of_def)
  qed
qed

text \<open>An application that ends responses one after another.\<close>

fun end_all :: "env \<Rightarrow> (nat \<Rightarrow> byte list) \<Rightarrow> nat list \<Rightarrow> world \<Rightarrow> world option" where
  "end_all E f [] w = Some w"
| "end_all E f (r # order) w = do { w \<leftarrow> response_end E r (f r) None 0 w; end_all E f order w }"

lemma end_all_in_order:
  assumes "send_contract E" "silent_callbacks E" "distinct rs"
  shows "in_order s f rs D before w \<Longrightarrow> distinct order \<Longrightarrow> set order \<subseteq> set rs - D \<Longrightarrow>
    \<exists>w'. end_all E f order w = Some w' \<and> in_order s f rs (D \<union> set order) before w'"
proof (induction order arbitrary: w D)
  case (Cons r order)
  have "user_cb None" by (simp add: user_cb_def)
  then obtain w1 where w1: "response_end E r (f r) None 0 w = Some w1" "in_order s f rs (insert r D) before w1"
    using response_end_in_order [OF assms(1,2) _ assms(3) Cons.prems(1), of None r 0] Cons.prems(3) by auto
  have "set order \<subseteq> set rs - insert r D" using Cons.prems by auto
  from Cons.IH [OF w1(2) _ this] show ?case using Cons.prems(2) w1(1) by simp
qed simp

text \<open>
  C19: Pipelined responses leave in the order of their requests. Let a plain socket have the
  outstanding responses \<open>rs\<close>, none of them begun. However the application orders its calls of
  \<open>end\<close> (every response once), however much of each message the system takes at once: all
  calls return, the bytes added to the socket's stream (sent or queued) are the responses of \<open>rs\<close>
  from first to last, each with its own \<open>Content-Length\<close>, and no response is outstanding.
\<close>

theorem responses_in_request_order:
  assumes "send_contract E" "silent_callbacks E" "plain_sock (socks w s)"
    and "distinct rs" "outstandingResponsesHead (socks w s) = head_of rs" "linked (resps w) s {} f rs"
    and "distinct order" "set order = set rs"
  shows "\<exists>w'. end_all E f order w = Some w' \<and> outstandingResponsesHead (socks w' s) = None \<and>
    stream w' s = stream w s @ concat (map (\<lambda>r. response_bytes False (f r)) rs)"
proof -
  have "in_order s f rs {} (stream w s) w"
    using assms(3,5,6) by (cases rs) (simp_all add: in_order_def bytes_of_def)
  then obtain w' where w': "end_all E f order w = Some w'" "in_order s f rs (set rs) (stream w s) w'"
    using end_all_in_order [OF assms(1,2,4), of s f "{}" "stream w s" w order] assms(7,8) by auto
  have "dropWhile (\<lambda>r. r \<in> set rs) rs = []" "takeWhile (\<lambda>r. r \<in> set rs) rs = rs" by (simp_all add: takeWhile_eq_all_conv)
  with w' show ?thesis by (auto simp: in_order_def head_of_def bytes_of_def)
qed


text \<open>Three requests have been received on socket 4; their responses are 10, 11 and 12.\<close>

definition three_requests :: world where
  "three_requests = world0\<lparr>socks := (\<lambda>_. sock0\<lparr>outstandingResponsesHead := Some 10, outstandingResponsesTail := Some 12\<rparr>),
     resps := (\<lambda>r. \<lparr>r_socket = 4, r_next = (if r = 10 then Some 11 else if r = 11 then Some 12 else None),
       r_userData = None, r_queue = [], r_hasEnded = False, r_hasHead = False\<rparr>)\<rparr>"

lemma env0_contract: "send_contract env0" "silent_callbacks env0"
  by (simp_all add: send_contract_def silent_callbacks_def env0_def)

theorem responses_in_request_order_witness:
  "\<exists>w'. end_all env0 (\<lambda>r. [word_of_nat r]) [12, 10, 11] three_requests = Some w' \<and>
     stream w' 4 = response_bytes False [10] @ response_bytes False [11] @ response_bytes False [12]"
proof -
  have "plain_sock (socks three_requests 4)" "outstandingResponsesHead (socks three_requests 4) = head_of [10, 11, 12]"
    "linked (resps three_requests) 4 {} (\<lambda>r. [word_of_nat r]) [10, 11, 12]" "stream three_requests 4 = []"
    by (simp_all add: three_requests_def world0_def sock0_def plain_sock_def head_of_def stream_def queued_def sent_on_def)
  then show ?thesis
    using responses_in_request_order [of env0 three_requests 4 "[10, 11, 12]" "\<lambda>r. [word_of_nat r]" "[12, 10, 11]"] env0_contract
    by auto
qed


section \<open>A recycled response\<close>

text \<open>What a request gets: the response of \<open>http_request\<close>, linked behind the outstanding ones.\<close>

definition next_request :: "nat \<Rightarrow> world \<Rightarrow> nat \<times> world" where
  "next_request s w = (case allocateResponse s w of (r, w) \<Rightarrow> (r, link_response s r w))"

lemma freed_first:
  assumes "preAllocatedResponse (socks w s) = None"
  shows "freeResponse r s w = upd_sock s (\<lambda>x. x\<lparr>preAllocatedResponse := Some r\<rparr>) w"
  using assms by (simp add: freeResponse_def)

text \<open>The second of three responses has ended; then the first ends: the second is flushed and cached.\<close>

lemma second_is_cached:
  assumes "send_contract E" "silent_callbacks E" "in_order s f [a, b, c] {b} before w" "distinct [a, b, c]"
    "preAllocatedResponse (socks w s) = None" "outstandingResponsesTail (socks w s) = Some c"
  obtains w' where "response_end E a (f a) None 0 w = Some w'" "plain_sock (socks w' s)"
    "preAllocatedResponse (socks w' s) = Some b" "outstandingResponsesHead (socks w' s) = Some c"
    "outstandingResponsesTail (socks w' s) = Some c" "r_queue (resps w' b) = [None]" "resps w' c = resps w c"
proof -
  have cb: "user_cb None" by (simp add: user_cb_def)
  have ne: "a \<noteq> b" "a \<noteq> c" "b \<noteq> c" using assms(4) by auto
  have st: "plain_sock (socks w s)" "outstandingResponsesHead (socks w s) = Some a" "linked (resps w) s {b} f [a, b, c]"
    using assms(3) ne by (simp_all add: in_order_def head_of_def)
  then obtain m where b: "r_socket (resps w a) = s" "\<not> r_hasHead (resps w a)" "r_next (resps w a) = Some b"
    "r_next (resps w b) = Some c" "r_hasEnded (resps w b)" "r_queue (resps w b) = [Some m]" "user_cb (m_cb m)"
    "\<not> r_hasEnded (resps w c)" "r_queue (resps w c) = []"
    using ne by (auto simp: head_of_def)
  obtain w1 where w1: "sendTransformed E s (length (f a) + 128) (\<lambda>w. Some (response_bytes False (f a), w)) None 0 w = Some w1"
    "plain_sock (socks w1 s)"
    using sendTransformed_stream [OF assms(1) silent_quiet [OF assms(2)] st(1) cb] by blast
  then have 1: "same_http w w1" using same_http_sendTransformed [OF assms(2) cb] by blast
  then have R: "resps w1 = resps w" by (simp add: same_http_def)
  obtain w2 where w2: "flush_messages E s a None 0 b [Some m] w1 = Some (False, w2)" "same_http (dangling b w1) w2"
    "plain_sock (socks w2 s)"
    using flush_stream [OF assms(1,2) cb w1(2) b(7), of b a 0] b(6) R by auto
  have R2: "resps w2 = (resps w)(b := (resps w b)\<lparr>r_queue := [None]\<rparr>)" using w2(2) R by (simp add: same_http_def)
  have pre: "preAllocatedResponse (socks w2 s) = None" "outstandingResponsesTail (socks w2 s) = Some c"
    using 1 w2(2) assms(5,6) by (simp_all add: same_http_def)
  define w3 where "w3 = upd_sock s (\<lambda>x. x\<lparr>preAllocatedResponse := Some b\<rparr>) w2"
  have "advance_head E s a None 0 (Some c) w3 = Some (Some c, w3)"
    using b(8,9) ne by (subst advance_head.simps) (simp add: w3_def R2 access)
  then have "advance_head E s a None 0 (Some b) w1 = Some (Some c, w3)"
    using w2(1) b ne by (subst advance_head.simps) (simp add: R R2 freed_first [OF pre(1)] w3_def)
  then have "response_end E a (f a) None 0 w =
      Some (freeResponse a s (upd_sock s (\<lambda>x. x\<lparr>outstandingResponsesHead := Some c\<rparr>) w3))"
    using w1(1) b st(2) R by (simp add: response_end_def Let_def)
  then show thesis
    by (rule that) (use w2(3) pre(2) R2 ne in \<open>simp_all add: freeResponse_def w3_def access plain_sock_def\<close>)
qed

text \<open>
  C40: A recycled response makes the library read memory it has given up. Three responses \<open>a\<close>, \<open>b\<close>, \<open>c\<close> are
  outstanding on a plain socket that has no cached response, none of them begun. The application ends \<open>b\<close>, then \<open>a\<close>: both return, and \<open>b\<close> is cached. The
  next request gets \<open>b\<close> again, not reset: its \<open>messageQueue\<close> still points to the message that was
  freed (or linked into the socket's queue) when \<open>b\<close> was flushed. When the application now ends \<open>c\<close>, whatever it
  answers, \<open>end\<close> flushes \<open>b\<close> behind it and reads that message: undefined behaviour, here \<open>None\<close>.
\<close>

theorem recycled_response_reads_freed:
  assumes "send_contract E" "silent_callbacks E" "plain_sock (socks w s)" "distinct [a, b, c]"
    "outstandingResponsesHead (socks w s) = Some a" "outstandingResponsesTail (socks w s) = Some c"
    "linked (resps w) s {} f [a, b, c]" "preAllocatedResponse (socks w s) = None"
  shows "\<exists>w1 w2. end_all E f [b, a] w = Some w1 \<and> next_request s w1 = (b, w2) \<and> response_end E c answer None 0 w2 = None"
proof -
  have cb: "user_cb None" by (simp add: user_cb_def)
  have ne: "a \<noteq> b" "a \<noteq> c" "b \<noteq> c" using assms(4) by auto
  have b: "r_socket (resps w b) = s" "\<not> r_hasHead (resps w b)" and c: "r_socket (resps w c) = s" "\<not> r_hasHead (resps w c)"
    using assms(7) by auto
  have "in_order s f [a, b, c] {} (stream w s) w" using assms(3,5,7) by (simp add: in_order_def head_of_def bytes_of_def)
  then obtain wb where wb: "response_end E b (f b) None 0 w = Some wb" "in_order s f [a, b, c] {b} (stream w s) wb"
    using response_end_in_order [OF assms(1,2) cb assms(4), of s f "{}" "stream w s" w b 0] by auto
  have "socks wb = socks w" "resps wb c = resps w c"
    using wb(1) b assms(5) ne by (auto simp: response_end_def Let_def case_prod_beta allocMessage_def upd_resp_def access)
  then have keep: "preAllocatedResponse (socks wb s) = None" "outstandingResponsesTail (socks wb s) = Some c" "resps wb c = resps w c"
    using assms(6,8) by simp_all
  obtain w1 where w1: "response_end E a (f a) None 0 wb = Some w1" "plain_sock (socks w1 s)"
    "preAllocatedResponse (socks w1 s) = Some b" "outstandingResponsesHead (socks w1 s) = Some c"
    "outstandingResponsesTail (socks w1 s) = Some c" "r_queue (resps w1 b) = [None]" "resps w1 c = resps wb c"
    using second_is_cached [OF assms(1,2) wb(2) assms(4) keep(1,2)] .
  define w2 where "w2 = link_response s b (upd_sock s (\<lambda>x. x\<lparr>preAllocatedResponse := None\<rparr>) w1)"
  have nr: "next_request s w1 = (b, w2)" by (simp add: next_request_def allocateResponse_def w1(3) w2_def)
  have w2: "plain_sock (socks w2 s)" "outstandingResponsesHead (socks w2 s) = Some c" "r_next (resps w2 c) = Some b"
    "r_queue (resps w2 b) = [None]" "r_socket (resps w2 c) = s" "r_hasHead (resps w2 c) = False"
    using w1 c keep(3) ne by (simp_all add: w2_def link_response_def Let_def access upd_resp_def plain_sock_def)
  obtain w3 where w3: "sendTransformed E s (length answer + 128) (\<lambda>w. Some (response_bytes False answer, w)) None 0 w2 = Some w3"
    using sendTransformed_stream [OF assms(1) silent_quiet [OF assms(2)] w2(1) cb] by blast
  then have "same_http w2 w3" using same_http_sendTransformed [OF assms(2) cb] by blast
  then have R: "resps w3 = resps w2" by (simp add: same_http_def)
  have "advance_head E s c None 0 (Some b) w3 = None"
    by (subst advance_head.simps) (simp add: R w2(4))
  then have "response_end E c answer None 0 w2 = None"
    using w2 w3 R by (simp add: response_end_def Let_def)
  then show ?thesis using wb(1) w1(1) nr by auto
qed

theorem recycled_response_reads_freed_witness:
  "\<exists>w1 w2. end_all env0 (\<lambda>r. [word_of_nat r]) [11, 10] three_requests = Some w1 \<and> next_request 4 w1 = (11, w2) \<and>
     response_end env0 12 [67] None 0 w2 = None"
  by (rule recycled_response_reads_freed [OF env0_contract, of _ _ 10 11 12])
     (simp_all add: three_requests_def world0_def sock0_def plain_sock_def head_of_def)

end
