(* ===== verification/WebSocketEnd.thy ===== *)
theory WebSocketEnd
  imports SocketFrame Hub
begin

text \<open>
  The end of a WebSocket (uWebSockets \<open>WebSocket.cpp\<close>): what \<open>onEnd\<close> does to the descriptor, the
  message queue and the event loop, and that \<open>close\<close> reaches it within 15 seconds even when the
  peer never answers.
\<close>

section \<open>Handlers that observe\<close>

text \<open>The application's callbacks return and change nothing of the library.\<close>

definition observers :: "env \<Rightarrow> bool" where
  "observers E \<longleftrightarrow> (\<forall>n so d c r w. user_callback E n so d c r w = Some w) \<and>
     (\<forall>g s code m w. disconnectionHandler E g s code m w = Some w)"

text \<open>What an operation on socket \<open>s\<close> keeps while the socket is alive.\<close>

definition keeps :: "nat \<Rightarrow> world \<Rightarrow> world \<Rightarrow> bool" where
  "keeps s w w' \<longleftrightarrow> loops w' = loops w \<and> timer_data w' = timer_data w \<and> timer_loop w' = timer_loop w \<and>
     (\<forall>g. g_loop (groups w' g) = g_loop (groups w g)) \<and>
     s_fd (socks w' s) = s_fd (socks w s) \<and> s_user (socks w' s) = s_user (socks w s) \<and>
     s_node (socks w' s) = s_node (socks w s) \<and> s_ssl (socks w' s) = s_ssl (socks w s) \<and>
     s_shutting (socks w' s) = s_shutting (socks w s) \<and> s_cb (socks w' s) = s_cb (socks w s)"

lemma timer_access [access]:
  "timer_loop (upd_sock s f w) = timer_loop w" "timer_loop (upd_group g h w) = timer_loop w"
  "timer_loop (upd_loop l k w) = timer_loop w" "timer_loop (log e w) = timer_loop w" "timer_loop (upd_pool p w) = timer_loop w"
  "timer_loop (upd_prepared i z w) = timer_loop w" "timer_data (upd_prepared i z w) = timer_data w"
  "timer_data (upd_pool p w) = timer_data w" "timer_data (upd_group g h w) = timer_data w"
  "timer_data (upd_loop l k w) = timer_data w" "loops (upd_prepared i z w) = loops w"
  by (simp_all add: upd_sock_def upd_group_def upd_loop_def upd_pool_def upd_prepared_def log_def)

lemma keeps_trans: "keeps s w w' \<Longrightarrow> keeps s w' w'' \<Longrightarrow> keeps s w w''"
  by (simp add: keeps_def)

interpretation ws_frame: write_frame "keeps s" s
  by unfold_locales (auto simp: keeps_def access)

lemma move_iterator_keeps: "keeps s w (move_iterator g n w)"
  by (simp add: move_iterator_def keeps_def access)

lemma link_keeps:
  "keeps s w (set_next t n w)" "keeps s w (set_prev t n w)" "keeps s w (upd_group g (\<lambda>x. x\<lparr>webSocketHead := h\<rparr>) w)"
  by (simp_all add: set_next_def set_prev_def keeps_def access)

lemma removeWebSocket_keeps: "keeps s w (removeWebSocket g t w)"
proof -
  define w1 where "w1 = move_iterator g (s_next (socks w t)) w"
  define w2 where "w2 = (case s_prev (socks w1 t) of Some p \<Rightarrow> set_next p (s_next (socks w1 t)) w1
    | None \<Rightarrow> upd_group g (\<lambda>x. x\<lparr>webSocketHead := s_next (socks w1 t)\<rparr>) w1)"
  have 1: "keeps s w w1" by (simp add: w1_def move_iterator_keeps)
  have 2: "keeps s w w2"
    using keeps_trans [OF 1] link_keeps by (auto simp: w2_def split: option.splits)
  have "removeWebSocket g t w = (if s_prev (socks w1 t) = s_next (socks w1 t) then upd_group g (\<lambda>x. x\<lparr>webSocketHead := None\<rparr>) w1
    else (case s_next (socks w2 t) of Some n \<Rightarrow> set_prev n (s_prev (socks w2 t)) w2 | None \<Rightarrow> w2))"
    by (simp only: removeWebSocket_def Let_def w1_def [symmetric] w2_def [symmetric])
  then show ?thesis
    using keeps_trans [OF 1] keeps_trans [OF 2] 2 link_keeps by (auto split: option.splits)
qed

lemma removeWebSocket_trace [simp]: "trace (removeWebSocket g t w) = trace w"
  by (simp add: removeWebSocket_def move_iterator_def set_next_def set_prev_def Let_def access split: option.splits)

lemma removeWebSocket_queue [simp]: "s_queue (socks (removeWebSocket g t w) i) = s_queue (socks w i)"
  by (simp add: removeWebSocket_def move_iterator_def set_next_def set_prev_def Let_def access split: option.splits)

section \<open>Cancelling the queue\<close>

lemma call_cb_cancelled:
  assumes "observers E"
  shows "\<exists>w'. call_cb E cb None d True 0 w = Some w' \<and> socks w' = socks w \<and> loops w' = loops w \<and>
    groups w' = groups w \<and> timer_data w' = timer_data w \<and> timer_loop w' = timer_loop w \<and>
    (\<exists>tr. trace w' = trace w @ tr)"
  using assms by (simp add: call_cb_def prepared_cb_def Let_def observers_def access split: option.splits msg_cb.splits)

lemma cancel_queue_ends:
  assumes "observers E"
  shows "\<exists>w'. cancel_queue E s w = Some w' \<and> socks w' = (socks w)(s := (socks w s)\<lparr>s_queue := []\<rparr>) \<and> loops w' = loops w \<and>
    groups w' = groups w \<and> timer_data w' = timer_data w \<and> timer_loop w' = timer_loop w \<and>
    (\<exists>tr. trace w' = trace w @ tr)"
proof (induction "s_queue (socks w s)" arbitrary: w)
  case Nil
  then have "(socks w)(s := (socks w s)\<lparr>s_queue := []\<rparr>) = socks w" by (simp add: fun_eq_iff)
  with Nil show ?case by (subst cancel_queue.simps) simp
next
  case (Cons m ms)
  obtain w1 where w1: "call_cb E (m_cb m) None (m_cbdata m) True 0 w = Some w1" "socks w1 = socks w" "loops w1 = loops w"
    "groups w1 = groups w" "timer_data w1 = timer_data w" "timer_loop w1 = timer_loop w" "\<exists>tr. trace w1 = trace w @ tr"
    using call_cb_cancelled [OF assms] by blast
  define w2 where "w2 = upd_sock s (\<lambda>x. x\<lparr>s_queue := ms\<rparr>) (freeMessage (m_addr m) w1)"
  have w2: "pop_message s w1 = Some w2" "socks w2 = (socks w)(s := (socks w s)\<lparr>s_queue := ms\<rparr>)" "loops w2 = loops w"
    "groups w2 = groups w" "timer_data w2 = timer_data w" "timer_loop w2 = timer_loop w" "trace w2 = trace w1"
    using w1 Cons(2) [symmetric] by (simp_all add: w2_def pop_message_def freeMessage_def access upd_sock_def upd_pool_def)
  obtain w' where "cancel_queue E s w2 = Some w'" "socks w' = (socks w2)(s := (socks w2 s)\<lparr>s_queue := []\<rparr>)" "loops w' = loops w2"
    "groups w' = groups w2" "timer_data w' = timer_data w2" "timer_loop w' = timer_loop w2" "\<exists>tr. trace w' = trace w2 @ tr"
    using Cons(1) [of w2] w2(2) by auto
  then show ?case
    using w1 w2 Cons(2) [symmetric] by (subst cancel_queue.simps) (auto simp: bind_eq_Some_conv)
qed


section \<open>onEnd\<close>

text \<open>The state in which the queue is cancelled: the socket is out of its group and of the poll set.\<close>

definition ws_leave :: "nat \<Rightarrow> world \<Rightarrow> world" where
  "ws_leave s w = closeSocket s (if isShuttingDown w s then cancelTimeout s w else removeWebSocket (s_node (socks w s)) s w)"

lemma ws_onEnd_ends:
  assumes "observers E"
  obtains w' where "ws_onEnd E s w = Some w'" "s_queue (socks w' s) = []" "s_fd (socks w' s) = s_fd (socks (ws_leave s w) s)"
    "slidingDeflateWindow (socks w' s) = None" "loops w' = loops (ws_leave s w)" "timer_loop w' = timer_loop (ws_leave s w)"
    "\<exists>tr. trace w' = trace (ws_leave s w) @ tr"
proof -
  obtain w1 where w1: "cancel_queue E s (ws_leave s w) = Some w1" "socks w1 = (socks (ws_leave s w))(s := (socks (ws_leave s w) s)\<lparr>s_queue := []\<rparr>)"
    "loops w1 = loops (ws_leave s w)" "timer_loop w1 = timer_loop (ws_leave s w)" "\<exists>tr. trace w1 = trace (ws_leave s w) @ tr"
    using cancel_queue_ends [OF assms] by blast
  have "ws_onEnd E s w = Some (upd_sock s (\<lambda>x. x\<lparr>slidingDeflateWindow := None\<rparr>) (clearPendingPollChanges (s_node (socks w1 s)) s w1))"
    using assms w1(1) by (cases "isShuttingDown w s") (simp_all add: ws_onEnd_def observers_def ws_leave_def Let_def)
  then show thesis
    by (rule that) (use w1(2-) in \<open>auto simp: clearPendingPollChanges_def access\<close>)
qed

lemma closeSocket_facts:
  "s_fd (socks (closeSocket s w) s) = -1" "timer_loop (closeSocket s w) = timer_loop w"
  "timers (loops (closeSocket s w) l) = timers (loops w l)"
  "cancelledLastTimer (loops (closeSocket s w) l) = cancelledLastTimer (loops w l)"
  "trace (closeSocket s w) = trace w @ E_epoll_del (epfd (loops w (sock_loop w s))) (s_fd (socks w s)) # E_close (s_fd (socks w s)) #
    (case s_ssl (socks w s) of Some ssl \<Rightarrow> [E_ssl_free ssl] | None \<Rightarrow> [])"
  by (simp_all add: closeSocket_def poll_stop_def poll_close_def Let_def Poll_close_def access split: option.splits)

lemma cancelTimeout_facts:
  "s_fd (socks (cancelTimeout s w) t) = s_fd (socks w t)" "s_queue (socks (cancelTimeout s w) t) = s_queue (socks w t)"
  "s_user (socks (cancelTimeout s w) s) = None" "isShuttingDown (cancelTimeout s w) t = isShuttingDown w t"
  "timer_loop (cancelTimeout s w) = timer_loop w"
  "s_user (socks w s) = None \<Longrightarrow> cancelTimeout s w = w"
  "s_user (socks w s) = Some t \<Longrightarrow> loops (cancelTimeout s w) = (loops w)(timer_loop w t := Timer_stop t (loops w (timer_loop w t)))"
  by (auto simp: cancelTimeout_def getUserData_def setUserData_def timer_stop_def timer_close_def isShuttingDown_def access
      upd_loop_def upd_sock_def log_def split: option.splits)

lemma keeps_fd: "keeps s w w' \<Longrightarrow> s_fd (socks w' s) = s_fd (socks w s)"
  by (simp add: keeps_def)

lemma ws_leave_facts:
  "s_fd (socks (ws_leave s w) s) = -1" "E_close (s_fd (socks w s)) \<in> set (trace (ws_leave s w))"
  using keeps_fd [OF removeWebSocket_keeps [of s w "s_node (socks w s)" s]]
  by (simp_all add: ws_leave_def closeSocket_facts cancelTimeout_facts)


lemma env0_observers: "observers env0"
  by (simp add: observers_def env0_def)



section \<open>close\<close>

lemma ws_transform_plain:
  "ws_transform E isServer s message opc False w = Some (b, w') \<Longrightarrow> keeps s w w'"
  by (auto simp: ws_transform_def format_random_def ws_frame.steps split: if_splits)

lemma Shutdown_absorbed: "ws_frame.absorbs s E (Some Shutdown_cb)"
  by (auto simp: ws_frame.absorbs_def call_cb_def sock_shutdown_def ws_frame.steps split: option.splits)

text \<open>Sending the close frame returns, and leaves the timers and the socket's state alone.\<close>

lemma send_close_frame:
  obtains w' where "ws_send E isServer s message CLOSE (Some Shutdown_cb) 0 False w = Some w'" "keeps s w w'"
proof -
  have "\<exists>w'. ws_send E isServer s message CLOSE (Some Shutdown_cb) 0 False w = Some w'"
    unfolding ws_send_def by (rule sendTransformed_returns) (simp_all add: call_cb_def ws_transform_def)
  then obtain w' where w': "ws_send E isServer s message CLOSE (Some Shutdown_cb) 0 False w = Some w'" by blast
  moreover have "keeps s w w'"
    using w' unfolding ws_send_def
    by (rule ws_frame.sendTransformed [OF Shutdown_absorbed, rotated]) (simp add: ws_transform_plain)
  ultimately show thesis by (rule that)
qed

text \<open>The state in which a closed socket with descriptor \<open>fd\<close> waits: \<open>t\<close> is the only timer of its loop, due at \<open>d\<close>.\<close>

definition awaits :: "bool \<Rightarrow> nat \<Rightarrow> nat \<Rightarrow> int \<Rightarrow> nat \<Rightarrow> int \<Rightarrow> world \<Rightarrow> bool" where
  "awaits isServer s l fd t d w \<longleftrightarrow> isShuttingDown w s \<and> s_fd (socks w s) = fd \<and> fd \<noteq> -1 \<and> s_user (socks w s) = Some t \<and>
     timer_data w t = s \<and> timer_loop w t = l \<and> closing (loops w l) = [] \<and>
     timers (loops w l) = [\<lparr>tp_cb = Ws_timeout isServer, tp_timer = t, tp_time = d, nextDelay = 0\<rparr>] \<and>
     s_cb (socks w s) = (if s_ssl (socks w s) = None then Io_ws isServer else SslIo_ws isServer)"

definition ended :: "nat \<Rightarrow> nat \<Rightarrow> int \<Rightarrow> world \<Rightarrow> bool" where
  "ended s l fd w \<longleftrightarrow> isClosed w s \<and> s_queue (socks w s) = [] \<and> timers (loops w l) = [] \<and> E_close fd \<in> set (trace w)"

lemma awaits_keeps: "awaits isServer s l fd t d w \<Longrightarrow> keeps s w w' \<Longrightarrow> awaits isServer s l fd t d w'"
  by (simp add: awaits_def keeps_def isShuttingDown_def)

lemma ws_close_facts:
  assumes "observers E" "timers (loops w l) = []" "closing (loops w l) = []" "sock_loop w s = l" "\<not> isClosed w s"
    "s_cb (socks w s) = (if s_ssl (socks w s) = None then Io_ws isServer else SslIo_ws isServer)"
  obtains w' t T where "ws_close E isServer s code message w = Some w'"
    "awaits isServer s l (s_fd (socks w s)) t (T + 15000 * ms_ns) w'" "now_tp (loops w' l) = T" "T = sys_now E (trace w @ [E_new_timer t])"
proof -
  let ?m = "take MAX_CLOSE_PAYLOAD message"
  define w1 where "w1 = setShuttingDown s True (removeWebSocket (s_node (socks w s)) s w)"
  have k: "keeps s w (removeWebSocket (s_node (socks w s)) s w)" by (rule removeWebSocket_keeps)
  have w1: "sock_loop w1 s = l" "loops w1 = loops w" "isShuttingDown w1 s" "s_fd (socks w1 s) = s_fd (socks w s)" "trace w1 = trace w"
    "s_cb (socks w1 s) = s_cb (socks w s)" "s_ssl (socks w1 s) = s_ssl (socks w s)"
    using k assms(4) by (simp_all add: w1_def setShuttingDown_def keeps_def access sock_loop_def sock_group_def isShuttingDown_def)
  define t where "t = fresh w1"
  define T where "T = sys_now E (trace w @ [E_new_timer t])"
  define w2 where "w2 = startTimeout E (Ws_timeout isServer) 15000 s w1"
  have w2: "awaits isServer s l (s_fd (socks w s)) t (T + 15000 * ms_ns) w2" "now_tp (loops w2 l) = T"
    using w1 assms(2,3,5,6)
    by (simp_all add: w2_def startTimeout_def timer_new_def new_id_def Let_def timer_start_def setUserData_def access t_def T_def
        isShuttingDown_def Timer_start_def set_delay_def awaits_def isClosed_def)
  obtain w' where w': "ws_send E isServer s (formatClosePayload code ?m) CLOSE (Some Shutdown_cb) 0 False w2 = Some w'" "keeps s w2 w'"
    using send_close_frame by metis
  have "ws_close E isServer s code message w = Some w'"
    using assms(1) w'(1) by (simp add: ws_close_def observers_def Let_def w2_def w1_def)
  then show thesis
    by (rule that) (use w'(2) w2 T_def awaits_keeps [OF w2(1) w'(2)] in \<open>simp_all add: keeps_def\<close>)
qed

text \<open>The timer fires: the loop's turn ends the socket and leaves no timer behind.\<close>

lemma timeout_fires:
  assumes "observers E" "awaits isServer s l fd t d w" "d < now_tp (loops w l)"
  obtains w' where "expired_timers E l w = Some w'" "ended s l fd w'"
proof -
  have a: "isShuttingDown w s" "s_user (socks w s) = Some t" "timer_data w t = s" "timer_loop w t = l" "s_fd (socks w s) = fd"
    "timers (loops w l) = [\<lparr>tp_cb = Ws_timeout isServer, tp_timer = t, tp_time = d, nextDelay = 0\<rparr>]"
    using assms(2) by (simp_all add: awaits_def)
  define w1 where "w1 = timer_begin (\<lambda>w. loops w l) (\<lambda>x. upd_loop l (\<lambda>_. x)) w"
  have w1: "isShuttingDown w1 s" "s_user (socks w1 s) = Some t" "timer_data w1 t = s" "timer_loop w1 = timer_loop w" "socks w1 = socks w"
    "timers (loops w1 l) = timers (loops w l)"
    using a(1-3) by (simp_all add: w1_def timer_begin_def access isShuttingDown_def)
  define w2 where "w2 = cancelTimeout s w1"
  have w2: "isShuttingDown w2 s" "s_user (socks w2 s) = None" "s_fd (socks w2 s) = s_fd (socks w s)" "timer_loop w2 = timer_loop w"
    "timers (loops w2 l) = []" "cancelledLastTimer (loops w2 l)"
    using w1 a(4,6) by (simp_all add: w2_def cancelTimeout_facts Timer_stop_def set_delay_def)
  have lv: "ws_leave s w2 = closeSocket s w2" using w2(1,2) by (simp add: ws_leave_def cancelTimeout_facts(6))
  obtain w3 where w3: "ws_onEnd E s w2 = Some w3" "s_queue (socks w3 s) = []" "s_fd (socks w3 s) = s_fd (socks (ws_leave s w2) s)"
    "loops w3 = loops (ws_leave s w2)" "\<exists>tr. trace w3 = trace (ws_leave s w2) @ tr"
    using ws_onEnd_ends [OF assms(1)] by metis
  have l3: "timers (loops w3 l) = []" "cancelledLastTimer (loops w3 l)"
    using w2(5,6) by (simp_all add: w3(4) lv closeSocket_facts)
  have "timer_dispatch E (Ws_timeout isServer) t w1 = Some w3"
    using w1(3) w3(1) by (simp add: timer_dispatch_def timeout_cb_def Let_def w2_def)
  moreover have "timer_finish (\<lambda>w. loops w l) (\<lambda>x. upd_loop l (\<lambda>_. x)) (\<lambda>w. sys_now E (trace w)) t w3 = w3"
    using l3(2) by (simp add: timer_finish_def)
  moreover have "expired_timers E l w3 = Some w3"
    by (subst expired_timers.simps) (simp add: timer_due_def l3(1))
  ultimately have "expired_timers E l w = Some w3"
    using a(6) assms(3) by (subst expired_timers.simps) (simp add: timer_due_def Let_def w1_def)
  then show thesis
    by (rule that) (use w3 l3 w2(3) ws_leave_facts [where s = s and w = w2] a(5) in \<open>auto simp: isClosed_def ended_def\<close>)
qed

section \<open>The turns of the loop until the end\<close>

lemma awaits_onEnd:
  assumes "observers E" "awaits isServer s l fd t d w"
  obtains w' where "ws_onEnd E s w = Some w'" "ended s l fd w'"
proof -
  obtain w' where w': "ws_onEnd E s w = Some w'" "s_queue (socks w' s) = []" "s_fd (socks w' s) = s_fd (socks (ws_leave s w) s)"
    "loops w' = loops (ws_leave s w)" "\<exists>tr. trace w' = trace (ws_leave s w) @ tr"
    using ws_onEnd_ends [OF assms(1)] by metis
  have "timers (loops (ws_leave s w) l) = []"
    using assms(2) by (simp add: awaits_def ws_leave_def closeSocket_facts cancelTimeout_facts Timer_stop_def set_delay_def)
  with w' show thesis
    by (intro that) (use assms(2) ws_leave_facts [where s = s and w = w] in \<open>auto simp: ended_def isClosed_def awaits_def\<close>)
qed

text \<open>A message that is sent completely: its callback returns, and the message leaves the queue.\<close>

lemma call_cb_keeps:
  assumes "observers E"
  shows "\<exists>w'. call_cb E cb (Some s) d c r w = Some w' \<and> keeps s w w' \<and> socks w' = socks w"
  using assms
  by (auto simp: call_cb_def prepared_cb_def Let_def observers_def sock_shutdown_def access keeps_def split: option.splits msg_cb.splits)

lemma message_sent_keeps:
  assumes "observers E" "s_queue (socks w s) = m # ms"
  obtains w' where "message_sent E s m w = Some w'" "keeps s w w'" "s_queue (socks w' s) = ms"
proof -
  obtain w1 where w1: "call_cb E (m_cb m) (Some s) (m_cbdata m) False (m_reserved m) w = Some w1" "keeps s w w1" "socks w1 = socks w"
    using call_cb_keeps [OF assms(1)] by blast
  define w2 where "w2 = upd_sock s (\<lambda>x. x\<lparr>s_queue := ms\<rparr>) (freeMessage (m_addr m) w1)"
  have p: "pop_message s w1 = Some w2" using w1(3) assms(2) by (simp add: pop_message_def w2_def)
  show thesis
    by (rule that [of w2])
      (use w1 p keeps_trans [OF w1(2) ws_frame.pop [OF p]] in \<open>simp_all add: message_sent_def w2_def access\<close>)
qed

text \<open>Both drain loops return: every turn that goes on has removed a message from the queue.\<close>

lemma drain_queue_ends:
  assumes "observers E"
  shows "awaits isServer s l fd t d w \<Longrightarrow> s_queue (socks w s) \<noteq> [] \<Longrightarrow>
    \<exists>b w'. drain_queue E (ws_onEnd E) s w = Some (b, w') \<and> (if b then ended s l fd w' else keeps s w w')"
proof (induction "length (s_queue (socks w s))" arbitrary: w)
  case (Suc n)
  obtain m ms where q: "s_queue (socks w s) = m # ms" using Suc.prems(2) by (cases "s_queue (socks w s)") auto
  define sent where "sent = sys_send E (trace w) (s_fd (socks w s)) (m_data m)"
  define w1 where "w1 = log (E_send (s_fd (socks w s)) (m_data m) sent) w"
  have k1: "keeps s w w1" and q1: "s_queue (socks w1 s) = m # ms"
    using q by (simp_all add: w1_def access ws_frame.log)
  obtain w2 where w2: "message_sent E s m w1 = Some w2" "keeps s w w2" "s_queue (socks w2 s) = ms"
    using message_sent_keeps [OF assms q1] keeps_trans [OF k1] by metis
  obtain w3 where w3: "ws_onEnd E s w1 = Some w3" "ended s l fd w3"
    using awaits_onEnd [OF assms awaits_keeps [OF Suc.prems(1) k1]] .
  have rest: "\<exists>b w'. drain_queue E (ws_onEnd E) s w2 = Some (b, w') \<and> (if b then ended s l fd w' else keeps s w w')" if "ms \<noteq> []"
  proof -
    have "n = length (s_queue (socks w2 s))" using Suc.hyps(2) q w2(3) by simp
    from Suc.hyps(1) [OF this awaits_keeps [OF Suc.prems(1) w2(2)]] that w2(2,3) show ?thesis
      by (metis keeps_trans)
  qed
  have last: "keeps s w (change_to s UV_READABLE w2)"
    by (rule keeps_trans [OF w2(2) ws_frame.change_to])
  have part: "keeps s w (upd_sock s (\<lambda>x. x\<lparr>s_queue := z\<rparr>) w1)" for z
    by (rule keeps_trans [OF k1 ws_frame.queue])
  have step: "drain_queue E (ws_onEnd E) s w =
    (if sent = int (length (m_data m)) then (if ms = [] then Some (False, change_to s UV_READABLE w2) else drain_queue E (ws_onEnd E) s w2)
     else if sent = -1 then (if \<not> sys_would_block E (trace w1) then Some (True, w3) else Some (False, w1))
     else Some (False, upd_sock s (\<lambda>x. x\<lparr>s_queue := m\<lparr>m_data := drop (nat sent) (m_data m)\<rparr> # ms\<rparr>) w1))"
    using w2(1,3) w3(1) q
    by (simp only: drain_queue.simps [of E "ws_onEnd E" s w] Let_def sent_def [symmetric] w1_def [symmetric] list.case bind.simps
        option.map)
  show ?case
    using rest last part k1 w3(2) by (simp only: step) (auto split: if_splits)
qed simp

text \<open>\<open>SSL_write\<close> without partial writes: it takes the whole buffer or reports that it did not.\<close>

definition whole_ssl_writes :: "env \<Rightarrow> bool" where
  "whole_ssl_writes E \<longleftrightarrow> (\<forall>tr ssl d. ssl_write E tr ssl d = int (length d) \<or> ssl_write E tr ssl d \<le> 0)"

lemma drain_ssl_ends:
  assumes "observers E" "whole_ssl_writes E"
  shows "awaits isServer s l fd t d w \<Longrightarrow> s_queue (socks w s) \<noteq> [] \<Longrightarrow>
    \<exists>b w'. drain_ssl E (ws_onEnd E) s w = Some (b, w') \<and> (if b then ended s l fd w' else keeps s w w')"
proof (induction "length (s_queue (socks w s))" arbitrary: w)
  case (Suc n)
  obtain m ms where q: "s_queue (socks w s) = m # ms" using Suc.prems(2) by (cases "s_queue (socks w s)") auto
  define ssl where "ssl = the (s_ssl (socks w s))"
  define sent where "sent = ssl_write E (trace w) ssl (m_data m)"
  define w1 where "w1 = log (E_ssl_write ssl (m_data m) sent) w"
  have sent: "sent = int (length (m_data m)) \<or> sent \<le> 0" using assms(2) by (simp add: whole_ssl_writes_def sent_def)
  have k1: "keeps s w w1" and q1: "s_queue (socks w1 s) = m # ms"
    using q by (simp_all add: w1_def access ws_frame.log)
  obtain w2 where w2: "message_sent E s m w1 = Some w2" "keeps s w w2" "s_queue (socks w2 s) = ms"
    using message_sent_keeps [OF assms(1) q1] keeps_trans [OF k1] by metis
  obtain w3 where w3: "ws_onEnd E s w1 = Some w3" "ended s l fd w3"
    using awaits_onEnd [OF assms(1) awaits_keeps [OF Suc.prems(1) k1]] .
  have rest: "\<exists>b w'. drain_ssl E (ws_onEnd E) s w2 = Some (b, w') \<and> (if b then ended s l fd w' else keeps s w w')" if "ms \<noteq> []"
  proof -
    have "n = length (s_queue (socks w2 s))" using Suc.hyps(2) q w2(3) by simp
    from Suc.hyps(1) [OF this awaits_keeps [OF Suc.prems(1) w2(2)]] that w2(2,3) show ?thesis
      by (metis keeps_trans)
  qed
  have change: "keeps s w (change_to s p w1)" "keeps s w (change_to s p w2)" for p
    by (rule keeps_trans [OF k1 ws_frame.change_to], rule keeps_trans [OF w2(2) ws_frame.change_to])
  have step: "drain_ssl E (ws_onEnd E) s w =
    (if sent = int (length (m_data m)) then
       (if ms = [] then Some (False, if getPoll w2 s AND UV_WRITABLE \<noteq> 0 \<and> ssl_want E (trace w2) ssl \<noteq> SSL_WRITING
          then change_to s UV_READABLE w2 else w2) else drain_ssl E (ws_onEnd E) s w2)
     else case ssl_get_error E (trace w1) ssl of
       WANT_READ \<Rightarrow> Some (False, w1)
     | WANT_WRITE \<Rightarrow> Some (False, if getPoll w1 s AND UV_WRITABLE = 0 then change_to s (getPoll w1 s OR UV_WRITABLE) w1 else w1)
     | SSL_FATAL \<Rightarrow> Some (True, w3))"
  proof (cases "sent = int (length (m_data m))")
    case True
    show ?thesis
      using w2(1,3) q
      by (simp only: drain_ssl.simps [of E "ws_onEnd E" s w] Let_def ssl_def [symmetric] sent_def [symmetric] w1_def [symmetric]
          list.case bind.simps if_P [OF True])
  next
    case False
    with sent have neg: "sent \<le> 0" by blast
    show ?thesis
      using w3(1) q
      by (simp only: drain_ssl.simps [of E "ws_onEnd E" s w] Let_def ssl_def [symmetric] sent_def [symmetric] w1_def [symmetric]
          list.case False if_False neg if_True option.map)
  qed
  show ?case
    using rest change k1 w2(2) w3(2) by (simp only: step) (auto split: if_splits ssl_error.splits)
qed simp

text \<open>Data that arrive while the socket is shutting down are dropped.\<close>

lemma onData_shutting:
  assumes "isShuttingDown w s"
  obtains w' where "ws_onData E isServer s m data len w = Some (s, w')" "keeps s w w'"
  using assms
  by (auto simp: ws_onData_def Let_def access isShuttingDown_def keeps_def intro!: that [of "upd_sock s (\<lambda>x. x\<lparr>hasOutstandingPong := False\<rparr>) w"])

lemma cork_keeps: "keeps s w (cork s b w)"
  by (simp add: cork_def ws_frame.log)

text \<open>Any event of a waiting socket returns: it ends the socket, or leaves it waiting.\<close>

lemma settles:
  assumes "observers E" "awaits isServer s l fd t d w" "keeps s w v"
  shows "\<exists>w'. ws_onEnd E s v = Some w' \<and> (ended s l fd w' \<or> keeps s w w')"
    "\<exists>w'. map_option snd (ws_onData E isServer s m a len v) = Some w' \<and> (ended s l fd w' \<or> keeps s w w')"
proof -
  have v: "awaits isServer s l fd t d v" by (rule awaits_keeps [OF assms(2,3)])
  then show "\<exists>w'. ws_onEnd E s v = Some w' \<and> (ended s l fd w' \<or> keeps s w w')" using awaits_onEnd [OF assms(1)] by metis
  have "isShuttingDown v s" using v by (simp add: awaits_def)
  then obtain w' where "ws_onData E isServer s m a len v = Some (s, w')" "keeps s v w'" by (rule onData_shutting)
  then show "\<exists>w'. map_option snd (ws_onData E isServer s m a len v) = Some w' \<and> (ended s l fd w' \<or> keeps s w w')"
    using keeps_trans [OF assms(3)] by simp
qed

lemma ioHandler_settles:
  assumes "observers E" "awaits isServer s l fd t d w"
  shows "\<exists>w'. ioHandler E (ws_onData E isServer) (ws_onEnd E) s status events w = Some w' \<and> (ended s l fd w' \<or> keeps s w w')"
proof -
  have read: "\<exists>w'. (if events AND UV_READABLE \<noteq> 0 then
        (let r = sys_recv E (trace v) (s_fd (socks v s)) (recv_length E);
             len = (case r of Some bytes \<Rightarrow> int (length bytes) | None \<Rightarrow> -1);
             v = log (E_recv (s_fd (socks v s)) (nat len)) v
         in if len > 0 then
              map_option snd (ws_onData E isServer s (received E (the r) v) (recv_buffer E) (nat len) v)
            else if len \<le> 0 \<or> (len = -1 \<and> \<not> sys_would_block E (trace v)) then ws_onEnd E s v
            else Some v)
      else Some v) = Some w' \<and> (ended s l fd w' \<or> keeps s w w')" if k: "keeps s w v" for v
  proof -
    have "keeps s w (log (E_recv fd n) v)" for fd n using k by (simp add: keeps_def access)
    from settles [OF assms this] k show ?thesis by (simp add: Let_def)
  qed
  show ?thesis
  proof (cases "status < 0")
    case True
    then show ?thesis using settles(1) [OF assms ws_frame.same] by (simp add: ioHandler_def)
  next
    case False
    show ?thesis
    proof (cases "events AND UV_WRITABLE \<noteq> 0 \<and> s_queue (socks w s) \<noteq> []")
      case True
      have k: "awaits isServer s l fd t d (cork s True w)" by (rule awaits_keeps [OF assms(2) cork_keeps])
      have "s_queue (socks (cork s True w) s) \<noteq> []" using True by (simp add: cork_def access)
      then obtain b v where v: "drain_queue E (ws_onEnd E) s (cork s True w) = Some (b, v)"
        "if b then ended s l fd v else keeps s (cork s True w) v"
        using drain_queue_ends [OF assms(1) k] by blast
      show ?thesis
      proof (cases b)
        case True
        with v \<open>events AND UV_WRITABLE \<noteq> 0 \<and> s_queue (socks w s) \<noteq> []\<close> False show ?thesis by (simp add: ioHandler_def)
      next
        case b: False
        then have "keeps s w (cork s False v)"
          using v(2) keeps_trans [OF cork_keeps keeps_trans [OF _ cork_keeps]] by simp
        from read [OF this] show ?thesis using v(1) b True False by (simp add: ioHandler_def)
      qed
    next
      case c: False
      show ?thesis using read [OF ws_frame.same] by (simp only: ioHandler_def c False if_False bind.simps prod.case)
    qed
  qed
qed

lemma sslIoHandler_settles:
  assumes "observers E" "whole_ssl_writes E" "awaits isServer s l fd t d w"
  shows "\<exists>w'. sslIoHandler E (ws_onData E isServer) (ws_onEnd E) s status events w = Some w' \<and> (ended s l fd w' \<or> keeps s w w')"
proof -
  have read: "\<exists>w'. ssl_read_loop E (ws_onData E isServer) (ws_onEnd E) s s v = Some w' \<and> (ended s l fd w' \<or> keeps s w w')"
    if k: "keeps s w v" for v
  proof -
    define ssl where "ssl = the (s_ssl (socks v s))"
    define r where "r = ssl_read E (trace v) ssl (recv_length E)"
    define v1 where "v1 = log (E_ssl_read ssl (case r of Some bytes \<Rightarrow> length bytes | None \<Rightarrow> 0)) v"
    have k1: "keeps s w v1" using k by (simp add: v1_def keeps_def access)
    obtain v2 where v2: "ws_onEnd E s v1 = Some v2" "ended s l fd v2 \<or> keeps s w v2" using settles(1) [OF assms(1,3) k1] by blast
    have sh: "isShuttingDown v1 s" using awaits_keeps [OF assms(3) k1] by (simp add: awaits_def)
    obtain v3 where v3: "ws_onData E isServer s (received E (the r) v1) (recv_buffer E) (length (the r)) v1 = Some (s, v3)" "keeps s v1 v3"
      using sh by (rule onData_shutting)
    have "isShuttingDown v3 s" using v3(2) sh by (simp add: keeps_def isShuttingDown_def)
    then have step: "ssl_read_loop E (ws_onData E isServer) (ws_onEnd E) s s v =
      (if r = None \<or> r = Some [] then
         (case ssl_get_error E (trace v1) ssl of
            WANT_READ \<Rightarrow> Some v1
          | WANT_WRITE \<Rightarrow> Some (if getPoll v1 s AND UV_WRITABLE = 0 then change_to s (getPoll v1 s OR UV_WRITABLE) v1 else v1)
          | SSL_FATAL \<Rightarrow> Some v2)
       else Some v3)"
      using v2(1) v3(1)
      by (simp only: ssl_read_loop.simps [of E "ws_onData E isServer" "ws_onEnd E" s s v] Let_def ssl_def [symmetric] r_def [symmetric]
          v1_def [symmetric] bind.simps prod.case simp_thms if_True)
    have "keeps s w (change_to s p v1)" for p by (rule keeps_trans [OF k1 ws_frame.change_to])
    then show ?thesis
      using k1 v2(2) keeps_trans [OF k1 v3(2)] by (simp only: step) (auto split: ssl_error.splits)
  qed
  show ?thesis
  proof (cases "status < 0")
    case True
    then show ?thesis using settles(1) [OF assms(1,3) ws_frame.same] by (simp add: sslIoHandler_def)
  next
    case False
    let ?c = "s_queue (socks w s) \<noteq> [] \<and> (events AND UV_WRITABLE \<noteq> 0 \<or> ssl_want E (trace w) (the (s_ssl (socks w s))) = SSL_READING)"
    show ?thesis
    proof (cases ?c)
      case c: True
      have k: "awaits isServer s l fd t d (cork s True w)" by (rule awaits_keeps [OF assms(3) cork_keeps])
      have "s_queue (socks (cork s True w) s) \<noteq> []" using c by (simp add: cork_def access)
      then obtain b v where v: "drain_ssl E (ws_onEnd E) s (cork s True w) = Some (b, v)"
        "if b then ended s l fd v else keeps s (cork s True w) v"
        using drain_ssl_ends [OF assms(1,2) k] by blast
      show ?thesis
      proof (cases b)
        case True
        with v c False show ?thesis by (auto simp: sslIoHandler_def)
      next
        case b: False
        then have "keeps s w (cork s False v)"
          using v(2) keeps_trans [OF cork_keeps keeps_trans [OF _ cork_keeps]] by simp
        from read [OF this] ws_frame.same keeps_trans show ?thesis
          using v(1) b False \<open>keeps s w (cork s False v)\<close>
          by (simp only: sslIoHandler_def c simp_thms if_True if_False bind.simps prod.case) (simp split: if_splits)
      qed
    next
      case c: False
      show ?thesis using read [OF ws_frame.same] ws_frame.same
        by (simp only: sslIoHandler_def c False simp_thms if_False bind.simps prod.case) (auto split: if_splits)
    qed
  qed
qed

section \<open>Turns of the loop\<close>

text \<open>Turns of \<open>doEpoll\<close> with the given timeouts for \<open>epoll_wait\<close>, until the socket is closed.\<close>

fun turns_until_closed :: "env \<Rightarrow> nat \<Rightarrow> nat \<Rightarrow> int list \<Rightarrow> world \<Rightarrow> world option" where
  "turns_until_closed E l s [] w = Some w"
| "turns_until_closed E l s (timeout # ts) w =
     (if isClosed w s then Some w else do { w \<leftarrow> doEpoll E l timeout w; turns_until_closed E l s ts w })"

text \<open>\<open>epoll_wait\<close> reports no other poll than \<open>s\<close>, and that with any events.\<close>

definition only_poll :: "env \<Rightarrow> nat \<Rightarrow> bool" where
  "only_poll E s \<longleftrightarrow> (\<forall>tr timeout. sys_epoll_wait E tr timeout = [] \<or> (\<exists>events. sys_epoll_wait E tr timeout = [(s, events)]))"

lemma dispatch_settles:
  assumes "observers E" "whole_ssl_writes E" "awaits isServer s l fd t d w"
  shows "\<exists>w'. poll_dispatch E s status events w = Some w' \<and> (ended s l fd w' \<or> keeps s w w')"
  using assms(3) ioHandler_settles [OF assms(1,3)] sslIoHandler_settles [OF assms]
  by (auto simp: awaits_def poll_dispatch_def)

text \<open>A turn ends the socket, or the clock has not passed \<open>d\<close> and the socket still waits.\<close>

lemma turn_settles:
  assumes "observers E" "whole_ssl_writes E" "only_poll E s" "awaits isServer s l fd t d w"
  obtains w' where "doEpoll E l timeout w = Some w'" "ended s l fd w' \<or> awaits isServer s l fd t d w' \<and> now_tp (loops w' l) \<le> d"
proof -
  define w1 where "w1 = upd_loop l (\<lambda>x. x\<lparr>closing := []\<rparr>) w"
  define w2 where "w2 = log (E_epoll_wait (epfd (loops w1 l)) timeout) w1"
  define w3 where "w3 = upd_loop l (\<lambda>x. x\<lparr>now_tp := sys_now E (trace w2)\<rparr>) w2"
  define ready where "ready = sys_epoll_wait E (trace w1) timeout"
  have turn: "doEpoll E l timeout w = do { w \<leftarrow> ready_polls E ready w3; expired_timers E l w }"
    using assms(4) by (simp add: doEpoll_def awaits_def Let_def w1_def w2_def w3_def ready_def)
  have a3: "awaits isServer s l fd t d w3"
    using assms(4) by (simp add: awaits_def w1_def w2_def w3_def access isShuttingDown_def)
  have "\<exists>w4. ready_polls E ready w3 = Some w4 \<and> (ended s l fd w4 \<or> keeps s w3 w4)"
  proof -
    have "ready = [] \<or> (\<exists>events. ready = [(s, events)])" using assms(3) by (simp add: only_poll_def ready_def)
    then show ?thesis
    proof (elim disjE exE)
      assume "ready = []"
      then show ?thesis using ws_frame.same by simp
    next
      fix events assume "ready = [(s, events)]"
      then show ?thesis using dispatch_settles [OF assms(1,2) a3, of "if events AND EPOLLERR \<noteq> 0 then -1 else 0" events] by auto
    qed
  qed
  then obtain w4 where w4: "ready_polls E ready w3 = Some w4" "ended s l fd w4 \<or> keeps s w3 w4" by blast
  show thesis
  proof (cases "ended s l fd w4")
    case True
    then have "expired_timers E l w4 = Some w4" by (subst expired_timers.simps) (simp add: timer_due_def ended_def)
    with True w4(1) turn show thesis by (intro that [of w4]) simp_all
  next
    case False
    then have a4: "awaits isServer s l fd t d w4" using w4(2) awaits_keeps [OF a3] by blast
    show thesis
    proof (cases "d < now_tp (loops w4 l)")
      case True
      obtain w5 where "expired_timers E l w4 = Some w5" "ended s l fd w5" using timeout_fires [OF assms(1) a4 True] .
      with w4(1) turn show thesis by (intro that [of w5]) simp_all
    next
      case False
      then have "expired_timers E l w4 = Some w4"
        using a4 by (subst expired_timers.simps) (simp add: timer_due_def awaits_def)
      with False a4 w4(1) turn show thesis by (intro that [of w4]) simp_all
    qed
  qed
qed

lemma turns_settle:
  assumes "observers E" "whole_ssl_writes E" "only_poll E s"
  shows "awaits isServer s l fd t d w \<Longrightarrow> now_tp (loops w l) \<le> d \<Longrightarrow>
    \<exists>w'. turns_until_closed E l s ts w = Some w' \<and>
      (ended s l fd w' \<or> awaits isServer s l fd t d w' \<and> now_tp (loops w' l) \<le> d)"
proof (induction ts arbitrary: w)
  case (Cons timeout ts)
  obtain w1 where w1: "doEpoll E l timeout w = Some w1" "ended s l fd w1 \<or> awaits isServer s l fd t d w1 \<and> now_tp (loops w1 l) \<le> d"
    using turn_settles [OF assms Cons.prems(1)] .
  have open_w: "\<not> isClosed w s" using Cons.prems(1) by (simp add: awaits_def isClosed_def)
  show ?case
  proof (cases "ended s l fd w1")
    case True
    then have "turns_until_closed E l s ts w1 = Some w1" by (cases ts) (simp_all add: ended_def)
    with True open_w w1(1) show ?thesis by simp
  next
    case False
    with w1(2) Cons.IH [of w1] open_w w1(1) show ?thesis by simp
  qed
qed simp

section \<open>close\<close>

text \<open>
  C20: A closed WebSocket is gone after 15 seconds, whatever the peer does. On a loop whose only
  poll is the socket and that has no other timer and no poll to delete, \<open>close\<close> returns, marks the socket as shutting
  down and arms one timer for the time \<open>T\<close> of the call plus 15000 milliseconds. Then the loop makes
  any number of turns (\<open>doEpoll\<close>) in which the peer may do anything: \<open>epoll_wait\<close> reports any events
  or errors of the socket, and \<open>recv\<close>, \<open>send\<close> and OpenSSL return anything. Every turn returns. When
  the turns are over, the socket is closed (its descriptor is closed, its queue is empty, and no
  timer is left), or the loop's clock has not passed \<open>T\<close> plus 15000 milliseconds and the socket still
  waits. Assumed: handlers and callbacks return without touching the library (\<open>observers\<close>); \<open>SSL_write\<close>
  does not write partially; after \<open>close\<close> the application leaves the socket alone.
\<close>

theorem close_completes:
  assumes "observers E" "whole_ssl_writes E" "only_poll E s"
    "sock_loop w s = l" "timers (loops w l) = []" "closing (loops w l) = []" "\<not> isClosed w s"
    "s_cb (socks w s) = (if s_ssl (socks w s) = None then Io_ws isServer else SslIo_ws isServer)"
  shows "\<exists>w' T t. ws_close E isServer s code message w = Some w' \<and> isShuttingDown w' s \<and>
    T = sys_now E (trace w @ [E_new_timer t]) \<and> map tp_time (timers (loops w' l)) = [T + 15000 * ms_ns] \<and>
    (\<forall>timeouts. \<exists>w''. turns_until_closed E l s timeouts w' = Some w'' \<and>
      (isClosed w'' s \<and> s_queue (socks w'' s) = [] \<and> timers (loops w'' l) = [] \<and> E_close (s_fd (socks w s)) \<in> set (trace w'') \<or>
       now_tp (loops w'' l) \<le> T + 15000 * ms_ns \<and> isShuttingDown w'' s \<and> map tp_time (timers (loops w'' l)) = [T + 15000 * ms_ns]))"
proof -
  obtain w' t T where w': "ws_close E isServer s code message w = Some w'"
    "awaits isServer s l (s_fd (socks w s)) t (T + 15000 * ms_ns) w'" "now_tp (loops w' l) = T" "T = sys_now E (trace w @ [E_new_timer t])"
    using ws_close_facts [OF assms(1,5,6,4,7,8)] .
  have "\<exists>w''. turns_until_closed E l s ts w' = Some w'' \<and> (ended s l (s_fd (socks w s)) w'' \<or>
      awaits isServer s l (s_fd (socks w s)) t (T + 15000 * ms_ns) w'' \<and> now_tp (loops w'' l) \<le> T + 15000 * ms_ns)" for ts
    using turns_settle [OF assms(1-3) w'(2)] w'(3) by (simp add: ms_ns_def)
  with w' show ?thesis by (fastforce simp: ended_def awaits_def)
qed

text \<open>A socket whose peer keeps sending bytes.\<close>

definition chatty_env :: env where
  "chatty_env = env0\<lparr>sys_epoll_wait := (\<lambda>tr timeout. [(4, UV_READABLE)]), sys_recv := (\<lambda>tr fd n. Some [1, 2, 3]),
     ssl_write := (\<lambda>tr ssl d. int (length d))\<rparr>"

definition open_world :: world where
  "open_world = upd_sock 4 (\<lambda>x. x\<lparr>s_cb := Io_ws True\<rparr>) world0"

theorem close_completes_witness:
  "\<exists>w'. ws_close chatty_env True 4 1000 [0x62] open_world = Some w' \<and>
    (\<exists>w''. turns_until_closed chatty_env 0 4 [15000, 15000] w' = Some w'')"
proof -
  have "observers chatty_env" "whole_ssl_writes chatty_env" "only_poll chatty_env 4"
    by (simp_all add: observers_def chatty_env_def env0_def whole_ssl_writes_def only_poll_def)
  moreover have "sock_loop open_world 4 = 0" "timers (loops open_world 0) = []" "closing (loops open_world 0) = []"
    "\<not> isClosed open_world 4"
    "s_cb (socks open_world 4) = (if s_ssl (socks open_world 4) = None then Io_ws True else SslIo_ws True)"
    by (simp_all add: open_world_def world0_def sock0_def Loop_init_def sock_loop_def sock_group_def isClosed_def access group0_def)
  ultimately show ?thesis using close_completes [of chatty_env 4 open_world 0 True 1000 "[0x62]"] by blast
qed

end
