(* ===== verification/Prepared.thy ===== *)
theory Prepared
  imports WebSocketEnd
begin

text \<open>
  Prepared messages (uWebSockets \<open>WebSocket.cpp\<close>): one buffer, formatted once, is queued on many
  sockets and released by reference counting. The count is the number of messages that still
  point to the buffer, plus one until \<open>finalizeMessage\<close>; the buffer is deleted when it falls to zero.
\<close>

section \<open>References\<close>

definition refers :: "nat \<Rightarrow> message \<Rightarrow> bool" where
  "refers p m \<longleftrightarrow> m_cb m = Some Prepared_cb \<and> m_cbdata m = p"

definition queued_refs :: "nat \<Rightarrow> message list \<Rightarrow> nat" where
  "queued_refs p q = length (filter (refers p) q)"

definition pending :: "nat \<Rightarrow> nat list \<Rightarrow> world \<Rightarrow> nat" where
  "pending p ss w = sum_list (map (\<lambda>s. queued_refs p (s_queue (socks w s))) ss)"

definition releases :: "nat \<Rightarrow> world \<Rightarrow> nat" where
  "releases p w = count_list (trace w) (E_delete_prepared p)"

definition counted :: "nat \<Rightarrow> nat list \<Rightarrow> nat \<Rightarrow> world \<Rightarrow> bool" where
  "counted p ss held w \<longleftrightarrow> pm_references (prepareds w p) = int (held + pending p ss w) \<and>
     releases p w = (if held + pending p ss w = 0 then 1 else 0)"

text \<open>What a write keeps, apart from the queue of its socket.\<close>

definition prep_same :: "nat \<Rightarrow> world \<Rightarrow> world \<Rightarrow> bool" where
  "prep_same s w w' \<longleftrightarrow> prepareds w' = prepareds w \<and> (\<forall>t. t \<noteq> s \<longrightarrow> s_queue (socks w' t) = s_queue (socks w t)) \<and>
     (\<forall>p. releases p w' = releases p w)"

interpretation prep_frame: write_frame "prep_same s" s
  by unfold_locales (auto simp: prep_same_def access releases_def io_event_def)

lemma pending_change:
  assumes "distinct ss" "s \<in> set ss" "\<And>t. t \<noteq> s \<Longrightarrow> s_queue (socks w' t) = s_queue (socks w t)"
  shows "pending p ss w' + queued_refs p (s_queue (socks w s)) = pending p ss w + queued_refs p (s_queue (socks w' s))"
proof -
  obtain xs ys where ss: "ss = xs @ s # ys" using assms(2) by (auto simp: in_set_conv_decomp)
  have same: "s_queue (socks w' x) = s_queue (socks w x)" if "x \<in> set xs \<or> x \<in> set ys" for x
  proof -
    have "x \<noteq> s" using that ss assms(1) by auto
    then show ?thesis by (rule assms(3))
  qed
  have "(\<Sum>t\<leftarrow>xs. queued_refs p (s_queue (socks w' t))) = (\<Sum>t\<leftarrow>xs. queued_refs p (s_queue (socks w t)))"
    "(\<Sum>t\<leftarrow>ys. queued_refs p (s_queue (socks w' t))) = (\<Sum>t\<leftarrow>ys. queued_refs p (s_queue (socks w t)))"
    by (simp_all add: same cong: map_cong)
  then show ?thesis by (simp add: pending_def ss)
qed

lemma pending_cong:
  "(\<And>t. s_queue (socks w' t) = s_queue (socks w t)) \<Longrightarrow> pending p ss w' = pending p ss w"
  by (simp add: pending_def)

lemma queued_refs_simps [simp]:
  "queued_refs p [] = 0" "queued_refs p (m # q) = (if refers p m then Suc (queued_refs p q) else queued_refs p q)"
  "queued_refs p (q @ q') = queued_refs p q + queued_refs p q'"
  by (simp_all add: queued_refs_def)

lemma counted_same:
  assumes "counted p ss held w" "prepareds w' p = prepareds w p" "releases p w' = releases p w" "pending p ss w' = pending p ss w"
  shows "counted p ss held w'"
  using assms by (simp add: counted_def)

section \<open>The callback of a message\<close>

text \<open>
  A message is done: its callback runs and it leaves the queue. A reference to \<open>p\<close> is given up
  with it, and the last one deletes the buffer.
\<close>

lemma call_cb_refs:
  assumes "observers E"
  obtains w' where "call_cb E (m_cb m) so (m_cbdata m) c r w = Some w'" "socks w' = socks w" "loops w' = loops w" "groups w' = groups w"
    "pm_references (prepareds w' p) = pm_references (prepareds w p) - (if refers p m then 1 else 0)"
    "releases p w' = releases p w + (if refers p m \<and> pm_references (prepareds w p) = 1 then 1 else 0)"
proof (cases "m_cb m")
  case None
  then show thesis by (intro that [of w]) (simp_all add: call_cb_def refers_def)
next
  case (Some cb)
  show thesis
  proof (cases cb)
    case (User_cb n)
    then show thesis using Some assms by (intro that [of w]) (simp_all add: call_cb_def refers_def observers_def)
  next
    case Shutdown_cb
    then show thesis
      using Some by (intro that [of "if c then w else sock_shutdown (the so) w"])
        (simp_all add: call_cb_def refers_def sock_shutdown_def access releases_def split: option.splits)
  next
    case Prepared_cb
    define w1 where "w1 = upd_prepared (m_cbdata m) (\<lambda>x. x\<lparr>pm_references := pm_references x - 1\<rparr>) w"
    define last where "last \<longleftrightarrow> pm_references (prepareds w1 (m_cbdata m)) = 0"
    have "call_cb E (m_cb m) so (m_cbdata m) c r w = Some (if last then log (E_delete_prepared (m_cbdata m)) w1 else w1)"
      using Some Prepared_cb assms
      by (simp add: call_cb_def prepared_cb_def Let_def w1_def [symmetric] last_def observers_def split: option.splits)
    then show thesis
      by (rule that) (use Some Prepared_cb in \<open>auto simp: refers_def w1_def last_def access releases_def upd_prepared_def log_def\<close>)
  qed
qed

lemma message_done:
  assumes "observers E" "counted p ss held w" "s_queue (socks w s) = m # ms" "distinct ss" "s \<in> set ss"
  obtains w' w1 where "call_cb E (m_cb m) so (m_cbdata m) c r w = Some w1" "pop_message s w1 = Some w'"
    "counted p ss held w'" "socks w' = (socks w)(s := (socks w s)\<lparr>s_queue := ms\<rparr>)" "loops w' = loops w" "groups w' = groups w"
proof -
  obtain w1 where w1: "call_cb E (m_cb m) so (m_cbdata m) c r w = Some w1" "socks w1 = socks w" "loops w1 = loops w" "groups w1 = groups w"
    "pm_references (prepareds w1 p) = pm_references (prepareds w p) - (if refers p m then 1 else 0)"
    "releases p w1 = releases p w + (if refers p m \<and> pm_references (prepareds w p) = 1 then 1 else 0)"
    using call_cb_refs [OF assms(1)] .
  define w' where "w' = upd_sock s (\<lambda>x. x\<lparr>s_queue := ms\<rparr>) (freeMessage (m_addr m) w1)"
  have w': "pop_message s w1 = Some w'" "socks w' = (socks w)(s := (socks w s)\<lparr>s_queue := ms\<rparr>)" "prepareds w' = prepareds w1"
    "loops w' = loops w" "groups w' = groups w" "releases p w' = releases p w1"
    using w1 assms(3) by (simp_all add: w'_def pop_message_def freeMessage_def access upd_sock_def upd_pool_def releases_def)
  have "pending p ss w' + queued_refs p (m # ms) = pending p ss w + queued_refs p ms"
    using pending_change [OF assms(4,5), of w' w p] w'(2) assms(3) by simp
  then have n: "pending p ss w = pending p ss w' + (if refers p m then 1 else 0)" by (auto split: if_splits)
  have "counted p ss held w'"
    using assms(2) w1(5,6) w'(3,6) n by (auto simp: counted_def split: if_splits)
  with w1(1) w' show thesis by (intro that)
qed


section \<open>The operations\<close>

lemma sendPrepared_counted:
  assumes "observers E" "counted p ss held w" "distinct ss" "s \<in> set ss" "0 < held + pending p ss w"
  obtains w' where "sendPrepared E s p d w = Some w'" "counted p ss held w'"
proof -
  define i where "i = getMemoryBlockIndex MESSAGE_HEADER"
  define w1 where "w1 = snd (getSmall i (upd_prepared p (\<lambda>x. x\<lparr>pm_references := pm_references x + 1\<rparr>) w))"
  define a where "a = fst (getSmall i (upd_prepared p (\<lambda>x. x\<lparr>pm_references := pm_references x + 1\<rparr>) w))"
  define m where "m = new_message a (pm_buffer (prepareds w1 p))"
  have w1: "socks w1 = socks w" "pm_references (prepareds w1 p) = pm_references (prepareds w p) + 1" "releases p w1 = releases p w"
    by (simp_all add: w1_def getSmall_def Let_def case_prod_beta access releases_def upd_prepared_def upd_pool_def)
  obtain ok tr w2 where w2: "sock_write E s m w1 = (ok, tr, w2)" by (cases "sock_write E s m w1") auto
  then have same: "prep_same s w1 w2" using prep_frame.wrote [where w = w1 and E = E and m = m and s = s] by simp
  have q: "s_queue (socks w2 s) = s_queue (socks w1 s) @ (if tr then [m\<lparr>m_data := m_data (last (s_queue (socks w2 s)))\<rparr>] else [])"
    and ok: "tr \<Longrightarrow> ok"
    using w2 by (auto simp: sock_write_def write_ssl_def write_plain_def push_transferred_def enqueue_def access Let_def m_def new_message_def
        poll_writable_frame split: option.splits ssl_error.splits if_splits)
  have send: "sendPrepared E s p d w = after_write E s (freeSmall a i) (Some Prepared_cb) p d (ok, tr, w2)"
    using w2 unfolding m_def a_def w1_def i_def by (simp only: sendPrepared_def Let_def case_prod_beta)
  show thesis
  proof (cases tr)
    case True
    define w3 where "w3 = set_callback s (Some Prepared_cb) p d w2"
    have q3: "s_queue (socks w3 s) = s_queue (socks w s) @ [(last (s_queue (socks w2 s)))\<lparr>m_cb := Some Prepared_cb, m_cbdata := p, m_reserved := d\<rparr>]"
    proof -
      have "butlast (s_queue (socks w2 s)) = s_queue (socks w s)" using q True w1(1) by (metis butlast_snoc)
      then show ?thesis by (simp add: w3_def set_callback_def access)
    qed
    have "t \<noteq> s \<Longrightarrow> s_queue (socks w3 t) = s_queue (socks w t)" for t
      using same w1(1) by (simp add: w3_def set_callback_def access prep_same_def)
    then have "pending p ss w3 = Suc (pending p ss w)"
      using pending_change [OF assms(3,4), of w3 w p] q3 by (simp add: refers_def)
    moreover have "prepareds w3 = prepareds w1" "releases p w3 = releases p w1"
      using same by (simp_all add: w3_def set_callback_def prep_same_def access releases_def upd_sock_def)
    ultimately have "counted p ss held w3"
      using assms(2,5) w1 by (simp add: counted_def split: if_splits)
    then show thesis using send True ok by (intro that [of w3]) (simp_all add: after_write_def w3_def)
  next
    case False
    define m' where "m' = m\<lparr>m_cb := Some Prepared_cb, m_cbdata := p\<rparr>"
    obtain w3 where w3: "call_cb E (m_cb m') (Some s) (m_cbdata m') (\<not> ok) d (freeSmall a i w2) = Some w3"
      "socks w3 = socks (freeSmall a i w2)"
      "pm_references (prepareds w3 p) = pm_references (prepareds (freeSmall a i w2) p) - (if refers p m' then 1 else 0)"
      "releases p w3 = releases p (freeSmall a i w2) + (if refers p m' \<and> pm_references (prepareds (freeSmall a i w2) p) = 1 then 1 else 0)"
      using call_cb_refs [OF assms(1)] by metis
    have free: "socks (freeSmall a i w2) = socks w2" "prepareds (freeSmall a i w2) = prepareds w1" "releases p (freeSmall a i w2) = releases p w"
      using same w1(3) by (simp_all add: freeSmall_def access prep_same_def releases_def upd_pool_def)
    have r: "refers p m'" by (simp add: refers_def m'_def)
    have "s_queue (socks w2 t) = s_queue (socks w t)" for t
      using same w1(1) q False by (cases "t = s") (simp_all add: prep_same_def)
    then have "pending p ss w3 = pending p ss w" using w3(2) free(1) by (intro pending_cong) simp
    moreover have "pm_references (prepareds w p) = int (held + pending p ss w)" using assms(2) by (simp add: counted_def)
    ultimately have "counted p ss held w3"
      using assms(2,5) w1(2) w3(3,4) free r by (auto simp: counted_def)
    then show thesis
      using send False w3(1) by (intro that [of w3]) (cases ok, simp_all add: after_write_def m'_def)
  qed
qed

text \<open>A write of any other message: it changes no reference.\<close>

lemma plain_write_counted:
  assumes "observers E" "counted p ss held w" "distinct ss" "s \<in> set ss" "cb \<noteq> Some Prepared_cb"
    "\<And>w. socks (free w) = socks w" "\<And>w. prepareds (free w) = prepareds w" "\<And>w. releases p (free w) = releases p w"
  obtains w' where "after_write E s free cb d r (sock_write E s (new_message a bytes) w) = Some w'" "counted p ss held w'"
proof -
  let ?m = "new_message a bytes"
  obtain ok tr w2 where w2: "sock_write E s ?m w = (ok, tr, w2)" by (cases "sock_write E s ?m w") auto
  then have same: "prep_same s w w2" using prep_frame.wrote [where w = w and E = E and m = ?m and s = s] by simp
  have q: "s_queue (socks w2 s) = s_queue (socks w s) @ (if tr then [last (s_queue (socks w2 s))] else [])"
    and ok: "tr \<Longrightarrow> ok"
    using w2 by (auto simp: sock_write_def write_ssl_def write_plain_def push_transferred_def enqueue_def access Let_def new_message_def
        poll_writable_frame split: option.splits ssl_error.splits if_splits)
  show thesis
  proof (cases tr)
    case True
    define w3 where "w3 = set_callback s cb d r w2"
    have "butlast (s_queue (socks w2 s)) = s_queue (socks w s)" using q True by (metis butlast_snoc)
    then have q3: "s_queue (socks w3 s) = s_queue (socks w s) @ [(last (s_queue (socks w2 s)))\<lparr>m_cb := cb, m_cbdata := d, m_reserved := r\<rparr>]"
      by (simp add: w3_def set_callback_def access)
    have "t \<noteq> s \<Longrightarrow> s_queue (socks w3 t) = s_queue (socks w t)" for t
      using same by (simp add: w3_def set_callback_def access prep_same_def)
    then have "pending p ss w3 = pending p ss w"
      using pending_change [OF assms(3,4), of w3 w p] q3 assms(5) by (simp add: refers_def)
    then have "counted p ss held w3"
      using same by (intro counted_same [OF assms(2)]) (simp_all add: w3_def set_callback_def prep_same_def access releases_def upd_sock_def)
    then show thesis using w2 True ok by (intro that [of w3]) (simp_all add: after_write_def w3_def)
  next
    case False
    define m' where "m' = ?m\<lparr>m_cb := cb, m_cbdata := d\<rparr>"
    obtain w3 where w3: "call_cb E (m_cb m') (Some s) (m_cbdata m') (\<not> ok) r (free w2) = Some w3" "socks w3 = socks (free w2)"
      "pm_references (prepareds w3 p) = pm_references (prepareds (free w2) p) - (if refers p m' then 1 else 0)"
      "releases p w3 = releases p (free w2) + (if refers p m' \<and> pm_references (prepareds (free w2) p) = 1 then 1 else 0)"
      using call_cb_refs [OF assms(1)] by metis
    have r: "\<not> refers p m'" using assms(5) by (simp add: refers_def m'_def)
    have "s_queue (socks w2 t) = s_queue (socks w t)" for t
      using same q False by (cases "t = s") (simp_all add: prep_same_def)
    then have "pending p ss w3 = pending p ss w" using w3(2) assms(6) by (intro pending_cong) simp
    then have "counted p ss held w3"
      using assms(2,7,8) same w3(3,4) r by (simp add: counted_def prep_same_def)
    then show thesis
      using w2 False w3(1) by (intro that [of w3]) (cases ok, simp_all add: after_write_def m'_def)
  qed
qed

lemma plain_send_counted:
  assumes "observers E" "counted p ss held w" "distinct ss" "s \<in> set ss"
  obtains w' where "ws_send E isServer s message opc (map_option User_cb cb) d False w = Some w'" "counted p ss held w'"
proof -
  let ?cb = "map_option User_cb cb" and ?est = "length message + LONG_MESSAGE_HEADER (\<not> isServer)"
  have cb: "?cb \<noteq> Some Prepared_cb" by (cases cb) simp_all
  have fmt: "socks (snd (format_random E isServer message opc False v)) = socks v"
    "prepareds (snd (format_random E isServer message opc False v)) = prepareds v"
    "releases p (snd (format_random E isServer message opc False v)) = releases p v" for v
    by (simp_all add: format_random_def releases_def access log_def)
  have small: "socks (snd (getSmall i v)) = socks v" "prepareds (snd (getSmall i v)) = prepareds v" "releases p (snd (getSmall i v)) = releases p v"
    and block: "socks (snd (allocMessage n v)) = socks v" "prepareds (snd (allocMessage n v)) = prepareds v"
      "releases p (snd (allocMessage n v)) = releases p v" for i n v
    by (simp_all add: getSmall_def allocMessage_def Let_def case_prod_beta access releases_def upd_pool_def)
  have free: "socks (freeSmall a i v) = socks v" "prepareds (freeSmall a i v) = prepareds v" "releases p (freeSmall a i v) = releases p v"
    "socks (freeMessage a v) = socks v" "prepareds (freeMessage a v) = prepareds v" "releases p (freeMessage a v) = releases p v" for a i v
    by (simp_all add: freeSmall_def freeMessage_def access releases_def upd_pool_def)
  have start: "counted p ss held (snd (format_random E isServer message opc False (snd (getSmall i w))))"
    "counted p ss held (snd (format_random E isServer message opc False (snd (allocMessage n w))))" for i n
    by (intro counted_same [OF assms(2)] pending_cong; simp add: fmt small block)+
  show thesis
  proof (cases "hasEmptyQueue w s")
    case True
    define i where "i = getMemoryBlockIndex (?est + MESSAGE_HEADER)"
    define v where "v = (if ?est + MESSAGE_HEADER \<le> preAllocMaxSize then snd (getSmall i w) else snd (allocMessage ?est w))"
    define fr where "fr = (if ?est + MESSAGE_HEADER \<le> preAllocMaxSize then freeSmall (fst (getSmall i w)) i
      else freeMessage (fst (allocMessage ?est w)))"
    define a where "a = (if ?est + MESSAGE_HEADER \<le> preAllocMaxSize then fst (getSmall i w) else fst (allocMessage ?est w))"
    let ?f = "format_random E isServer message opc False v"
    have c: "counted p ss held (snd ?f)" using start by (simp add: v_def)
    have f: "\<And>w. socks (fr w) = socks w" "\<And>w. prepareds (fr w) = prepareds w" "\<And>w. releases p (fr w) = releases p w"
      by (simp_all add: fr_def free)
    obtain w' where w': "after_write E s fr ?cb d 0 (sock_write E s (new_message a (fst ?f)) (snd ?f)) = Some w'" "counted p ss held w'"
      using plain_write_counted [OF assms(1) c assms(3,4) cb f] .
    have "ws_send E isServer s message opc ?cb d False w =
        after_write E s fr ?cb d 0 (sock_write E s (new_message a (fst ?f)) (snd ?f))"
      using True by (simp add: ws_send_def sendTransformed_def ws_transform_def Let_def case_prod_beta v_def fr_def a_def i_def)
    then show thesis using w' by (intro that) simp
  next
    case False
    let ?f = "format_random E isServer message opc False (snd (allocMessage ?est w))"
    define m where "m = (new_message (fst (allocMessage ?est w)) (fst ?f))\<lparr>m_cb := ?cb, m_cbdata := d\<rparr>"
    have r: "\<not> refers p m" using cb by (simp add: m_def refers_def)
    have "pending p ss (enqueue s m (snd ?f)) = pending p ss (snd ?f)"
      using pending_change [OF assms(3,4), of "enqueue s m (snd ?f)" "snd ?f" p] r by (simp add: enqueue_def access)
    then have "counted p ss held (enqueue s m (snd ?f))"
      by (intro counted_same [OF start(2)]) (simp_all add: enqueue_def access releases_def upd_sock_def)
    moreover have "ws_send E isServer s message opc ?cb d False w = Some (enqueue s m (snd ?f))"
      using False by (simp add: ws_send_def sendTransformed_def ws_transform_def Let_def case_prod_beta m_def)
    ultimately show thesis by (intro that)
  qed
qed

lemma finalize_counted:
  "counted p ss 1 w \<Longrightarrow> counted p ss 0 (finalizeMessage p w)"
  by (auto simp: counted_def finalizeMessage_def Let_def access releases_def pending_def upd_prepared_def log_def)


lemma cancel_counted:
  assumes "observers E" "distinct ss" "s \<in> set ss"
  shows "counted p ss held w \<Longrightarrow> \<exists>w'. cancel_queue E s w = Some w' \<and> counted p ss held w'"
proof (induction "s_queue (socks w s)" arbitrary: w)
  case Nil
  then show ?case by (subst cancel_queue.simps) simp
next
  case (Cons m ms)
  obtain w1 w2 where "call_cb E (m_cb m) None (m_cbdata m) True 0 w = Some w1" "pop_message s w1 = Some w2"
    "counted p ss held w2" "socks w2 = (socks w)(s := (socks w s)\<lparr>s_queue := ms\<rparr>)"
    using message_done [OF assms(1) Cons.prems Cons.hyps(2) [symmetric] assms(2,3)] by metis
  then show ?case
    using Cons.hyps(1) [of w2] Cons.hyps(2) [symmetric] by (subst cancel_queue.simps) auto
qed

lemma drain_counted:
  assumes "observers E" "send_contract E" "distinct ss" "s \<in> set ss"
  shows "counted p ss held w \<Longrightarrow> s_queue (socks w s) \<noteq> [] \<Longrightarrow>
    \<exists>w'. drain_queue E onEnd s w = Some (False, w') \<and> counted p ss held w'"
proof (induction "length (s_queue (socks w s))" arbitrary: w)
  case (Suc n)
  obtain m ms where q: "s_queue (socks w s) = m # ms" using Suc.prems(2) by (cases "s_queue (socks w s)") auto
  define fd where "fd = s_fd (socks w s)"
  define sent where "sent = sys_send E (trace w) fd (m_data m)"
  define w1 where "w1 = log (E_send fd (m_data m) sent) w"
  have w1: "counted p ss held w1" "s_queue (socks w1 s) = m # ms"
    using Suc.prems(1) q by (auto simp: w1_def access counted_def pending_def releases_def)
  have unfold: "drain_queue E onEnd s w =
    (if sent = int (length (m_data m)) then
       do { w \<leftarrow> message_sent E s m w1;
            if s_queue (socks w s) = [] then Some (False, change_to s UV_READABLE w) else drain_queue E onEnd s w }
     else if sent = -1 then Some (False, w1)
     else Some (False, upd_sock s (\<lambda>x. x\<lparr>s_queue := m\<lparr>m_data := drop (nat sent) (m_data m)\<rparr> # ms\<rparr>) w1))"
    using q assms(2) by (subst drain_queue.simps) (simp add: Let_def fd_def sent_def w1_def send_contract_def)
  consider (full) "sent = int (length (m_data m))" | (block) "sent \<noteq> int (length (m_data m))" "sent = -1"
    | (part) "sent \<noteq> int (length (m_data m))" "sent \<noteq> -1" by blast
  then show ?case
  proof cases
    case full
    obtain w2 w3 where "call_cb E (m_cb m) (Some s) (m_cbdata m) False (m_reserved m) w1 = Some w2" "pop_message s w2 = Some w3"
      "counted p ss held w3" "socks w3 = (socks w1)(s := (socks w1 s)\<lparr>s_queue := ms\<rparr>)"
      using message_done [OF assms(1) w1 assms(3,4)] by metis
    then have w3: "message_sent E s m w1 = Some w3" "counted p ss held w3" "s_queue (socks w3 s) = ms"
      by (simp_all add: message_sent_def)
    show ?thesis
    proof (cases "ms = []")
      case True
      have "prep_same s w3 (change_to s UV_READABLE w3)" by (rule prep_frame.change_to)
      moreover have "s_queue (socks (change_to s UV_READABLE w3) s) = s_queue (socks w3 s)"
        by (simp add: change_to_def setPoll_def poll_change_def access Let_def)
      ultimately have "counted p ss held (change_to s UV_READABLE w3)"
        using w3(2) by (intro counted_same [OF w3(2)] pending_cong) (auto simp: prep_same_def)
      then show ?thesis using unfold full w3 True by simp
    next
      case False
      then show ?thesis using unfold full w3 Suc.hyps(1) [of w3] Suc.hyps(2) q by simp
    qed
  next
    case block
    then show ?thesis using unfold w1 by simp
  next
    case part
    define w2 where "w2 = upd_sock s (\<lambda>x. x\<lparr>s_queue := m\<lparr>m_data := drop (nat sent) (m_data m)\<rparr> # ms\<rparr>) w1"
    have "pending p ss w2 = pending p ss w1"
      using pending_change [OF assms(3,4), of w2 w1 p] w1(2) by (simp add: w2_def access refers_def)
    then have "counted p ss held w2"
      by (intro counted_same [OF w1(1)]) (simp_all add: w2_def access releases_def upd_sock_def)
    then show ?thesis using unfold part by (simp add: w2_def)
  qed
qed simp

lemma writable_counted:
  assumes "observers E" "send_contract E" "distinct ss" "s \<in> set ss" "counted p ss held w"
  shows "\<exists>w'. ioHandler E onData onEnd s 0 UV_WRITABLE w = Some w' \<and> counted p ss held w'"
proof (cases "s_queue (socks w s) = []")
  case True
  then show ?thesis using assms(5) by (simp add: ioHandler_def)
next
  case False
  have cork: "counted p ss held (cork s b v) = counted p ss held v" for b v
    by (simp add: counted_def pending_def releases_def cork_def access)
  then obtain w' where "drain_queue E onEnd s (cork s True w) = Some (False, w')" "counted p ss held w'"
    using drain_counted [OF assms(1-4), of p held "cork s True w" onEnd] assms(5) False by (auto simp: cork_def access)
  then show ?thesis using False cork by (simp add: ioHandler_def)
qed

lemma onEnd_counted:
  assumes "observers E" "distinct ss" "s \<in> set ss" "counted p ss held w"
  shows "\<exists>w'. ws_onEnd E s w = Some w' \<and> counted p ss held w'"
proof -
  have q: "s_queue (socks (ws_leave s w) t) = s_queue (socks w t)" for t
    by (simp add: ws_leave_def closeSocket_def poll_stop_def poll_close_def Let_def access cancelTimeout_facts split: option.splits)
  have "prepareds (removeWebSocket g s w) = prepareds w" for g
    by (simp add: removeWebSocket_def move_iterator_def set_next_def set_prev_def Let_def upd_sock_def upd_group_def split: option.splits)
  moreover have "prepareds (cancelTimeout s w) = prepareds w"
    by (simp add: cancelTimeout_def setUserData_def timer_stop_def timer_close_def access split: option.splits)
  moreover have "prepareds (closeSocket s v) = prepareds v" for v
    by (simp add: closeSocket_def poll_stop_def poll_close_def Let_def access upd_loop_def split: option.splits)
  moreover have "releases p (cancelTimeout s w) = releases p w"
    by (simp add: cancelTimeout_def setUserData_def timer_stop_def timer_close_def access releases_def split: option.splits)
  moreover have "releases p (closeSocket s v) = releases p v" for v
    by (simp add: closeSocket_facts releases_def split: option.splits)
  moreover have "releases p (removeWebSocket g s w) = releases p w" for g by (simp add: releases_def)
  ultimately have "counted p ss held (ws_leave s w)"
    using assms(4) q by (intro counted_same [OF assms(4)] pending_cong) (simp_all add: ws_leave_def)
  then obtain w1 where w1: "cancel_queue E s (ws_leave s w) = Some w1" "counted p ss held w1"
    using cancel_counted [OF assms(1-3)] by blast
  define w2 where "w2 = upd_sock s (\<lambda>x. x\<lparr>slidingDeflateWindow := None\<rparr>) (clearPendingPollChanges (s_node (socks w1 s)) s w1)"
  have "ws_onEnd E s w = Some w2"
    using assms(1) w1(1) by (cases "isShuttingDown w s") (simp_all add: ws_onEnd_def observers_def ws_leave_def Let_def w2_def)
  moreover have "counted p ss held w2"
  proof (rule counted_same [OF w1(2)])
    show "pending p ss w2 = pending p ss w1"
      by (rule pending_cong) (simp add: w2_def clearPendingPollChanges_def access)
  qed (simp_all add: w2_def clearPendingPollChanges_def access releases_def upd_sock_def upd_group_def)
  ultimately show ?thesis by blast
qed

section \<open>Property\<close>

text \<open>What may happen while a prepared message is in use, and after it was finalized.\<close>

datatype prep_op = Send_prepared nat nat | Send_plain nat bool "byte list" byte "nat option" nat | Writable_event nat | Ended nat

fun prep_run :: "env \<Rightarrow> on_data \<Rightarrow> on_end \<Rightarrow> nat \<Rightarrow> prep_op list \<Rightarrow> world \<Rightarrow> world option" where
  "prep_run E onData onEnd p [] w = Some w"
| "prep_run E onData onEnd p (Send_prepared s d # ops) w = do { w \<leftarrow> sendPrepared E s p d w; prep_run E onData onEnd p ops w }"
| "prep_run E onData onEnd p (Send_plain s isServer message opc cb d # ops) w =
     do { w \<leftarrow> ws_send E isServer s message opc (map_option User_cb cb) d False w; prep_run E onData onEnd p ops w }"
| "prep_run E onData onEnd p (Writable_event s # ops) w = do { w \<leftarrow> ioHandler E onData onEnd s 0 UV_WRITABLE w; prep_run E onData onEnd p ops w }"
| "prep_run E onData onEnd p (Ended s # ops) w = do { w \<leftarrow> ws_onEnd E s w; prep_run E onData onEnd p ops w }"

fun op_socket :: "prep_op \<Rightarrow> nat" where
  "op_socket (Send_prepared s d) = s"
| "op_socket (Send_plain s isServer message opc cb d) = s"
| "op_socket (Writable_event s) = s"
| "op_socket (Ended s) = s"

definition no_send :: "prep_op \<Rightarrow> bool" where
  "no_send x = (case x of Send_prepared s d \<Rightarrow> False | _ \<Rightarrow> True)"

lemma prep_run_counted:
  assumes "observers E" "send_contract E" "distinct ss"
  shows "counted p ss held w \<Longrightarrow> op_socket ` set ops \<subseteq> set ss \<Longrightarrow> held = 1 \<or> list_all no_send ops \<Longrightarrow>
    \<exists>w'. prep_run E onData onEnd p ops w = Some w' \<and> counted p ss held w'"
proof (induction ops arbitrary: w)
  case (Cons x ops)
  have s: "op_socket x \<in> set ss" using Cons.prems(2) by simp
  have "\<exists>w1. prep_run E onData onEnd p (x # ops) w = prep_run E onData onEnd p ops w1 \<and> counted p ss held w1"
  proof (cases x)
    case (Send_prepared t d)
    then have "held = 1" using Cons.prems(3) by (simp add: no_send_def)
    then obtain w1 where "sendPrepared E t p d w = Some w1" "counted p ss held w1"
      using sendPrepared_counted [OF assms(1) Cons.prems(1) assms(3), of t d] s Send_prepared by auto
    then show ?thesis using Send_prepared by auto
  next
    case (Send_plain t isServer message opc cb d)
    with s have t: "t \<in> set ss" by simp
    obtain w1 where "ws_send E isServer t message opc (map_option User_cb cb) d False w = Some w1" "counted p ss held w1"
      using plain_send_counted [OF assms(1) Cons.prems(1) assms(3) t] .
    then show ?thesis using Send_plain by auto
  next
    case (Writable_event t)
    then show ?thesis using writable_counted [OF assms _ Cons.prems(1), of t onData onEnd] s by auto
  next
    case (Ended t)
    then show ?thesis using onEnd_counted [OF assms(1,3) _ Cons.prems(1), of t] s by auto
  qed
  then show ?case using Cons.IH Cons.prems by auto
qed simp

lemma prepareMessage_counted:
  assumes "pending (fresh w) ss w = 0" "releases (fresh w) w = 0" "prepareMessage E isServer data opc compressed cb w = (p, w1)"
  shows "p = fresh w" "counted p ss 1 w1"
  using assms by (auto simp: prepareMessage_def new_id_def format_random_def counted_def pending_def releases_def access Let_def
      upd_prepared_def log_def split: if_splits)

text \<open>
  C22: A prepared message is released exactly once, and never too early. Prepare a message, and send it to
  any of the sockets \<open>ss\<close> any number of times, while other (uncompressed) messages are sent on them and they
  are drained by writable events and ended, in any order; finalize it, and let the sockets go on. Every
  operation returns. The reference count is always the number of queued messages of it, plus one before
  \<open>finalizeMessage\<close>. Until \<open>finalizeMessage\<close> the buffer is never deleted; afterwards it has been
  deleted if and only if none of the sockets has a message of it queued any more, and then exactly once.
  Assumed: the application's callbacks and disconnection handlers return and do not touch the library, and
  \<open>send\<close> takes what it returns and fails only because it would block.
\<close>

theorem prepared_released_once:
  assumes "observers E" "send_contract E" "distinct ss"
    and "pending (fresh w) ss w = 0" "releases (fresh w) w = 0"
    and "prepareMessage E isServer data opc compressed cb w = (p, w1)"
    and "op_socket ` set ops1 \<subseteq> set ss" "op_socket ` set ops2 \<subseteq> set ss" "list_all no_send ops2"
  shows "\<exists>w2 w3. prep_run E onData onEnd p ops1 w1 = Some w2 \<and> releases p w2 = 0 \<and>
    pm_references (prepareds w2 p) = 1 + int (pending p ss w2) \<and>
    prep_run E onData onEnd p ops2 (finalizeMessage p w2) = Some w3 \<and>
    releases p w3 = (if pending p ss w3 = 0 then 1 else 0) \<and>
    pm_references (prepareds w3 p) = int (pending p ss w3)"
proof -
  have "counted p ss 1 w1" using prepareMessage_counted [OF assms(4-6)] by simp
  then obtain w2 where w2: "prep_run E onData onEnd p ops1 w1 = Some w2" "counted p ss 1 w2"
    using prep_run_counted [OF assms(1-3) _ assms(7)] by blast
  then obtain w3 where "prep_run E onData onEnd p ops2 (finalizeMessage p w2) = Some w3" "counted p ss 0 w3"
    using prep_run_counted [OF assms(1-3) finalize_counted assms(8)] assms(9) by blast
  with w2 show ?thesis by (auto simp: counted_def)
qed

theorem prepared_released_once_witness:
  "\<exists>w2 w3. prep_run env0 (\<lambda>s m d n w. None) (\<lambda>s w. None) 100 [Send_prepared 4 0, Send_plain 5 True [7] TEXT None 0, Send_prepared 5 0]
      (snd (prepareMessage env0 True [1, 2, 3] BINARY False None world0)) = Some w2 \<and>
     prep_run env0 (\<lambda>s m d n w. None) (\<lambda>s w. None) 100 [Writable_event 4, Send_plain 4 True [8] BINARY None 0, Ended 4, Ended 5] (finalizeMessage 100 w2) = Some w3 \<and>
     releases 100 w3 = (if pending 100 [4, 5] w3 = 0 then 1 else 0)"
proof -
  have "send_contract env0" by (simp add: send_contract_def env0_def)
  moreover have "pending (fresh world0) [4, 5] world0 = 0" "releases (fresh world0) world0 = 0"
    by (simp_all add: pending_def releases_def world0_def sock0_def)
  moreover have "prepareMessage env0 True [1, 2, 3] BINARY False None world0 =
      (100, snd (prepareMessage env0 True [1, 2, 3] BINARY False None world0))"
    by (simp add: prepareMessage_def new_id_def format_random_def Let_def world0_def)
  moreover have ops: "distinct [4, 5 :: nat]" "op_socket ` set [Send_prepared 4 0, Send_plain 5 True [7] TEXT None 0, Send_prepared 5 0] \<subseteq> set [4, 5]"
    "op_socket ` set [Writable_event 4, Send_plain 4 True [8] BINARY None 0, Ended 4, Ended 5] \<subseteq> set [4, 5]" "list_all no_send [Writable_event 4, Send_plain 4 True [8] BINARY None 0, Ended 4, Ended 5]"
    by (simp_all add: no_send_def)
  ultimately show ?thesis
    using prepared_released_once [OF env0_observers, of "[4, 5]" world0 True "[1, 2, 3]" BINARY False None 100
        "snd (prepareMessage env0 True [1, 2, 3] BINARY False None world0)" "[Send_prepared 4 0, Send_plain 5 True [7] TEXT None 0, Send_prepared 5 0]"
        "[Writable_event 4, Send_plain 4 True [8] BINARY None 0, Ended 4, Ended 5]" "\<lambda>s m d n w. None" "\<lambda>s w. None"] ops by blast
qed

end
