(* ===== verification/GroupEnd.thy ===== *)
theory GroupEnd
  imports WebSocketEnd
begin

text \<open>
  Ending WebSockets from a traversal of their group (uWebSockets \<open>Group.cpp\<close>): \<open>terminate\<close> and the
  automatic ping. The callback of the traversal removes the socket it is called for; the list, the
  iterator and the other sockets stay as the traversal needs them.
\<close>

section \<open>Ending one member\<close>

definition live_list :: "nat \<Rightarrow> world \<Rightarrow> nat list \<Rightarrow> bool" where
  "live_list g w xs \<longleftrightarrow> ws_list w g xs \<and> (\<forall>s\<in>set xs. s_node (socks w s) = g \<and> \<not> isShuttingDown w s)"

text \<open>What the end of \<open>s\<close> keeps of the other sockets.\<close>

definition others_same :: "nat \<Rightarrow> world \<Rightarrow> world \<Rightarrow> bool" where
  "others_same s w w' \<longleftrightarrow> (\<forall>t. t \<noteq> s \<longrightarrow> s_fd (socks w' t) = s_fd (socks w t) \<and> s_node (socks w' t) = s_node (socks w t) \<and>
     s_shutting (socks w' t) = s_shutting (socks w t) \<and> hasOutstandingPong (socks w' t) = hasOutstandingPong (socks w t))"

lemma others_same_remove: "others_same s w (removeWebSocket g t w)"
  by (auto simp: others_same_def removeWebSocket_def move_iterator_def set_next_def set_prev_def Let_def access split: option.splits)

lemma remove_node:
  "s_node (socks (removeWebSocket g t w) s) = s_node (socks w s)"
  using removeWebSocket_keeps [of s w g t] by (simp add: keeps_def)

definition links_same :: "nat \<Rightarrow> world \<Rightarrow> world \<Rightarrow> bool" where
  "links_same g w w' \<longleftrightarrow> webSocketHead (groups w' g) = webSocketHead (groups w g) \<and> iterators (groups w' g) = iterators (groups w g) \<and>
     (\<forall>t. s_next (socks w' t) = s_next (socks w t) \<and> s_prev (socks w' t) = s_prev (socks w t))"

lemma links_same_list: "links_same g w w' \<Longrightarrow> ws_list w' g xs = ws_list w g xs"
proof -
  assume l: "links_same g w w'"
  then have "linked_list (socks w') None h xs = linked_list (socks w) None h xs" for h
    by (intro linked_list_cong) (simp add: links_same_def)
  then show ?thesis using l by (simp add: ws_list_def links_same_def)
qed

lemma onEnd_member:
  assumes "observers E" "\<not> isShuttingDown w s"
  obtains w' where "ws_onEnd E s w = Some w'" "isClosed w' s" "others_same s w w'"
    "links_same g (removeWebSocket (s_node (socks w s)) s w) w'"
proof -
  let ?r = "removeWebSocket (s_node (socks w s)) s w"
  let ?c = "closeSocket s ?r"
  have c: "socks ?c = (socks ?r)(s := (socks ?r s)\<lparr>s_fd := -1\<rparr>)" "groups ?c = groups ?r"
    by (simp_all add: closeSocket_def poll_stop_def poll_close_def Let_def access upd_sock_def upd_loop_def log_def split: option.splits)
  obtain w1 where w1: "cancel_queue E s ?c = Some w1" "socks w1 = (socks ?c)(s := (socks ?c s)\<lparr>s_queue := []\<rparr>)" "groups w1 = groups ?c"
    using cancel_queue_ends [OF assms(1)] by blast
  define w2 where "w2 = upd_sock s (\<lambda>x. x\<lparr>slidingDeflateWindow := None\<rparr>) (clearPendingPollChanges (s_node (socks w1 s)) s w1)"
  have "ws_onEnd E s w = Some w2"
    using assms w1(1) by (simp add: ws_onEnd_def observers_def Let_def w2_def)
  moreover have "isClosed w2 s" using w1 c by (simp add: w2_def isClosed_def clearPendingPollChanges_def access)
  moreover have "others_same s w w2"
    using others_same_remove [of s w "s_node (socks w s)" s] w1 c
    by (simp add: others_same_def w2_def clearPendingPollChanges_def access)
  moreover have "links_same g ?r w2"
    using w1 c by (simp add: links_same_def w2_def clearPendingPollChanges_def access)
  ultimately show thesis by (rule that)
qed

lemma terminate_member:
  assumes "observers E" "live_list g w (xs @ s # ys)" "iterators (groups w g) \<noteq> []"
  obtains w' where "ws_terminate E s w = Some w'" "isClosed w' s" "others_same s w w'" "live_list g w' (xs @ ys)"
    "iterators (groups w' g) \<noteq> []" "hd (iterators (groups w' g)) = (if ys = [] then None else Some (hd ys))"
proof -
  have s: "s_node (socks w s) = g" "\<not> isShuttingDown w s" "ws_list w g (xs @ s # ys)"
    using assms(2) by (auto simp: live_list_def)
  obtain w' where w': "ws_onEnd E s w = Some w'" "isClosed w' s" "others_same s w w'" "links_same g (removeWebSocket g s w) w'"
    using onEnd_member [OF assms(1) s(2), of g] s(1) by metis
  have l: "ws_list w' g (xs @ ys)"
    using removeWebSocket_self(1) [OF s(3) assms(3)] links_same_list [OF w'(4)] by simp
  have "s \<notin> set (xs @ ys)" using ws_list_distinct [OF s(3)] by auto
  have "s_node (socks w' t) = g \<and> \<not> isShuttingDown w' t" if t: "t \<in> set (xs @ ys)" for t
  proof -
    have "t \<noteq> s" "t \<in> set (xs @ s # ys)" using t \<open>s \<notin> set (xs @ ys)\<close> by auto
    moreover from this have "s_node (socks w t) = g" "\<not> isShuttingDown w t"
      using assms(2) unfolding live_list_def by blast+
    ultimately show ?thesis using w'(3) by (simp add: others_same_def isShuttingDown_def)
  qed
  then have "live_list g w' (xs @ ys)" using l by (simp add: live_list_def)
  moreover have "iterators (groups w' g) \<noteq> []" "hd (iterators (groups w' g)) = (if ys = [] then None else Some (hd ys))"
    using removeWebSocket_self(2,3) [OF s(3) assms(3)] w'(4) by (auto simp: links_same_def)
  ultimately show thesis using w' that by (simp add: ws_terminate_def)
qed

section \<open>The traversals\<close>

text \<open>\<open>D\<close> are the sockets to end; the others are marked as having a ping outstanding.\<close>

definition sweep :: "env \<Rightarrow> (nat \<Rightarrow> bool) \<Rightarrow> nat \<Rightarrow> world \<Rightarrow> world option" where
  "sweep E D s w = (if D s then ws_terminate E s w else Some (upd_sock s (\<lambda>x. x\<lparr>hasOutstandingPong := True\<rparr>) w))"

lemma mark_live: "live_list g (upd_sock s (\<lambda>x. x\<lparr>hasOutstandingPong := True\<rparr>) w) xs = live_list g w xs"
proof -
  have "links_same g w (upd_sock s (\<lambda>x. x\<lparr>hasOutstandingPong := True\<rparr>) w)" by (simp add: links_same_def access)
  from links_same_list [OF this] show ?thesis by (auto simp: live_list_def isShuttingDown_def access)
qed

lemma sweep_ok: "observers E \<Longrightarrow> removes_only_self (live_list g) (sweep E D) g"
  unfolding removes_only_self_def
proof (intro allI impI, elim conjE)
  fix w w' xs s ys
  assume E: "observers E" and l: "live_list g w (xs @ s # ys)" and it: "iterators (groups w g) \<noteq> []" "hd (iterators (groups w g)) = Some s"
    and w': "sweep E D s w = Some w'"
  show "iterators (groups w' g) \<noteq> [] \<and>
       (live_list g w' (xs @ s # ys) \<and> hd (iterators (groups w' g)) = Some s \<or>
        live_list g w' (xs @ ys) \<and> hd (iterators (groups w' g)) = (if ys = [] then None else Some (hd ys)))"
  proof (cases "D s")
    case True
    obtain w1 where "ws_terminate E s w = Some w1" "live_list g w1 (xs @ ys)"
      "iterators (groups w1 g) \<noteq> []" "hd (iterators (groups w1 g)) = (if ys = [] then None else Some (hd ys))"
      using terminate_member [OF E l it(1)] .
    moreover from this have "w' = w1" using True w' by (simp add: sweep_def)
    ultimately show ?thesis by blast
  next
    case False
    with w' have "w' = upd_sock s (\<lambda>x. x\<lparr>hasOutstandingPong := True\<rparr>) w" by (simp add: sweep_def)
    then have "live_list g w' (xs @ s # ys)" "groups w' g = groups w g" using l by (simp_all only: mark_live access)
    with it show ?thesis by simp
  qed
qed

lemma move_iterator_live: "live_list g (move_iterator g n w) xs = live_list g w xs"
proof -
  have "socks (move_iterator g n w) = socks w" by (simp add: move_iterator_def access)
  then show ?thesis by (simp add: live_list_def ws_list_move isShuttingDown_def)
qed

lemma live_list_facts:
  "live_list g w xs \<Longrightarrow> distinct xs" "live_list g w (xs @ s # ys) \<Longrightarrow> s_next (socks w s) = (if ys = [] then None else Some (hd ys))"
  unfolding live_list_def using ws_list_distinct ws_list_next by blast+

lemma visit_sweep:
  assumes "observers E"
  shows "live_list g w (xs @ ys) \<Longrightarrow> iterators (groups w g) \<noteq> [] \<Longrightarrow>
    \<exists>w'. visit_all (sweep E D) g ys w = Some w' \<and> live_list g w' (xs @ filter (\<lambda>s. \<not> D s) ys) \<and>
      (\<forall>s. if s \<in> set ys then (if D s then isClosed w' s else hasOutstandingPong (socks w' s) \<and> s_fd (socks w' s) = s_fd (socks w s))
           else s_fd (socks w' s) = s_fd (socks w s) \<and> hasOutstandingPong (socks w' s) = hasOutstandingPong (socks w s))"
proof (induction ys arbitrary: xs w)
  case (Cons s ys)
  define n where "n = (if ys = [] then None else Some (hd ys))"
  have d: "s \<notin> set ys" using live_list_facts(1) [OF Cons.prems(1)] by simp
  have "\<exists>w1. sweep E D s w = Some w1 \<and> iterators (groups w1 g) \<noteq> [] \<and>
    live_list g w1 ((if D s then xs else xs @ [s]) @ ys) \<and>
    (if D s then isClosed w1 s else hasOutstandingPong (socks w1 s) \<and> s_fd (socks w1 s) = s_fd (socks w s)) \<and>
    (\<forall>t. t \<noteq> s \<longrightarrow> s_fd (socks w1 t) = s_fd (socks w t) \<and> hasOutstandingPong (socks w1 t) = hasOutstandingPong (socks w t))"
  proof (cases "D s")
    case True
    obtain w1 where "ws_terminate E s w = Some w1" "isClosed w1 s" "others_same s w w1" "live_list g w1 (xs @ ys)" "iterators (groups w1 g) \<noteq> []"
      using terminate_member [OF assms Cons.prems] by metis
    then show ?thesis using True by (auto simp: sweep_def others_same_def)
  next
    case False
    then show ?thesis using Cons.prems by (simp add: sweep_def mark_live access)
  qed
  then obtain w1 where w1: "sweep E D s w = Some w1" "iterators (groups w1 g) \<noteq> []" "live_list g w1 ((if D s then xs else xs @ [s]) @ ys)"
    "if D s then isClosed w1 s else hasOutstandingPong (socks w1 s) \<and> s_fd (socks w1 s) = s_fd (socks w s)"
    "\<And>t. t \<noteq> s \<Longrightarrow> s_fd (socks w1 t) = s_fd (socks w t) \<and> hasOutstandingPong (socks w1 t) = hasOutstandingPong (socks w t)" by blast
  define w2 where "w2 = move_iterator g n w1"
  have w2: "iterators (groups w2 g) \<noteq> []" "live_list g w2 ((if D s then xs else xs @ [s]) @ ys)" "socks w2 = socks w1"
    using w1 by (simp_all add: w2_def iterators_move move_iterator_live)
  obtain w' where w': "visit_all (sweep E D) g ys w2 = Some w'" "live_list g w' ((if D s then xs else xs @ [s]) @ filter (\<lambda>s. \<not> D s) ys)"
    "\<And>t. if t \<in> set ys then (if D t then isClosed w' t else hasOutstandingPong (socks w' t) \<and> s_fd (socks w' t) = s_fd (socks w2 t))
           else s_fd (socks w' t) = s_fd (socks w2 t) \<and> hasOutstandingPong (socks w' t) = hasOutstandingPong (socks w2 t)"
    using Cons.IH [OF w2(2,1)] by blast
  have "visit_all (sweep E D) g (s # ys) w = Some w'" using w1(1) w'(1) by (simp add: w2_def n_def)
  moreover have "if t \<in> set (s # ys) then (if D t then isClosed w' t else hasOutstandingPong (socks w' t) \<and> s_fd (socks w' t) = s_fd (socks w t))
           else s_fd (socks w' t) = s_fd (socks w t) \<and> hasOutstandingPong (socks w' t) = hasOutstandingPong (socks w t)" for t
    using w'(3) [of t] w1(4) w1(5) [of t] d w2(3) by (cases "t = s") (auto simp: isClosed_def split: if_splits)
  ultimately show ?case using w'(2) by (intro exI [of _ w']) (auto split: if_splits)
qed (simp add: isClosed_def)

lemma sweep_group:
  assumes "observers E" "live_list g w xs"
  obtains w' where "forEach (sweep E D) g w = Some w'" "live_list g w' (filter (\<lambda>s. \<not> D s) xs)"
    "\<And>s. s \<in> set xs \<Longrightarrow> (if D s then isClosed w' s else hasOutstandingPong (socks w' s) \<and> s_fd (socks w' s) = s_fd (socks w s))"
proof -
  define it where "it = (if xs = [] then None else Some (hd xs))"
  have h: "webSocketHead (groups w g) = it"
    using assms(2) by (auto simp: it_def live_list_def ws_list_def dest: linked_list_head)
  define w0 where "w0 = push_iterator g it w"
  have w0: "live_list g w0 xs" "iterators (groups w0 g) \<noteq> []" "hd (iterators (groups w0 g)) = it" "socks w0 = socks w"
    using assms(2) by (simp_all add: w0_def live_list_def push_iterator_def access isShuttingDown_def ws_list_def)
  have "for_each_loop (sweep E D) g it w0 = visit_all (sweep E D) g xs w0"
    by (rule for_each_visits [OF sweep_ok [OF assms(1)] live_list_facts(1) move_iterator_live live_list_facts(2), where xs = "[]"])
       (use w0 it_def in simp_all)
  moreover obtain w1 where w1: "visit_all (sweep E D) g xs w0 = Some w1" "live_list g w1 (filter (\<lambda>s. \<not> D s) xs)"
    "\<forall>s. if s \<in> set xs then (if D s then isClosed w1 s else hasOutstandingPong (socks w1 s) \<and> s_fd (socks w1 s) = s_fd (socks w0 s))
      else s_fd (socks w1 s) = s_fd (socks w0 s) \<and> hasOutstandingPong (socks w1 s) = hasOutstandingPong (socks w0 s)"
    using visit_sweep [OF assms(1), of g w0 "[]" xs D] w0 by auto
  ultimately have "forEach (sweep E D) g w = Some (pop_iterator g w1)"
    by (simp add: forEach_def Let_def h w0_def)
  then show thesis
  proof (rule that)
    show "live_list g (pop_iterator g w1) (filter (\<lambda>s. \<not> D s) xs)"
      using w1(2) by (simp add: live_list_def ws_list_def pop_iterator_def access isShuttingDown_def)
    show "s \<in> set xs \<Longrightarrow> (if D s then isClosed (pop_iterator g w1) s
        else hasOutstandingPong (socks (pop_iterator g w1) s) \<and> s_fd (socks (pop_iterator g w1) s) = s_fd (socks w s))" for s
      using w1(3) [rule_format, of s] w0(4) by (simp add: pop_iterator_def access isClosed_def split: if_splits)
  qed
qed


section \<open>Properties\<close>

lemma sweep_all: "sweep E (\<lambda>s. True) = ws_terminate E"
  by (simp add: fun_eq_iff sweep_def)

lemma closed_stays:
  "isClosed w s \<Longrightarrow> isClosed (stopListening isServer g w) s"
  by (auto simp: stopListening_def stop_timer_def timer_close_def timer_stop_def closeSocket_def async_close_def poll_stop_def
      poll_close_def Let_def access isClosed_def split: option.splits)

text \<open>
  C23: \<open>Group::terminate\<close> ends every WebSocket of the group. Although each
  \<open>terminate\<close> unlinks its socket from the list that is being traversed, the traversal reaches
  every member: the call returns, and every socket that was in the group is closed. Assumed: no member is
  shutting down, and the disconnection handler and the callbacks of queued messages return without
  touching the library (\<open>observers\<close>). In particular a disconnection handler that closes or
  terminates the group itself is excluded: then the outer traversal can skip sockets.
\<close>

theorem terminate_closes_group:
  assumes "observers E" "ws_list w g xs" "list_all (\<lambda>s. s_node (socks w s) = g \<and> \<not> isShuttingDown w s) xs"
  shows "\<exists>w'. group_terminate E isServer g w = Some w' \<and> list_all (\<lambda>s. isClosed w' s) xs"
proof -
  have l: "live_list g w xs" using assms(2,3) by (simp add: live_list_def list_all_iff)
  obtain w1 where w1: "forEach (sweep E (\<lambda>s. True)) g w = Some w1"
    "\<And>s. s \<in> set xs \<Longrightarrow> (if True then isClosed w1 s else hasOutstandingPong (socks w1 s) \<and> s_fd (socks w1 s) = s_fd (socks w s))"
    using sweep_group [OF assms(1) l, of "\<lambda>s. True"] by metis
  then show ?thesis by (auto simp: group_terminate_def sweep_all list_all_iff closed_stays)
qed

lemma three_members:
  assumes "ws_list w 0 []"
  shows "ws_list (addWebSocket 0 5 (addWebSocket 0 4 w)) 0 [5, 4]"
  using assms by (intro addWebSocket_list) simp_all

theorem terminate_closes_group_witness:
  "\<exists>w'. group_terminate env0 True 0 (addWebSocket 0 5 (addWebSocket 0 4 world0)) = Some w' \<and> list_all (\<lambda>s. isClosed w' s) [5, 4]"
proof (rule terminate_closes_group)
  show "observers env0" by (rule env0_observers)
  show "ws_list (addWebSocket 0 5 (addWebSocket 0 4 world0)) 0 [5, 4]"
    by (rule three_members) (simp add: ws_list_def world0_def group0_def)
  show "list_all (\<lambda>s. s_node (socks (addWebSocket 0 5 (addWebSocket 0 4 world0)) s) = 0 \<and>
      \<not> isShuttingDown (addWebSocket 0 5 (addWebSocket 0 4 world0)) s) [5, 4]"
    by (simp add: addWebSocket_def set_next_def set_prev_def Let_def access isShuttingDown_def world0_def sock0_def group0_def)
qed

text \<open>The traversal of the ping timer decides by the flag as it is when the socket is visited.\<close>

lemma ping_is_sweep:
  assumes "observers E" "live_list g w (xs @ ys)" "iterators (groups w g) \<noteq> []"
  shows "\<forall>s\<in>set ys. D s = hasOutstandingPong (socks w s) \<Longrightarrow>
    visit_all (ping_or_terminate E) g ys w = visit_all (sweep E D) g ys w"
  using assms(2,3)
proof (induction ys arbitrary: xs w)
  case (Cons s ys)
  have d: "s \<notin> set ys" using live_list_facts(1) [OF Cons.prems(2)] by simp
  have same: "ping_or_terminate E s w = sweep E D s w" using Cons.prems(1) by (simp add: ping_or_terminate_def sweep_def)
  obtain w1 zs where w1: "sweep E D s w = Some w1" "others_same s w w1" "live_list g w1 (zs @ ys)" "iterators (groups w1 g) \<noteq> []"
  proof (cases "D s")
    case True
    obtain w1 where "ws_terminate E s w = Some w1" "others_same s w w1" "live_list g w1 (xs @ ys)" "iterators (groups w1 g) \<noteq> []"
      using terminate_member [OF assms(1) Cons.prems(2,3)] by metis
    with True show thesis by (intro that [of w1 xs]) (simp_all add: sweep_def)
  next
    case False
    let ?w1 = "upd_sock s (\<lambda>x. x\<lparr>hasOutstandingPong := True\<rparr>) w"
    have "live_list g ?w1 ((xs @ [s]) @ ys)" using Cons.prems(2) by (simp add: mark_live)
    with False Cons.prems(3) show thesis
      by (intro that [of ?w1 "xs @ [s]"]) (simp_all add: sweep_def others_same_def access)
  qed
  let ?w2 = "move_iterator g (if ys = [] then None else Some (hd ys)) w1"
  have m: "socks (move_iterator g n w1) = socks w1" for n by (simp add: move_iterator_def access)
  have "\<forall>t\<in>set ys. D t = hasOutstandingPong (socks ?w2 t)"
    using Cons.prems(1) w1(2) d unfolding m others_same_def by (metis list.set_intros(2))
  moreover have "live_list g ?w2 (zs @ ys)" using w1(3) by (simp only: move_iterator_live)
  moreover have "iterators (groups ?w2 g) \<noteq> []" using w1(4) by (simp add: iterators_move)
  ultimately show ?case using Cons.IH [of ?w2 zs] same w1(1) by simp
qed simp

lemma ping_ok: "observers E \<Longrightarrow> removes_only_self (live_list g) (ping_or_terminate E) g"
proof -
  assume E: "observers E"
  have p: "ping_or_terminate E s w = sweep E (\<lambda>t. hasOutstandingPong (socks w s)) s w" for s w
    by (simp add: ping_or_terminate_def sweep_def)
  show ?thesis
    unfolding removes_only_self_def p
    using sweep_ok [OF E, of g] unfolding removes_only_self_def by blast
qed

text \<open>
  The automatic ping finds dead peers. One pass of the ping timer over a group returns; it ends
  exactly the WebSockets from which no data has come since the last pass (their
  \<open>hasOutstandingPong\<close> is still set), marks every other one, leaves those open, and takes the
  ended ones out of the group's list. So a peer that sends nothing is ended by the second pass.
\<close>

theorem ping_pass_ends_silent_peers:
  assumes "observers E" "ws_list w g xs" "list_all (\<lambda>s. s_node (socks w s) = g \<and> \<not> isShuttingDown w s) xs"
  shows "\<exists>w'. forEach (ping_or_terminate E) g w = Some w' \<and>
    ws_list w' g (filter (\<lambda>s. \<not> hasOutstandingPong (socks w s)) xs) \<and>
    list_all (\<lambda>s. if hasOutstandingPong (socks w s) then isClosed w' s
                  else hasOutstandingPong (socks w' s) \<and> s_fd (socks w' s) = s_fd (socks w s)) xs"
proof -
  let ?D = "\<lambda>s. hasOutstandingPong (socks w s)"
  define it where "it = (if xs = [] then None else Some (hd xs))"
  have l: "live_list g w xs" using assms(2,3) by (simp add: live_list_def list_all_iff)
  have h: "webSocketHead (groups w g) = it"
    using assms(2) by (auto simp: it_def ws_list_def dest: linked_list_head)
  define w0 where "w0 = push_iterator g it w"
  have w0: "live_list g w0 ([] @ xs)" "iterators (groups w0 g) \<noteq> []" "hd (iterators (groups w0 g)) = it" "socks w0 = socks w"
    using l by (simp_all add: w0_def live_list_def push_iterator_def access isShuttingDown_def ws_list_def)
  have "for_each_loop cb g it w0 = visit_all cb g xs w0" if "removes_only_self (live_list g) cb g" for cb
    by (rule for_each_visits [OF that live_list_facts(1) move_iterator_live live_list_facts(2), where xs = "[]"])
       (use w0 it_def in simp_all)
  note loop = this [OF ping_ok [OF assms(1)]] this [OF sweep_ok [OF assms(1), of g ?D]]
  have "forEach (ping_or_terminate E) g w = forEach (sweep E ?D) g w"
    using loop ping_is_sweep [OF assms(1) w0(1,2), of ?D] w0(4) by (simp add: forEach_def Let_def h w0_def)
  moreover obtain w' where "forEach (sweep E ?D) g w = Some w'" "live_list g w' (filter (\<lambda>s. \<not> ?D s) xs)"
    "\<And>s. s \<in> set xs \<Longrightarrow> (if ?D s then isClosed w' s else hasOutstandingPong (socks w' s) \<and> s_fd (socks w' s) = s_fd (socks w s))"
    using sweep_group [OF assms(1) l, of ?D] by metis
  ultimately show ?thesis by (auto simp: live_list_def list_all_iff)
qed

theorem ping_pass_ends_silent_peers_witness:
  "\<exists>w'. forEach (ping_or_terminate env0) 0
      (upd_sock 4 (\<lambda>x. x\<lparr>hasOutstandingPong := True\<rparr>) (addWebSocket 0 5 (addWebSocket 0 4 world0))) = Some w' \<and>
    isClosed w' 4 \<and> hasOutstandingPong (socks w' 5)"
proof -
  let ?v = "addWebSocket 0 5 (addWebSocket 0 4 world0)"
  let ?w = "upd_sock 4 (\<lambda>x. x\<lparr>hasOutstandingPong := True\<rparr>) ?v"
  have l0: "ws_list ?v 0 [5, 4]" by (rule three_members) (simp add: ws_list_def world0_def group0_def)
  have "links_same 0 ?v ?w" by (simp add: links_same_def access)
  from iffD2 [OF links_same_list [OF this] l0] have "ws_list ?w 0 [5, 4]" .
  moreover have "list_all (\<lambda>s. s_node (socks ?w s) = 0 \<and> \<not> isShuttingDown ?w s) [5, 4]"
    "hasOutstandingPong (socks ?w 4)" "\<not> hasOutstandingPong (socks ?w 5)"
    by (simp_all add: addWebSocket_def set_next_def set_prev_def Let_def access isShuttingDown_def world0_def sock0_def group0_def)
  ultimately show ?thesis
    using ping_pass_ends_silent_peers [OF env0_observers, of ?w 0 "[5, 4]"] by auto
qed

end
