(* ===== verification/WebSocketBounds.thy ===== *)
theory WebSocketBounds
  imports WebSocketStream WsClient
begin

text \<open>
  Bounds and types of the sending and receiving side of a WebSocket: the blocks messages are
  formatted into, and the state of the parser through \<open>onData\<close>.
\<close>

section \<open>The parser state in a socket\<close>

lemma cork_s_ws [simp]: "s_ws (socks (cork s b w) t) = s_ws (socks w t)"
  by (simp add: cork_def access)

lemma ws_consume_wf:
  assumes "wf_wstate isServer (s_ws (socks w s))" "ws_consume E isServer s m a n w = Some w'"
  shows "wf_wstate isServer (s_ws (socks w' s))"
proof -
  define c where "c = \<lparr>pm = m, psrc = a, plen = n mod 2 ^ 32, pws = s_ws (socks w s), pu = Some w\<rparr>"
  have "wf_wstate isServer (pws (consume (ws_impl E isServer s) isServer c))"
    by (rule consume_wf) (simp add: c_def assms(1))
  moreover have "map_option (upd_sock s (\<lambda>x. x\<lparr>s_ws := pws (consume (ws_impl E isServer s) isServer c)\<rparr>))
      (pu (consume (ws_impl E isServer s) isServer c)) = Some w'"
    using assms(2) unfolding ws_consume_def Let_def c_def .
  ultimately show ?thesis by (auto simp: access)
qed

text \<open>
  C24: The receiving state of a WebSocket keeps its type. Whatever bytes arrive, and whatever the
  handlers they reach do to the library, after \<open>onData\<close> the parser state of the socket is well
  formed again: the operation stack is in -1, 0, 1, the spill fits its 4-bit length, and inside a
  frame the mask has four bytes and between 1 and 2^32 - 1 bytes are outstanding.
\<close>

theorem ws_onData_keeps_wf:
  assumes "wf_wstate isServer (s_ws (socks w s))" "ws_onData E isServer s m a n w = Some (t, w')"
  shows "t = s \<and> wf_wstate isServer (s_ws (socks w' s))"
proof -
  define w1 where "w1 = upd_sock s (\<lambda>x. x\<lparr>hasOutstandingPong := False\<rparr>) w"
  have 1: "wf_wstate isServer (s_ws (socks w1 s))" using assms(1) by (simp add: w1_def access)
  show ?thesis
  proof (cases "isShuttingDown w1 s")
    case True
    with assms(2) 1 show ?thesis by (simp add: ws_onData_def Let_def w1_def [symmetric])
  next
    case False
    with assms(2) obtain w2 where w2: "ws_consume E isServer s m a n (cork s True w1) = Some w2"
      "t = s" "w' = (if \<not> isClosed w2 s then cork s False w2 else w2)"
      by (auto simp: ws_onData_def Let_def w1_def [symmetric] bind_eq_Some_conv)
    have "wf_wstate isServer (s_ws (socks w2 s))" using 1 by (intro ws_consume_wf [OF _ w2(1)]) simp
    with w2 show ?thesis by simp
  qed
qed

theorem ws_onData_keeps_wf_witness:
  "\<exists>w'. ws_onData recording_env True 4 (wr (\<lambda>i. 0) 13 [0x82, 0x83, 0, 0, 0, 0, 7]) 13 7 world0 = Some (4, w') \<and>
     wf_wstate True (s_ws (socks w' 4))"
proof -
  let ?b = "[0x82, 0x83, 0, 0, 0, 0, 7] :: byte list"
  have v: "?b @ [8, 9] = concat (map (frame_of True) [(BINARY, 0, [7, 8, 9])])"
    by (simp add: frame_of_eq extended_def length_code_def le_bytes_4 sender_mask_def body_def opcode_defs)
  have "at_head 16777216 ok_message True [(BINARY, [7, 8, 9])] (s_ws (socks world0 4)) (ws_view 4 recorded (Some world0)) (?b @ [8, 9])"
    unfolding at_head_def v
    by (auto simp: world0_def sock0_def State_init_def raw0_def ws_view_def recorded_def receivable_def legal_def ok_message_def
        content_def intro!: exI [of _ "[(BINARY, 0, [7, 8, 9])]"])
  then have "in_stream 16777216 ok_message True [(BINARY, [7, 8, 9])] (s_ws (socks world0 4)) (ws_view 4 recorded (Some world0)) (?b @ [8, 9])"
    by (rule in_stream_head) (simp add: world0_def sock0_def State_init_def)
  then have "reads_on 16777216 ok_message (ws_ready 16777216 4) (ws_view 4 recorded) True 4 [(BINARY, [7, 8, 9])] world0 (?b @ [8, 9])"
    by (simp add: reads_on_def ws_ready_def open_socket_def world0_def sock0_def isClosed_def isShuttingDown_def ws_maxPayload_def
        sock_group_def group0_def)
  then obtain w' where w': "ws_onData recording_env True 4 (wr (\<lambda>i. 0) 13 ?b) 13 (length ?b) world0 = Some (4, w')"
  proof (rule recording.ws_onData_reads_on [where a = 13 and m = "\<lambda>i. 0"])
    show "CONSUME_PRE_PADDING True \<le> 13" "length ?b < 2 ^ 32" by (simp_all add: CONSUME_PRE_PADDING_def header_defs)
  qed
  moreover have "wf_wstate True (s_ws (socks world0 4))" by (simp add: world0_def sock0_def State_init_wf raw0_def)
  moreover have "length ?b = 7" by simp
  ultimately show ?thesis using ws_onData_keeps_wf [of True world0 4 recording_env "wr (\<lambda>i. 0) 13 ?b" 13 7 4 w'] by metis
qed

section \<open>Blocks for messages\<close>

text \<open>
  The blocks that messages are formatted into. \<open>send\<close> without compression always fits the block
  it estimated. A prepared message fits its \<open>length + 10\<close> bytes exactly when the sender is a server or
  the payload has at most 65535 bytes: for a client, which also writes the four bytes of the mask, a
  longer payload is written four bytes past the end of the buffer.
\<close>

theorem message_blocks_bounds:
  "(case ws_transform E isServer s message opc False w of None \<Rightarrow> False
      | Some (bytes, w') \<Rightarrow> length bytes \<le> length message + LONG_MESSAGE_HEADER (\<not> isServer)) \<and>
   (case prepareMessage E isServer message opc compressed cb w of (p, w') \<Rightarrow>
      (length (pm_buffer (prepareds w' p)) \<le> pm_size (prepareds w' p)) = (isServer \<or> length message \<le> 65535) \<and>
      length (pm_buffer (prepareds w' p)) \<le> pm_size (prepareds w' p) + 4)"
proof -
  have "length (formatMessage isServer r message opc (length message) z) = format_header_length isServer (length message) + length message" for r z
    by (rule length_formatMessage)
  then show ?thesis
    using format_header_length_le [of isServer "length message"]
    by (auto simp: ws_transform_def format_random_def prepareMessage_def new_id_def Let_def access format_header_length_def)
qed

section \<open>The application's send\<close>

text \<open>
  \<open>WSClient::send\<close> ignores its length argument: it sends the bytes up to the first NUL, so binary
  data is cut there. Whatever \<open>len\<close> is, the call has the effect of the call with the data truncated at
  its first zero byte, and its result is always 0.
\<close>

theorem wsclient_send_truncates:
  "wsclient_send E (pData @ 0 # rest) len w = wsclient_send E (pData @ [0]) len' w"
proof -
  have "takeWhile (\<lambda>b. b \<noteq> 0) (pData @ 0 # rest) = takeWhile (\<lambda>b. b \<noteq> 0) (pData @ [0])"
    by (induction pData) auto
  then show ?thesis by (simp add: wsclient_send_def ws_send_string_def split: option.splits)
qed

end
