(* ===== verification/PollSet.thy ===== *)
theory PollSet
  imports WebSocketEnd
begin

text \<open>
  The poll bits of a socket and what the kernel watches for it (uWebSockets \<open>Socket.h\<close>,
  \<open>Epoll.h\<close>). The epoll set is a parameter, a function of the calls made so far, of which only the
  documented behaviour of \<open>epoll_ctl\<close> and \<open>close\<close> is used. A plain socket that is being written to
  is always watched with exactly its poll bits, for writability if and only if something is queued;
  so no wake-up is lost, and writable events drain the queue. \<open>Hub::upgrade\<close>, which modifies an
  entry that was never added, leaves its socket unwatched.
\<close>

section \<open>The epoll set\<close>

type_synonym epoll_set = "event list \<Rightarrow> int \<Rightarrow> int \<Rightarrow> (nat \<times> poll_events) option"

definition concerns :: "int \<Rightarrow> int \<Rightarrow> event \<Rightarrow> bool" where
  "concerns ep fd e \<longleftrightarrow> (case e of
     E_epoll_add i j p v \<Rightarrow> i = ep \<and> j = fd
   | E_epoll_mod i j p v \<Rightarrow> i = ep \<and> j = fd
   | E_epoll_del i j \<Rightarrow> i = ep \<and> j = fd
   | E_close j \<Rightarrow> j = fd
   | _ \<Rightarrow> False)"

text \<open>
  \<open>EPOLL_CTL_ADD\<close> of a descriptor that is not in the set enters it, \<open>EPOLL_CTL_MOD\<close> changes an entry
  and fails with \<open>ENOENT\<close> without one, \<open>EPOLL_CTL_DEL\<close> and closing the descriptor remove it, and
  nothing else has an effect on it.
\<close>

definition epoll_contract :: "epoll_set \<Rightarrow> bool" where
  "epoll_contract K \<longleftrightarrow>
     (\<forall>tr ep fd p v. 0 \<le> fd \<longrightarrow> K tr ep fd = None \<longrightarrow> K (tr @ [E_epoll_add ep fd p v]) ep fd = Some (p, v)) \<and>
     (\<forall>tr ep fd p v. K (tr @ [E_epoll_mod ep fd p v]) ep fd = (if K tr ep fd = None then None else Some (p, v))) \<and>
     (\<forall>tr ep fd. K (tr @ [E_epoll_del ep fd]) ep fd = None \<and> K (tr @ [E_close fd]) ep fd = None) \<and>
     (\<forall>tr ep fd e. \<not> concerns ep fd e \<longrightarrow> K (tr @ [e]) ep fd = K tr ep fd)"

lemma epoll_modified: "epoll_contract K \<Longrightarrow> K tr ep fd \<noteq> None \<Longrightarrow> K (tr @ [E_epoll_mod ep fd p v]) ep fd = Some (p, v)"
  by (simp add: epoll_contract_def)

lemma epoll_missing: "epoll_contract K \<Longrightarrow> K tr ep fd = None \<Longrightarrow> K (tr @ [E_epoll_mod ep fd p v]) ep fd = None"
  by (simp add: epoll_contract_def)

lemma epoll_kept: "epoll_contract K \<Longrightarrow> \<not> concerns ep fd e \<Longrightarrow> K (tr @ [e]) ep fd = K tr ep fd"
  by (simp add: epoll_contract_def)

lemma concerns_simps [simp]:
  "\<not> concerns ep fd (E_send i d r)" "\<not> concerns ep fd (E_cork i b)" "\<not> concerns ep fd (E_recv i n)"
  "\<not> concerns ep fd (E_nodelay i b)" "\<not> concerns ep fd (E_nonblock i)"
  "concerns ep fd (E_epoll_mod i j p v) \<longleftrightarrow> i = ep \<and> j = fd"
  by (simp_all add: concerns_def)

section \<open>A socket that is watched\<close>

definition sock_ep :: "world \<Rightarrow> nat \<Rightarrow> int" where
  "sock_ep w s = epfd (loops w (sock_loop w s))"

definition registered :: "epoll_set \<Rightarrow> nat \<Rightarrow> world \<Rightarrow> bool" where
  "registered K s w \<longleftrightarrow> s_ssl (socks w s) = None \<and> list_all (\<lambda>m. user_cb (m_cb m)) (s_queue (socks w s)) \<and>
     K (trace w) (sock_ep w s) (s_fd (socks w s)) = Some (s, s_poll (socks w s)) \<and>
     s_poll (socks w s) \<in> {UV_READABLE, UV_READABLE OR UV_WRITABLE}"

definition watched :: "epoll_set \<Rightarrow> nat \<Rightarrow> world \<Rightarrow> bool" where
  "watched K s w \<longleftrightarrow> registered K s w \<and>
     s_poll (socks w s) = (if s_queue (socks w s) = [] then UV_READABLE else UV_READABLE OR UV_WRITABLE)"

text \<open>The callbacks of messages only observe.\<close>

definition idle_callbacks :: "env \<Rightarrow> bool" where
  "idle_callbacks E \<longleftrightarrow> (\<forall>n so d c r w. user_callback E n so d c r w = Some w)"

lemma idle_call: "idle_callbacks E \<Longrightarrow> user_cb cb \<Longrightarrow> call_cb E cb so d c r w = Some w"
  by (auto simp: idle_callbacks_def user_cb_def call_cb_def split: option.splits msg_cb.splits)

lemma poll_bits [simp]:
  "UV_READABLE AND UV_WRITABLE = 0" "(UV_READABLE OR UV_WRITABLE) AND UV_WRITABLE \<noteq> 0"
  by (simp_all add: UV_READABLE_def UV_WRITABLE_def)

lemma sock_ep_access [access]:
  "sock_ep (log e w) t = sock_ep w t" "sock_ep (upd_pool p w) t = sock_ep w t"
  "(\<And>x. s_node (f x) = s_node x) \<Longrightarrow> sock_ep (upd_sock s f w) t = sock_ep w t"
  by (simp_all add: sock_ep_def sock_loop_def sock_group_def access)

lemma registered_access [access]:
  assumes "epoll_contract K"
  shows "\<not> concerns (sock_ep w s) (s_fd (socks w s)) e \<Longrightarrow> registered K s (log e w) = registered K s w"
    and "registered K s (upd_pool p w) = registered K s w"
  using assms by (simp_all add: registered_def access epoll_kept)

lemma registered_queue:
  "registered K s w \<Longrightarrow> list_all (\<lambda>m. user_cb (m_cb m)) q \<Longrightarrow> registered K s (upd_sock s (\<lambda>x. x\<lparr>s_queue := q\<rparr>) w)"
  by (simp add: registered_def access)

lemma poll_changed:
  assumes "epoll_contract K" "registered K s w" "p \<in> {UV_READABLE, UV_READABLE OR UV_WRITABLE}"
  shows "registered K s (change_to s p w)" "s_poll (socks (change_to s p w) s) = p"
    "s_queue (socks (change_to s p w) s) = s_queue (socks w s)" "sock_loop (change_to s p w) s = sock_loop w s"
  using assms by (simp_all add: registered_def change_to_def Let_def setPoll_def poll_change_def access epoll_modified
      sock_ep_def sock_loop_def sock_group_def)

lemma poll_writable_eq:
  assumes "threadSafeChange E"
  shows "poll_writable E s w = (if getPoll w s AND UV_WRITABLE = 0 then change_to s (getPoll w s OR UV_WRITABLE) w else w)"
  using assms by (simp add: poll_writable_def changePoll_def change_to_def Let_def setPoll_def getPoll_def access
      sock_loop_def sock_group_def)

lemma poll_writable_registered:
  assumes "epoll_contract K" "threadSafeChange E" "registered K s w"
  shows "registered K s (poll_writable E s w)" "s_poll (socks (poll_writable E s w) s) = UV_READABLE OR UV_WRITABLE"
    "s_queue (socks (poll_writable E s w) s) = s_queue (socks w s)"
proof -
  have p: "s_poll (socks w s) \<in> {UV_READABLE, UV_READABLE OR UV_WRITABLE}" using assms(3) by (simp add: registered_def)
  then consider (r) "s_poll (socks w s) = UV_READABLE" | (rw) "s_poll (socks w s) = UV_READABLE OR UV_WRITABLE" by blast
  then have "registered K s (poll_writable E s w) \<and> s_poll (socks (poll_writable E s w) s) = UV_READABLE OR UV_WRITABLE \<and>
    s_queue (socks (poll_writable E s w) s) = s_queue (socks w s)"
  proof cases
    case r
    then show ?thesis using poll_changed [OF assms(1,3)] by (simp add: poll_writable_eq [OF assms(2)] getPoll_def)
  next
    case rw
    then show ?thesis using assms(3) by (simp add: poll_writable_eq [OF assms(2)] getPoll_def)
  qed
  then show "registered K s (poll_writable E s w)" "s_poll (socks (poll_writable E s w) s) = UV_READABLE OR UV_WRITABLE"
    "s_queue (socks (poll_writable E s w) s) = s_queue (socks w s)" by auto
qed

lemma enqueue_watched:
  assumes "registered K s w" "s_poll (socks w s) = UV_READABLE OR UV_WRITABLE" "user_cb (m_cb m)"
  shows "watched K s (enqueue s m w)"
  using assms by (simp add: watched_def enqueue_def registered_def access)

section \<open>Writing\<close>

lemma write_watched:
  assumes "epoll_contract K" "threadSafeChange E" "send_contract E" "watched K s w" "user_cb (m_cb m)"
    "sock_write E s m w = (ok, moved, w')"
  shows "ok \<and> watched K s w' \<and> (moved \<longrightarrow> s_queue (socks w' s) \<noteq> [])"
proof (cases "s_queue (socks w s) = []")
  case False
  with assms(4,6) enqueue_watched [OF _ _ assms(5), of K s w] show ?thesis
    by (auto simp: sock_write_def push_transferred_def watched_def)
next
  case True
  define sent where "sent = sys_send E (trace w) (s_fd (socks w s)) (m_data m)"
  define w1 where "w1 = log (E_send (s_fd (socks w s)) (m_data m) sent) w"
  define w2 where "w2 = poll_writable E s w1"
  have w1: "watched K s w1" "registered K s w1"
    using assms(4) by (simp_all add: w1_def access assms(1) watched_def)
  have w2: "watched K s (enqueue s m' w2)" "s_queue (socks (enqueue s m' w2) s) \<noteq> []" if "m_cb m' = m_cb m" for m'
    using enqueue_watched [of K s w2 m'] poll_writable_registered [OF assms(1,2) w1(2)] assms(5) that by (simp_all add: w2_def)
  have "sock_write E s m w =
    (if sent = int (length (m_data m)) then (True, False, w1)
     else if sent = -1 then push_transferred s m w2
     else push_transferred s (m\<lparr>m_data := drop (nat sent) (m_data m)\<rparr>) w2)"
    using True assms(3,4)
    by (simp add: sock_write_def write_plain_def watched_def registered_def Let_def sent_def w1_def w2_def send_contract_def)
  then show ?thesis
    using assms(6) w1(1) w2 by (auto simp: push_transferred_def split: if_splits)
qed

lemma set_callback_watched:
  assumes "watched K s w" "s_queue (socks w s) \<noteq> []" "user_cb cb"
  shows "watched K s (set_callback s cb d r w)"
proof -
  obtain q m where q: "s_queue (socks w s) = q @ [m]" using assms(2) by (cases "s_queue (socks w s)" rule: rev_cases) auto
  show ?thesis using assms(1,3) by (simp add: watched_def registered_def set_callback_def access q)
qed

lemma watched_pool [simp]: "epoll_contract K \<Longrightarrow> watched K s (upd_pool p w) = watched K s w"
  by (simp add: watched_def access)

lemma blocks_watched [simp]:
  assumes "epoll_contract K"
  shows "watched K s (freeSmall a i w) = watched K s w" "watched K s (freeMessage a w) = watched K s w"
    "watched K s (snd (getSmall i w)) = watched K s w" "watched K s (snd (allocMessage n w)) = watched K s w"
  using assms by (simp_all add: freeSmall_def freeMessage_def getSmall_def allocMessage_def Let_def case_prod_beta)

lemma after_write_watched:
  assumes "epoll_contract K" "threadSafeChange E" "send_contract E" "idle_callbacks E" "watched K s w" "user_cb cb"
    "\<And>w. watched K s (free w) = watched K s w"
  shows "\<exists>w'. after_write E s free cb d r (sock_write E s (new_message a bytes) w) = Some w' \<and> watched K s w'"
proof -
  obtain ok moved w1 where wr: "sock_write E s (new_message a bytes) w = (ok, moved, w1)"
    by (cases "sock_write E s (new_message a bytes) w") auto
  have "user_cb (m_cb (new_message a bytes))" by (simp add: user_cb_def new_message_def)
  from write_watched [OF assms(1-3,5) this wr] show ?thesis
    using assms(4,6,7) set_callback_watched [OF _ _ assms(6), of K s w1] by (simp add: after_write_def wr idle_call)
qed

lemma sendTransformed_watched:
  assumes "epoll_contract K" "threadSafeChange E" "send_contract E" "idle_callbacks E" "watched K s w" "user_cb cb"
  shows "\<exists>w'. sendTransformed E s est (\<lambda>w. Some (bytes, w)) cb d w = Some w' \<and> watched K s w'"
proof (cases "hasEmptyQueue w s")
  case True
  show ?thesis
    using True assms(1,5)
      after_write_watched [OF assms(1-4) _ assms(6), of s "snd (getSmall (getMemoryBlockIndex (est + MESSAGE_HEADER)) w)"
        "freeSmall (fst (getSmall (getMemoryBlockIndex (est + MESSAGE_HEADER)) w)) (getMemoryBlockIndex (est + MESSAGE_HEADER))"
        d 0 "fst (getSmall (getMemoryBlockIndex (est + MESSAGE_HEADER)) w)" bytes]
      after_write_watched [OF assms(1-4) _ assms(6), of s "snd (allocMessage est w)"
        "freeMessage (fst (allocMessage est w))" d 0 "fst (allocMessage est w)" bytes]
    by (simp add: sendTransformed_def Let_def case_prod_beta)
next
  case False
  define w1 where "w1 = snd (allocMessage est w)"
  have w1: "watched K s w1" "s_queue (socks w1 s) \<noteq> []"
    using assms(1,5) False by (simp_all add: w1_def hasEmptyQueue_def)
  have "watched K s (enqueue s ((new_message (fst (allocMessage est w)) bytes)\<lparr>m_cb := cb, m_cbdata := d\<rparr>) w1)"
    by (rule enqueue_watched) (use w1 assms(6) in \<open>simp_all add: watched_def\<close>)
  then show ?thesis using False by (simp add: sendTransformed_def Let_def case_prod_beta w1_def)
qed

section \<open>Draining\<close>

text \<open>The system never answers that it would block, and takes something of each non-empty message.\<close>

definition send_progress :: "env \<Rightarrow> bool" where
  "send_progress E \<longleftrightarrow> (\<forall>tr fd d. 0 \<le> sys_send E tr fd d \<and> (d \<noteq> [] \<longrightarrow> 0 < sys_send E tr fd d))"

definition shorter :: "nat \<Rightarrow> world \<Rightarrow> world \<Rightarrow> bool" where
  "shorter s w w' \<longleftrightarrow> s_queue (socks w' s) = [] \<or> length (queued w' s) < length (queued w s)"

lemma idle_sent:
  assumes "idle_callbacks E" "s_queue (socks w s) = m # ms" "user_cb (m_cb m)"
  shows "message_sent E s m w = Some (upd_sock s (\<lambda>x. x\<lparr>s_queue := ms\<rparr>) (freeMessage (m_addr m) w))"
  using assms by (simp add: message_sent_def idle_call pop_message_def)

lemma drain_watched:
  assumes "epoll_contract K" "send_contract E" "idle_callbacks E"
  shows "registered K s w \<Longrightarrow> s_poll (socks w s) = UV_READABLE OR UV_WRITABLE \<Longrightarrow> s_queue (socks w s) \<noteq> [] \<Longrightarrow>
    \<exists>w'. drain_queue E onEnd s w = Some (False, w') \<and> watched K s w' \<and> (send_progress E \<longrightarrow> shorter s w w')"
proof (induction "length (s_queue (socks w s))" arbitrary: w)
  case (Suc n)
  obtain m ms where q: "s_queue (socks w s) = m # ms" using Suc.prems(3) by (cases "s_queue (socks w s)") auto
  define fd where "fd = s_fd (socks w s)"
  define sent where "sent = sys_send E (trace w) fd (m_data m)"
  define w1 where "w1 = log (E_send fd (m_data m) sent) w"
  define w2 where "w2 = upd_sock s (\<lambda>x. x\<lparr>s_queue := ms\<rparr>) (freeMessage (m_addr m) w1)"
  have b: "-1 \<le> sent" "sent \<le> int (length (m_data m))" "sys_would_block E (trace w1)"
    using assms(2) by (auto simp: sent_def send_contract_def)
  have cbs: "user_cb (m_cb m)" "list_all (\<lambda>m. user_cb (m_cb m)) ms"
    using Suc.prems(1) q by (auto simp: registered_def)
  have w1: "registered K s w1" "socks w1 = socks w" using Suc.prems(1) by (simp_all add: w1_def access assms(1) fd_def)
  have w2: "registered K s w2" "s_queue (socks w2 s) = ms" "s_poll (socks w2 s) = UV_READABLE OR UV_WRITABLE"
    using registered_queue [OF _ cbs(2)] w1 Suc.prems(2) by (simp_all add: w2_def freeMessage_def access assms(1))
  have step: "drain_queue E onEnd s w =
    (if sent = int (length (m_data m)) then
       (if ms = [] then Some (False, change_to s UV_READABLE w2) else drain_queue E onEnd s w2)
     else if sent = -1 then Some (False, w1)
     else Some (False, upd_sock s (\<lambda>x. x\<lparr>s_queue := m\<lparr>m_data := drop (nat sent) (m_data m)\<rparr> # ms\<rparr>) w1))"
    using idle_sent [OF assms(3) _ cbs(1), of w1 s ms] w1(2) q
    by (simp only: drain_queue.simps [of E onEnd s w] Let_def fd_def [symmetric] sent_def [symmetric] w1_def [symmetric]
        w2_def [symmetric] w2(2) q b(3) list.case bind.simps not_True_eq_False if_False)
  have len: "length (queued w s) = length (m_data m) + length (queued w2 s)" by (simp add: queued_def q w2(2))
  consider (full) "sent = int (length (m_data m))" | (block) "sent \<noteq> int (length (m_data m))" "sent = -1"
    | (part) "sent \<noteq> int (length (m_data m))" "sent \<noteq> -1" by blast
  then show ?case
  proof cases
    case full
    show ?thesis
    proof (cases "ms = []")
      case True
      with full step w2 poll_changed [OF assms(1) w2(1), of UV_READABLE] show ?thesis
        by (simp add: watched_def shorter_def)
    next
      case False
      have "n = length (s_queue (socks w2 s))" "s_queue (socks w2 s) \<noteq> []" using Suc.hyps(2) q False w2(2) by auto
      from Suc.hyps(1) [OF this(1) w2(1,3) this(2)] show ?thesis
        using full False step len by (auto simp: shorter_def)
    qed
  next
    case block
    have "send_progress E \<Longrightarrow> 0 \<le> sent" by (simp add: send_progress_def sent_def)
    with block step w1 Suc.prems(2) q show ?thesis by (auto simp: watched_def)
  next
    case part
    define w3 where "w3 = upd_sock s (\<lambda>x. x\<lparr>s_queue := m\<lparr>m_data := drop (nat sent) (m_data m)\<rparr> # ms\<rparr>) w1"
    have "watched K s w3"
      using registered_queue [OF w1(1), of "m\<lparr>m_data := drop (nat sent) (m_data m)\<rparr> # ms"] cbs w1(2) Suc.prems(2)
      by (simp add: watched_def w3_def access)
    moreover have "send_progress E \<longrightarrow> shorter s w w3"
    proof
      assume "send_progress E"
      then have "0 \<le> sent" "m_data m \<noteq> [] \<Longrightarrow> 0 < sent" by (simp_all add: send_progress_def sent_def)
      with part b(2) have "0 < sent" "sent < int (length (m_data m))" by (cases "m_data m", auto)+
      then show "shorter s w w3" by (auto simp: shorter_def queued_def w3_def access w1(2) q)
    qed
    moreover have "drain_queue E onEnd s w = Some (False, w3)" using step part by (simp add: w3_def)
    ultimately show ?thesis by blast
  qed
qed simp

lemma writable_watched:
  assumes "epoll_contract K" "send_contract E" "idle_callbacks E" "watched K s w"
  shows "\<exists>w'. ioHandler E onData onEnd s 0 UV_WRITABLE w = Some w' \<and> watched K s w' \<and> (send_progress E \<longrightarrow> shorter s w w')"
proof (cases "s_queue (socks w s) = []")
  case True
  with assms(4) show ?thesis by (simp add: ioHandler_def shorter_def)
next
  case False
  have c: "registered K s (cork s z v) = registered K s v" "watched K s (cork s z v) = watched K s v"
    "queued (cork s z v) s = queued v s" for z v
    using assms(1) by (simp_all add: cork_def access watched_def queued_def)
  obtain w1 where "drain_queue E onEnd s (cork s True w) = Some (False, w1)" "watched K s w1" "send_progress E \<longrightarrow> shorter s w w1"
    using drain_watched [OF assms(1-3), of s "cork s True w" onEnd] assms(4) False
    by (auto simp: watched_def c shorter_def)
  with False show ?thesis by (simp add: ioHandler_def c shorter_def)
qed

section \<open>Properties\<close>

lemma watched_plain: "watched K s w \<Longrightarrow> plain_sock (socks w s)"
  by (auto simp: watched_def registered_def plain_sock_def)

lemma idle_quiet: "idle_callbacks E \<Longrightarrow> quiet_callbacks E"
  by (simp add: idle_callbacks_def quiet_callbacks_def)

text \<open>
  C16: No wake-up of a plain socket is lost, and none is spurious: after any sequence of writes and
  writable events, with the system taking any part of each \<open>send\<close>, the kernel watches the descriptor
  for writability if some message is queued, and only for readability otherwise. (The epoll set is a
  parameter with the documented behaviour of \<open>epoll_ctl\<close>.)
\<close>

theorem no_lost_wakeup:
  assumes "epoll_contract K" "threadSafeChange E" "send_contract E" "idle_callbacks E" "watched K s w"
  shows "\<exists>w'. socket_run E onData onEnd s ops w = Some w' \<and>
    K (trace w') (sock_ep w' s) (s_fd (socks w' s)) =
      Some (s, if s_queue (socks w' s) = [] then UV_READABLE else UV_READABLE OR UV_WRITABLE)"
proof -
  have "\<exists>w'. socket_run E onData onEnd s ops w = Some w' \<and> watched K s w'"
    using assms(5)
  proof (induction ops arbitrary: w)
    case (Cons op ops)
    show ?case
    proof (cases op)
      case (Write bytes cb d)
      have "user_cb (map_option User_cb cb)" by (cases cb) (simp_all add: user_cb_def)
      from sendTransformed_watched [OF assms(1-4) Cons.prems this, of "length bytes" bytes d]
      show ?thesis using Cons.IH Write by fastforce
    next
      case Writable
      from writable_watched [OF assms(1,3,4) Cons.prems, of onData onEnd] show ?thesis using Cons.IH Writable by fastforce
    qed
  qed simp
  then show ?thesis by (auto simp: watched_def registered_def)
qed

lemma writable_events_watched:
  assumes "epoll_contract K" "send_contract E" "idle_callbacks E" "send_progress E"
  shows "watched K s w \<Longrightarrow> \<exists>w'. socket_run E onData onEnd s (replicate n Writable) w = Some w' \<and> watched K s w' \<and>
    (s_queue (socks w' s) = [] \<or> length (queued w' s) + n \<le> length (queued w s))"
proof (induction n arbitrary: w)
  case (Suc n)
  obtain w1 where w1: "ioHandler E onData onEnd s 0 UV_WRITABLE w = Some w1" "watched K s w1" "shorter s w w1"
    using writable_watched [OF assms(1-3) Suc.prems] assms(4) by blast
  show ?case using Suc.IH [OF w1(2)] w1 by (auto simp: shorter_def queued_def)
qed simp

text \<open>
  C17: A connection that goes on taking bytes gets everything: if each \<open>send\<close> takes at least one byte,
  one writable event for each queued byte and one more empty the queue, whatever is taken each time;
  then everything that was queued has been sent, in order, and the kernel no longer reports
  writability.
\<close>

theorem queued_bytes_drain:
  assumes "epoll_contract K" "send_contract E" "idle_callbacks E" "send_progress E" "watched K s w"
    "length (queued w s) < n"
  shows "\<exists>w'. socket_run E onData onEnd s (replicate n Writable) w = Some w' \<and> s_queue (socks w' s) = [] \<and>
    sent_on (s_fd (socks w s)) (trace w') = sent_on (s_fd (socks w s)) (trace w) @ queued w s \<and>
    K (trace w') (sock_ep w' s) (s_fd (socks w' s)) = Some (s, UV_READABLE)"
proof -
  obtain w' where w': "socket_run E onData onEnd s (replicate n Writable) w = Some w'" "watched K s w'" "s_queue (socks w' s) = []"
    using writable_events_watched [OF assms(1-5)] assms(6) by fastforce
  have "written (replicate n Writable) = []" by (induction n) simp_all
  then have "stream w' s = stream w s" "s_fd (socks w' s) = s_fd (socks w s)"
    using socket_run_stream [OF assms(2) idle_quiet [OF assms(3)] watched_plain [OF assms(5)], of onData onEnd "replicate n Writable"]
      w'(1) by auto
  then show ?thesis using w' by (auto simp: stream_def queued_def watched_def registered_def)
qed

text \<open>An epoll set that replays the calls, and a socket that has been added to it.\<close>

fun epoll_call :: "event \<Rightarrow> (int \<times> int \<Rightarrow> (nat \<times> poll_events) option) \<Rightarrow> int \<times> int \<Rightarrow> (nat \<times> poll_events) option" where
  "epoll_call (E_epoll_add ep fd p v) m = (if 0 \<le> fd \<and> m (ep, fd) = None then m((ep, fd) := Some (p, v)) else m)"
| "epoll_call (E_epoll_mod ep fd p v) m = (if m (ep, fd) = None then m else m((ep, fd) := Some (p, v)))"
| "epoll_call (E_epoll_del ep fd) m = m((ep, fd) := None)"
| "epoll_call (E_close fd) m = (\<lambda>(i, j). if j = fd then None else m (i, j))"
| "epoll_call _ m = m"

definition replayed :: epoll_set where
  "replayed tr ep fd = fold epoll_call tr (\<lambda>_. None) (ep, fd)"

lemma replayed_contract: "epoll_contract replayed"
proof -
  have "epoll_call e m (ep, fd) = m (ep, fd)" if "\<not> concerns ep fd e" for e m ep fd
    using that by (cases e) (auto simp: concerns_def)
  then show ?thesis by (simp add: epoll_contract_def replayed_def)
qed

definition added_world :: world where
  "added_world = world0\<lparr>trace := [E_epoll_add 3 7 1 UV_READABLE]\<rparr>"

lemma added_watched: "watched replayed 1 added_world"
  by (simp add: watched_def registered_def added_world_def world0_def sock0_def group0_def replayed_def sock_ep_def
      sock_loop_def sock_group_def Loop_init_def)

lemma env0_sends: "send_contract env0" "idle_callbacks env0" "send_progress env0" "threadSafeChange env0"
  by (auto simp: send_contract_def idle_callbacks_def send_progress_def env0_def)

theorem no_lost_wakeup_witness:
  "\<exists>w'. socket_run env0 (\<lambda>s m a n w. Some (s, w)) (\<lambda>s w. Some w) 1 [Write [1, 2, 3] None 0, Writable] added_world = Some w' \<and>
    replayed (trace w') (sock_ep w' 1) (s_fd (socks w' 1)) =
      Some (1, if s_queue (socks w' 1) = [] then UV_READABLE else UV_READABLE OR UV_WRITABLE)"
  by (rule no_lost_wakeup [OF replayed_contract env0_sends(4) env0_sends(1,2) added_watched])

definition busy_world :: world where
  "busy_world = (upd_sock 1 (\<lambda>x. x\<lparr>s_poll := UV_READABLE OR UV_WRITABLE, s_queue := [new_message 5 [1, 2, 3]]\<rparr>) world0)
     \<lparr>trace := [E_epoll_add 3 7 1 (UV_READABLE OR UV_WRITABLE)]\<rparr>"

lemma busy_watched: "watched replayed 1 busy_world" "queued busy_world 1 = [1, 2, 3]" "s_fd (socks busy_world 1) = 7"
  "sent_on 7 (trace busy_world) = []"
  by (simp_all add: watched_def registered_def busy_world_def world0_def sock0_def group0_def replayed_def sock_ep_def
      sock_loop_def sock_group_def Loop_init_def upd_sock_def new_message_def user_cb_def queued_def sent_on_def sent_ev_def)

theorem queued_bytes_drain_witness:
  "\<exists>w'. socket_run env0 (\<lambda>s m a n w. Some (s, w)) (\<lambda>s w. Some w) 1 (replicate 4 Writable) busy_world = Some w' \<and>
    s_queue (socks w' 1) = [] \<and> sent_on 7 (trace w') = [1, 2, 3] \<and>
    replayed (trace w') (sock_ep w' 1) (s_fd (socks w' 1)) = Some (1, UV_READABLE)"
  using queued_bytes_drain [OF replayed_contract env0_sends(1-3) busy_watched(1), of 4 "\<lambda>s m a n w. Some (s, w)" "\<lambda>s w. Some w",
      unfolded busy_watched append_Nil]
  by simp

end
