(* ===== verification/PollHazards.thy ===== *)
theory PollHazards
  imports PollSet
begin

text \<open>
  Two hazards of the poll set (uWebSockets \<open>Hub.cpp\<close>, \<open>Epoll.cpp\<close>). \<open>Hub::upgrade\<close> modifies the
  entry of a descriptor that was never added, so its WebSocket is never watched. And events of one
  \<open>epoll_wait\<close> are dispatched without asking whether the poll has been closed by an earlier callback
  of the same batch: a WebSocket that another one has terminated is ended a second time.
\<close>

section \<open>Operations that never add a descriptor\<close>

definition never_added :: "epoll_set \<Rightarrow> world \<Rightarrow> world \<Rightarrow> bool" where
  "never_added K w w' \<longleftrightarrow> (epoll_contract K \<longrightarrow> (\<forall>ep fd. K (trace w) ep fd = None \<longrightarrow> K (trace w') ep fd = None))"

lemma never_added_log:
  assumes "\<And>i j p v. e \<noteq> E_epoll_add i j p v"
  shows "never_added K w (log e w)"
proof -
  have "K (trace w @ [e]) ep fd = None" if "epoll_contract K" "K (trace w) ep fd = None" for ep fd
  proof (cases "concerns ep fd e")
    case True
    then show ?thesis using that assms by (cases e) (auto simp: concerns_def epoll_contract_def)
  next
    case False
    then show ?thesis using that by (simp add: epoll_kept)
  qed
  then show ?thesis by (simp add: never_added_def access)
qed

lemma never_added_trans: "never_added K w w' \<Longrightarrow> never_added K w' w'' \<Longrightarrow> never_added K w w''"
  by (simp add: never_added_def)

lemma never_added_same: "trace w' = trace w \<Longrightarrow> never_added K w w'"
  by (simp add: never_added_def)

lemma never_added_snoc: "trace w' = trace w @ [e] \<Longrightarrow> (\<And>i j p v. e \<noteq> E_epoll_add i j p v) \<Longrightarrow> never_added K w w'"
  by (rule never_added_trans [OF never_added_log never_added_same]) (simp_all add: access)

interpretation never_frame: write_frame "never_added K" s
  by unfold_locales (auto simp: never_added_same access io_event_def intro: never_added_trans never_added_log)

section \<open>upgrade\<close>

lemma upgrade_writes:
  assumes "upgrade E True h k e p w = (pmd, w')"
  shows "never_added K w w'" "keeps h w w'"
proof -
  define b where "b = fst (upgrade_response (sha1 E) (extensionOptions (sock_group w h)) k e p)"
  define w1 where "w1 = snd (allocMessage (length b) w)"
  obtain ok moved w2 where w2: "sock_write E h (new_message (fst (allocMessage (length b) w)) b) w1 = (ok, moved, w2)"
    by (cases "sock_write E h (new_message (fst (allocMessage (length b) w)) b) w1") auto
  have w': "w' = freeMessage (fst (allocMessage (length b) w)) w2 \<or> w' = set_callback h None 0 0 w2"
    using assms w2 by (simp add: upgrade_def upgrade_message_def Let_def case_prod_beta b_def w1_def split: if_splits)
  have 1: "never_added K w w2" "keeps h w w2"
    using never_added_trans [OF never_frame.allocs(2) never_frame.wrote] keeps_trans [OF ws_frame.allocs(2) ws_frame.wrote] w2
    unfolding w1_def by (metis snd_conv)+
  show "never_added K w w'"
    using w' never_added_trans [OF 1(1)] never_frame.allocs(4) never_frame.queues(2) by blast
  show "keeps h w w'"
    using w' keeps_trans [OF 1(2)] ws_frame.allocs(4) ws_frame.queues(2) by blast
qed

lemma fd_kept [simp]:
  "s_fd (socks (setState a b s w) t) = s_fd (socks w t)" "s_fd (socks (change_to s p w) t) = s_fd (socks w t)"
  "s_fd (socks (delete_socket s w) t) = s_fd (socks w t)" "s_fd (socks (addWebSocket g s w) t) = s_fd (socks w t)"
  "s_fd (socks (setNoDelay s z w) t) = s_fd (socks w t)"
  by (simp_all add: setState_def set_cb_def change_to_def Let_def setPoll_def poll_change_def delete_socket_def addWebSocket_def
      set_next_def set_prev_def setNoDelay_def access split: option.splits)

lemma traces_kept [simp]:
  "trace (setState a b s w) = trace w" "trace (addWebSocket g s w) = trace w" "trace (snd (HttpSocket_ctor s w)) = trace w"
  "trace (snd (WebSocket_ctor E pmd s w)) = trace w"
  by (simp_all add: setState_def set_cb_def addWebSocket_def set_next_def set_prev_def HttpSocket_ctor_def WebSocket_ctor_def
      new_id_def Let_def allocateDefaultCompressor_def set_stream_def upd_sock_def upd_group_def split: option.splits)

lemma ctor_fd:
  "s_fd (socks (Socket_ctor s g l fd ssl w) s) = fd"
  "s_fd (socks (snd (HttpSocket_ctor s w)) (fst (HttpSocket_ctor s w))) = s_fd (socks w s)"
  "s_fd (socks (snd (WebSocket_ctor E pmd s w)) (fst (WebSocket_ctor E pmd s w))) = s_fd (socks w s)"
  by (simp_all add: Socket_ctor_def Poll_ctor_def Socket_init_def HttpSocket_ctor_def WebSocket_ctor_def new_id_def Let_def
      allocateDefaultCompressor_def set_stream_def upd_sock_def upd_loop_def log_def)

lemma addWebSocket_head [simp]: "webSocketHead (groups (addWebSocket g s w) g) = Some s"
  by (simp add: addWebSocket_def set_next_def set_prev_def Let_def access)

text \<open>
  C39: A connection handed to \<open>Hub::upgrade\<close> is never watched. The descriptor comes from outside and
  has not been added to the epoll set; \<open>upgrade\<close> answers the handshake, makes a WebSocket with this
  descriptor the head of the group and calls the connection handler, but registers it with
  \<open>EPOLL_CTL_MOD\<close> only: no event will ever be reported for it.
\<close>

theorem hub_upgrade_unpolled:
  assumes "epoll_contract K" "\<And>g s r w. connectionHandler E g s r w = Some w" "\<And>ep. K (trace w) ep fd = None"
  shows "\<exists>w' ws. hub_upgrade E def fd secKey ssl extensions subprotocol (Some g) w = Some w' \<and>
    webSocketHead (groups w' g) = Some ws \<and> s_fd (socks w' ws) = fd \<and> (\<forall>ep. K (trace w') ep fd = None)"
proof -
  define s w1 where "s = fst (new_id w)" and "w1 = setNoDelay s True (Socket_ctor s g (g_loop (groups (snd (new_id w)) g)) fd ssl (snd (new_id w)))"
  define h w2 where "h = fst (HttpSocket_ctor s w1)" and "w2 = change_to h UV_READABLE (setState False True h (snd (HttpSocket_ctor s w1)))"
  obtain pmd w3 where u: "upgrade E True h secKey extensions subprotocol w2 = (pmd, w3)"
    by (cases "upgrade E True h secKey extensions subprotocol w2") auto
  define ws w4 where "ws = fst (WebSocket_ctor E pmd h w3)"
    and "w4 = change_to ws UV_READABLE (setState True True ws (delete_socket h (snd (WebSocket_ctor E pmd h w3))))"
  have run: "hub_upgrade E def fd secKey ssl extensions subprotocol (Some g) w = Some (addWebSocket g ws w4)"
    using u assms(2)
    by (simp add: hub_upgrade_def Let_def case_prod_beta s_def w1_def h_def w2_def ws_def w4_def)
  have fd: "s_fd (socks w4 ws) = fd"
    using keeps_fd [OF upgrade_writes(2) [OF u]] by (simp add: w4_def ws_def ctor_fd w2_def h_def w1_def)
  have "never_added K w (Socket_ctor s g (g_loop (groups (snd (new_id w)) g)) fd ssl (snd (new_id w)))"
    by (rule never_added_snoc [of _ _ "E_nonblock fd"]) (simp_all add: Socket_ctor_def Poll_ctor_def new_id_def access)
  then have 1: "never_added K w w1"
    unfolding w1_def setNoDelay_def by (rule never_added_trans [OF _ never_added_log]) simp
  have 2: "never_added K w1 w2"
    unfolding w2_def by (rule never_added_trans [OF _ never_frame.change_to]) (simp add: never_added_same)
  have 4: "never_added K w3 w4"
    unfolding w4_def
    by (rule never_added_trans [OF never_added_snoc [of _ _ "E_delete_socket h"] never_frame.change_to])
      (simp_all add: delete_socket_def access)
  have "never_added K w w4" using 1 2 upgrade_writes(1) [OF u] 4 never_added_trans by blast
  then show ?thesis using assms(1,3) run fd by (auto simp: never_added_def)
qed

theorem hub_upgrade_unpolled_witness:
  "\<exists>w' ws. hub_upgrade env0 0 11 (replicate 24 65) None [] [] (Some 0) world0 = Some w' \<and>
    webSocketHead (groups w' 0) = Some ws \<and> s_fd (socks w' ws) = 11 \<and> (\<forall>ep. replayed (trace w') ep 11 = None)"
  by (rule hub_upgrade_unpolled [OF replayed_contract]) (simp_all add: env0_def world0_def replayed_def)

section \<open>Stale events\<close>

text \<open>What \<open>onEnd\<close> leaves of the socket and of its loop.\<close>

definition ended :: "nat \<Rightarrow> world \<Rightarrow> world \<Rightarrow> bool" where
  "ended s w w' \<longleftrightarrow> s_fd (socks w' s) = -1 \<and> s_cb (socks w' s) = s_cb (socks w s) \<and> s_ssl (socks w' s) = s_ssl (socks w s) \<and>
     s_queue (socks w' s) = [] \<and> sock_loop w' s = sock_loop w s \<and>
     closing (loops w' (sock_loop w s)) = closing (loops w (sock_loop w s)) @ [(s, Delete_socket)] \<and>
     numPolls (loops w' (sock_loop w s)) = numPolls (loops w (sock_loop w s))"

definition same_poll :: "nat \<Rightarrow> world \<Rightarrow> world \<Rightarrow> bool" where
  "same_poll s w w' \<longleftrightarrow> s_cb (socks w' s) = s_cb (socks w s) \<and> s_ssl (socks w' s) = s_ssl (socks w s) \<and>
     sock_loop w' s = sock_loop w s \<and>
     (\<forall>l. closing (loops w' l) = closing (loops w l) \<and> numPolls (loops w' l) = numPolls (loops w l))"

lemma removeWebSocket_poll: "same_poll s w (removeWebSocket g s w)"
proof -
  have "s_cb (socks (removeWebSocket g s w) s) = s_cb (socks w s)"
    by (simp add: removeWebSocket_def move_iterator_def set_next_def set_prev_def Let_def access split: option.splits)
  then show ?thesis
    using removeWebSocket_keeps [of s w g s] by (simp add: same_poll_def keeps_def sock_loop_def sock_group_def)
qed

lemma cancelTimeout_poll: "same_poll s w (cancelTimeout s w)"
  by (simp add: same_poll_def cancelTimeout_def getUserData_def setUserData_def timer_stop_def timer_close_def Timer_stop_def
      set_delay_def sock_loop_def sock_group_def access split: option.splits)

lemma ws_onEnd_ended:
  assumes "observers E"
  obtains w' where "ws_onEnd E s w = Some w'" "ended s w w'"
proof -
  define v where "v = (if isShuttingDown w s then cancelTimeout s w else removeWebSocket (s_node (socks w s)) s w)"
  have v: "same_poll s w v" by (simp add: v_def removeWebSocket_poll cancelTimeout_poll)
  obtain w1 where w1: "cancel_queue E s (closeSocket s v) = Some w1"
    "socks w1 = (socks (closeSocket s v))(s := (socks (closeSocket s v) s)\<lparr>s_queue := []\<rparr>)"
    "loops w1 = loops (closeSocket s v)" "groups w1 = groups (closeSocket s v)"
    using cancel_queue_ends [OF assms] by blast
  have "ws_onEnd E s w = Some (upd_sock s (\<lambda>x. x\<lparr>slidingDeflateWindow := None\<rparr>) (clearPendingPollChanges (s_node (socks w1 s)) s w1))"
    using assms w1(1) by (simp add: ws_onEnd_def observers_def v_def Let_def split: if_splits)
  moreover have "ended s w (upd_sock s (\<lambda>x. x\<lparr>slidingDeflateWindow := None\<rparr>) (clearPendingPollChanges (s_node (socks w1 s)) s w1))"
    using v by (simp add: ended_def same_poll_def w1(2-4) clearPendingPollChanges_def closeSocket_def poll_stop_def poll_close_def
        Poll_close_def Let_def sock_loop_def sock_group_def access split: option.splits)
  ultimately show thesis by (rule that)
qed

lemma ended_log: "ended s (log e w) w' = ended s w w'"
  by (simp add: ended_def sock_loop_def sock_group_def access)

text \<open>
  C38: A WebSocket that is closed while an event for it waits in the same batch is ended twice. When
  an earlier callback of the batch has terminated it, its callback still stands; the read on its
  descriptor, now -1, fails, so \<open>onEnd\<close> runs again: its poll is put on the closing list a second
  time, and the loop deletes the object twice.
\<close>

theorem stale_event_ends_twice:
  assumes "observers E" "s_cb (socks w s) = Io_ws isServer" "closing (loops w (sock_loop w s)) = []"
    "2 < numPolls (loops w (sock_loop w s))" "\<And>tr n. sys_recv E tr (-1) n = None"
  shows "\<exists>w1 w2 w3. ws_terminate E s w = Some w1 \<and> ready_polls E [(s, UV_READABLE)] w1 = Some w2 \<and>
    closing (loops w2 (sock_loop w s)) = [(s, Delete_socket), (s, Delete_socket)] \<and>
    close_polls (sock_loop w s) (closing (loops w2 (sock_loop w s))) w2 = (False, w3) \<and>
    trace w3 = trace w2 @ [E_delete_socket s, E_delete_socket s]"
proof -
  let ?l = "sock_loop w s"
  obtain w1 where w1: "ws_onEnd E s w = Some w1" "ended s w w1" using ws_onEnd_ended [OF assms(1)] .
  define v where "v = log (E_recv (-1) 0) w1"
  obtain w2 where w2: "ws_onEnd E s v = Some w2" "ended s v w2" using ws_onEnd_ended [OF assms(1)] .
  have "UV_READABLE AND EPOLLERR = 0" by (simp add: UV_READABLE_def EPOLLERR_def)
  then have "ready_polls E [(s, UV_READABLE)] w1 = Some w2"
    using w1(2) w2(1) assms(2,5) by (simp add: ended_def poll_dispatch_def ioHandler_def Let_def v_def)
  moreover have "closing (loops w2 ?l) = [(s, Delete_socket), (s, Delete_socket)]" "numPolls (loops w2 ?l) = numPolls (loops w ?l)"
    using w1(2) w2(2) assms(3) by (simp_all add: v_def ended_log) (simp_all add: ended_def)
  moreover have "\<exists>w3. close_polls ?l [(s, Delete_socket), (s, Delete_socket)] w2 = (False, w3) \<and>
      trace w3 = trace w2 @ [E_delete_socket s, E_delete_socket s]" if "2 < numPolls (loops w2 ?l)"
    using that by (simp add: Let_def close_dispatch_def delete_socket_def access)
  ultimately show ?thesis using w1(1) assms(4) by (auto simp: ws_terminate_def)
qed

definition stale_world :: world where
  "stale_world = upd_loop 0 (\<lambda>x. x\<lparr>numPolls := 3\<rparr>) (upd_sock 4 (\<lambda>x. x\<lparr>s_cb := Io_ws True\<rparr>) world0)"

lemma stale_world_facts: "sock_loop stale_world 4 = 0" "s_cb (socks stale_world 4) = Io_ws True"
  "closing (loops stale_world 0) = []" "2 < numPolls (loops stale_world 0)"
  by (simp_all add: stale_world_def access sock_loop_def sock_group_def world0_def sock0_def group0_def Loop_init_def)

theorem stale_event_ends_twice_witness:
  "\<exists>w1 w2 w3. ws_terminate env0 4 stale_world = Some w1 \<and> ready_polls env0 [(4, UV_READABLE)] w1 = Some w2 \<and>
    closing (loops w2 0) = [(4, Delete_socket), (4, Delete_socket)] \<and>
    close_polls 0 (closing (loops w2 0)) w2 = (False, w3) \<and>
    trace w3 = trace w2 @ [E_delete_socket 4, E_delete_socket 4]"
proof -
  have "sys_recv env0 tr (-1) n = None" for tr n by (simp add: env0_def)
  from stale_event_ends_twice [OF env0_observers stale_world_facts(2) _ _ this]
  show ?thesis unfolding stale_world_facts(1) using stale_world_facts(3,4) by blast
qed

end
