(* ===== verification/Backend.thy ===== *)
theory Backend
  imports PollSet
begin

text \<open>
  The interface \<open>uS::Poll\<close> that \<open>uS::Socket\<close> is written against. There are three back ends
  (\<open>Backend.h\<close>: \<open>Epoll.h\<close>, \<open>Libuv.h\<close>, \<open>Asio.h\<close>). The contract says which events a poll is
  watched for; it is proved to determine them for any interleaving of the operations of any number
  of polls, and discharged here for the epoll back end of the socket model.
\<close>

section \<open>The contract\<close>

text \<open>
  The operations on one poll; the events are whether it is to be watched for reading and for
  writing. An event is first noticed (\<open>Ready\<close>: \<open>epoll_wait\<close> has put it into its batch, a wait of Asio is
  over), and its handler runs later (\<open>Handle\<close>); \<open>True\<close> is an event for reading, \<open>False\<close> one for writing.
\<close>

type_synonym interest = "bool \<times> bool"

datatype poll_op = Start interest | Change interest | Stop | Ready bool | Handle bool

text \<open>
  What a poll is watched for (\<open>None\<close>: it is not started), and for which of the two an event was
  noticed whose handler has not run.
\<close>

type_synonym goal = "interest option"
type_synonym watching = "goal \<times> interest"

abbreviation unstarted :: watching where
  "unstarted \<equiv> (None, (False, False))"

definition bit_of :: "bool \<Rightarrow> interest \<Rightarrow> bool" where
  "bit_of b v = (if b then fst v else snd v)"

definition set_bit_of :: "bool \<Rightarrow> bool \<Rightarrow> interest \<Rightarrow> interest" where
  "set_bit_of b x v = (if b then (x, snd v) else (fst v, x))"

fun next_goal :: "poll_op \<Rightarrow> watching \<Rightarrow> watching" where
  "next_goal (Start v) (g, q) = (Some v, q)"
| "next_goal (Change v) (g, q) = (Some v, q)"
| "next_goal Stop (g, q) = (None, q)"
| "next_goal (Ready b) (g, q) = (g, set_bit_of b True q)"
| "next_goal (Handle b) (g, q) = (g, set_bit_of b False q)"

text \<open>
  A poll is started when it is not, changed and stopped while it is, and that only while no handler of
  it is due; an event is noticed when the poll is watched for it and none is noticed already.
\<close>

fun allowed :: "poll_op \<Rightarrow> watching \<Rightarrow> bool" where
  "allowed (Start v) (g, q) \<longleftrightarrow> g = None \<and> q = (False, False)"
| "allowed (Change v) (g, q) \<longleftrightarrow> g \<noteq> None \<and> q = (False, False)"
| "allowed Stop (g, q) \<longleftrightarrow> g \<noteq> None \<and> q = (False, False)"
| "allowed (Ready b) (g, q) \<longleftrightarrow> (case g of None \<Rightarrow> False | Some v \<Rightarrow> bit_of b v) \<and> \<not> bit_of b q"
| "allowed (Handle b) (g, q) \<longleftrightarrow> bit_of b q"

text \<open>What a sequence of operations on several polls makes of the goals, \<open>None\<close> if it is not allowed.\<close>

fun goals :: "(nat \<times> poll_op) list \<Rightarrow> (nat \<Rightarrow> watching) \<Rightarrow> (nat \<Rightarrow> watching) option" where
  "goals [] G = Some G"
| "goals ((p, op) # ops) G =
     (if allowed op (G p) then goals ops (G(p := next_goal op (G p))) else None)"

text \<open>The operations of a back end on its state; \<open>bits\<close> is its encoding of the events.\<close>

fun poll_step ::
  "(interest \<Rightarrow> poll_events) \<Rightarrow> (nat \<Rightarrow> poll_events \<Rightarrow> 's \<Rightarrow> 's) \<Rightarrow> (nat \<Rightarrow> poll_events \<Rightarrow> 's \<Rightarrow> 's) \<Rightarrow>
     (nat \<Rightarrow> 's \<Rightarrow> 's) \<Rightarrow> (nat \<Rightarrow> bool \<Rightarrow> 's \<Rightarrow> 's) \<Rightarrow> (nat \<Rightarrow> bool \<Rightarrow> 's \<Rightarrow> 's) \<Rightarrow> nat \<times> poll_op \<Rightarrow> 's \<Rightarrow> 's" where
  "poll_step bits start change stop ready handle (p, Start v) = start p (bits v)"
| "poll_step bits start change stop ready handle (p, Change v) = change p (bits v)"
| "poll_step bits start change stop ready handle (p, Stop) = stop p"
| "poll_step bits start change stop ready handle (p, Ready b) = ready p b"
| "poll_step bits start change stop ready handle (p, Handle b) = handle p b"

locale poll_backend =
  fixes bits :: "interest \<Rightarrow> poll_events"
    and start change :: "nat \<Rightarrow> poll_events \<Rightarrow> 's \<Rightarrow> 's"
    and stop :: "nat \<Rightarrow> 's \<Rightarrow> 's"
    and ready handle :: "nat \<Rightarrow> bool \<Rightarrow> 's \<Rightarrow> 's"
    and watch :: "'s \<Rightarrow> nat \<Rightarrow> watching \<Rightarrow> bool"
    and apart :: "'s \<Rightarrow> nat \<Rightarrow> nat \<Rightarrow> bool"
  assumes start_law: "watch s p unstarted \<Longrightarrow> watch (start p (bits v) s) p (Some v, (False, False))"
    and change_law: "watch s p (Some u, (False, False)) \<Longrightarrow> watch (change p (bits v) s) p (Some v, (False, False))"
    and stop_law: "watch s p (Some u, (False, False)) \<Longrightarrow> watch (stop p s) p unstarted"
    and ready_law: "watch s p (Some u, r) \<Longrightarrow> bit_of b u \<Longrightarrow> \<not> bit_of b r \<Longrightarrow> watch (ready p b s) p (Some u, set_bit_of b True r)"
    and handle_law: "watch s p (goal, r) \<Longrightarrow> bit_of b r \<Longrightarrow> watch (handle p b s) p (goal, set_bit_of b False r)"
    and other_law: "apart s p q \<Longrightarrow> watch s q g \<Longrightarrow>
      watch (start p (bits v) s) q g \<and> watch (change p (bits v) s) q g \<and> watch (stop p s) q g \<and> watch (ready p b s) q g \<and>
      watch (handle p b s) q g"
    and apart_law: "apart (start p (bits v) s) = apart s" "apart (change p (bits v) s) = apart s" "apart (stop p s) = apart s"
      "apart (ready p b s) = apart s" "apart (handle p b s) = apart s"
begin

abbreviation step :: "nat \<times> poll_op \<Rightarrow> 's \<Rightarrow> 's" where
  "step \<equiv> poll_step bits start change stop ready handle"

lemma step_watch:
  assumes "watch s p g" "allowed op g"
  shows "watch (step (p, op) s) p (next_goal op g)" "apart s p q \<Longrightarrow> watch s q h \<Longrightarrow> watch (step (p, op) s) q h"
    "apart (step (p, op) s) = apart s"
proof -
  obtain v r where g: "g = (v, r)" by (cases g)
  show "watch (step (p, op) s) p (next_goal op g)"
    using assms start_law [of s p] change_law [of s p] stop_law [of s p] ready_law [of s p] handle_law [of s p]
    by (cases op; cases v) (auto simp: g)
qed (cases op; simp add: other_law apart_law)+

lemma run_watches:
  assumes "goals ops G = Some G'" "\<And>p. p \<in> P \<Longrightarrow> watch s p (G p)" "fst ` set ops \<subseteq> P"
    "\<And>p q. p \<in> P \<Longrightarrow> q \<in> P \<Longrightarrow> p \<noteq> q \<Longrightarrow> apart s p q"
  shows "p \<in> P \<Longrightarrow> watch (fold step ops s) p (G' p)"
  using assms
proof (induction ops arbitrary: s G)
  case (Cons x ops)
  obtain i op where x: "x = (i, op)" by (cases x)
  have a: "allowed op (G i)" "goals ops (G(i := next_goal op (G i))) = Some G'" "i \<in> P"
    using Cons.prems(2,4) by (auto simp: x split: if_splits)
  note st = step_watch [OF Cons.prems(3) [OF a(3)] a(1)]
  have "watch (step x s) q ((G(i := next_goal op (G i))) q)" if "q \<in> P" for q
    using st(1) st(2) [OF Cons.prems(5) [OF a(3) that] Cons.prems(3) [OF that]] by (simp add: x)
  from Cons.IH [OF Cons.prems(1) a(2) this] Cons.prems(4,5) st(3) show ?case by (simp add: x)
qed simp

end

section \<open>The epoll back end\<close>

text \<open>
  \<open>start\<close>, \<open>change\<close> and \<open>stop\<close> of the socket model. The kernel reports level-triggered events:
  neither noticing one nor handling it changes what the poll is watched for.
\<close>

definition ep_start :: "nat \<Rightarrow> poll_events \<Rightarrow> world \<Rightarrow> world" where
  "ep_start p v w = poll_start (sock_loop w p) p v w"

definition ep_change :: "nat \<Rightarrow> poll_events \<Rightarrow> world \<Rightarrow> world" where
  "ep_change p v w = poll_change (sock_loop w p) p v w"

definition ep_stop :: "nat \<Rightarrow> world \<Rightarrow> world" where
  "ep_stop p w = poll_stop (sock_loop w p) p w"

definition ep_bits :: "interest \<Rightarrow> poll_events" where
  "ep_bits v = (if fst v then UV_READABLE else 0) OR (if snd v then UV_WRITABLE else 0)"

definition ep_watch :: "epoll_set \<Rightarrow> world \<Rightarrow> nat \<Rightarrow> watching \<Rightarrow> bool" where
  "ep_watch K w p g \<longleftrightarrow> 0 \<le> s_fd (socks w p) \<and>
     K (trace w) (sock_ep w p) (s_fd (socks w p)) = map_option (\<lambda>v. (p, ep_bits v)) (fst g)"

definition ep_apart :: "world \<Rightarrow> nat \<Rightarrow> nat \<Rightarrow> bool" where
  "ep_apart w p q \<longleftrightarrow> (sock_ep w p, s_fd (socks w p)) \<noteq> (sock_ep w q, s_fd (socks w q))"

locale epoll_kernel =
  fixes K :: epoll_set
  assumes contract: "epoll_contract K"

lemma ep_ops:
  "ep_start p v w = log (E_epoll_add (sock_ep w p) (s_fd (socks w p)) p v) w"
  "ep_change p v w = log (E_epoll_mod (sock_ep w p) (s_fd (socks w p)) p v) w"
  "ep_stop p w = log (E_epoll_del (sock_ep w p) (s_fd (socks w p))) w"
  by (simp_all add: ep_start_def ep_change_def ep_stop_def poll_start_def poll_change_def poll_stop_def sock_ep_def)

lemma ep_other:
  assumes "epoll_contract K" "\<not> concerns (sock_ep w q) (s_fd (socks w q)) e" "ep_watch K w q g"
  shows "ep_watch K (log e w) q g"
  using assms by (simp add: ep_watch_def access epoll_kept)

sublocale epoll_kernel \<subseteq> poll_backend ep_bits ep_start ep_change ep_stop "\<lambda>p b w. w" "\<lambda>p b w. w" "ep_watch K" ep_apart
proof (unfold_locales, goal_cases)
  case (1 s p v)
  then show ?case using contract by (auto simp: ep_watch_def ep_ops access epoll_contract_def)
next
  case (2 s p u v)
  then show ?case using contract by (auto simp: ep_watch_def ep_ops access epoll_modified)
next
  case (3 s p u)
  then show ?case using contract by (auto simp: ep_watch_def ep_ops access epoll_contract_def)
next
  case (6 s p q g v b)
  then show ?case using ep_other [OF contract _ 6(2)] by (auto simp: ep_ops ep_apart_def concerns_def)
qed (auto simp: ep_watch_def ep_apart_def ep_ops access fun_eq_iff)

context epoll_kernel begin

lemmas watched_run = run_watches

end

interpretation replayed_kernel: epoll_kernel replayed
  by unfold_locales (rule replayed_contract)

end
