(* ===== verification/Libuv.thy ===== *)
theory Libuv
  imports Backend
begin

text \<open>
  The libuv back end (uWebSockets \<open>Libuv.h\<close>): \<open>Loop\<close>, \<open>Async\<close>, \<open>Timer\<close> and \<open>Poll\<close> on libuv's handles.
  libuv is a parameter: the calls are recorded in order, and what it answers is a function of them.
  The handle of an \<open>Async\<close> or \<open>Timer\<close> is embedded in it and has its number; a \<open>Poll\<close> points to a
  handle of its own, which it gives away when it is moved. \<open>None\<close> is the value of an operation that
  follows a null pointer.
\<close>

section \<open>State\<close>

definition UV_WRITABLE_UV :: poll_events where "UV_WRITABLE_UV = 2"

datatype uv_call =
    U_loop_new nat
  | U_loop_delete nat
  | U_run nat bool
  | U_async_init nat nat nat
  | U_async_send nat
  | U_timer_init nat nat
  | U_timer_start nat nat int int
  | U_timer_stop nat
  | U_poll_init nat nat int
  | U_poll_start nat poll_events
  | U_poll_stop nat
  | U_close nat
  | U_delete_handle nat
  | U_delete nat

record uv_poll =
  up_handle :: "nat option"
  up_cb :: nat

record uv_state =
  u_polls :: "nat \<Rightarrow> uv_poll"
  u_data :: "nat \<Rightarrow> nat"
  u_loop :: "nat \<Rightarrow> nat"
  u_fresh :: nat
  u_trace :: "uv_call list"

record uv_lib =
  uv_default_loop :: nat
  uv_is_closing :: "uv_call list \<Rightarrow> nat \<Rightarrow> bool"
  uv_fd :: "uv_call list \<Rightarrow> nat \<Rightarrow> int"

definition uv_call :: "uv_call \<Rightarrow> uv_state \<Rightarrow> uv_state" where
  "uv_call c u = u\<lparr>u_trace := u_trace u @ [c]\<rparr>"

definition uv_new :: "uv_state \<Rightarrow> nat \<times> uv_state" where
  "uv_new u = (u_fresh u, u\<lparr>u_fresh := u_fresh u + 1\<rparr>)"

definition upd_poll :: "nat \<Rightarrow> (uv_poll \<Rightarrow> uv_poll) \<Rightarrow> uv_state \<Rightarrow> uv_state" where
  "upd_poll p f u = u\<lparr>u_polls := (u_polls u)(p := f (u_polls u p))\<rparr>"

definition set_data :: "nat \<Rightarrow> nat \<Rightarrow> uv_state \<Rightarrow> uv_state" where
  "set_data h d u = u\<lparr>u_data := (u_data u)(h := d)\<rparr>"

section \<open>Loop\<close>

definition uv_createLoop :: "uv_lib \<Rightarrow> bool \<Rightarrow> uv_state \<Rightarrow> nat \<times> uv_state" where
  "uv_createLoop L defaultLoop u =
     (if defaultLoop then (uv_default_loop L, u)
      else let (l, u) = uv_new u in (l, uv_call (U_loop_new l) u))"

definition uv_destroy :: "uv_lib \<Rightarrow> nat \<Rightarrow> uv_state \<Rightarrow> uv_state" where
  "uv_destroy L l u = (if l \<noteq> uv_default_loop L then uv_call (U_loop_delete l) u else u)"

definition uv_loop_run :: "nat \<Rightarrow> uv_state \<Rightarrow> uv_state" where
  "uv_loop_run l = uv_call (U_run l True)"

definition uv_loop_poll :: "nat \<Rightarrow> uv_state \<Rightarrow> uv_state" where
  "uv_loop_poll l = uv_call (U_run l False)"

section \<open>Async and Timer\<close>

definition uv_async_new :: "nat \<Rightarrow> uv_state \<Rightarrow> nat \<times> uv_state" where
  "uv_async_new l u = (let (a, u) = uv_new u in (a, u\<lparr>u_loop := (u_loop u)(a := l)\<rparr>))"

definition uv_async_start :: "nat \<Rightarrow> nat \<Rightarrow> uv_state \<Rightarrow> uv_state" where
  "uv_async_start a cb u = uv_call (U_async_init (u_loop u a) a cb) u"

definition uv_async_send :: "nat \<Rightarrow> uv_state \<Rightarrow> uv_state" where
  "uv_async_send a = uv_call (U_async_send a)"

definition uv_async_close :: "nat \<Rightarrow> uv_state \<Rightarrow> uv_state" where
  "uv_async_close a = uv_call (U_close a)"

text \<open>The lambda of \<open>Async::close\<close>.\<close>

definition uv_async_closed :: "nat \<Rightarrow> uv_state \<Rightarrow> uv_state" where
  "uv_async_closed a = uv_call (U_delete a)"

definition uv_async_setData :: "nat \<Rightarrow> nat \<Rightarrow> uv_state \<Rightarrow> uv_state" where
  "uv_async_setData a d = set_data a d"

definition uv_async_getData :: "nat \<Rightarrow> uv_state \<Rightarrow> nat" where
  "uv_async_getData a u = u_data u a"

definition uv_timer_new :: "nat \<Rightarrow> uv_state \<Rightarrow> nat \<times> uv_state" where
  "uv_timer_new l u = (let (t, u) = uv_new u in (t, uv_call (U_timer_init l t) u))"

text \<open>\<open>first\<close> and \<open>repeat\<close> are \<open>int\<close>; libuv takes them as \<open>uint64_t\<close>, in milliseconds.\<close>

definition uv_timer_start :: "nat \<Rightarrow> nat \<Rightarrow> int \<Rightarrow> int \<Rightarrow> uv_state \<Rightarrow> uv_state" where
  "uv_timer_start t cb first repeat = uv_call (U_timer_start t cb (first mod 2 ^ 64) (repeat mod 2 ^ 64))"

definition uv_timer_setData :: "nat \<Rightarrow> nat \<Rightarrow> uv_state \<Rightarrow> uv_state" where
  "uv_timer_setData t d = set_data t d"

definition uv_timer_getData :: "nat \<Rightarrow> uv_state \<Rightarrow> nat" where
  "uv_timer_getData t u = u_data u t"

definition uv_timer_stop :: "nat \<Rightarrow> uv_state \<Rightarrow> uv_state" where
  "uv_timer_stop t = uv_call (U_timer_stop t)"

definition uv_timer_close :: "nat \<Rightarrow> uv_state \<Rightarrow> uv_state" where
  "uv_timer_close t = uv_call (U_close t)"

text \<open>The lambda of \<open>Timer::close\<close>.\<close>

definition uv_timer_closed :: "nat \<Rightarrow> uv_state \<Rightarrow> uv_state" where
  "uv_timer_closed t = uv_call (U_delete t)"

section \<open>Poll\<close>

definition uv_poll_new :: "nat \<Rightarrow> nat \<Rightarrow> int \<Rightarrow> uv_state \<Rightarrow> uv_state" where
  "uv_poll_new p l fd u =
     (let (h, u) = uv_new u
      in uv_call (U_poll_init l h fd) (upd_poll p (\<lambda>x. x\<lparr>up_handle := Some h\<rparr>) u))"

definition uv_poll_move :: "nat \<Rightarrow> nat \<Rightarrow> uv_state \<Rightarrow> uv_state" where
  "uv_poll_move p other u =
     upd_poll other (\<lambda>x. x\<lparr>up_handle := None\<rparr>) (upd_poll p (\<lambda>_. u_polls u other) u)"

definition uv_free :: "nat \<Rightarrow> uv_state \<Rightarrow> uv_state" where
  "uv_free p u = (case up_handle (u_polls u p) of Some h \<Rightarrow> uv_call (U_delete_handle h) u | None \<Rightarrow> u)"

definition uv_poll_delete :: "nat \<Rightarrow> uv_state \<Rightarrow> uv_state" where
  "uv_poll_delete p = uv_free p"

definition uv_isClosed :: "uv_lib \<Rightarrow> nat \<Rightarrow> uv_state \<Rightarrow> bool option" where
  "uv_isClosed L p u = map_option (uv_is_closing L (u_trace u)) (up_handle (u_polls u p))"

definition uv_getFd :: "uv_lib \<Rightarrow> nat \<Rightarrow> uv_state \<Rightarrow> int option" where
  "uv_getFd L p u = map_option (uv_fd L (u_trace u)) (up_handle (u_polls u p))"

definition uv_setCb :: "nat \<Rightarrow> nat \<Rightarrow> uv_state \<Rightarrow> uv_state" where
  "uv_setCb p cb = upd_poll p (\<lambda>x. x\<lparr>up_cb := cb\<rparr>)"

definition uv_getCb :: "nat \<Rightarrow> uv_state \<Rightarrow> nat" where
  "uv_getCb p u = up_cb (u_polls u p)"

definition uv_reInit :: "nat \<Rightarrow> nat \<Rightarrow> int \<Rightarrow> uv_state \<Rightarrow> uv_state" where
  "uv_reInit p l fd u = uv_poll_new p l fd (uv_free p u)"

definition uv_start :: "nat \<Rightarrow> poll_events \<Rightarrow> uv_state \<Rightarrow> uv_state option" where
  "uv_start self events u =
     map_option (\<lambda>h. uv_call (U_poll_start h events) (set_data h self u)) (up_handle (u_polls u self))"

text \<open>The lambda of \<open>start\<close>: the callback and the poll it is called with.\<close>

definition uv_poll_event :: "nat \<Rightarrow> uv_state \<Rightarrow> nat \<times> nat" where
  "uv_poll_event h u = (let self = u_data u h in (up_cb (u_polls u self), self))"

definition uv_change :: "nat \<Rightarrow> poll_events \<Rightarrow> uv_state \<Rightarrow> uv_state option" where
  "uv_change self events u = uv_start self events u"

definition uv_stop :: "nat \<Rightarrow> uv_state \<Rightarrow> uv_state option" where
  "uv_stop p u = map_option (\<lambda>h. uv_call (U_poll_stop h) u) (up_handle (u_polls u p))"

definition uv_fastTransfer :: bool where "uv_fastTransfer = False"

definition uv_threadSafeChange :: bool where "uv_threadSafeChange = False"

definition uv_close :: "nat \<Rightarrow> nat \<Rightarrow> uv_state \<Rightarrow> uv_state option" where
  "uv_close p cb u =
     (let u = upd_poll p (\<lambda>x. x\<lparr>up_cb := cb\<rparr>) u
      in map_option (\<lambda>h. uv_call (U_close h) u) (up_handle (u_polls u p)))"

text \<open>The lambda of \<open>close\<close>: the callback, read from the field of the poll, and the poll.\<close>

definition uv_poll_closed :: "nat \<Rightarrow> uv_state \<Rightarrow> nat \<times> nat" where
  "uv_poll_closed h u = (let poll = u_data u h in (up_cb (u_polls u poll), poll))"

section \<open>libuv\<close>

text \<open>
  The documented behaviour of the poll handles: \<open>uv_poll_start\<close> sets the events of a handle that is
  not closing, also when it is active already; \<open>uv_poll_stop\<close> and \<open>uv_close\<close> end them; nothing else
  has an effect on them.
\<close>

type_synonym uv_watcher = "uv_call list \<Rightarrow> nat \<Rightarrow> poll_events option"

definition uv_concerns :: "nat \<Rightarrow> uv_call \<Rightarrow> bool" where
  "uv_concerns h c \<longleftrightarrow> (case c of U_poll_init l i fd \<Rightarrow> i = h | U_poll_start i v \<Rightarrow> i = h | U_poll_stop i \<Rightarrow> i = h
     | U_close i \<Rightarrow> i = h | U_delete_handle i \<Rightarrow> i = h | _ \<Rightarrow> False)"

definition uv_contract :: "uv_lib \<Rightarrow> uv_watcher \<Rightarrow> bool" where
  "uv_contract L K \<longleftrightarrow>
     (\<forall>tr h v. \<not> uv_is_closing L tr h \<longrightarrow> K (tr @ [U_poll_start h v]) h = Some v) \<and>
     (\<forall>tr h. K (tr @ [U_poll_stop h]) h = None \<and> K (tr @ [U_close h]) h = None) \<and>
     (\<forall>tr h c. \<not> uv_concerns h c \<longrightarrow> K (tr @ [c]) h = K tr h) \<and>
     (\<forall>tr h c. c \<noteq> U_close h \<longrightarrow> uv_is_closing L (tr @ [c]) h = uv_is_closing L tr h)"

lemma uv_started: "uv_contract L K \<Longrightarrow> \<not> uv_is_closing L tr h \<Longrightarrow> K (tr @ [U_poll_start h v]) h = Some v"
  by (simp add: uv_contract_def)

lemma uv_stopped: "uv_contract L K \<Longrightarrow> K (tr @ [U_poll_stop h]) h = None \<and> K (tr @ [U_close h]) h = None"
  by (simp add: uv_contract_def)

lemma uv_kept: "uv_contract L K \<Longrightarrow> \<not> uv_concerns h c \<Longrightarrow> K (tr @ [c]) h = K tr h"
  by (simp add: uv_contract_def)

lemma uv_still_open: "uv_contract L K \<Longrightarrow> c \<noteq> U_close h \<Longrightarrow> uv_is_closing L (tr @ [c]) h = uv_is_closing L tr h"
  by (simp add: uv_contract_def)

section \<open>The contract of a back end\<close>

definition uv_bits :: "interest \<Rightarrow> poll_events" where
  "uv_bits v = (if fst v then UV_READABLE else 0) OR (if snd v then UV_WRITABLE_UV else 0)"

definition uv_watch :: "uv_lib \<Rightarrow> uv_watcher \<Rightarrow> uv_state \<Rightarrow> nat \<Rightarrow> watching \<Rightarrow> bool" where
  "uv_watch L K u p g \<longleftrightarrow> (case up_handle (u_polls u p) of
     None \<Rightarrow> False
   | Some h \<Rightarrow> \<not> uv_is_closing L (u_trace u) h \<and> K (u_trace u) h = map_option uv_bits (fst g) \<and>
       (fst g \<noteq> None \<longrightarrow> u_data u h = p))"

definition uv_apart :: "uv_state \<Rightarrow> nat \<Rightarrow> nat \<Rightarrow> bool" where
  "uv_apart u p q \<longleftrightarrow> up_handle (u_polls u p) \<noteq> up_handle (u_polls u q)"

text \<open>The operations as total functions, for polls that hold a handle.\<close>

definition total :: "('s \<Rightarrow> 's option) \<Rightarrow> 's \<Rightarrow> 's" where
  "total f s = (case f s of Some s' \<Rightarrow> s' | None \<Rightarrow> s)"

locale uv_library =
  fixes L :: uv_lib and K :: uv_watcher
  assumes contract: "uv_contract L K"

lemmas uv_defs = total_def uv_start_def uv_change_def uv_stop_def uv_call_def set_data_def

lemma uv_other:
  assumes "uv_contract L K" "uv_watch L K u q g" "up_handle (u_polls u p) = Some h" "uv_apart u p q"
    "c = U_poll_start h v \<or> c = U_poll_stop h"
  shows "uv_watch L K (uv_call c (set_data h p u)) q g" "uv_watch L K (uv_call c u) q g"
  using assms by (auto simp: uv_watch_def uv_call_def set_data_def uv_apart_def uv_kept uv_still_open uv_concerns_def split: option.splits)

sublocale uv_library \<subseteq> poll_backend uv_bits "\<lambda>p v. total (uv_start p v)" "\<lambda>p v. total (uv_change p v)" "\<lambda>p. total (uv_stop p)"
  "\<lambda>p b u. u" "\<lambda>p b u. u" "uv_watch L K" uv_apart
proof (unfold_locales, goal_cases)
  case (1 s p v)
  then show ?case using contract by (auto simp: uv_watch_def uv_defs uv_started uv_still_open split: option.splits)
next
  case (2 s p u v)
  then show ?case using contract by (auto simp: uv_watch_def uv_defs uv_started uv_still_open split: option.splits)
next
  case (3 s p u)
  then show ?case using contract by (auto simp: uv_watch_def uv_defs uv_stopped uv_still_open split: option.splits)
next
  case (6 s p q g v b)
  then show ?case using uv_other [OF contract 6(2) _ 6(1)]
    by (auto simp: total_def uv_start_def uv_change_def uv_stop_def split: option.splits)
qed (auto simp: uv_watch_def uv_apart_def uv_defs fun_eq_iff split: option.splits)

context uv_library begin

lemmas watched_run = run_watches

end

text \<open>A libuv that replays the calls.\<close>

fun uv_step :: "uv_call \<Rightarrow> (nat \<Rightarrow> poll_events option) \<Rightarrow> nat \<Rightarrow> poll_events option" where
  "uv_step (U_poll_start h v) m = m(h := Some v)"
| "uv_step (U_poll_stop h) m = m(h := None)"
| "uv_step (U_close h) m = m(h := None)"
| "uv_step _ m = m"

definition uv_replayed :: uv_watcher where
  "uv_replayed tr h = fold uv_step tr (\<lambda>_. None) h"

definition uv_lib0 :: uv_lib where
  "uv_lib0 = \<lparr>uv_default_loop = 0, uv_is_closing = \<lambda>tr h. U_close h \<in> set tr, uv_fd = \<lambda>tr h. 7\<rparr>"

lemma uv_replayed_contract: "uv_contract uv_lib0 uv_replayed"
proof -
  have "uv_step c m h = m h" if "\<not> uv_concerns h c" for c m h
    using that by (cases c) (auto simp: uv_concerns_def)
  then show ?thesis by (auto simp: uv_contract_def uv_replayed_def uv_lib0_def)
qed

interpretation replayed_library: uv_library uv_lib0 uv_replayed
  by unfold_locales (rule uv_replayed_contract)

section \<open>Closing\<close>

text \<open>
  libuv finds the poll through the handle: the callback of \<open>close\<close> is called with the object that
  was last started on it. A moved poll has to be changed before it is closed, as \<open>HttpSocket\<close> and
  \<open>WebSocket\<close> do; otherwise the object it was moved from is used.
\<close>

lemma uv_close_reaches_started:
  assumes "up_handle (u_polls u p) = Some h" "uv_start p v u = Some u1" "uv_close p cb u1 = Some u2"
  shows "uv_poll_closed h u2 = (cb, p) \<and> U_close h \<in> set (u_trace u2)"
  using assms by (auto simp: uv_start_def uv_close_def uv_poll_closed_def uv_call_def set_data_def upd_poll_def Let_def)

lemma uv_moved_poll:
  assumes "uv_watch L K u p (Some v, r)" "q \<noteq> p"
  shows "up_handle (u_polls (uv_poll_move q p u) q) = up_handle (u_polls u p)"
    "\<not> uv_watch L K (uv_poll_move q p u) q (Some v, r)" "uv_stop p (uv_poll_move q p u) = None"
  using assms by (auto simp: uv_poll_move_def upd_poll_def uv_watch_def uv_stop_def split: option.splits)

end
