(* ===== verification/Asio.thy ===== *)
theory Asio
  imports Libuv
begin

text \<open>
  The Boost.Asio back end (uWebSockets \<open>Asio.h\<close>). Asio is a parameter: the calls are recorded, the
  closures given to \<open>post\<close> and the completion handlers are operations of their own. A poll is
  watched by outstanding waits of its descriptor, one for each direction, which the handler starts
  again before it calls back. \<open>None\<close> is the value of an operation that follows a null pointer.
\<close>

section \<open>State\<close>

datatype asio_post = Post_async nat | Post_delete nat | Post_close nat nat

datatype asio_call =
    A_loop_new nat
  | A_loop_delete nat
  | A_run nat bool
  | A_expires_from_now nat int
  | A_timer_wait nat nat int
  | A_timer_cancel nat
  | A_descriptor nat nat int
  | A_non_blocking nat
  | A_read_wait nat nat
  | A_write_wait nat nat
  | A_done nat bool
  | A_cancel nat
  | A_release nat
  | A_delete_descriptor nat
  | A_post asio_post
  | A_delete nat

record asio_poll =
  as_socket :: "nat option"
  as_cb :: nat

record asio_state =
  a_polls :: "nat \<Rightarrow> asio_poll"
  a_data :: "nat \<Rightarrow> nat"
  a_cb :: "nat \<Rightarrow> nat"
  a_loop :: "nat \<Rightarrow> nat"
  a_fresh :: nat
  a_trace :: "asio_call list"

definition asio_call :: "asio_call \<Rightarrow> asio_state \<Rightarrow> asio_state" where
  "asio_call c a = a\<lparr>a_trace := a_trace a @ [c]\<rparr>"

definition asio_new :: "asio_state \<Rightarrow> nat \<times> asio_state" where
  "asio_new a = (a_fresh a, a\<lparr>a_fresh := a_fresh a + 1\<rparr>)"

definition upd_asio :: "nat \<Rightarrow> (asio_poll \<Rightarrow> asio_poll) \<Rightarrow> asio_state \<Rightarrow> asio_state" where
  "upd_asio p f a = a\<lparr>a_polls := (a_polls a)(p := f (a_polls a p))\<rparr>"

section \<open>Loop\<close>

definition asio_createLoop :: "bool \<Rightarrow> asio_state \<Rightarrow> nat \<times> asio_state" where
  "asio_createLoop defaultLoop a = (let (l, a) = asio_new a in (l, asio_call (A_loop_new l) a))"

definition asio_destroy :: "nat \<Rightarrow> asio_state \<Rightarrow> asio_state" where
  "asio_destroy l = asio_call (A_loop_delete l)"

definition asio_loop_run :: "nat \<Rightarrow> asio_state \<Rightarrow> asio_state" where
  "asio_loop_run l = asio_call (A_run l True)"

definition asio_loop_poll :: "nat \<Rightarrow> asio_state \<Rightarrow> asio_state" where
  "asio_loop_poll l = asio_call (A_run l False)"

section \<open>Timer\<close>

definition asio_timer_new :: "nat \<Rightarrow> asio_state \<Rightarrow> nat \<times> asio_state" where
  "asio_timer_new l a = (let (t, a) = asio_new a in (t, a\<lparr>a_loop := (a_loop a)(t := l)\<rparr>))"

definition asio_timer_start :: "nat \<Rightarrow> nat \<Rightarrow> int \<Rightarrow> int \<Rightarrow> asio_state \<Rightarrow> asio_state" where
  "asio_timer_start t cb first repeat a =
     asio_call (A_timer_wait t cb repeat) (asio_call (A_expires_from_now t first) a)"

text \<open>The completion handler; the callback to be called, if any.\<close>

definition asio_timer_done :: "bool \<Rightarrow> nat \<Rightarrow> nat \<Rightarrow> int \<Rightarrow> asio_state \<Rightarrow> (nat \<times> nat) option \<times> asio_state" where
  "asio_timer_done aborted t cb repeat a =
     (if \<not> aborted then (Some (cb, t), if repeat \<noteq> 0 then asio_timer_start t cb repeat repeat a else a) else (None, a))"

definition asio_timer_stop :: "nat \<Rightarrow> asio_state \<Rightarrow> asio_state" where
  "asio_timer_stop t = asio_call (A_timer_cancel t)"

definition asio_timer_close :: "nat \<Rightarrow> asio_state \<Rightarrow> asio_state" where
  "asio_timer_close t = asio_call (A_post (Post_delete t))"

definition asio_timer_setData :: "nat \<Rightarrow> nat \<Rightarrow> asio_state \<Rightarrow> asio_state" where
  "asio_timer_setData h d a = a\<lparr>a_data := (a_data a)(h := d)\<rparr>"

definition asio_timer_getData :: "nat \<Rightarrow> asio_state \<Rightarrow> nat" where
  "asio_timer_getData h a = a_data a h"

section \<open>Async\<close>

definition asio_async_new :: "nat \<Rightarrow> asio_state \<Rightarrow> nat \<times> asio_state" where
  "asio_async_new l a = (let (i, a) = asio_new a in (i, a\<lparr>a_loop := (a_loop a)(i := l)\<rparr>))"

definition asio_async_start :: "nat \<Rightarrow> nat \<Rightarrow> asio_state \<Rightarrow> asio_state" where
  "asio_async_start i cb a = a\<lparr>a_cb := (a_cb a)(i := cb)\<rparr>"

definition asio_async_send :: "nat \<Rightarrow> asio_state \<Rightarrow> asio_state" where
  "asio_async_send i = asio_call (A_post (Post_async i))"

definition asio_async_close :: "nat \<Rightarrow> asio_state \<Rightarrow> asio_state" where
  "asio_async_close i = asio_call (A_post (Post_delete i))"

definition asio_async_setData :: "nat \<Rightarrow> nat \<Rightarrow> asio_state \<Rightarrow> asio_state" where
  "asio_async_setData i d a = a\<lparr>a_data := (a_data a)(i := d)\<rparr>"

definition asio_async_getData :: "nat \<Rightarrow> asio_state \<Rightarrow> nat" where
  "asio_async_getData i a = a_data a i"

text \<open>The posted closures: the callback to be called, if any, with its argument.\<close>

fun asio_posted :: "asio_post \<Rightarrow> asio_state \<Rightarrow> (nat \<times> nat) option \<times> asio_state" where
  "asio_posted (Post_async i) a = (Some (a_cb a i, i), a)"
| "asio_posted (Post_delete h) a = (None, asio_call (A_delete h) a)"
| "asio_posted (Post_close cb p) a = (Some (cb, p), a)"

section \<open>Poll\<close>

definition asio_poll_new :: "nat \<Rightarrow> nat \<Rightarrow> int \<Rightarrow> asio_state \<Rightarrow> asio_state" where
  "asio_poll_new p l fd a =
     (let (d, a) = asio_new a
      in asio_call (A_non_blocking d) (asio_call (A_descriptor d l fd) (upd_asio p (\<lambda>x. x\<lparr>as_socket := Some d\<rparr>) a)))"

definition asio_isClosed :: "nat \<Rightarrow> asio_state \<Rightarrow> bool" where
  "asio_isClosed p a \<longleftrightarrow> as_socket (a_polls a p) = None"

definition asio_getFd :: "(nat \<Rightarrow> int) \<Rightarrow> nat \<Rightarrow> asio_state \<Rightarrow> int" where
  "asio_getFd native_handle p a = (case as_socket (a_polls a p) of Some d \<Rightarrow> native_handle d | None \<Rightarrow> -1)"

definition asio_setCb :: "nat \<Rightarrow> nat \<Rightarrow> asio_state \<Rightarrow> asio_state" where
  "asio_setCb p cb = upd_asio p (\<lambda>x. x\<lparr>as_cb := cb\<rparr>)"

definition asio_getCb :: "nat \<Rightarrow> asio_state \<Rightarrow> nat" where
  "asio_getCb p a = as_cb (a_polls a p)"

definition asio_reInit :: "nat \<Rightarrow> nat \<Rightarrow> int \<Rightarrow> asio_state \<Rightarrow> asio_state" where
  "asio_reInit p l fd a =
     asio_poll_new p l fd (case as_socket (a_polls a p) of Some d \<Rightarrow> asio_call (A_delete_descriptor d) a | None \<Rightarrow> a)"

definition asio_start :: "nat \<Rightarrow> poll_events \<Rightarrow> asio_state \<Rightarrow> asio_state option" where
  "asio_start self events a =
     (let readable = (events AND UV_READABLE \<noteq> 0); writable = (events AND UV_WRITABLE_UV \<noteq> 0)
      in case as_socket (a_polls a self) of
           None \<Rightarrow> if readable \<or> writable then None else Some a
         | Some d \<Rightarrow>
             let a = (if readable then asio_call (A_read_wait d self) a else a)
             in Some (if writable then asio_call (A_write_wait d self) a else a))"

text \<open>The completion handlers of \<open>start\<close>: callback, poll, status and event, unless the wait was cancelled.\<close>

definition asio_poll_done ::
  "bool \<Rightarrow> bool \<Rightarrow> bool \<Rightarrow> nat \<Rightarrow> asio_state \<Rightarrow> ((nat \<times> nat \<times> int \<times> poll_events) option \<times> asio_state) option" where
  "asio_poll_done aborted failed readable self a =
     (if \<not> aborted then
        let ev = (if readable then UV_READABLE else UV_WRITABLE_UV)
        in map_option (\<lambda>a. (Some (as_cb (a_polls a self), self, if failed then -1 else 0, ev), a)) (asio_start self ev a)
      else Some (None, a))"

definition asio_stop :: "nat \<Rightarrow> asio_state \<Rightarrow> asio_state option" where
  "asio_stop p a = map_option (\<lambda>d. asio_call (A_cancel d) a) (as_socket (a_polls a p))"

definition asio_change :: "nat \<Rightarrow> poll_events \<Rightarrow> asio_state \<Rightarrow> asio_state option" where
  "asio_change self events a =
     (case asio_stop self a of Some a \<Rightarrow> asio_start self events a | None \<Rightarrow> None)"

definition asio_fastTransfer :: bool where "asio_fastTransfer = False"

definition asio_threadSafeChange :: bool where "asio_threadSafeChange = False"

definition asio_close :: "nat \<Rightarrow> nat \<Rightarrow> asio_state \<Rightarrow> asio_state option" where
  "asio_close p cb a =
     map_option (\<lambda>d. upd_asio p (\<lambda>x. x\<lparr>as_socket := None\<rparr>)
         (asio_call (A_delete_descriptor d) (asio_call (A_post (Post_close cb p)) (asio_call (A_release d) a))))
       (as_socket (a_polls a p))"

section \<open>Asio\<close>

text \<open>
  The outstanding waits of a descriptor, by the poll that waits: a wait is added by its call, taken
  by its completion, and all of them end when the descriptor is cancelled or released.
\<close>

type_synonym asio_waits = "asio_call list \<Rightarrow> nat \<Rightarrow> nat list \<times> nat list"

definition asio_concerns :: "nat \<Rightarrow> asio_call \<Rightarrow> bool" where
  "asio_concerns d c \<longleftrightarrow> (case c of A_descriptor i l fd \<Rightarrow> i = d | A_read_wait i p \<Rightarrow> i = d | A_write_wait i p \<Rightarrow> i = d
     | A_done i b \<Rightarrow> i = d | A_cancel i \<Rightarrow> i = d | A_release i \<Rightarrow> i = d | A_delete_descriptor i \<Rightarrow> i = d | _ \<Rightarrow> False)"

definition asio_contract :: "asio_waits \<Rightarrow> bool" where
  "asio_contract K \<longleftrightarrow>
     (\<forall>tr d p. K (tr @ [A_read_wait d p]) d = (fst (K tr d) @ [p], snd (K tr d))) \<and>
     (\<forall>tr d p. K (tr @ [A_write_wait d p]) d = (fst (K tr d), snd (K tr d) @ [p])) \<and>
     (\<forall>tr d. K (tr @ [A_done d True]) d = (tl (fst (K tr d)), snd (K tr d))) \<and>
     (\<forall>tr d. K (tr @ [A_done d False]) d = (fst (K tr d), tl (snd (K tr d)))) \<and>
     (\<forall>tr d. K (tr @ [A_cancel d]) d = ([], [])) \<and>
     (\<forall>tr d c. \<not> asio_concerns d c \<longrightarrow> K (tr @ [c]) d = K tr d)"

definition waits :: "asio_waits \<Rightarrow> asio_state \<Rightarrow> nat \<Rightarrow> nat list \<times> nat list" where
  "waits K a d = K (a_trace a) d"

lemma asio_call_polls [simp]: "a_polls (asio_call c a) = a_polls a"
  by (simp add: asio_call_def)

lemma waits_call:
  assumes "asio_contract K"
  shows "waits K (asio_call (A_read_wait d p) a) d = (fst (waits K a d) @ [p], snd (waits K a d))"
    "waits K (asio_call (A_write_wait d p) a) d = (fst (waits K a d), snd (waits K a d) @ [p])"
    "waits K (asio_call (A_done d True) a) d = (tl (fst (waits K a d)), snd (waits K a d))"
    "waits K (asio_call (A_done d False) a) d = (fst (waits K a d), tl (snd (waits K a d)))"
    "waits K (asio_call (A_cancel d) a) d = ([], [])"
    "\<not> asio_concerns d c \<Longrightarrow> waits K (asio_call c a) d = waits K a d"
  using assms by (simp_all add: asio_contract_def waits_def asio_call_def)

section \<open>The contract of a back end\<close>

text \<open>A poll waits for what it is watched for, except in a direction whose wait is over and whose handler has not run.\<close>

definition asio_watch :: "asio_waits \<Rightarrow> asio_state \<Rightarrow> nat \<Rightarrow> watching \<Rightarrow> bool" where
  "asio_watch K a p g \<longleftrightarrow> (case as_socket (a_polls a p) of
     None \<Rightarrow> False
   | Some d \<Rightarrow> (case g of
       (None, q) \<Rightarrow> q = (False, False) \<and> waits K a d = ([], [])
     | (Some (x, y), q) \<Rightarrow> (fst q \<longrightarrow> x) \<and> (snd q \<longrightarrow> y) \<and>
         waits K a d = (if x \<and> \<not> fst q then [p] else [], if y \<and> \<not> snd q then [p] else [])))"

definition asio_apart :: "asio_state \<Rightarrow> nat \<Rightarrow> nat \<Rightarrow> bool" where
  "asio_apart a p q \<longleftrightarrow> as_socket (a_polls a p) \<noteq> as_socket (a_polls a q)"

text \<open>
  An event: its wait is over and the completion is queued. Later Asio takes it from the queue and runs the
  handler, which cannot be taken back.
\<close>

definition asio_ready :: "nat \<Rightarrow> bool \<Rightarrow> asio_state \<Rightarrow> asio_state option" where
  "asio_ready p b a = map_option (\<lambda>d. asio_call (A_done d b) a) (as_socket (a_polls a p))"

definition asio_handle :: "nat \<Rightarrow> bool \<Rightarrow> asio_state \<Rightarrow> asio_state option" where
  "asio_handle p b a = map_option snd (asio_poll_done False False b p a)"

locale asio_service =
  fixes K :: asio_waits
  assumes contract: "asio_contract K"

lemmas asio_defs = total_def asio_start_def asio_change_def asio_stop_def asio_ready_def asio_handle_def asio_poll_done_def Let_def

lemma asio_start_bits [simp]:
  "asio_start p (uv_bits v) a = (case as_socket (a_polls a p) of
     None \<Rightarrow> if fst v \<or> snd v then None else Some a
   | Some d \<Rightarrow> let a = (if fst v then asio_call (A_read_wait d p) a else a)
       in Some (if snd v then asio_call (A_write_wait d p) a else a))"
  by (simp add: asio_start_def uv_bits_def UV_READABLE_def UV_WRITABLE_UV_def split: option.splits)

lemma asio_start_single [simp]:
  "asio_start p UV_READABLE a = map_option (\<lambda>d. asio_call (A_read_wait d p) a) (as_socket (a_polls a p))"
  "asio_start p UV_WRITABLE_UV a = map_option (\<lambda>d. asio_call (A_write_wait d p) a) (as_socket (a_polls a p))"
  by (simp_all add: asio_start_def UV_READABLE_def UV_WRITABLE_UV_def split: option.splits)

lemma asio_polls_kept:
  "a_polls (total (asio_start p v) a) = a_polls a" "a_polls (total (asio_change p v) a) = a_polls a"
  "a_polls (total (asio_stop p) a) = a_polls a" "a_polls (total (asio_ready p b) a) = a_polls a"
  "a_polls (total (asio_handle p b) a) = a_polls a"
  by (auto simp: asio_defs split: option.splits)

lemma asio_other_waits:
  assumes "asio_contract K" "as_socket (a_polls a p) \<noteq> Some d"
  shows "waits K (total (asio_start p v) a) d = waits K a d" "waits K (total (asio_stop p) a) d = waits K a d"
    "waits K (total (asio_change p v) a) d = waits K a d" "waits K (total (asio_ready p b) a) d = waits K a d"
    "waits K (total (asio_handle p b) a) d = waits K a d"
  using assms by (auto simp: asio_defs waits_call(6) asio_concerns_def split: option.splits)

lemma asio_other:
  assumes "asio_contract K" "asio_watch K a q g" "asio_apart a p q"
  shows "asio_watch K (total (asio_start p v) a) q g" "asio_watch K (total (asio_stop p) a) q g"
    "asio_watch K (total (asio_change p v) a) q g" "asio_watch K (total (asio_ready p b) a) q g"
    "asio_watch K (total (asio_handle p b) a) q g"
  using assms asio_other_waits [OF assms(1), of a p]
  by (auto simp: asio_watch_def asio_apart_def asio_polls_kept split: option.splits)

sublocale asio_service \<subseteq> poll_backend uv_bits "\<lambda>p v. total (asio_start p v)" "\<lambda>p v. total (asio_change p v)" "\<lambda>p. total (asio_stop p)"
  "\<lambda>p b. total (asio_ready p b)" "\<lambda>p b. total (asio_handle p b)" "asio_watch K" asio_apart
proof (unfold_locales, goal_cases)
  case (1 s p v)
  then show ?case using contract by (auto simp: asio_watch_def total_def Let_def waits_call split: option.splits prod.splits)
next
  case (2 s p u v)
  then show ?case using contract
    by (auto simp: asio_watch_def total_def asio_change_def asio_stop_def Let_def waits_call split: option.splits prod.splits)
next
  case (3 s p u)
  then show ?case using contract by (auto simp: asio_watch_def total_def asio_stop_def waits_call split: option.splits)
next
  case (4 s p u r b)
  then show ?case using contract
    by (cases b) (auto simp: asio_watch_def total_def asio_ready_def waits_call bit_of_def set_bit_of_def split: option.splits prod.splits)
next
  case (5 s p g r b)
  then show ?case using contract
    by (cases b) (auto simp: asio_watch_def total_def asio_handle_def asio_poll_done_def Let_def waits_call bit_of_def set_bit_of_def
        split: option.splits prod.splits if_splits)
next
  case (6 s p q g v b)
  then show ?case by (intro conjI asio_other [OF contract])
qed (auto simp: asio_apart_def asio_polls_kept fun_eq_iff)

context asio_service begin

lemmas watched_run = run_watches

end

text \<open>An Asio that replays the calls.\<close>

fun asio_step :: "asio_call \<Rightarrow> (nat \<Rightarrow> nat list \<times> nat list) \<Rightarrow> nat \<Rightarrow> nat list \<times> nat list" where
  "asio_step (A_read_wait d p) m = m(d := (fst (m d) @ [p], snd (m d)))"
| "asio_step (A_write_wait d p) m = m(d := (fst (m d), snd (m d) @ [p]))"
| "asio_step (A_done d b) m = m(d := if b then (tl (fst (m d)), snd (m d)) else (fst (m d), tl (snd (m d))))"
| "asio_step (A_cancel d) m = m(d := ([], []))"
| "asio_step _ m = m"

definition asio_replayed :: asio_waits where
  "asio_replayed tr d = fold asio_step tr (\<lambda>_. ([], [])) d"

lemma asio_replayed_contract: "asio_contract asio_replayed"
proof -
  have "asio_step c m d = m d" if "\<not> asio_concerns d c" for c m d
    using that by (cases c) (auto simp: asio_concerns_def)
  then show ?thesis by (simp add: asio_contract_def asio_replayed_def)
qed

interpretation replayed_service: asio_service asio_replayed
  by unfold_locales (rule asio_replayed_contract)

section \<open>The three back ends\<close>

text \<open>
  C18: The three back ends watch the same events. Apply any allowed sequence of \<open>start\<close>, \<open>change\<close>, \<open>stop\<close>, events
  and handler runs to any number of polls with descriptors of their own. After it each poll is
  watched, by the kernel's epoll set, by libuv and by Asio's outstanding waits, for exactly what the last
  operation on it asked for (Asio: less a direction whose completion is queued, until its handler
  has started the wait again). Allowed means: no \<open>start\<close>, \<open>change\<close> or \<open>stop\<close> of a poll while a completion
  of its own is queued. Asio needs that: cancelling does not take back a queued completion, and its handler
  then restarts a wait that was stopped, or adds a second one (\<open>asio_late_handler\<close>). epoll, libuv and
  Asio are parameters with their documented behaviour.
\<close>

theorem backends_agree:
  assumes "epoll_contract K1" "uv_contract L K2" "asio_contract K3"
    "goals ops (\<lambda>_. unstarted) = Some G" "fst ` set ops \<subseteq> P" "p \<in> P"
    "\<And>i. i \<in> P \<Longrightarrow> ep_watch K1 w i unstarted \<and> uv_watch L K2 u i unstarted \<and> asio_watch K3 a i unstarted"
    "\<And>i j. i \<in> P \<Longrightarrow> j \<in> P \<Longrightarrow> i \<noteq> j \<Longrightarrow> ep_apart w i j \<and> uv_apart u i j \<and> asio_apart a i j"
  shows "ep_watch K1 (fold (poll_step ep_bits ep_start ep_change ep_stop (\<lambda>p b w. w) (\<lambda>p b w. w)) ops w) p (G p) \<and>
    uv_watch L K2 (fold (poll_step uv_bits (\<lambda>p v. total (uv_start p v)) (\<lambda>p v. total (uv_change p v))
      (\<lambda>p. total (uv_stop p)) (\<lambda>p b u. u) (\<lambda>p b u. u)) ops u) p (G p) \<and>
    asio_watch K3 (fold (poll_step uv_bits (\<lambda>p v. total (asio_start p v)) (\<lambda>p v. total (asio_change p v))
      (\<lambda>p. total (asio_stop p)) (\<lambda>p b. total (asio_ready p b)) (\<lambda>p b. total (asio_handle p b))) ops a) p (G p)"
  using epoll_kernel.watched_run [OF epoll_kernel.intro, OF assms(1,4), of P w p]
    uv_library.watched_run [OF uv_library.intro, OF assms(2,4), of P u p]
    asio_service.watched_run [OF asio_service.intro, OF assms(3,4), of P a p] assms(5-8)
  by auto

text \<open>Two polls.\<close>

definition two_ops :: "(nat \<times> poll_op) list" where
  "two_ops = [(1, Start (True, False)), (2, Start (True, False)), (1, Change (True, True)), (1, Ready False), (2, Ready True),
     (1, Handle False), (2, Handle True), (2, Stop), (1, Ready True)]"

definition two_socks :: world where
  "two_socks = upd_sock 2 (\<lambda>x. x\<lparr>s_fd := 8\<rparr>) world0"

definition two_handles :: uv_state where
  "two_handles = \<lparr>u_polls = \<lambda>p. \<lparr>up_handle = Some p, up_cb = 0\<rparr>, u_data = \<lambda>h. 0, u_loop = \<lambda>a. 0, u_fresh = 9, u_trace = []\<rparr>"

definition two_descriptors :: asio_state where
  "two_descriptors = \<lparr>a_polls = \<lambda>p. \<lparr>as_socket = Some p, as_cb = 0\<rparr>, a_data = \<lambda>h. 0, a_cb = \<lambda>h. 0, a_loop = \<lambda>h. 0,
     a_fresh = 9, a_trace = []\<rparr>"

lemma two_unwatched:
  assumes "i \<in> {1, 2}"
  shows "ep_watch replayed two_socks i unstarted \<and> uv_watch uv_lib0 uv_replayed two_handles i unstarted \<and>
    asio_watch asio_replayed two_descriptors i unstarted"
  using assms by (auto simp: ep_watch_def uv_watch_def asio_watch_def two_socks_def two_handles_def two_descriptors_def waits_def
      replayed_def uv_replayed_def asio_replayed_def uv_lib0_def upd_sock_def world0_def sock0_def)

lemma two_apart:
  assumes "i \<in> {1, 2}" "j \<in> {1, 2}" "i \<noteq> j"
  shows "ep_apart two_socks i j \<and> uv_apart two_handles i j \<and> asio_apart two_descriptors i j"
  using assms by (auto simp: ep_apart_def uv_apart_def asio_apart_def two_socks_def two_handles_def two_descriptors_def
      upd_sock_def world0_def sock0_def)

theorem backends_agree_witness:
  "ep_watch replayed (fold (poll_step ep_bits ep_start ep_change ep_stop (\<lambda>p b w. w) (\<lambda>p b w. w)) two_ops two_socks) 1 (Some (True, True), (True, False)) \<and>
    uv_watch uv_lib0 uv_replayed (fold (poll_step uv_bits (\<lambda>p v. total (uv_start p v)) (\<lambda>p v. total (uv_change p v))
      (\<lambda>p. total (uv_stop p)) (\<lambda>p b u. u) (\<lambda>p b u. u)) two_ops two_handles) 1 (Some (True, True), (True, False)) \<and>
    asio_watch asio_replayed (fold (poll_step uv_bits (\<lambda>p v. total (asio_start p v)) (\<lambda>p v. total (asio_change p v))
      (\<lambda>p. total (asio_stop p)) (\<lambda>p b. total (asio_ready p b)) (\<lambda>p b. total (asio_handle p b))) two_ops two_descriptors) 1
      (Some (True, True), (True, False))"
proof -
  define G where "G = ((\<lambda>_. unstarted)(1 := (Some (True, True), (True, False)), 2 := unstarted) :: nat \<Rightarrow> watching)"
  have g: "goals two_ops (\<lambda>_. unstarted) = Some G" by (simp add: two_ops_def G_def fun_eq_iff bit_of_def set_bit_of_def)
  have i: "fst ` set two_ops \<subseteq> {1, 2}" "1 \<in> {1, 2::nat}" by (simp_all add: two_ops_def)
  have G: "(Some (True, True), (True, False)) = G 1" by (simp add: G_def)
  show ?thesis
    unfolding G
    by (rule backends_agree [OF replayed_contract uv_replayed_contract asio_replayed_contract g i])
      (assumption | rule two_unwatched two_apart)+
qed

section \<open>Late handlers\<close>

text \<open>
  Asio does not take back a completion that is queued already. When its handler runs after \<open>stop\<close>, the poll
  is watched again; after \<open>change\<close>, it waits twice, and from then on every event is reported twice; after
  \<open>close\<close>, the handler follows a null pointer (\<open>None\<close>).
\<close>

lemma asio_late_handler:
  assumes "asio_contract K" "as_socket (a_polls a p) = Some d"
  shows "waits K (total (asio_handle p True) (total (asio_stop p) a)) d = ([p], [])"
    "waits K (total (asio_handle p True) (total (asio_change p (uv_bits (True, y))) a)) d = ([p, p], if y then [p] else [])"
  using assms by (simp_all add: total_def asio_handle_def asio_stop_def asio_change_def asio_poll_done_def Let_def waits_call)

lemma asio_late_event:
  "asio_close p cb a = Some a' \<Longrightarrow> asio_handle p readable a' = None"
  by (auto simp: asio_close_def upd_asio_def asio_handle_def asio_poll_done_def Let_def)

end
