(* ===== verification/Sending.thy ===== *)
theory Sending
  imports WebSocketStream SocketFrame
begin

text \<open>
  What \<open>send\<close> of a WebSocket does to its socket, whether the message is written at once, in part, or
  queued: the outgoing stream grows by one frame, and of the socket nothing but the queue and the poll
  bits changes.
\<close>

section \<open>The bytes\<close>

text \<open>Sending with any transformation that leaves the sockets and the bytes sent alone.\<close>

definition transforms :: "(world \<Rightarrow> (byte list \<times> world) option) \<Rightarrow> (byte list \<Rightarrow> bool) \<Rightarrow> bool" where
  "transforms f P \<longleftrightarrow> (\<forall>w. \<exists>b w'. f w = Some (b, w') \<and> P b \<and> socks w' = socks w \<and>
     (\<forall>fd. sent_on fd (trace w') = sent_on fd (trace w)))"

lemma stream_same:
  "socks w' = socks w \<Longrightarrow> (\<And>fd. sent_on fd (trace w') = sent_on fd (trace w)) \<Longrightarrow> stream w' s = stream w s"
  by (simp add: stream_def queued_def)

lemma sendTransformed_transforms:
  assumes "send_contract E" "quiet_callbacks E" "plain_sock (socks w s)" "user_cb cb" "transforms f P"
  obtains w' b where "sendTransformed E s est f cb d w = Some w'" "P b" "plain_sock (socks w' s)"
    "stream w' s = stream w s @ b" "s_fd (socks w' s) = s_fd (socks w s)"
proof -
  note result = that
  have take: thesis
    if a: "socks w1 = socks w" "trace w1 = trace w"
      "\<And>v. socks (free v) = socks v" "\<And>v. trace (free v) = trace v"
      and e: "sendTransformed E s est f cb d w =
        do { (b, w2) \<leftarrow> f w1; after_write E s free cb d 0 (sock_write E s (new_message i b) w2) }"
    for w1 free i
  proof -
    obtain b w2 where f: "f w1 = Some (b, w2)" "P b" "socks w2 = socks w1" "\<And>fd. sent_on fd (trace w2) = sent_on fd (trace w1)"
      using assms(5) unfolding transforms_def by blast
    have "plain_sock (socks w2 s)" using assms(3) f(3) a(1) by simp
    from after_write_stream [where d = d and r = 0 and a = i and bytes = b, OF assms(1,2) this assms(4) a(3,4)]
    obtain w' where "after_write E s free cb d 0 (sock_write E s (new_message i b) w2) = Some w'" "plain_sock (socks w' s)"
      "stream w' s = stream w2 s @ b" "s_fd (socks w' s) = s_fd (socks w2 s)" by blast
    then show thesis
      using stream_same [where s = s, OF f(3,4)] stream_same [where s = s, OF a(1)] a(1,2) f e by (intro result [of w' b]) simp_all
  qed
  show thesis
  proof (cases "hasEmptyQueue w s")
    case True
    show thesis
    proof (cases "est + MESSAGE_HEADER \<le> preAllocMaxSize")
      case small: True
      show thesis
        by (rule take [of "snd (getSmall (getMemoryBlockIndex (est + MESSAGE_HEADER)) w)"
              "freeSmall (fst (getSmall (getMemoryBlockIndex (est + MESSAGE_HEADER)) w)) (getMemoryBlockIndex (est + MESSAGE_HEADER))"
              "fst (getSmall (getMemoryBlockIndex (est + MESSAGE_HEADER)) w)"])
          (use True small in \<open>simp_all add: sendTransformed_def Let_def case_prod_beta\<close>)
    next
      case False
      show thesis
        by (rule take [of "snd (allocMessage est w)" "freeMessage (fst (allocMessage est w))" "fst (allocMessage est w)"])
          (use True False in \<open>simp_all add: sendTransformed_def Let_def case_prod_beta\<close>)
    qed
  next
    case False
    define w1 where "w1 = snd (allocMessage est w)"
    have w1: "socks w1 = socks w" "trace w1 = trace w" by (simp_all add: w1_def)
    obtain b w2 where f: "f w1 = Some (b, w2)" "P b" "socks w2 = socks w1" "\<And>fd. sent_on fd (trace w2) = sent_on fd (trace w1)"
      using assms(5) unfolding transforms_def by blast
    have st: "stream w2 s = stream w s" using stream_same [of w2 w s] f w1 by simp
    show thesis
      by (rule that [of "enqueue s ((new_message (fst (allocMessage est w)) b)\<lparr>m_cb := cb, m_cbdata := d\<rparr>) w2" b])
        (use False f w1 st assms(3,4) in \<open>auto simp: sendTransformed_def Let_def case_prod_beta w1_def [symmetric] stream_def
          plain_sock_def new_message_def hasEmptyQueue_def\<close>)
  qed
qed

text \<open>An uncompressed message becomes one frame; a client masks it with a number of its own.\<close>

lemma ws_transform_frame:
  "transforms (ws_transform E isServer s p opc False) (\<lambda>b. \<exists>r. b = frame_of (\<not> isServer) (opc, r, p))"
  by (auto simp: transforms_def ws_transform_def format_random_def frame_of_def sent_on_def sent_ev_def access)

lemma ws_send_frame:
  assumes "send_contract E" "quiet_callbacks E" "plain_sock (socks w s)" "user_cb cb"
  obtains w' r where "ws_send E isServer s p opc cb d False w = Some w'" "plain_sock (socks w' s)"
    "stream w' s = stream w s @ frame_of (\<not> isServer) (opc, r, p)" "s_fd (socks w' s) = s_fd (socks w s)"
proof -
  obtain w' b where "sendTransformed E s (length p + LONG_MESSAGE_HEADER (\<not> isServer)) (ws_transform E isServer s p opc False) cb d w = Some w'"
    "\<exists>r. b = frame_of (\<not> isServer) (opc, r, p)" "plain_sock (socks w' s)" "stream w' s = stream w s @ b"
    "s_fd (socks w' s) = s_fd (socks w s)"
    using sendTransformed_transforms [OF assms ws_transform_frame] .
  then show thesis using that by (auto simp: ws_send_def)
qed

section \<open>What is left alone\<close>

definition receives_same :: "nat \<Rightarrow> world \<Rightarrow> world \<Rightarrow> bool" where
  "receives_same s w w' \<longleftrightarrow>
     (socks w' s)\<lparr>s_queue := [], s_poll := 0\<rparr> = (socks w s)\<lparr>s_queue := [], s_poll := 0\<rparr> \<and>
     (\<forall>g. g_maxPayload (groups w' g) = g_maxPayload (groups w g))"

interpretation send_frame: write_frame "receives_same s" s
  by unfold_locales (auto simp: receives_same_def access)

context write_frame begin

lemma ws_send_absorbed:
  assumes "ws_send E isServer s p opc None d False w = Some w'"
  shows "Q w w'"
  using assms unfolding ws_send_def
  by (rule sendTransformed [rotated -1])
     (auto simp: absorbs_def call_cb_def ws_transform_def format_random_def intro: steps split: if_splits)

end

lemma receives_same_fields:
  assumes "receives_same s w w'"
  shows "s_fd (socks w' s) = s_fd (socks w s)" "s_node (socks w' s) = s_node (socks w s)"
    "s_shutting (socks w' s) = s_shutting (socks w s)" "s_ssl (socks w' s) = s_ssl (socks w s)"
    "fragmentBuffer (socks w' s) = fragmentBuffer (socks w s)" "controlTipLength (socks w' s) = controlTipLength (socks w s)"
    "compressionStatus (socks w' s) = compressionStatus (socks w s)" "s_ws (socks w' s) = s_ws (socks w s)"
    "s_cb (socks w' s) = s_cb (socks w s)"
  using assms by (cases "socks w' s"; cases "socks w s"; simp add: receives_same_def)+

lemma receives_same_open: "receives_same s w w' \<Longrightarrow> open_socket limit s w' = open_socket limit s w"
  using receives_same_fields [of s w w']
  by (auto simp: open_socket_def isClosed_def isShuttingDown_def ws_maxPayload_def sock_group_def receives_same_def)

end
