(* ===== verification/EndToEnd.thy ===== *)
theory EndToEnd
  imports Sending
begin

text \<open>
  Two WebSockets and the wire between them. The sender is a whole WebSocket: messages go through
  \<open>send\<close>, the message queue and whatever part of each \<open>send\<close> the system takes. The bytes that came
  out, cut into reads at any place, go into the \<open>onData\<close> of the receiver, another WebSocket in a
  state of its own. The contracts of the two halves (\<open>stream\<close> of a socket, \<open>receiver\<close> of the parser)
  meet at the bytes.
\<close>

section \<open>A sender\<close>

text \<open>What happens at the sender: the application sends a message, or the system reports that it takes bytes.\<close>

datatype peer_op = Send byte "byte list" "nat option" nat | Flush

fun sent_messages :: "peer_op list \<Rightarrow> (byte \<times> byte list) list" where
  "sent_messages [] = []"
| "sent_messages (Send opc p cb d # ops) = (opc, p) # sent_messages ops"
| "sent_messages (Flush # ops) = sent_messages ops"

fun peer_run :: "env \<Rightarrow> bool \<Rightarrow> nat \<Rightarrow> peer_op list \<Rightarrow> world \<Rightarrow> world option" where
  "peer_run E isServer s [] w = Some w"
| "peer_run E isServer s (Send opc p cb d # ops) w =
     do { w \<leftarrow> ws_send E isServer s p opc (map_option User_cb cb) d False w; peer_run E isServer s ops w }"
| "peer_run E isServer s (Flush # ops) w =
     do { w \<leftarrow> ioHandler E (ws_onData E isServer) (ws_onEnd E) s 0 UV_WRITABLE w; peer_run E isServer s ops w }"

text \<open>The frames of messages, each with some mask.\<close>

definition masked :: "(byte \<times> byte list) list \<Rightarrow> sent_frame list \<Rightarrow> bool" where
  "masked ms fs \<longleftrightarrow> map content fs = ms"

lemma peer_run_frames:
  assumes "send_contract E" "quiet_callbacks E"
  shows "plain_sock (socks w s) \<Longrightarrow> \<exists>w' fs. peer_run E isServer s ops w = Some w' \<and> masked (sent_messages ops) fs \<and>
    plain_sock (socks w' s) \<and> stream w' s = stream w s @ concat (map (frame_of (\<not> isServer)) fs) \<and>
    s_fd (socks w' s) = s_fd (socks w s)"
proof (induction ops arbitrary: w)
  case Nil
  then show ?case by (simp add: masked_def)
next
  case (Cons op ops)
  show ?case
  proof (cases op)
    case (Send opc p cb d)
    have cb: "user_cb (map_option User_cb cb)" by (cases cb) (simp_all add: user_cb_def)
    obtain w1 r where w1: "ws_send E isServer s p opc (map_option User_cb cb) d False w = Some w1" "plain_sock (socks w1 s)"
      "stream w1 s = stream w s @ frame_of (\<not> isServer) (opc, r, p)" "s_fd (socks w1 s) = s_fd (socks w s)"
      using ws_send_frame [OF assms Cons.prems cb] .
    obtain w' fs where "peer_run E isServer s ops w1 = Some w'" "masked (sent_messages ops) fs" "plain_sock (socks w' s)"
      "stream w' s = stream w1 s @ concat (map (frame_of (\<not> isServer)) fs)" "s_fd (socks w' s) = s_fd (socks w1 s)"
      using Cons.IH [OF w1(2)] by blast
    then show ?thesis
      using w1 Send by (intro exI [of _ w'] exI [of _ "(opc, r, p) # fs"]) (simp add: masked_def content_def)
  next
    case Flush
    obtain w1 where "ioHandler E (ws_onData E isServer) (ws_onEnd E) s 0 UV_WRITABLE w = Some w1" "plain_sock (socks w1 s)"
      "stream w1 s = stream w s" "s_fd (socks w1 s) = s_fd (socks w s)"
      using writable_stream [OF assms Cons.prems] by blast
    then show ?thesis using Cons.IH [of w1] Flush by simp
  qed
qed

section \<open>Property\<close>

text \<open>
  C9: What one WebSocket sends, the other delivers. The sender (a client or a server, on a plain socket
  with nothing queued or sent) sends any binary and UTF-8 text messages, none longer than the receiver's
  maxPayload, uncompressed, interleaved with writable events in any way, while the system takes any part
  of each \<open>send\<close> or none, and no \<open>send\<close> fails for good; all calls return. If its
  queue is empty in the end, then the bytes the system took, cut into reads anywhere, make the receiver's
  \<open>onData\<close> call its message handler exactly once per message, in order, with the opcode and
  the payload that were sent, and the receiver stays open. Assumed: the sender's callbacks observe, and
  the receiver's message handler returns and leaves its socket alone.
\<close>

theorem sent_messages_arrive:
  assumes "send_contract E1" "quiet_callbacks E1" "s_ssl (socks w1 s1) = None" "s_queue (socks w1 s1) = []"
    and "sent_on (s_fd (socks w1 s1)) (trace w1) = []"
    and "list_all (\<lambda>(opc, p). ok_message opc p \<and> length p \<le> unat limit) (sent_messages ops)"
    and "observed_socket E2 s2 limit obs" "open_socket limit s2 w2" "s_ws (socks w2 s2) = State_init raw" "length (opCode raw) = 2"
    and "fragmentBuffer (socks w2 s2) = []" "obs w2 = []" "CONSUME_PRE_PADDING isServer \<le> recv_buffer E2"
  shows "\<exists>w1'. peer_run E1 (\<not> isServer) s1 ops w1 = Some w1' \<and>
    (s_queue (socks w1' s1) = [] \<longrightarrow>
      (\<forall>reads. concat (map snd reads) = sent_on (s_fd (socks w1 s1)) (trace w1') \<longrightarrow>
        list_all (\<lambda>(m, b). length b < 2 ^ 32) reads \<longrightarrow>
        (\<exists>w2'. ws_reads E2 isServer s2 reads w2 = Some w2' \<and> obs w2' = sent_messages ops \<and> open_socket limit s2 w2')))"
proof -
  have "plain_sock (socks w1 s1)" using assms(3,4) by (simp add: plain_sock_def)
  from peer_run_frames [OF assms(1,2) this, of "\<not> isServer" ops]
  obtain w1' fs where w1': "peer_run E1 (\<not> isServer) s1 ops w1 = Some w1'" "masked (sent_messages ops) fs"
    "stream w1' s1 = stream w1 s1 @ concat (map (frame_of isServer) fs)" "s_fd (socks w1' s1) = s_fd (socks w1 s1)"
    by auto
  have "list_all (\<lambda>(opc, r, p). ok_message opc p \<and> length p \<le> unat limit) fs"
    using assms(6) w1'(2) by (simp add: masked_def [symmetric] list.pred_map o_def content_def split_beta' flip: w1'(2) [unfolded masked_def])
  then have "\<exists>w2'. ws_reads E2 isServer s2 reads w2 = Some w2' \<and> obs w2' = sent_messages ops \<and> open_socket limit s2 w2'"
    if "s_queue (socks w1' s1) = []" "concat (map snd reads) = sent_on (s_fd (socks w1 s1)) (trace w1')"
      "list_all (\<lambda>(m, b). length b < 2 ^ 32) reads" for reads
    using websocket_delivers_messages [OF assms(7-12) _ _ that(3) assms(13), of fs] that(1,2) w1' assms(4,5)
    by (auto simp: stream_def queued_def masked_def)
  with w1'(1) show ?thesis by blast
qed

text \<open>A system that takes every \<open>send\<close> whole; the bytes arrive one at a time.\<close>

definition eager_env :: env where
  "eager_env = env0\<lparr>sys_send := (\<lambda>tr fd d. int (length d))\<rparr>"

lemma eager_sends: "send_contract eager_env" "quiet_callbacks eager_env"
  by (auto simp: eager_env_def send_contract_def quiet_callbacks_def env0_def)

lemma eager_send_empties:
  assumes "ws_send eager_env False 1 p opc None 0 False world0 = Some w"
  shows "s_queue (socks w 1) = []"
proof -
  have "sys_send eager_env tr fd d = int (length d)" for tr fd d by (simp add: eager_env_def)
  then show ?thesis
    using assms by (auto simp: ws_send_def sendTransformed_def Let_def case_prod_beta ws_transform_def format_random_def
        after_write_def sock_write_def write_plain_def call_cb_def hasEmptyQueue_def new_message_def access
        world0_def sock0_def split: if_splits)
qed

theorem sent_messages_arrive_witness:
  "\<exists>w1' w2'. peer_run eager_env False 1 [Send BINARY [7, 8] None 0] world0 = Some w1' \<and>
    ws_reads recording_env True 4 (map (\<lambda>b. (\<lambda>i. 0, [b])) (sent_on 7 (trace w1'))) world0 = Some w2' \<and>
    recorded w2' = [(BINARY, [7, 8])]"
proof -
  let ?ops = "[Send BINARY [7, 8] None 0]"
  have 1: "s_ssl (socks world0 1) = None" "s_queue (socks world0 1) = []" "sent_on (s_fd (socks world0 1)) (trace world0) = []"
    by (simp_all add: world0_def sock0_def sent_on_def)
  have fd: "s_fd (socks world0 1) = 7" by (simp add: world0_def sock0_def)
  have 2: "list_all (\<lambda>(opc, p). ok_message opc p \<and> length p \<le> unat (16777216 :: 32 word)) (sent_messages ?ops)"
    by (simp add: ok_message_def)
  have 3: "observed_socket recording_env 4 16777216 recorded" "open_socket 16777216 4 world0" "s_ws (socks world0 4) = State_init raw0"
    "length (opCode raw0) = 2" "fragmentBuffer (socks world0 4) = []" "recorded world0 = []"
    "CONSUME_PRE_PADDING True \<le> recv_buffer recording_env"
    using recording.observed_socket_axioms
    by (simp_all add: open_socket_def world0_def sock0_def isClosed_def isShuttingDown_def ws_maxPayload_def sock_group_def
        group0_def raw0_def recorded_def recording_env_def env0_def CONSUME_PRE_PADDING_def header_defs)
  obtain w1' where w1': "peer_run eager_env False 1 ?ops world0 = Some w1'"
    and arrive: "s_queue (socks w1' 1) = [] \<Longrightarrow> concat (map snd reads) = sent_on 7 (trace w1') \<Longrightarrow>
      list_all (\<lambda>(m, b). length b < 2 ^ 32) reads \<Longrightarrow>
      \<exists>w2'. ws_reads recording_env True 4 reads world0 = Some w2' \<and> recorded w2' = sent_messages ?ops" for reads
    using sent_messages_arrive [OF eager_sends 1 2 3, unfolded fd not_True_eq_False] by blast
  have "s_queue (socks w1' 1) = []"
    using eager_send_empties [of "[7, 8]" BINARY w1'] w1' by (simp split: bind_splits)
  moreover have "concat (map snd (map (\<lambda>b. (\<lambda>i. 0 :: byte, [b])) bs)) = bs"
    "list_all (\<lambda>(m, b). length b < 2 ^ 32) (map (\<lambda>b. (\<lambda>i. 0 :: byte, [b])) bs)" for bs :: "byte list"
    by (induction bs) simp_all
  ultimately show ?thesis using w1' arrive by force
qed

end
