(* ===== verification/Serving.thy ===== *)
theory Serving
  imports Sending
begin

text \<open>
  A WebSocket at work: it receives data messages, pings and pongs in any cut of the stream, answers
  each ping, and its application may answer whatever it is handed. Control frames that arrive in
  pieces share the fragment buffer with data (\<open>controlTipLength\<close>); the socket is a \<open>receiver\<close> for all
  these frames (\<open>served_socket\<close>), and what it sends is a function of what it received.
\<close>

section \<open>Fragments\<close>

text \<open>What \<open>handleFragment\<close> does with an uncompressed data frame, and with a control frame.\<close>

lemma handle_data_fragment:
  fixes d :: "byte list"
  assumes "compressionStatus (socks w s) \<noteq> COMPRESSED_FRAME"
  defines "w1 \<equiv> upd_sock s (\<lambda>x. x\<lparr>fragmentBuffer := fragmentBuffer x @ d\<rparr>) w"
  shows "handle_data E g s d (length later) opc True w =
    (if later \<noteq> [] then Some (False, w1)
     else if fragmentBuffer (socks w s) = [] then deliver E g s d opc w
     else map_option (\<lambda>(stop, w). (stop, if stop then w else upd_sock s (\<lambda>x. x\<lparr>fragmentBuffer := []\<rparr>) w))
       (deliver E g s (fragmentBuffer (socks w s) @ d) opc w1))"
proof -
  have "compressionStatus (socks w1 s) \<noteq> COMPRESSED_FRAME" "fragmentBuffer (socks w1 s) = fragmentBuffer (socks w s) @ d"
    using assms(1) by (simp_all add: w1_def access)
  then show ?thesis
    using assms(1) by (auto simp: handle_data_def Let_def w1_def [symmetric] map_option_case case_prod_beta split: option.splits)
qed

definition control_fits :: "sock \<Rightarrow> bool" where
  "control_fits x \<longleftrightarrow> controlTipLength x = 0 \<or> controlTipLength x = length (fragmentBuffer x)"

lemma handle_control_fragment:
  fixes d :: "byte list"
  assumes "\<not> opc < 3" "control_fits (socks w s)" "length (fragmentBuffer (socks w s) @ d @ later) \<le> 125"
    "fragmentBuffer (socks w s) = [] \<or> controlTipLength (socks w s) \<noteq> 0"
  defines "w1 \<equiv> upd_sock s (\<lambda>x. x\<lparr>fragmentBuffer := fragmentBuffer x @ d, controlTipLength := length (fragmentBuffer x @ d)\<rparr>) w"
  shows "handle_fragment E isServer s d (length later) opc True w =
    (if later \<noteq> [] then Some (False, w1)
     else if fragmentBuffer (socks w s) = [] then handle_control E isServer (s_node (socks w s)) s d opc w
     else map_option (\<lambda>(stop, w). (stop, if stop then w else upd_sock s (\<lambda>x. x\<lparr>
         fragmentBuffer := take (length (fragmentBuffer x) - controlTipLength x) (fragmentBuffer x), controlTipLength := 0\<rparr>) w))
       (handle_control E isServer (s_node (socks w s)) s (fragmentBuffer (socks w s) @ d) opc w1))"
proof -
  have tip: "controlTipLength (socks w s) = length (fragmentBuffer (socks w s))"
    using assms(2,4) by (auto simp: control_fits_def)
  have "upd_sock s (\<lambda>x. x\<lparr>fragmentBuffer := fragmentBuffer x @ d, controlTipLength := (controlTipLength x + length d) mod 256\<rparr>) w = w1"
    using tip assms(3) by (simp add: w1_def upd_sock_def)
  moreover have "fragmentBuffer (socks w1 s) = fragmentBuffer (socks w s) @ d" "controlTipLength (socks w1 s) = length (fragmentBuffer (socks w s) @ d)"
    "s_node (socks w1 s) = s_node (socks w s)"
    by (simp_all add: w1_def access)
  ultimately show ?thesis
    using assms(1) tip by (auto simp: handle_fragment_def Let_def map_option_case case_prod_beta split: option.splits)
qed

section \<open>A socket that is served\<close>

text \<open>The handler of the application for an opcode; and the frames the library answers by itself.\<close>

definition handler_of :: "env \<Rightarrow> byte \<Rightarrow> nat \<Rightarrow> nat \<Rightarrow> byte list \<Rightarrow> world \<Rightarrow> world option" where
  "handler_of E opc g s d =
     (if opc = PING then pingHandler E g s d else if opc = PONG then pongHandler E g s d else messageHandler E g s d opc)"

definition answers :: "(byte \<Rightarrow> byte list \<Rightarrow> (byte \<times> byte list) list) \<Rightarrow> byte \<times> byte list \<Rightarrow> (byte \<times> byte list) list" where
  "answers reply = (\<lambda>(opc, p). (if opc = PING then [(PONG, p)] else []) @ reply opc p)"

definition ok_frame :: "byte \<Rightarrow> byte list \<Rightarrow> bool" where
  "ok_frame opc p \<longleftrightarrow> ok_message opc p \<or> opc \<in> {PING, PONG} \<and> length p \<le> 125"

definition serving :: "32 word \<Rightarrow> nat \<Rightarrow> world \<Rightarrow> bool" where
  "serving limit s w \<longleftrightarrow> open_socket limit s w \<and> plain_sock (socks w s)"

text \<open>
  The application: \<open>obs\<close> is its record of what it was handed (nothing a socket does of itself touches
  it), \<open>reply\<close> the messages it sends back for each. Its handlers return, and of the socket they change
  nothing but the outgoing stream.
\<close>

locale served_socket = write_frame "\<lambda>w w'. obs w' = obs w" s for obs :: "world \<Rightarrow> (byte \<times> byte list) list" and s :: nat +
  fixes E :: env and isServer :: bool and limit :: "32 word" and reply :: "byte \<Rightarrow> byte list \<Rightarrow> (byte \<times> byte list) list"
  assumes obs_sock: "obs (upd_sock t f w) = obs w"
    and takes: "send_contract E" "quiet_callbacks E"
    and handled: "serving limit s w \<Longrightarrow> ok_frame opc d \<Longrightarrow>
      \<exists>w' fs. handler_of E opc (s_node (socks w s)) s d w = Some w' \<and> receives_same s w w' \<and> plain_sock (socks w' s) \<and>
        obs w' = obs w @ [(opc, d)] \<and> map content fs = reply opc d \<and>
        stream w' s = stream w s @ concat (map (frame_of (\<not> isServer)) fs)"

text \<open>What the socket has sent since its outgoing stream was \<open>base\<close>.\<close>

definition answered :: "bool \<Rightarrow> (byte \<Rightarrow> byte list \<Rightarrow> (byte \<times> byte list) list) \<Rightarrow> byte list \<Rightarrow> (byte \<times> byte list) list \<Rightarrow> byte list \<Rightarrow> bool" where
  "answered isServer reply base got out \<longleftrightarrow>
     (\<exists>fs. out = base @ concat (map (frame_of (\<not> isServer)) fs) \<and> map content fs = concat (map (answers reply) got))"

lemma answered_snoc:
  assumes "answered isServer reply base got out" "map content fs = answers reply m"
  shows "answered isServer reply base (got @ [m]) (out @ concat (map (frame_of (\<not> isServer)) fs))"
proof -
  obtain fs0 where "out = base @ concat (map (frame_of (\<not> isServer)) fs0)" "map content fs0 = concat (map (answers reply) got)"
    using assms(1) by (auto simp: answered_def)
  with assms(2) show ?thesis unfolding answered_def by (intro exI [of _ "fs0 @ fs"]) simp
qed

text \<open>It is still the same descriptor, with the same callback.\<close>

definition same_channel :: "nat \<Rightarrow> world \<Rightarrow> world \<Rightarrow> bool" where
  "same_channel s w0 w \<longleftrightarrow> s_fd (socks w s) = s_fd (socks w0 s) \<and> s_cb (socks w s) = s_cb (socks w0 s)"

definition answered_since ::
  "bool \<Rightarrow> (world \<Rightarrow> (byte \<times> byte list) list) \<Rightarrow> (byte \<Rightarrow> byte list \<Rightarrow> (byte \<times> byte list) list) \<Rightarrow> nat \<Rightarrow> world \<Rightarrow> world \<Rightarrow> bool" where
  "answered_since isServer obs reply s w0 w \<longleftrightarrow> same_channel s w0 w \<and> answered isServer reply (stream w0 s) (obs w) (stream w s)"

lemma answered_since_same:
  "obs w' = obs w \<Longrightarrow> stream w' s = stream w s \<Longrightarrow> same_channel s w w' \<Longrightarrow>
    answered_since isServer obs reply s w0 w' = answered_since isServer obs reply s w0 w"
  by (simp add: answered_since_def same_channel_def)

definition served_ready ::
  "32 word \<Rightarrow> nat \<Rightarrow> bool \<Rightarrow> (world \<Rightarrow> (byte \<times> byte list) list) \<Rightarrow> (byte \<Rightarrow> byte list \<Rightarrow> (byte \<times> byte list) list) \<Rightarrow> world \<Rightarrow> world option \<Rightarrow> bool" where
  "served_ready limit s isServer obs reply w0 u \<longleftrightarrow> (case u of
     Some w \<Rightarrow> serving limit s w \<and> control_fits (socks w s) \<and> answered_since isServer obs reply s w0 w
   | None \<Rightarrow> False)"

definition served_view :: "nat \<Rightarrow> (world \<Rightarrow> (byte \<times> byte list) list) \<Rightarrow> world option \<Rightarrow> app" where
  "served_view s obs u = (case u of
     Some w \<Rightarrow> \<lparr>ap_buffer = fragmentBuffer (socks w s), ap_control = (controlTipLength (socks w s) \<noteq> 0),
       ap_messages = obs w, ap_closed = False\<rparr>
   | None \<Rightarrow> \<lparr>ap_buffer = [], ap_control = False, ap_messages = [], ap_closed = True\<rparr>)"

lemma user_cb_None: "user_cb None"
  by (simp add: user_cb_def)

text \<open>Steps that touch neither the queue nor what the socket is.\<close>

lemma stream_upd_sock:
  "s_fd (f (socks w s)) = s_fd (socks w s) \<Longrightarrow> s_queue (f (socks w s)) = s_queue (socks w s) \<Longrightarrow> stream (upd_sock s f w) s = stream w s"
  by (simp add: stream_def queued_def access)

lemma stream_cork [simp]: "stream (cork t b w) s = stream w s"
  by (simp add: stream_def queued_def cork_def access sent_on_def)

lemma serving_upd_sock:
  assumes "s_fd (f (socks w s)) = s_fd (socks w s)" "s_shutting (f (socks w s)) = s_shutting (socks w s)"
    "s_node (f (socks w s)) = s_node (socks w s)" "compressionStatus (f (socks w s)) = compressionStatus (socks w s)"
    "s_ssl (f (socks w s)) = s_ssl (socks w s)" "s_queue (f (socks w s)) = s_queue (socks w s)" "s_poll (f (socks w s)) = s_poll (socks w s)"
  shows "serving limit s (upd_sock s f w) = serving limit s w"
  using assms open_socket_upd [of f w s limit] by (simp add: serving_def plain_sock_def access)

lemma cork_sock: "socks (cork t b w) = socks w"
  by (simp add: cork_def access)

lemma serving_cork: "serving limit s (cork t b w) = serving limit s w"
  by (simp add: serving_def)

lemma serving_same: "receives_same s w w' \<Longrightarrow> serving limit s w \<Longrightarrow> plain_sock (socks w' s) \<Longrightarrow> serving limit s w'"
  by (simp add: serving_def receives_same_open)

text \<open>A frame is dealt with: handed over, and answered.\<close>

definition served_step ::
  "32 word \<Rightarrow> nat \<Rightarrow> bool \<Rightarrow> (world \<Rightarrow> (byte \<times> byte list) list) \<Rightarrow> (byte \<Rightarrow> byte list \<Rightarrow> (byte \<times> byte list) list) \<Rightarrow>
   byte \<Rightarrow> byte list \<Rightarrow> world \<Rightarrow> world \<Rightarrow> bool" where
  "served_step limit s isServer obs reply opc d w w' \<longleftrightarrow> receives_same s w w' \<and> serving limit s w' \<and>
     obs w' = obs w @ [(opc, d)] \<and>
     (\<exists>fs. map content fs = answers reply (opc, d) \<and> stream w' s = stream w s @ concat (map (frame_of (\<not> isServer)) fs))"

lemma served_step_ready:
  assumes "served_step limit s isServer obs reply opc d w w'" "answered_since isServer obs reply s w0 w"
  shows "answered_since isServer obs reply s w0 w'"
proof -
  have "same_channel s w w'" using assms(1) by (simp add: served_step_def same_channel_def receives_same_fields)
  moreover have "answered isServer reply (stream w0 s) (obs w') (stream w' s)"
    using assms answered_snoc by (auto simp: served_step_def answered_since_def)
  ultimately show ?thesis using assms(2) by (simp add: answered_since_def same_channel_def)
qed

context served_socket begin

lemma obs_cork: "obs (cork t b w) = obs w"
  unfolding cork_def by (rule log) simp

lemma data_served:
  assumes "serving limit s w" "ok_message opc d"
  obtains w' where "deliver E (s_node (socks w s)) s d opc w = Some (False, w')" "served_step limit s isServer obs reply opc d w w'"
proof -
  have opc: "opc \<noteq> PING" "opc \<noteq> PONG" using assms(2) by (auto simp: ok_message_def opcode_defs)
  have ok_frame: "ok_frame opc d" using assms(2) by (simp add: ok_frame_def)
  have handler: "handler_of E opc g t d w = messageHandler E g t d opc w" for g t d w using opc by (simp add: handler_of_def)
  obtain w' fs where w': "messageHandler E (s_node (socks w s)) s d opc w = Some w'" "receives_same s w w'" "plain_sock (socks w' s)"
    "obs w' = obs w @ [(opc, d)]" "map content fs = reply opc d" "stream w' s = stream w s @ concat (map (frame_of (\<not> isServer)) fs)"
    using handled [OF assms(1) ok_frame] unfolding handler by blast
  have "serving limit s w'" using serving_same [OF w'(2) assms(1) w'(3)] .
  then have "deliver E (s_node (socks w s)) s d opc w = Some (False, w')"
    using assms(2) w'(1) by (auto simp: deliver_def ok_message_def isValidUtf8_iff stop_if_gone_def serving_def open_socket_def TEXT_def BINARY_def)
  moreover have "answers reply (opc, d) = reply opc d" using opc by (simp add: answers_def)
  then have "served_step limit s isServer obs reply opc d w w'"
    unfolding served_step_def using w' \<open>serving limit s w'\<close> by auto
  ultimately show thesis by (rule that)
qed

lemma control_served:
  assumes "serving limit s w" "opc \<in> {PING, PONG}" "length d \<le> 125"
  obtains w' where "handle_control E isServer (s_node (socks w s)) s d opc w = Some (False, w')"
    "served_step limit s isServer obs reply opc d w w'"
proof -
  obtain w1 fs1 where w1: "(if opc = PING then ws_send E isServer s d PONG None 0 False w else Some w) = Some w1"
    "serving limit s w1" "receives_same s w w1" "obs w1 = obs w" "map content fs1 = (if opc = PING then [(PONG, d)] else [])"
    "stream w1 s = stream w s @ concat (map (frame_of (\<not> isServer)) fs1)"
  proof (cases "opc = PING")
    case True
    have "plain_sock (socks w s)" using assms(1) by (simp add: serving_def)
    then obtain v r where "ws_send E isServer s d PONG None 0 False w = Some v" "plain_sock (socks v s)"
      "stream v s = stream w s @ frame_of (\<not> isServer) (PONG, r, d)"
      using ws_send_frame [OF takes _ user_cb_None, where isServer = isServer] by blast
    with True assms(1) show thesis
      by (intro that [of v "[(PONG, r, d)]"])
         (auto simp: content_def intro: serving_same send_frame.ws_send_absorbed ws_send_absorbed)
  next
    case False
    with assms(1) show thesis by (intro that [of w "[]"]) (simp_all add: receives_same_def)
  qed
  have ok_frame: "ok_frame opc d" using assms(2,3) by (simp add: ok_frame_def)
  have node: "s_node (socks w1 s) = s_node (socks w s)" by (rule receives_same_fields(2) [OF w1(3)])
  obtain w' fs where w': "handler_of E opc (s_node (socks w1 s)) s d w1 = Some w'" "receives_same s w1 w'" "plain_sock (socks w' s)"
    "obs w' = obs w1 @ [(opc, d)]" "map content fs = reply opc d" "stream w' s = stream w1 s @ concat (map (frame_of (\<not> isServer)) fs)"
    using handled [OF w1(2) ok_frame] by blast
  have s': "serving limit s w'" using serving_same [OF w'(2) w1(2) w'(3)] .
  have stop: "stop_if_gone s w' = (False, w')" using s' by (simp add: stop_if_gone_def serving_def open_socket_def)
  have opcodes: "PING \<noteq> CLOSE" "PONG \<noteq> PING" "PONG \<noteq> CLOSE" by (simp_all add: opcode_defs)
  have "handle_control E isServer (s_node (socks w s)) s d opc w = Some (False, w')"
  proof (cases "opc = PING")
    case True
    with w1(1) w'(1) show ?thesis by (simp add: handle_control_def handler_of_def node opcodes(1) stop)
  next
    case False
    with assms(2) w1(1) have "opc = PONG" "w1 = w" by simp_all
    with w'(1) show ?thesis by (simp add: handle_control_def handler_of_def opcodes stop)
  qed
  moreover have "map content (fs1 @ fs) = answers reply (opc, d)" using w1(5) w'(5) by (simp add: answers_def)
  moreover have "stream w' s = stream w s @ concat (map (frame_of (\<not> isServer)) (fs1 @ fs))" using w1(6) w'(6) by simp
  moreover have "obs w' = obs w @ [(opc, d)]" using w'(4) unfolding w1(4) .
  ultimately have "served_step limit s isServer obs reply opc d w w'"
    unfolding served_step_def using s' send_frame.chain [OF w1(3) w'(2)] by blast
  with \<open>handle_control E isServer (s_node (socks w s)) s d opc w = Some (False, w')\<close> show thesis by (intro that)
qed

text \<open>A fragment of a frame, with \<open>later\<close> bytes of it still to come.\<close>

lemma data_fragment_served:
  assumes sv: "serving limit s w" and ok: "ok_message opc (fragmentBuffer (socks w s) @ d @ later)"
  obtains w' where "handle_fragment E isServer s d (length later) opc True w = Some (False, w')" "serving limit s w'"
    "controlTipLength (socks w' s) = controlTipLength (socks w s)"
    "fragmentBuffer (socks w' s) = (if later = [] then [] else fragmentBuffer (socks w s) @ d)"
    "obs w' = (if later = [] then obs w @ [(opc, fragmentBuffer (socks w s) @ d)] else obs w)"
    "\<And>w0. answered_since isServer obs reply s w0 w \<Longrightarrow> answered_since isServer obs reply s w0 w'"
proof -
  note result = that
  let ?B = "fragmentBuffer (socks w s)" and ?g = "s_node (socks w s)"
  define w1 where "w1 = upd_sock s (\<lambda>x. x\<lparr>fragmentBuffer := fragmentBuffer x @ d\<rparr>) w"
  have w1: "serving limit s w1" "fragmentBuffer (socks w1 s) = ?B @ d" "controlTipLength (socks w1 s) = controlTipLength (socks w s)"
    "s_node (socks w1 s) = ?g" "obs w1 = obs w" "stream w1 s = stream w s"
    using sv unfolding w1_def by (simp_all add: serving_upd_sock stream_upd_sock obs_sock access)
  have aw: "answered_since isServer obs reply s w0 w1 = answered_since isServer obs reply s w0 w" for w0
    using w1(5,6) by (intro answered_since_same) (simp_all add: same_channel_def w1_def access)
  have "opc < 3" using ok by (auto simp: ok_message_def TEXT_def BINARY_def)
  then have frag: "handle_fragment E isServer s d (length later) opc True w =
    (if later \<noteq> [] then Some (False, w1) else if ?B = [] then deliver E ?g s d opc w
     else map_option (\<lambda>(stop, w). (stop, if stop then w else upd_sock s (\<lambda>x. x\<lparr>fragmentBuffer := []\<rparr>) w)) (deliver E ?g s (?B @ d) opc w1))"
    using handle_data_fragment [of w s E ?g d later opc] sv
    by (simp add: handle_fragment_def Let_def w1_def serving_def open_socket_def)
  consider (more) "later \<noteq> []" | (now) "later = []" "?B = []" | (last) "later = []" "?B \<noteq> []" by blast
  then show thesis
  proof cases
    case more
    show thesis by (rule result [of w1]) (use frag more w1 aw in simp_all)
  next
    case now
    with ok have "ok_message opc d" by simp
    then obtain w' where w': "deliver E ?g s d opc w = Some (False, w')" "served_step limit s isServer obs reply opc d w w'"
      using data_served [OF sv] by blast
    have "receives_same s w w'" "obs w' = obs w @ [(opc, d)]" "serving limit s w'" using w'(2) by (simp_all add: served_step_def)
    then show thesis by (intro result [of w']) (use frag now w'(1) served_step_ready [OF w'(2)] in \<open>simp_all add: receives_same_fields\<close>)
  next
    case last
    with ok have "ok_message opc (?B @ d)" by simp
    then obtain w2 where w2: "deliver E ?g s (?B @ d) opc w1 = Some (False, w2)" "served_step limit s isServer obs reply opc (?B @ d) w1 w2"
      using data_served [OF w1(1)] w1(4) by metis
    have s2: "receives_same s w1 w2" "obs w2 = obs w @ [(opc, ?B @ d)]" "serving limit s w2"
      using w2(2) w1(5) by (simp_all add: served_step_def)
    define w' where "w' = upd_sock s (\<lambda>x. x\<lparr>fragmentBuffer := []\<rparr>) w2"
    have w': "serving limit s w'" "controlTipLength (socks w' s) = controlTipLength (socks w s)" "fragmentBuffer (socks w' s) = []"
      "obs w' = obs w2" "stream w' s = stream w2 s"
      using s2(3) receives_same_fields(6) [OF s2(1)] w1(3) unfolding w'_def
      by (simp_all add: serving_upd_sock stream_upd_sock obs_sock access)
    have aw': "answered_since isServer obs reply s w0 w' = answered_since isServer obs reply s w0 w2" for w0
      using w'(4,5) by (intro answered_since_same) (simp_all add: same_channel_def w'_def access)
    show thesis
      by (rule result [of w'])
         (use frag last w2(1) w' s2(2) served_step_ready [OF w2(2)] aw in \<open>simp_all add: w'_def [symmetric] aw'\<close>)
  qed
qed

lemma control_fragment_served:
  assumes sv: "serving limit s w" and fits: "control_fits (socks w s)"
    and tip: "fragmentBuffer (socks w s) = [] \<or> controlTipLength (socks w s) \<noteq> 0"
    and opc: "opc \<in> {PING, PONG}" and len: "length (fragmentBuffer (socks w s) @ d @ later) \<le> 125"
  obtains w' where "handle_fragment E isServer s d (length later) opc True w = Some (False, w')" "serving limit s w'"
    "controlTipLength (socks w' s) = (if later = [] then 0 else length (fragmentBuffer (socks w s) @ d))"
    "fragmentBuffer (socks w' s) = (if later = [] then [] else fragmentBuffer (socks w s) @ d)"
    "obs w' = (if later = [] then obs w @ [(opc, fragmentBuffer (socks w s) @ d)] else obs w)"
    "\<And>w0. answered_since isServer obs reply s w0 w \<Longrightarrow> answered_since isServer obs reply s w0 w'"
proof -
  note result = that
  let ?B = "fragmentBuffer (socks w s)" and ?g = "s_node (socks w s)"
  define w1 where "w1 = upd_sock s (\<lambda>x. x\<lparr>fragmentBuffer := fragmentBuffer x @ d, controlTipLength := length (fragmentBuffer x @ d)\<rparr>) w"
  have w1: "serving limit s w1" "fragmentBuffer (socks w1 s) = ?B @ d" "controlTipLength (socks w1 s) = length (?B @ d)"
    "s_node (socks w1 s) = ?g" "obs w1 = obs w" "stream w1 s = stream w s"
    using sv unfolding w1_def by (simp_all add: serving_upd_sock stream_upd_sock obs_sock access)
  have aw: "answered_since isServer obs reply s w0 w1 = answered_since isServer obs reply s w0 w" for w0
    using w1(5,6) by (intro answered_since_same) (simp_all add: same_channel_def w1_def access)
  have "\<not> opc < 3" using opc by (auto simp: opcode_defs)
  note frag = handle_control_fragment [OF this fits len tip, of E isServer, folded w1_def]
  consider (more) "later \<noteq> []" | (now) "later = []" "?B = []" | (last) "later = []" "?B \<noteq> []" by blast
  then show thesis
  proof cases
    case more
    show thesis by (rule result [of w1]) (use frag more w1 aw in simp_all)
  next
    case now
    with len have "length d \<le> 125" by simp
    then obtain w' where w': "handle_control E isServer ?g s d opc w = Some (False, w')" "served_step limit s isServer obs reply opc d w w'"
      using control_served [OF sv opc] by blast
    have "receives_same s w w'" "obs w' = obs w @ [(opc, d)]" "serving limit s w'" using w'(2) by (simp_all add: served_step_def)
    moreover have "controlTipLength (socks w s) = 0" using fits now(2) by (auto simp: control_fits_def)
    ultimately show thesis by (intro result [of w']) (use frag now w'(1) served_step_ready [OF w'(2)] in \<open>simp_all add: receives_same_fields\<close>)
  next
    case last
    with len have "length (?B @ d) \<le> 125" by simp
    then obtain w2 where w2: "handle_control E isServer ?g s (?B @ d) opc w1 = Some (False, w2)"
      "served_step limit s isServer obs reply opc (?B @ d) w1 w2"
      using control_served [OF w1(1) opc] w1(4) by metis
    have s2: "receives_same s w1 w2" "obs w2 = obs w @ [(opc, ?B @ d)]" "serving limit s w2"
      using w2(2) w1(5) by (simp_all add: served_step_def)
    note f2 = receives_same_fields [OF s2(1)]
    define w' where "w' = upd_sock s (\<lambda>x. x\<lparr>fragmentBuffer := take (length (fragmentBuffer x) - controlTipLength x) (fragmentBuffer x),
      controlTipLength := 0\<rparr>) w2"
    have w': "serving limit s w'" "controlTipLength (socks w' s) = 0" "fragmentBuffer (socks w' s) = []"
      "obs w' = obs w2" "stream w' s = stream w2 s"
      using s2(3) f2(5,6) w1(2,3) unfolding w'_def by (simp_all add: serving_upd_sock stream_upd_sock obs_sock access)
    have aw': "answered_since isServer obs reply s w0 w' = answered_since isServer obs reply s w0 w2" for w0
      using w'(4,5) by (intro answered_since_same) (simp_all add: same_channel_def w'_def access)
    show thesis
      by (rule result [of w'])
         (use frag last w2(1) w' s2(2) served_step_ready [OF w2(2)] aw in \<open>simp_all add: w'_def [symmetric] aw'\<close>)
  qed
qed

end

sublocale served_socket \<subseteq> socket_receiver E isServer s limit ok_frame "served_ready limit s isServer obs reply w0" "served_view s obs"
proof
  fix u opc d w p v b w0 and later :: "byte list"
  assume "served_ready limit s isServer obs reply w0 u"
  then obtain w where w: "u = Some w" "serving limit s w" "control_fits (socks w s)" "answered_since isServer obs reply s w0 w"
    by (auto simp: served_ready_def split: option.splits)
  then show "maxPayload (ws_impl E isServer s) u = limit" "\<not> ap_closed (served_view s obs u)"
    "\<exists>w. u = Some w \<and> \<not> isClosed w s \<and> \<not> isShuttingDown w s"
    by (auto simp: ws_impl_def served_view_def serving_def open_socket_def)
  assume kind: "same_kind opc (served_view s obs u)" and ok: "ok_frame opc (ap_buffer (served_view s obs u) @ d @ later)"
  have view: "served_view s obs u = \<lparr>ap_buffer = fragmentBuffer (socks w s), ap_control = (controlTipLength (socks w s) \<noteq> 0),
       ap_messages = obs w, ap_closed = False\<rparr>" by (simp add: served_view_def w(1))
  have step: "\<exists>u'. handleFragment (ws_impl E isServer s) d (length later) opc True u = (False, u') \<and>
      served_ready limit s isServer obs reply w0 u' \<and> served_view s obs u' = app_step opc d (length later) (served_view s obs u)"
    if "handle_fragment E isServer s d (length later) opc True w = Some (False, w')" "serving limit s w'" "control_fits (socks w' s)"
      "answered_since isServer obs reply s w0 w'"
      "served_view s obs (Some w') = app_step opc d (length later) (served_view s obs u)" for w'
    using that w(1) by (intro exI [of _ "Some w'"]) (simp add: ws_impl_def served_ready_def)
  show "\<exists>u'. handleFragment (ws_impl E isServer s) d (length later) opc True u = (False, u') \<and>
      served_ready limit s isServer obs reply w0 u' \<and> served_view s obs u' = app_step opc d (length later) (served_view s obs u)"
  proof (cases "ok_message opc (fragmentBuffer (socks w s) @ d @ later)")
    case True
    then have opc: "\<not> 2 < opc" by (auto simp: ok_message_def TEXT_def BINARY_def)
    then have tip: "controlTipLength (socks w s) = 0"
      using kind w(3) by (auto simp: same_kind_def view control_fits_def)
    obtain w' where w': "handle_fragment E isServer s d (length later) opc True w = Some (False, w')" "serving limit s w'"
      "controlTipLength (socks w' s) = controlTipLength (socks w s)"
      "fragmentBuffer (socks w' s) = (if later = [] then [] else fragmentBuffer (socks w s) @ d)"
      "obs w' = (if later = [] then obs w @ [(opc, fragmentBuffer (socks w s) @ d)] else obs w)"
      "\<And>w0. answered_since isServer obs reply s w0 w \<Longrightarrow> answered_since isServer obs reply s w0 w'"
      using data_fragment_served [OF w(2) True] by blast
    show ?thesis
      by (rule step [OF w'(1,2) _ w'(6) [OF w(4)]])
         (use w'(3-5) tip opc in \<open>simp_all add: control_fits_def w(1) served_view_def app_step_def\<close>)
  next
    case False
    then have opc: "opc \<in> {PING, PONG}" "length (fragmentBuffer (socks w s) @ d @ later) \<le> 125"
      using ok by (auto simp: ok_frame_def view)
    then have "2 < opc" by (auto simp: opcode_defs)
    then have tip: "fragmentBuffer (socks w s) = [] \<or> controlTipLength (socks w s) \<noteq> 0"
      using kind by (auto simp: same_kind_def view)
    obtain w' where w': "handle_fragment E isServer s d (length later) opc True w = Some (False, w')" "serving limit s w'"
      "controlTipLength (socks w' s) = (if later = [] then 0 else length (fragmentBuffer (socks w s) @ d))"
      "fragmentBuffer (socks w' s) = (if later = [] then [] else fragmentBuffer (socks w s) @ d)"
      "obs w' = (if later = [] then obs w @ [(opc, fragmentBuffer (socks w s) @ d)] else obs w)"
      "\<And>w0. answered_since isServer obs reply s w0 w \<Longrightarrow> answered_since isServer obs reply s w0 w'"
      using control_fragment_served [OF w(2,3) tip opc] by blast
    show ?thesis
      by (rule step [OF w'(1,2) _ w'(6) [OF w(4)]])
         (use w'(3-5) \<open>2 < opc\<close> in \<open>simp_all add: control_fits_def w(1) served_view_def app_step_def\<close>)
  qed
next
  fix w p v b w0
  show "served_ready limit s isServer obs reply w0 (Some (upd_sock s (\<lambda>x. x\<lparr>hasOutstandingPong := p\<rparr>) w)) = served_ready limit s isServer obs reply w0 (Some w)"
    "served_ready limit s isServer obs reply w0 (Some (upd_sock s (\<lambda>x. x\<lparr>s_ws := v\<rparr>) w)) = served_ready limit s isServer obs reply w0 (Some w)"
    "served_ready limit s isServer obs reply w0 (Some (cork s b w)) = served_ready limit s isServer obs reply w0 (Some w)"
    "served_view s obs (Some (upd_sock s (\<lambda>x. x\<lparr>hasOutstandingPong := p\<rparr>) w)) = served_view s obs (Some w)"
    "served_view s obs (Some (upd_sock s (\<lambda>x. x\<lparr>s_ws := v\<rparr>) w)) = served_view s obs (Some w)"
    "served_view s obs (Some (cork s b w)) = served_view s obs (Some w)"
    by (simp_all add: served_ready_def served_view_def serving_upd_sock serving_cork stream_upd_sock obs_sock obs_cork access control_fits_def
        answered_since_def same_channel_def cork_sock)
qed

context served_socket begin

lemmas stream_served = stream_received
  and served_start = reads_on_start and served_end = reads_on_end and served_step_on = reads_on_step
  and consume_served = ws_consume_reads_on and reads_served = ws_reads_on and data_reads_served = ws_onData_reads_on

end

section \<open>Property\<close>

text \<open>
  C3: A WebSocket serves its peer. The peer sends any binary and UTF-8 text messages, pings and pongs
  (none longer than \<open>maxPayload\<close>, pings and pongs of at most 125 bytes), and the stream is cut into
  reads anywhere. Then the calls of \<open>onData\<close> return; every message, ping and pong is handed to its
  handler of the application, once and in order, with its payload; and the bytes that leave the socket
  are exactly, for each of them in order, the pong that repeats the payload if it was a ping, and then
  the messages with which the application answered it (\<open>reply\<close>), one frame each, however much of each
  \<open>send\<close> the system takes. The socket is still open,
  with its descriptor and callback, and no fragment is left over.
\<close>

theorem websocket_serves_peer:
  assumes "served_socket obs s E isServer limit reply"
    and "open_socket limit s w" "plain_sock (socks w s)" "s_ws (socks w s) = State_init raw" "length (opCode raw) = 2"
    and "fragmentBuffer (socks w s) = []" "controlTipLength (socks w s) = 0" "obs w = []"
    and "list_all (\<lambda>(opc, r, p). ok_frame opc p \<and> length p \<le> unat limit) ms"
    and "concat (map snd reads) = concat (map (frame_of isServer) ms)"
    and "list_all (\<lambda>(m, b). length b < 2 ^ 32) reads" "CONSUME_PRE_PADDING isServer \<le> recv_buffer E"
  shows "\<exists>w' fs. ws_reads E isServer s reads w = Some w' \<and> obs w' = map content ms \<and>
    stream w' s = stream w s @ concat (map (frame_of (\<not> isServer)) fs) \<and>
    map content fs = concat (map (answers reply) (map content ms)) \<and>
    same_channel s w w' \<and> open_socket limit s w' \<and> fragmentBuffer (socks w' s) = []"
proof -
  have "list_all (receivable limit ok_frame) ms"
    using assms(9) by (auto simp: list_all_iff receivable_def legal_def ok_frame_def ok_message_def)
  moreover have "served_ready limit s isServer obs reply w (Some w)"
    using assms(2,3,7,8) by (auto simp: served_ready_def serving_def control_fits_def answered_since_def same_channel_def answered_def intro: exI [of _ "[]"])
  moreover have "ap_buffer (served_view s obs (Some w)) = []" "ap_messages (served_view s obs (Some w)) = []"
    using assms(6,8) by (simp_all add: served_view_def)
  ultimately obtain w' where "ws_reads E isServer s reads w = Some w'" "served_ready limit s isServer obs reply w (Some w')"
    "ap_messages (served_view s obs (Some w')) = map content ms" "ap_buffer (served_view s obs (Some w')) = []"
    using served_socket.stream_served [OF assms(1) _ assms(4,5) _ _ _ assms(10,12,11)] by metis
  then show ?thesis by (simp add: served_ready_def served_view_def serving_def answered_since_def answered_def)
qed

lemma env0_system: "send_contract env0" "quiet_callbacks env0"
  by (auto simp: send_contract_def quiet_callbacks_def env0_def)

text \<open>
  An echo server (or client), on a system that takes at most two bytes per \<open>send\<close>. It sends each data
  message back; its record of what it was handed goes to a log of its own and starts anew with each
  connection.
\<close>

definition note_frame :: "byte \<Rightarrow> byte list \<Rightarrow> world \<Rightarrow> world" where
  "note_frame opc d = log (E_resolve (Some d) (int (unat opc)))"

definition note_connection :: "world \<Rightarrow> world" where
  "note_connection = log (E_resolve None 0)"

definition noted_event :: "(byte \<times> byte list) list \<Rightarrow> event \<Rightarrow> (byte \<times> byte list) list" where
  "noted_event ms e = (case e of E_resolve (Some d) n \<Rightarrow> ms @ [(word_of_int n, d)] | E_resolve None n \<Rightarrow> [] | _ \<Rightarrow> ms)"

definition noted :: "world \<Rightarrow> (byte \<times> byte list) list" where
  "noted w = foldl noted_event [] (trace w)"

definition echo_of :: "env \<Rightarrow> bool \<Rightarrow> env" where
  "echo_of E isServer = E\<lparr>
     connectionHandler := (\<lambda>g s r w. Some (note_connection w)),
     messageHandler := (\<lambda>g s d opc w. ws_send E isServer s d opc None 0 False (note_frame opc d w)),
     pingHandler := (\<lambda>g s d w. Some (note_frame PING d w)), pongHandler := (\<lambda>g s d w. Some (note_frame PONG d w))\<rparr>"

definition echo_env :: "bool \<Rightarrow> env" where
  "echo_env = echo_of env0"

definition echo :: "byte \<Rightarrow> byte list \<Rightarrow> (byte \<times> byte list) list" where
  "echo opc d = (if opc = PING \<or> opc = PONG then [] else [(opc, d)])"

lemma noted_log: "noted (log e w) = noted_event (noted w) e"
  by (simp add: noted_def access)

interpretation noting: write_frame "\<lambda>w w'. noted w' = noted w" s
  by unfold_locales (auto simp: noted_log io_event_def noted_event_def split: event.splits, auto simp: noted_def access)

lemma note_facts:
  "socks (note_frame opc d w) = socks w" "receives_same s w (note_frame opc d w)" "stream (note_frame opc d w) s = stream w s"
  "noted (note_frame opc d w) = noted w @ [(opc, d)]" "serving limit s (note_frame opc d w) = serving limit s w"
  "socks (note_connection w) = socks w" "receives_same s w (note_connection w)" "stream (note_connection w) s = stream w s"
  "noted (note_connection w) = []"
  by (simp_all add: note_frame_def note_connection_def receives_same_def access stream_def queued_def sent_ev_def noted_log noted_event_def
      serving_def open_socket_def isClosed_def isShuttingDown_def ws_maxPayload_def sock_group_def)

lemma echo_system:
  "send_contract (echo_of E b) = send_contract E" "quiet_callbacks (echo_of E b) = quiet_callbacks E"
  by (simp_all add: echo_of_def send_contract_def quiet_callbacks_def)

lemma echo_served:
  assumes sys: "send_contract E" "quiet_callbacks E"
  shows "served_socket noted s (echo_of E isServer) isServer limit echo"
proof
  show "send_contract (echo_of E isServer)" "quiet_callbacks (echo_of E isServer)" using sys by (simp_all add: echo_system)
  fix t f w opc d
  show "noted (upd_sock t f w) = noted w" by (simp add: noted_def access)
  assume sv: "serving limit s w" and ok: "ok_frame opc d"
  show "\<exists>w' fs. handler_of (echo_of E isServer) opc (s_node (socks w s)) s d w = Some w' \<and> receives_same s w w' \<and> plain_sock (socks w' s) \<and>
        noted w' = noted w @ [(opc, d)] \<and> map content fs = echo opc d \<and>
        stream w' s = stream w s @ concat (map (frame_of (\<not> isServer)) fs)"
  proof (cases "opc = PING \<or> opc = PONG")
    case True
    then have "handler_of (echo_of E isServer) opc (s_node (socks w s)) s d w = Some (note_frame opc d w)"
      by (auto simp: handler_of_def echo_of_def)
    with True sv show ?thesis
      by (intro exI [of _ "note_frame opc d w"] exI [of _ "[]"]) (simp add: note_facts echo_def serving_def)
  next
    case False
    let ?w = "note_frame opc d w"
    have "plain_sock (socks ?w s)" using sv by (simp add: note_facts serving_def)
    then obtain w' r where w': "ws_send E isServer s d opc None 0 False ?w = Some w'" "plain_sock (socks w' s)"
      "stream w' s = stream ?w s @ frame_of (\<not> isServer) (opc, r, d)"
      using ws_send_frame [OF sys _ user_cb_None, where isServer = isServer] by blast
    have "handler_of (echo_of E isServer) opc (s_node (socks w s)) s d w = ws_send E isServer s d opc None 0 False ?w"
      using False by (simp add: handler_of_def echo_of_def)
    then show ?thesis
      using w' False noting.ws_send_absorbed [OF w'(1)] send_frame.chain [OF note_facts(2) send_frame.ws_send_absorbed [OF w'(1)]]
      by (intro exI [of _ w'] exI [of _ "[(opc, r, d)]"]) (simp add: note_facts echo_def content_def)
  qed
qed

interpretation echo_server: served_socket noted s "echo_env isServer" isServer limit echo for s isServer limit
  unfolding echo_env_def by (rule echo_served [OF env0_system])

text \<open>A masked ping, cut into two reads, and a message of one byte.\<close>

theorem websocket_serves_peer_witness:
  "\<exists>w' fs. ws_reads (echo_env True) True 4 [(\<lambda>i. 0, [0x89, 0x82, 0, 0, 0, 0, 5]), (\<lambda>i. 9, [6, 0x82, 0x81, 0, 0, 0, 0, 7])] world0 = Some w' \<and>
     noted w' = [(PING, [5, 6]), (BINARY, [7])] \<and> stream w' 4 = concat (map (frame_of False) fs) \<and>
     map content fs = [(PONG, [5, 6]), (BINARY, [7])]"
proof -
  let ?ms = "[(PING, 0, [5, 6]), (BINARY, 0, [7])] :: sent_frame list"
    and ?reads = "[(\<lambda>i. 0, [0x89, 0x82, 0, 0, 0, 0, 5]), (\<lambda>i. 9, [6, 0x82, 0x81, 0, 0, 0, 0, 7])] :: (mem \<times> byte list) list"
  have "open_socket 16777216 4 world0" "plain_sock (socks world0 4)" "s_ws (socks world0 4) = State_init raw0" "length (opCode raw0) = 2"
    "fragmentBuffer (socks world0 4) = []" "controlTipLength (socks world0 4) = 0" "noted world0 = []" "CONSUME_PRE_PADDING True \<le> recv_buffer (echo_env True)"
    by (simp_all add: open_socket_def world0_def sock0_def isClosed_def isShuttingDown_def ws_maxPayload_def sock_group_def
        group0_def raw0_def noted_def echo_env_def echo_of_def env0_def CONSUME_PRE_PADDING_def header_defs plain_sock_def)
  moreover have "list_all (\<lambda>(opc, r, p). ok_frame opc p \<and> length p \<le> unat (16777216 :: 32 word)) ?ms"
    "list_all (\<lambda>(m, b). length b < 2 ^ 32) ?reads"
    by (simp_all add: ok_frame_def ok_message_def)
  moreover have "concat (map snd ?reads) = concat (map (frame_of True) ?ms)"
    by (simp add: frame_of_eq extended_def length_code_def le_bytes_4 sender_mask_def body_def opcode_defs)
  ultimately obtain w' fs where "ws_reads (echo_env True) True 4 ?reads world0 = Some w'" "noted w' = map content ?ms"
    "stream w' 4 = stream world0 4 @ concat (map (frame_of (\<not> True)) fs)" "map content fs = concat (map (answers echo) (map content ?ms))"
    using websocket_serves_peer [OF echo_server.served_socket_axioms [where s = 4 and isServer = True], of 16777216 world0 raw0 ?ms ?reads] by blast
  moreover have "stream world0 4 = []" by (simp add: stream_def queued_def sent_on_def world0_def sock0_def)
  ultimately show ?thesis by (auto simp: content_def answers_def echo_def opcode_defs)
qed

end
