(* ===== verification/HttpChunks.thy ===== *)
theory HttpChunks
  imports HttpServer
begin

text \<open>
  HTTP requests that arrive in pieces. An incomplete request is kept in \<open>httpBuffer\<close>, with the keys
  parsed so far in lower case, and parsed again from its start when more has arrived. However the
  request line and the header lines are cut into reads, the request is parsed as if it had come at
  once.
\<close>

section \<open>Parsing the first part of a request\<close>

definition request_text :: "line list \<Rightarrow> byte list" where
  "request_text ls = concat (map line_text ls) @ [13, 10]"

text \<open>The same lines, with some letters of the keys in lower case.\<close>

definition line_lowered :: "line \<Rightarrow> line \<Rightarrow> bool" where
  "line_lowered l l' = (case l of (k, sep, v) \<Rightarrow> case l' of (k', sep', v') \<Rightarrow>
     map to_lower k' = map to_lower k \<and> list_all key_char k' \<and> sep' = sep \<and> v' = v)"

definition lowered :: "line list \<Rightarrow> line list \<Rightarrow> bool" where
  "lowered = list_all2 line_lowered"

lemma key_char_iff: "key_char b \<longleftrightarrow> b \<noteq> 58 \<and> 32 < unat b \<and> unat b < 128"
proof -
  obtain n where n: "n < 256" "unat b = n" by (rule that [OF unat_byte_less refl])
  have s: "sint b = (int (unat b) + 128) mod 256 - 128"
    by (simp add: sint_uint signed_take_bit_eq_take_bit_shift take_bit_eq_mod)
  have "(int n + 128) mod 256 = (if n < 128 then int n + 128 else int n - 128)"
  proof (cases "n < 128")
    case False
    have "(int n - 128 + 256) mod 256 = (int n - 128) mod 256" by (rule mod_add_self2)
    also have "\<dots> = int n - 128" using False n(1) by (intro mod_pos_pos_trivial) simp_all
    finally show ?thesis using False by (simp add: add.commute)
  qed simp
  then show ?thesis unfolding key_char_def s n(2) using n(1) by (simp split: if_splits)
qed

lemma lower_range: "\<forall>n\<in>set [33..<128]. n \<noteq> 58 \<longrightarrow> (let m = unat (word_of_nat n OR 32 :: byte) in m \<noteq> 58 \<and> 32 < m \<and> m < 128)"
  by code_simp

lemma key_char_lower: "key_char b \<Longrightarrow> key_char (to_lower b)"
proof -
  assume k: "key_char b"
  obtain n where n: "n < 256" "b = word_of_nat n" by (rule byte_cases)
  then have u: "unat b = n" by simp
  have "n \<noteq> 58" using k n by (auto simp: key_char_def)
  moreover have "n \<in> set [33..<128]" using k u unfolding key_char_iff set_upt by auto
  ultimately have "let m = unat (b OR 32) in m \<noteq> 58 \<and> 32 < m \<and> m < 128" using lower_range n(2) by blast
  then show ?thesis unfolding key_char_iff to_lower_def Let_def byte_eq_iff by simp
qed
lemma to_lower_twice [simp]: "to_lower (to_lower b) = to_lower b"
  by (simp add: to_lower_def)

lemma find_cr_none: "(\<And>i. b \<le> i \<Longrightarrow> i < e \<Longrightarrow> m i \<noteq> 13) \<Longrightarrow> find_cr m b e = None"
proof (induction m b e rule: find_cr.induct)
  case (1 m b e)
  then show ?case by (subst find_cr.simps) auto
qed

lemma line_lowered_part:
  assumes "list_all key_char k" "n \<le> length k"
  shows "line_lowered (k, sep, v) (map to_lower (take n k) @ drop n k, sep, v)"
proof -
  have "map to_lower (take n k) @ map to_lower (drop n k) = map to_lower k" by (metis append_take_drop_id map_append)
  then show ?thesis
    using assms(1) set_take_subset [of n k] set_drop_subset [of n k]
    by (auto simp: line_lowered_def list_all_iff key_char_lower o_def)
qed

lemma line_lowered_refl: "line_ok l \<Longrightarrow> line_lowered l l"
  by (auto simp: line_lowered_def line_ok_def split: prod.splits)

lemma lowered_refl: "list_all line_ok ls \<Longrightarrow> lowered ls ls"
  by (induction ls) (auto simp: lowered_def line_lowered_refl)

text \<open>The line that is cut: its key, or what is there of it, is in lower case.\<close>

lemma scan_key_cut:
  assumes "list_all key_char k" "\<not> key_char c" "rd m b (length p) = p" "p @ q = k @ c # t" "e = b + length p" "m e = 13"
  shows "scan_key m b e = Some (wr m b (map to_lower (take (length p) k)), b + min (length p) (length k))"
proof -
  define K where "K = take (length p) k"
  have K: "length K = min (length p) (length k)" by (simp add: K_def)
  have "\<not> key_char (m (b + length K))"
  proof (cases "length p \<le> length k")
    case True
    then show ?thesis using assms(5,6) by (simp add: K key_char_def)
  next
    case False
    then have "m (b + length k) = p ! length k" using assms(3) nth_rd [of "length k" "length p" m b] by simp
    also have "\<dots> = (p @ q) ! length k" using False by (simp add: nth_append)
    finally show ?thesis using False assms(2) by (simp add: K assms(4))
  qed
  moreover have "rd m b (length K) = K"
  proof -
    have "take (length K) (p @ q) = take (length K) (k @ c # t)" by (simp only: assms(4))
    then have "take (length K) p = K" by (simp add: K_def min_def split: if_splits)
    then show ?thesis using take_rd [of "length K" "length p" m b] assms(3) by (simp add: K)
  qed
  moreover have "list_all key_char K" using assms(1) set_take_subset [of "length p" k] by (auto simp: K_def list_all_iff)
  ultimately have "scan_key m b e = Some (wr m b (map to_lower K), b + length K)"
    by (intro scan_key_run) (use assms(5) K in simp_all)
  then show ?thesis by (simp add: K_def)
qed

text \<open>What is there of the rest is too short to end the line.\<close>

lemma separator_value_cut:
  assumes "list_all separator s" "13 \<notin> set v" "v = [] \<or> \<not> separator (hd v)" "r < length (s @ v @ [13, 10])"
    and at: "\<And>i. i < r \<Longrightarrow> m (a + i) = (s @ v @ [13, 10]) ! i" and stop: "m (a + r) = 13"
  obtains x where "skip_separator m a (a + r) = Some x" "\<And>y. find_cr m x (a + r) = Some y \<Longrightarrow> m (y + 1) \<noteq> 10"
proof (cases "r \<le> length s")
  case True
  then have "rd m a (length (take r s)) = take r s"
    using at by (intro nth_equalityI) (auto simp: mem_simps nth_append)
  moreover have "list_all separator (take r s)" using assms(1) set_take_subset [of r s] by (auto simp: list_all_iff)
  ultimately have "skip_separator m a (a + r) = Some (a + r)"
    using skip_separator_run [of m a "take r s" "a + r"] True stop by (simp add: separator_def)
  then show thesis by (rule that) (simp add: find_cr.simps [of _ "a + r"])
next
  case vals: False
  define x where "x = a + length s"
  have xs: "m (x + i) = (v @ [13, 10]) ! i" if "i < r - length s" for i
    using at [of "length s + i"] that by (simp add: x_def nth_append add.assoc)
  have "rd m a (length s) = s" using at vals by (intro nth_equalityI) (auto simp: mem_simps nth_append)
  moreover have "\<not> separator (m x)"
    using xs [of 0] vals assms(3) by (cases v) (simp_all add: separator_def)
  ultimately have skip: "skip_separator m a (a + r) = Some x"
    using skip_separator_run [of m a s "a + r"] assms(1) vals by (simp add: x_def)
  show thesis
  proof (cases "r - length s \<le> length v")
    case True
    have "find_cr m x (a + r) = None"
    proof (rule find_cr_none)
      fix i assume i: "x \<le> i" "i < a + r"
      then have "i - x < r - length s" "i - x < length v" using True by (auto simp: x_def)
      then have "m i \<in> set v" using xs [of "i - x"] i(1) by (simp add: nth_append)
      then show "m i \<noteq> 13" using assms(2) by metis
    qed
    with skip show thesis by (intro that [of x]) simp_all
  next
    case False
    then have e': "a + r = x + length v + 1" using assms(4) by (simp add: x_def)
    have "rd m x (length v) = v" using xs False by (intro nth_equalityI) (auto simp: mem_simps nth_append)
    moreover have "m (x + length v) = 13" using xs [of "length v"] False by simp
    ultimately have "find_cr m x (a + r) = Some (x + length v)" using assms(2) e' by (intro find_cr_run) simp_all
    with skip stop e' show thesis by (intro that [of x]) simp_all
  qed
qed

lemma getHeaders_cut_line:
  assumes ok: "line_ok (k, sep, v)" and p: "rd m b (length p) = p" "p @ q = line_text (k, sep, v)" "q \<noteq> []"
    and e: "e = b + length p" "m e = 13"
  shows "getHeaders (Suc n) first m b e hs = Some (wr m b (map to_lower (take (length p) k)), None)"
proof -
  obtain c s where sep: "sep = c # s" using ok by (cases sep) (auto simp: line_ok_def)
  have ok': "list_all key_char k" "\<not> key_char c" "c \<noteq> 13" "list_all separator s" "13 \<notin> set v" "v = [] \<or> \<not> separator (hd v)"
    using ok sep by (auto simp: line_ok_def)
  let ?m = "wr m b (map to_lower (take (length p) k))"
  have t: "p @ q = k @ c # s @ v @ [13, 10]" using p(2) sep by (simp add: line_text_def)
  have at: "?m (b + i) = (k @ c # s @ v @ [13, 10]) ! i" if "length k \<le> i" "i < length p" for i
    using p(1) that nth_rd [OF that(2), of m b] by (simp add: t [symmetric] nth_append wr_def)
  note 1 = scan_key_cut [OF ok'(1,2) p(1) t e]
  show ?thesis
  proof (cases "length p \<le> length k")
    case True
    then show ?thesis using 1 e by (simp add: wr_def)
  next
    case False
    define a r where "a = b + length k + 1" and "r = length p - length k - 1"
    have r: "e = a + r" "r < length (s @ v @ [13, 10])"
      using arg_cong [OF t, of length] length_greater_0_conv [THEN iffD2, OF p(3)] False e(1)
      unfolding a_def r_def length_append list.size by linarith+
    have c: "?m (b + length k) = c" using at [of "length k"] False by simp
    have "?m (a + i) = (s @ v @ [13, 10]) ! i" if "i < r" for i
      using at [of "length k + 1 + i"] that by (simp add: a_def r_def add.assoc nth_append)
    moreover have "?m (a + r) = 13" using e False r(1) by (simp add: wr_def)
    ultimately obtain x where "skip_separator ?m a e = Some x" "\<And>y. find_cr ?m x e = Some y \<Longrightarrow> ?m (y + 1) \<noteq> 10"
      using separator_value_cut [OF ok'(4-6) r(2), of ?m a] unfolding r(1) by blast
    then show ?thesis
      using 1 c ok'(3) False by (simp add: a_def min_def split: option.split)
  qed
qed

text \<open>A line of which the whole, or a part \<open>p\<close>, is there: what becomes of its bytes.\<close>

lemma rd_lowered:
  assumes "rd m b (length p) = p"
  shows "rd (wr m b (map to_lower (take (length p) k))) b (length p) = map to_lower (take (length p) k) @ drop (length k) p"
proof -
  let ?k = "map to_lower (take (length p) k)"
  have "length p = length ?k + (length p - length ?k)" by simp
  then have "rd (wr m b ?k) b (length p) = ?k @ rd m (b + length ?k) (length p - length ?k)" by (metis rd_wr_left)
  also have "rd m (b + length ?k) (length p - length ?k) = drop (length ?k) p" using assms by (metis drop_rd)
  finally show ?thesis by (simp add: min_def)
qed

lemma line_lowered_take:
  assumes "line_ok (k, sep, v)"
  shows "line_lowered (k, sep, v) (map to_lower (take n k) @ drop n k, sep, v)"
proof (cases "n \<le> length k")
  case True
  then show ?thesis using assms line_lowered_part [of k n sep v] by (simp add: line_ok_def)
next
  case False
  then show ?thesis using assms line_lowered_part [of k "length k" sep v] by (simp add: line_ok_def)
qed

text \<open>The end of the read lies in the line, or behind it.\<close>

lemma getHeaders_cut_here:
  assumes ok: "line_ok (k, sep, v)" "list_all line_ok ls" and t: "p @ q = line_text (k, sep, v) @ request_text ls"
    and short: "length p < length (line_text (k, sep, v))" and p: "rd m b (length p) = p" "e = b + length p" "m e = 13"
  shows "\<exists>m' ls'. getHeaders (Suc n) first m b e hs = Some (m', None) \<and> agree_off m m' b e \<and>
    lowered ((k, sep, v) # ls) ls' \<and> rd m' b (length p) @ q = request_text ls'"
proof -
  define q' where "q' = drop (length p) (line_text (k, sep, v))"
  have "p = take (length p) (line_text (k, sep, v))" "q = q' @ request_text ls"
    using t short by (simp_all add: q'_def append_eq_append_conv_if)
  then have q': "p @ q' = line_text (k, sep, v)" "q' \<noteq> []" "q = q' @ request_text ls"
    using short append_take_drop_id [of "length p" "line_text (k, sep, v)"] by (simp_all add: q'_def)
  let ?k = "map to_lower (take (length p) k)" and ?ls = "(map to_lower (take (length p) k) @ drop (length p) k, sep, v) # ls"
  have "getHeaders (Suc n) first m b e hs = Some (wr m b ?k, None)"
    by (rule getHeaders_cut_line [OF ok(1) p(1) q'(1,2) p(2,3)])
  moreover have "agree_off m (wr m b ?k) b e" using p(2) by (intro agree_off_wr) auto
  moreover have "lowered ((k, sep, v) # ls) ?ls"
    using line_lowered_take [OF ok(1)] lowered_refl [OF ok(2)] by (simp add: lowered_def)
  moreover have "drop (length k) p @ q' = drop (length p) k @ sep @ v @ [13, 10]"
  proof -
    have "p @ q' = k @ sep @ v @ [13, 10]" using q'(1) by (simp add: line_text_def)
    from arg_cong [OF this, of "drop (min (length p) (length k))"] show ?thesis by (auto simp: min_def split: if_splits)
  qed
  ultimately show ?thesis
    by (intro exI [of _ "wr m b ?k"] exI [of _ ?ls]) (simp add: rd_lowered [OF p(1)] q'(3) request_text_def line_text_def)
qed

lemma prefix_split:
  assumes "p @ q = x @ y" "length x \<le> length p"
  obtains p2 where "p = x @ p2" "p2 @ q = y"
proof -
  have "p = x @ drop (length x) p" "drop (length x) p @ q = y"
    using assms by (simp_all add: append_eq_append_conv_if split: if_splits) (metis append_take_drop_id)+
  then show thesis by (rule that)
qed

lemma getHeaders_cut_later:
  assumes ok: "line_ok (k, sep, v)" and p: "rd m b (length p) = p" "e = b + length p" "p = line_text (k, sep, v) @ p2"
    and IH: "getHeaders n False (wr m b (map to_lower k)) (b + length (line_text (k, sep, v))) e
        (hs @ [\<lparr>key = Some b, val = Some (b + length k + length sep), keyLength = length k, valueLength = length v\<rparr>]) = Some (m', None)"
      "agree_off (wr m b (map to_lower k)) m' (b + length (line_text (k, sep, v))) e" "lowered ls ls'"
      "rd m' (b + length (line_text (k, sep, v))) (length p2) @ q = request_text ls'"
  shows "\<exists>m' ls'. getHeaders (Suc n) first m b e hs = Some (m', None) \<and> agree_off m m' b e \<and>
    lowered ((k, sep, v) # ls) ls' \<and> rd m' b (length p) @ q = request_text ls'"
proof -
  let ?l = "line_text (k, sep, v)" and ?m = "wr m b (map to_lower k)" and ?ls = "(map to_lower k, sep, v) # ls'"
  have lk: "length k < length ?l" by (simp add: line_text_def)
  have rdp: "rd m b (length ?l) = ?l" using p(1) unfolding p(3) rd_append_iff by simp
  have "getHeaders (Suc n) first m b e hs = Some (m', None)"
    using getHeaders_line [OF ok rdp] p(2,3) IH(1) by simp
  moreover have "agree_off m m' b e"
  proof (rule agree_off_trans)
    show "agree_off m ?m b e" using lk p(2,3) by (intro agree_off_wr) auto
    show "agree_off ?m m' b e" using IH(2) by (rule agree_off_mono) simp_all
  qed
  moreover have "lowered ((k, sep, v) # ls) ?ls"
    using IH(3) line_lowered_take [OF ok, of "length k"] by (simp add: lowered_def)
  moreover have "rd m' b (length p) = map to_lower k @ drop (length k) ?l @ rd m' (b + length ?l) (length p2)"
  proof -
    have "rd m' b (length ?l) = rd ?m b (length ?l)" using IH(2) by (intro rd_cong) (auto simp: agree_off_def)
    also have "\<dots> = map to_lower k @ drop (length k) ?l" using rd_lowered [OF rdp, of k] lk by simp
    finally show ?thesis by (simp add: p(3) rd_add)
  qed
  ultimately show ?thesis
    using IH(4) by (intro exI [of _ m'] exI [of _ ?ls]) (simp add: request_text_def line_text_def)
qed

lemma getHeaders_cut:
  assumes "list_all line_ok ls" "p @ q = request_text ls" "q \<noteq> []" "rd m b (length p) = p" "e = b + length p" "m e = 13" "length ls < n"
  shows "\<exists>m' ls'. getHeaders n first m b e hs = Some (m', None) \<and> agree_off m m' b e \<and>
    lowered ls ls' \<and> rd m' b (length p) @ q = request_text ls'"
  using assms
proof (induction ls arbitrary: n first m b p hs)
  case Nil
  then obtain n' where n: "n = Suc n'" by (cases n) auto
  have "p = [] \<or> p = [13]"
    using Nil.prems(2,3) by (cases p; cases "tl p") (auto simp: request_text_def)
  then have m: "m b = 13" "b \<noteq> e \<longrightarrow> m (b + 1) = 13"
    using Nil.prems(4-6) by (auto simp: rd_Suc)
  have "scan_key m b e = Some (m, b)"
    using m(1) Nil.prems(5) by (subst scan_key.simps) (simp add: key_char_def)
  then have "getHeaders n first m b e hs = Some (m, None)" using m n by auto
  then show ?case using Nil.prems by (intro exI [of _ m] exI [of _ "[]"]) (simp add: lowered_def)
next
  case (Cons l ls)
  obtain k sep v where l: "l = (k, sep, v)" by (cases l)
  obtain n' where n: "n = Suc n'" using Cons.prems(7) by (cases n) auto
  have ok: "line_ok (k, sep, v)" "list_all line_ok ls" using Cons.prems(1) l by simp_all
  have t: "p @ q = line_text (k, sep, v) @ request_text ls" using Cons.prems(2) by (simp add: request_text_def l)
  show ?case
  proof (cases "length p < length (line_text (k, sep, v))")
    case True
    then show ?thesis using getHeaders_cut_here [OF ok t True Cons.prems(4-6)] by (simp add: l n)
  next
    case False
    then obtain p2 where p2: "p = line_text (k, sep, v) @ p2" "p2 @ q = request_text ls" using prefix_split [OF t] by auto
    let ?m = "wr m b (map to_lower k)" and ?b = "b + length (line_text (k, sep, v))"
    have lk: "length k < length (line_text (k, sep, v))" by (simp add: line_text_def)
    have "rd m ?b (length p2) = p2" using Cons.prems(4) unfolding p2(1) rd_append_iff by simp
    then have "rd ?m ?b (length p2) = p2" using lk by (subst rd_wr_out) auto
    moreover have "e = ?b + length p2" "?m e = 13" "length ls < n'"
      using lk Cons.prems(5-7) p2(1) n by (simp_all add: wr_def)
    ultimately show ?thesis
      using Cons.IH [OF ok(2) p2(2) Cons.prems(3), of ?m ?b n' False] getHeaders_cut_later [OF ok(1) Cons.prems(4,5) p2(1)]
      unfolding l n by blast
  qed
qed

section \<open>Reads\<close>

lemma lowered_ok: "lowered ls ls' \<Longrightarrow> list_all line_ok ls \<Longrightarrow> list_all line_ok ls'"
  unfolding lowered_def by (induction rule: list_all2_induct) (auto simp: line_lowered_def line_ok_def)

lemma lowered_trans: "lowered ls ls' \<Longrightarrow> lowered ls' ls'' \<Longrightarrow> lowered ls ls''"
  unfolding lowered_def by (rule list_all2_trans [where ?P2.0 = line_lowered]) (auto simp: line_lowered_def)

lemma lowered_length: "lowered ls ls' \<Longrightarrow> length ls' = length ls"
  unfolding lowered_def by (simp add: list_all2_lengthD)

lemma lowered_text_length: "lowered ls ls' \<Longrightarrow> length (request_text ls') = length (request_text ls)"
  unfolding lowered_def
proof (induction rule: list_all2_induct)
  case (Cons l ls l' ls')
  obtain k sep v k' where "l = (k, sep, v)" "l' = (k', sep, v)" "map to_lower k' = map to_lower k"
    using Cons(1) by (cases l; cases l') (auto simp: line_lowered_def)
  with Cons map_eq_imp_length_eq [of to_lower k' to_lower k] show ?case by (simp add: request_text_def line_text_def)
qed simp

lemma header_of_lowered:
  assumes "line_lowered l l'" "header_of m hi l' h"
  shows "header_of m hi l h"
proof -
  obtain k sep v k' where l: "l = (k, sep, v)" "l' = (k', sep, v)" "map to_lower k' = map to_lower k"
    using assms(1) by (cases l; cases l') (auto simp: line_lowered_def)
  from arg_cong [OF l(3), of length] have "length k' = length k" by simp
  with assms(2) l show ?thesis by (simp add: header_of_def)
qed

lemma headers_of_lowered: "lowered ls ls' \<Longrightarrow> list_all2 (header_of m hi) ls' hs \<Longrightarrow> list_all2 (header_of m hi) ls hs"
  unfolding lowered_def by (rule list_all2_trans [where ?P2.0 = "header_of m hi"]) (auto intro: header_of_lowered)

section \<open>The fields of a request\<close>

definition field :: "byte list \<Rightarrow> line list \<Rightarrow> byte list" where
  "field k ls = (case find (line_key_is k) (tl ls) of None \<Rightarrow> [] | Some (k', sep, v) \<Rightarrow> v)"

lemma header_value_render:
  assumes "list_all2 (header_of m hi) ls hs"
  shows "header_value m (getHeader m (Some hs) k) = field k ls" "valueLength (getHeader m (Some hs) k) = length (field k ls)"
    "(key (getHeader m (Some hs) k) \<noteq> None) = (find (line_key_is k) (tl ls) \<noteq> None)"
proof -
  have "list_all2 (header_of m hi) (tl ls) (tl hs)" using assms by (cases ls; cases hs) auto
  from find_header_of [OF this, of k]
  show "header_value m (getHeader m (Some hs) k) = field k ls" "valueLength (getHeader m (Some hs) k) = length (field k ls)"
    "(key (getHeader m (Some hs) k) \<noteq> None) = (find (line_key_is k) (tl ls) \<noteq> None)"
    by (cases "find (line_key_is k) (tl ls)"; cases "find (key_is m k) (tl hs)";
        fastforce simp: field_def getHeader_def header_of_def header_value_def null_header_def)+
qed

lemma getHeader_trim [simp]: "getHeader m (Some (trim_version hs)) k = getHeader m (Some hs) k"
  by (cases hs) (simp_all add: getHeader_def trim_version_def)

section \<open>Requests in pieces\<close>

text \<open>What \<open>onData\<close> does when the request is complete and nothing follows it.\<close>

definition request_parsed :: "env \<Rightarrow> bool \<Rightarrow> nat \<Rightarrow> mem \<Rightarrow> header list \<Rightarrow> nat \<Rightarrow> world \<Rightarrow> (nat \<times> world) option" where
  "request_parsed E isServer s m hs e w =
     (if isServer then
        let req = Some (trim_version hs);
            w = upd_sock s (\<lambda>x. x\<lparr>missedDeadline := False\<rparr>) w
        in if key (getHeader m req (ascii ''upgrade'')) \<noteq> None then http_upgrade_request E s m req w
           else do {
             (stop, cursor, w) \<leftarrow> http_request E s m req e e w;
             Some (s, if stop then w else upd_sock s (\<lambda>x. x\<lparr>httpBuffer := []\<rparr>) (cork s False w)) }
      else http_answer E s m (Some hs) e e w)"

lemma http_request_cursor: "http_request E s m req e e w = Some (stop, cursor, w') \<Longrightarrow> stop \<or> cursor = e"
  by (auto simp: http_request_def Let_def case_prod_beta bind_eq_Some_conv split: option.splits if_splits)

lemma http_loop_parsed:
  assumes "getHeaders MAX_HEADERS True m a e [] = Some (m', Some (e, hs))"
  shows "http_loop E isServer s m a e len w = request_parsed E isServer s m' hs e (parsed_in_place s m' w)"
proof (cases isServer)
  case True
  have "do { (stop, cursor, w) \<leftarrow> r; if stop then Some (s, w)
          else if cursor \<noteq> e then http_loop E isServer s m' cursor e len w
          else Some (s, upd_sock s (\<lambda>x. x\<lparr>httpBuffer := []\<rparr>) (cork s False w)) } =
        do { (stop, cursor, w) \<leftarrow> r; Some (s, if stop then w else upd_sock s (\<lambda>x. x\<lparr>httpBuffer := []\<rparr>) (cork s False w)) }"
    if "\<And>stop cursor w'. r = Some (stop, cursor, w') \<Longrightarrow> stop \<or> cursor = e" for r
    using that by (cases r) fastforce+
  from this [OF http_request_cursor] True show ?thesis
    by (subst http_loop.simps) (simp add: assms request_parsed_def Let_def)
next
  case False
  then show ?thesis by (subst http_loop.simps) (simp add: assms request_parsed_def)
qed

text \<open>
  The socket \<open>s\<close> has collected the first part of a request in its buffer; \<open>rest\<close> is still to come. Until
  then nothing but the buffer changes, and the socket is corked.
\<close>

definition partial_request :: "nat \<Rightarrow> line list \<Rightarrow> world \<Rightarrow> byte list \<Rightarrow> bool" where
  "partial_request s ls w rest \<longleftrightarrow> contentLength (socks w s) = 0 \<and>
     (\<exists>ls'. lowered ls ls' \<and> httpBuffer (socks w s) @ rest = request_text ls')"

definition collects :: "nat \<Rightarrow> world \<Rightarrow> world \<Rightarrow> bool" where
  "collects s w w' \<longleftrightarrow> (\<exists>B bs. w' = w\<lparr>socks := (socks w)(s := (socks w s)\<lparr>httpBuffer := B\<rparr>),
     trace := trace w @ map (E_cork (s_fd (socks w s))) bs\<rparr>)"

lemma collects_refl: "collects s w w"
proof -
  have "(socks w s)\<lparr>httpBuffer := httpBuffer (socks w s)\<rparr> = socks w s" by (cases "socks w s") simp
  then show ?thesis unfolding collects_def by (intro exI [of _ "httpBuffer (socks w s)"] exI [of _ "[]"]) simp
qed

lemma collects_buffer: "collects s w w' \<Longrightarrow> collects s w (upd_sock s (\<lambda>x. x\<lparr>httpBuffer := B\<rparr>) w')"
proof -
  assume "collects s w w'"
  then obtain B' bs where "w' = w\<lparr>socks := (socks w)(s := (socks w s)\<lparr>httpBuffer := B'\<rparr>),
     trace := trace w @ map (E_cork (s_fd (socks w s))) bs\<rparr>" by (auto simp: collects_def)
  then show ?thesis unfolding collects_def
    by (intro exI [of _ B] exI [of _ bs]) (simp add: upd_sock_def)
qed

lemma collects_cork: "collects s w w' \<Longrightarrow> collects s w (cork s b w')"
proof -
  assume "collects s w w'"
  then obtain B bs where "w' = w\<lparr>socks := (socks w)(s := (socks w s)\<lparr>httpBuffer := B\<rparr>),
     trace := trace w @ map (E_cork (s_fd (socks w s))) bs\<rparr>" by (auto simp: collects_def)
  then show ?thesis unfolding collects_def
    by (intro exI [of _ B] exI [of _ "bs @ [b]"]) (simp add: cork_def log_def)
qed

lemma collects_trans: "collects s w w' \<Longrightarrow> collects s w' w'' \<Longrightarrow> collects s w w''"
proof -
  assume "collects s w w'" "collects s w' w''"
  then obtain B bs B' bs' where "w' = w\<lparr>socks := (socks w)(s := (socks w s)\<lparr>httpBuffer := B\<rparr>),
     trace := trace w @ map (E_cork (s_fd (socks w s))) bs\<rparr>"
    "w'' = w'\<lparr>socks := (socks w')(s := (socks w' s)\<lparr>httpBuffer := B'\<rparr>),
     trace := trace w' @ map (E_cork (s_fd (socks w' s))) bs'\<rparr>" by (auto simp: collects_def)
  then show ?thesis unfolding collects_def
    by (intro exI [of _ B'] exI [of _ "bs @ bs'"]) simp
qed

lemma collects_in_place: "collects s w w' \<Longrightarrow> collects s w (parsed_in_place s m w')"
proof -
  assume "collects s w w'"
  from collects_buffer [OF this, of "rd m 0 (length (httpBuffer (socks w' s)))"] show ?thesis
    by (simp add: parsed_in_place_def upd_sock_def)
qed

lemma not_in_place: "httpBuffer (socks w s) = [] \<Longrightarrow> parsed_in_place s m w = w"
proof -
  assume e: "httpBuffer (socks w s) = []"
  have "(socks w s)\<lparr>httpBuffer := httpBuffer (socks w s)\<rparr> = socks w s" by (cases "socks w s") simp
  then have "(socks w s)\<lparr>httpBuffer := []\<rparr> = socks w s" by (simp only: e)
  moreover have "upd_sock s f w = w" if "f (socks w s) = socks w s" for f
    using that by (cases w) (simp add: upd_sock_def fun_upd_idem)
  ultimately show "parsed_in_place s m w = w" unfolding parsed_in_place_def by (simp add: e)
qed

lemma collects_content: "collects s w w' \<Longrightarrow> contentLength (socks w' s) = contentLength (socks w s)"
  by (auto simp: collects_def)

lemma collects_frame:
  assumes "collects s w v"
  shows "socks v = (socks w)(s := (socks w s)\<lparr>httpBuffer := httpBuffer (socks v s)\<rparr>)" "groups v = groups w" "fresh v = fresh w"
    "stream v s = stream w s"
proof -
  obtain B bs where v: "v = w\<lparr>socks := (socks w)(s := (socks w s)\<lparr>httpBuffer := B\<rparr>),
     trace := trace w @ map (E_cork (s_fd (socks w s))) bs\<rparr>" using assms by (auto simp: collects_def)
  have "concat (map (sent_ev fd) (map (E_cork i) bs)) = []" for fd i by (induction bs) simp_all
  then show "socks v = (socks w)(s := (socks w s)\<lparr>httpBuffer := httpBuffer (socks v s)\<rparr>)" "groups v = groups w" "fresh v = fresh w"
    "stream v s = stream w s"
    by (simp_all add: v stream_def queued_def sent_on_def del: map_map)
qed

lemma collects_buffer_cork: "collects s w (upd_sock s (\<lambda>x. x\<lparr>httpBuffer := B\<rparr>) (cork s b w))"
  by (intro collects_buffer collects_cork collects_refl)

text \<open>The two ways into the loop: in the receive buffer, and in \<open>httpBuffer\<close>.\<close>

lemma http_onData_first:
  assumes "contentLength (socks w s) = 0" "httpBuffer (socks w s) = []"
  shows "http_onData E isServer s m a n w = http_loop E isServer s (m(a + n := 13)) a (a + n) n (cork s True w)"
  using assms by (simp add: http_onData_def http_body_def Let_def cork_def access)

lemma http_onData_more:
  fixes m :: mem and a :: nat
  assumes "contentLength (socks w s) = 0" "httpBuffer (socks w s) \<noteq> []" "length (httpBuffer (socks w s)) + n \<le> MAX_HEADER_BUFFER_SIZE"
  defines "buf \<equiv> httpBuffer (socks w s) @ rd m a n"
  shows "http_onData E isServer s m a n w = http_loop E isServer s (wr (recv_memory E (trace (cork s True w))) 0 (buf @ [13])) 0
    (length buf) (length buf) (upd_sock s (\<lambda>x. x\<lparr>httpBuffer := buf\<rparr>) (cork s True w))"
  using assms(1-3) unfolding buf_def by (simp add: http_onData_def http_body_def Let_def cork_def access upd_sock_def log_def)

lemma rd_empty: "rd m a n = [] \<longleftrightarrow> n = 0"
  by (metis length_rd length_0_conv)

lemma wr_end: "wr m 0 (buf @ [x]) (length buf) = x" "rd (wr m 0 (buf @ [x])) 0 (length buf) = buf"
  by (auto simp: wr_def rd_def nth_append intro!: nth_equalityI)

lemma rd_end: "rd ((wr m a b)(a + length b := x)) a (length b) = b"
  using rd_cong [of a "length b" "(wr m a b)(a + length b := x)" "wr m a b"] by simp

text \<open>A read that does not complete the request, and the one that does.\<close>

lemma partial_request_onData:
  assumes "list_all line_ok ls" "length ls < MAX_HEADERS" "partial_request s ls w (b @ rest)" "rest \<noteq> []"
    "length (request_text ls) \<le> MAX_HEADER_BUFFER_SIZE"
  obtains w' where "http_onData E isServer s (wr m a b) a (length b) w = Some (s, w')" "partial_request s ls w' rest" "collects s w w'"
proof -
  obtain ls' where ls': "lowered ls ls'" "httpBuffer (socks w s) @ b @ rest = request_text ls'" and c: "contentLength (socks w s) = 0"
    using assms(3) by (auto simp: partial_request_def)
  have ok: "list_all line_ok ls'" "length ls' < MAX_HEADERS" using lowered_ok [OF ls'(1) assms(1)] lowered_length [OF ls'(1)] assms(2) by simp_all
  have "length (request_text ls') = length (request_text ls)" using ls'(1) by (rule lowered_text_length)
  then have size: "length (httpBuffer (socks w s)) + length b \<le> MAX_HEADER_BUFFER_SIZE"
    using assms(5) arg_cong [OF ls'(2), of length] by simp
  note step = that
  have result: thesis if "http_onData E isServer s (wr m a b) a (length b) w = Some (s, w')"
      "w' = upd_sock s (\<lambda>x. x\<lparr>httpBuffer := B\<rparr>) v" "collects s w v" "lowered ls' ls2" "B @ rest = request_text ls2" for w' v B ls2
  proof (rule step [OF that(1)])
    show "collects s w w'" unfolding that(2) using that(3) by (rule collects_buffer)
    show "partial_request s ls w' rest"
      using lowered_trans [OF ls'(1) that(4)] that(5) c collects_content [OF that(3)] unfolding that(2)
      by (auto simp: partial_request_def access)
  qed
  have corked: "collects s w (cork s True w)" by (intro collects_cork collects_refl)
  have keeps: "httpBuffer (socks (cork s True w) s) = httpBuffer (socks w s)" by (simp add: cork_def access)
  show thesis
  proof (cases "httpBuffer (socks w s) = []")
    case True
    let ?m = "(wr m a b)(a + length b := 13)"
    obtain m' ls2 where g: "getHeaders MAX_HEADERS True ?m a (a + length b) [] = Some (m', None)" "lowered ls' ls2"
      "rd m' a (length b) @ rest = request_text ls2"
      using getHeaders_cut [OF ok(1) _ assms(4) rd_end refl _ ok(2), of b m a 13 True "[]"] ls'(2) True by auto
    have "http_onData E isServer s (wr m a b) a (length b) w =
        Some (s, upd_sock s (\<lambda>x. x\<lparr>httpBuffer := rd m' a (length b)\<rparr>) (cork s True w))"
      using size True unfolding http_onData_first [OF c True]
      by (subst http_loop.simps) (simp add: g(1) http_incomplete_def keeps not_in_place)
    then show thesis by (rule result [OF _ refl corked g(2,3)])
  next
    case False
    let ?buf = "httpBuffer (socks w s) @ b"
    let ?m = "wr (recv_memory E (trace (cork s True w))) 0 (?buf @ [13])"
    let ?w = "upd_sock s (\<lambda>x. x\<lparr>httpBuffer := ?buf\<rparr>) (cork s True w)"
    have "?buf @ rest = request_text ls'" using ls'(2) by simp
    then obtain m' ls2 where g: "getHeaders MAX_HEADERS True ?m 0 (length ?buf) [] = Some (m', None)" "lowered ls' ls2"
      "rd m' 0 (length ?buf) @ rest = request_text ls2"
      using getHeaders_cut [OF ok(1) _ assms(4) wr_end(2) _ wr_end(1) ok(2)] by (metis add_0)
    have "http_onData E isServer s (wr m a b) a (length b) w = Some (s, upd_sock s (\<lambda>x. x\<lparr>httpBuffer := rd m' 0 (length ?buf)\<rparr>) ?w)"
      using False size unfolding http_onData_more [OF c False size] rd_wr
      by (subst http_loop.simps) (simp add: g(1) [simplified] http_incomplete_def parsed_in_place_def access upd_sock_twice Let_def rd_empty)
    then show thesis by (rule result [OF _ refl collects_buffer [OF corked] g(2,3)])
  qed
qed

text \<open>The read with the end of the head; \<open>early\<close> is what follows it in the same read.\<close>

lemma complete_head_onData:
  assumes "list_all line_ok ls" "length ls < MAX_HEADERS" "ls \<noteq> []" "partial_request s ls w b"
    "httpBuffer (socks w s) = [] \<or> length (request_text ls) + length early \<le> MAX_HEADER_BUFFER_SIZE"
  obtains v x c len m' hs w' where
    "http_onData E isServer s (wr m a (b @ early)) a (length (b @ early)) w = http_loop E isServer s v x (c + length early) len w'"
    "getHeaders MAX_HEADERS True v x (c + length early) [] = Some (m', Some (c, hs))" "list_all2 (header_of m' c) ls hs"
    "rd m' c (length early) = early" "length (request_text ls) \<le> c" "collects s w (parsed_in_place s m' w')"
proof -
  note step = that
  obtain ls' where ls': "lowered ls ls'" "httpBuffer (socks w s) @ b = request_text ls'" and c: "contentLength (socks w s) = 0"
    using assms(4) by (auto simp: partial_request_def)
  have ok: "list_all line_ok ls'" "length ls' < MAX_HEADERS" "ls' \<noteq> []"
    using lowered_ok [OF ls'(1) assms(1)] lowered_length [OF ls'(1)] assms(2,3) by auto
  have len: "length (request_text ls) = length (request_text ls')" by (rule lowered_text_length [OF ls'(1), symmetric])
  have corked: "collects s w (cork s True w)" by (intro collects_cork collects_refl)
  have parse: "\<exists>m' hs. getHeaders MAX_HEADERS True v x e [] = Some (m', Some (x + length t, hs)) \<and> list_all2 (header_of m' (x + length t)) ls hs \<and>
      rd m' (x + length t) (length early) = early"
    if v: "rd v x (length (t @ early)) = t @ early" "e = x + length t + length early" "t = request_text ls'" for v x e t
  proof -
    have r: "rd v x (length t) = t" "rd v (x + length t) (length early) = early" using v(1) unfolding rd_append_iff by simp_all
    from getHeaders_render [OF ok(1) r(1) [unfolded v(3) request_text_def] _ ok(2), of e True "[]"] ok(3) v(2,3)
    obtain m' hs where g: "getHeaders MAX_HEADERS True v x e [] = Some (m', Some (x + length t, hs))"
      "agree_off v m' x (x + length (concat (map line_text ls')))" "list_all2 (header_of m' (x + length (concat (map line_text ls')))) ls' hs"
      by (auto simp: request_text_def)
    from g(3) have "list_all2 (header_of m' (x + length t)) ls' hs"
      by (rule list_all2_mono) (rule header_of_frame, auto simp: v(3) request_text_def)
    moreover have "rd m' (x + length t) (length early) = early"
      using g(2) r(2) rd_cong [of "x + length t" "length early" m' v] by (auto simp: agree_off_def v(3) request_text_def)
    ultimately show ?thesis using g(1) headers_of_lowered [OF ls'(1)] by blast
  qed
  show thesis
  proof (cases "httpBuffer (socks w s) = []")
    case True
    have b: "b = request_text ls'" using ls'(2) True by simp
    obtain m' hs where g: "getHeaders MAX_HEADERS True ((wr m a (b @ early))(a + length (b @ early) := 13)) a (a + length b + length early) [] =
        Some (m', Some (a + length b, hs))" "list_all2 (header_of m' (a + length b)) ls hs" "rd m' (a + length b) (length early) = early"
      using parse [OF rd_end _ b] by blast
    show thesis
      by (rule step [OF _ g _ collects_in_place [OF corked]]) (simp_all only: http_onData_first [OF c True] length_append add.assoc, simp add: len b)
  next
    case False
    let ?t = "httpBuffer (socks w s) @ b"
    let ?m = "wr (recv_memory E (trace (cork s True w))) 0 ((?t @ early) @ [13])"
    have size: "length (httpBuffer (socks w s)) + length (b @ early) \<le> MAX_HEADER_BUFFER_SIZE"
      using assms(5) False len arg_cong [OF ls'(2), of length] by simp
    obtain m' hs where g: "getHeaders MAX_HEADERS True ?m 0 (0 + length ?t + length early) [] = Some (m', Some (0 + length ?t, hs))"
      "list_all2 (header_of m' (0 + length ?t)) ls hs" "rd m' (0 + length ?t) (length early) = early"
      using parse [OF wr_end(2) _ ls'(2)] by blast
    have "http_onData E isServer s (wr m a (b @ early)) a (length (b @ early)) w = http_loop E isServer s ?m 0 (0 + length ?t + length early)
        (length ?t + length early) (upd_sock s (\<lambda>x. x\<lparr>httpBuffer := ?t @ early\<rparr>) (cork s True w))"
      unfolding http_onData_more [OF c False size] rd_wr by (simp add: add.assoc)
    then show thesis by (rule step [OF _ g _ collects_in_place [OF collects_buffer [OF corked]]]) (simp add: len ls'(2) [symmetric])
  qed
qed

lemma complete_request_onData:
  assumes "list_all line_ok ls" "length ls < MAX_HEADERS" "ls \<noteq> []" "partial_request s ls w b"
    "length (request_text ls) \<le> MAX_HEADER_BUFFER_SIZE"
  obtains m' hs e w' where "http_onData E isServer s (wr m a b) a (length b) w = request_parsed E isServer s m' hs e w'"
    "collects s w w'" "list_all2 (header_of m' e) ls hs"
proof (rule complete_head_onData [OF assms(1-4), where early = "[]" and E = E and isServer = isServer and m = m and a = a])
  fix v x c len m' hs w'
  assume "http_onData E isServer s (wr m a (b @ [])) a (length (b @ [])) w = http_loop E isServer s v x (c + length ([] :: byte list)) len w'"
    "getHeaders MAX_HEADERS True v x (c + length ([] :: byte list)) [] = Some (m', Some (c, hs))" "list_all2 (header_of m' c) ls hs" "collects s w (parsed_in_place s m' w')"
  then show thesis by (intro that [of m' hs c "parsed_in_place s m' w'"]) (simp_all add: http_loop_parsed)
qed (use assms(5) in simp)

text \<open>Reads into the receive buffer, over arbitrary other contents.\<close>

fun http_reads :: "env \<Rightarrow> bool \<Rightarrow> nat \<Rightarrow> (mem \<times> byte list) list \<Rightarrow> world \<Rightarrow> (nat \<times> world) option" where
  "http_reads E isServer s [] w = Some (s, w)"
| "http_reads E isServer s ((m, b) # reads) w =
     do { (t, w) \<leftarrow> http_onData E isServer s (wr m (recv_buffer E) b) (recv_buffer E) (length b) w;
          http_reads E isServer t reads w }"

lemma http_reads_collect:
  assumes "list_all line_ok ls" "length ls < MAX_HEADERS" "length (request_text ls) \<le> MAX_HEADER_BUFFER_SIZE" "rest \<noteq> []"
  shows "partial_request s ls w (concat (map snd reads) @ rest) \<Longrightarrow>
    \<exists>w'. http_reads E isServer s reads w = Some (s, w') \<and> partial_request s ls w' rest \<and> collects s w w'"
proof (induction reads arbitrary: w)
  case Nil
  then show ?case by (simp add: collects_refl)
next
  case (Cons mb reads)
  obtain m b where mb: "mb = (m, b)" by (cases mb)
  from Cons.prems have "partial_request s ls w (b @ concat (map snd reads) @ rest)" by (simp add: mb)
  then obtain w1 where w1: "http_onData E isServer s (wr m (recv_buffer E) b) (recv_buffer E) (length b) w = Some (s, w1)"
    "partial_request s ls w1 (concat (map snd reads) @ rest)" "collects s w w1"
    using partial_request_onData [OF assms(1,2) _ _ assms(3)] assms(4) by (metis append_is_Nil_conv)
  from Cons.IH [OF w1(2)] show ?case using w1(1) collects_trans [OF w1(3)] by (auto simp: mb)
qed

lemma parse_any_cut:
  assumes "list_all line_ok ls" "ls \<noteq> []" "length ls < MAX_HEADERS" "length (request_text ls) \<le> MAX_HEADER_BUFFER_SIZE"
    and "httpBuffer (socks w s) = []" "contentLength (socks w s) = 0"
    and "concat (map snd reads) @ b = request_text ls" "b \<noteq> []"
  obtains w1 w2 m' hs e where "http_reads E isServer s reads w = Some (s, w1)"
    "http_onData E isServer s (wr m (recv_buffer E) b) (recv_buffer E) (length b) w1 = request_parsed E isServer s m' hs e w2"
    "collects s w w2" "list_all2 (header_of m' e) ls hs" "collects s w w1"
proof -
  have "partial_request s ls w (concat (map snd reads) @ b)"
    using assms(5-7) lowered_refl [OF assms(1)] by (auto simp: partial_request_def)
  from http_reads_collect [OF assms(1,3,4,8) this]
  obtain w1 where w1: "http_reads E isServer s reads w = Some (s, w1)" "partial_request s ls w1 b" "collects s w w1" by blast
  obtain m' hs e w2 where "http_onData E isServer s (wr m (recv_buffer E) b) (recv_buffer E) (length b) w1 = request_parsed E isServer s m' hs e w2"
    "collects s w1 w2" "list_all2 (header_of m' e) ls hs"
    using complete_request_onData [OF assms(1,3,2) w1(2) assms(4)] .
  with w1 show thesis using collects_trans that by blast
qed

section \<open>Property\<close>

text \<open>
  A request is parsed alike however it is cut. Take any request of a request line and fewer than
  \<open>MAX_HEADERS - 1\<close> header lines and at most \<open>MAX_HEADER_BUFFER_SIZE\<close> bytes, cut into reads anywhere, even
  inside a key or between a carriage return and its line feed. Every read but the last only adds to
  \<open>httpBuffer\<close> (and corks the socket); nothing else changes and no handler is called. The last one finds
  all lines of the request, keys in lower case and values as they were sent, and goes on with them
  exactly as it does when the whole request is in one read (\<open>request_parsed\<close>).
\<close>

theorem request_any_cut:
  assumes "list_all line_ok ls" "ls \<noteq> []" "length ls < MAX_HEADERS" "length (request_text ls) \<le> MAX_HEADER_BUFFER_SIZE"
    and "httpBuffer (socks w s) = []" "contentLength (socks w s) = 0"
    and "concat (map snd reads) @ b = request_text ls" "b \<noteq> []"
  shows "\<exists>w1 w2 m' hs e. http_reads E isServer s reads w = Some (s, w1) \<and> collects s w w1 \<and>
    http_onData E isServer s (wr m (recv_buffer E) b) (recv_buffer E) (length b) w1 = request_parsed E isServer s m' hs e w2 \<and>
    collects s w w2 \<and> list_all2 (header_of m' e) ls hs"
  using parse_any_cut [OF assms] by metis

text \<open>The sample request, with its first line cut after the method, and the rest between carriage return and line feed.\<close>

theorem request_any_cut_witness:
  "\<exists>w1 w2 m' hs e. http_reads env0 True 4 [(\<lambda>i. 7, take 4 (request_text sample_lines)), (\<lambda>i. 9, take 18 (drop 4 (request_text sample_lines)))] world0
      = Some (4, w1) \<and>
    http_onData env0 True 4 (wr (\<lambda>i. 0) 13 (drop 22 (request_text sample_lines))) 13 (length (drop 22 (request_text sample_lines))) w1 =
      request_parsed env0 True 4 m' hs e w2 \<and> list_all2 (header_of m' e) sample_lines hs"
proof -
  let ?t = "request_text sample_lines"
  have "take 4 ?t @ take 18 (drop 4 ?t) @ drop 22 ?t = ?t" by (simp add: sample_lines_def request_text_def line_text_def)
  then have "concat (map snd [(\<lambda>i. 7 :: byte, take 4 ?t), (\<lambda>i. 9, take 18 (drop 4 ?t))]) @ drop 22 ?t = ?t" by simp
  moreover have "sample_lines \<noteq> []" "length sample_lines < MAX_HEADERS" "length ?t \<le> MAX_HEADER_BUFFER_SIZE" "drop 22 ?t \<noteq> []"
    by (simp_all add: sample_lines_def request_text_def line_text_def MAX_HEADERS_def MAX_HEADER_BUFFER_SIZE_def)
  moreover have "httpBuffer (socks world0 4) = []" "contentLength (socks world0 4) = 0" "recv_buffer env0 = 13"
    by (simp_all add: world0_def sock0_def env0_def)
  ultimately show ?thesis
    using request_any_cut [OF sample_lines_ok, of world0 4 "[(\<lambda>i. 7, take 4 ?t), (\<lambda>i. 9, take 18 (drop 4 ?t))]" "drop 22 ?t" env0 True "\<lambda>i. 0"]
    by metis
qed

end
