(* ===== verification/Upgrade.thy ===== *)
theory Upgrade
  imports HttpChunks Serving EndToEnd
begin

text \<open>
  The handshake on the server: an HTTP socket whose peer asks for an upgrade writes the response and
  becomes a WebSocket, which takes its place in the group with its descriptor and what is still to
  be sent.
\<close>

section \<open>Writing the response\<close>

text \<open>The system never takes all of \<open>r\<close> at once; what is written then is queued.\<close>

definition short_sends :: "env \<Rightarrow> byte list \<Rightarrow> bool" where
  "short_sends E r \<longleftrightarrow> (\<forall>tr fd d. sys_send E tr fd d < int (length r))"

lemma write_short:
  assumes "send_contract E" "short_sends E (m_data m)" "s_ssl (socks w s) = None" "sock_write E s m w = (ok, moved, w')"
  shows "moved"
proof -
  have "sys_would_block E tr" "sys_send E tr fd d \<noteq> int (length (m_data m))" for tr fd d
    using assms(1,2) by (auto simp: send_contract_def short_sends_def order_less_imp_not_eq)
  then show ?thesis
    using assms(3,4) by (auto simp: sock_write_def write_plain_def push_transferred_def Let_def split: if_splits)
qed

text \<open>The system takes all of \<open>r\<close> at once; then nothing is queued.\<close>

definition sends_whole :: "env \<Rightarrow> byte list \<Rightarrow> bool" where
  "sends_whole E r \<longleftrightarrow> (\<forall>tr fd. sys_send E tr fd r = int (length r))"

lemma write_whole:
  assumes "sends_whole E (m_data m)" "s_ssl (socks w s) = None" "s_queue (socks w s) = []" "sock_write E s m w = (ok, moved, w')"
  shows "\<not> moved" "s_queue (socks w' s) = []"
  using assms by (auto simp: sock_write_def write_plain_def sends_whole_def Let_def hasEmptyQueue_def access split: if_splits)

lemma upgrade_stream:
  assumes "send_contract E" "plain_sock (socks w s)" "upgrade E True s k ext sub w = (pmd, w')"
  shows "plain_sock (socks w' s)" "s_fd (socks w' s) = s_fd (socks w s)"
    "stream w' s = stream w s @ fst (upgrade_response (sha1 E) (extensionOptions (sock_group w s)) k ext sub)"
    "pmd = snd (upgrade_response (sha1 E) (extensionOptions (sock_group w s)) k ext sub)"
    "short_sends E (fst (upgrade_response (sha1 E) (extensionOptions (sock_group w s)) k ext sub)) \<Longrightarrow> s_queue (socks w' s) \<noteq> []"
    "sends_whole E (fst (upgrade_response (sha1 E) (extensionOptions (sock_group w s)) k ext sub)) \<Longrightarrow> s_queue (socks w s) = [] \<Longrightarrow>
      s_queue (socks w' s) = []"
proof -
  define b where "b = fst (upgrade_response (sha1 E) (extensionOptions (sock_group w s)) k ext sub)"
  define a w1 where "a = fst (allocMessage (length b) w)" and "w1 = snd (allocMessage (length b) w)"
  obtain ok moved w2 where w2: "sock_write E s (new_message a b) w1 = (ok, moved, w2)"
    by (cases "sock_write E s (new_message a b) w1") auto
  have u: "pmd = snd (upgrade_response (sha1 E) (extensionOptions (sock_group w s)) k ext sub)"
    "w' = (if ok then if \<not> moved then freeMessage a w2 else set_callback s None 0 0 w2 else freeMessage a w2)"
    using assms(3) w2 by (simp_all add: upgrade_def upgrade_message_def Let_def case_prod_beta b_def w1_def a_def split: if_splits)
  have w1: "plain_sock (socks w1 s)" "stream w1 s = stream w s" "s_fd (socks w1 s) = s_fd (socks w s)"
    using assms(2) stream_cong [where w' = w1 and w = w and s = s] by (simp_all add: w1_def)
  have r: "ok" "plain_sock (socks w2 s)" "stream w2 s = stream w1 s @ b" "s_fd (socks w2 s) = s_fd (socks w1 s)"
    "moved \<Longrightarrow> s_queue (socks w2 s) \<noteq> []"
    using write_stream [OF assms(1) w1(1) _ w2] by (auto simp: new_message_def user_cb_def)
  show "plain_sock (socks w' s)" "s_fd (socks w' s) = s_fd (socks w s)" "stream w' s = stream w s @ b"
    using u(2) r w1 set_callback_frame [where w = w2 and s = s] stream_cong [where w' = "freeMessage a w2" and w = w2 and s = s]
    by (auto simp: user_cb_None stream_def split: if_splits)
  show "pmd = snd (upgrade_response (sha1 E) (extensionOptions (sock_group w s)) k ext sub)" by (rule u(1))
  { assume "short_sends E b"
    then have "moved" using write_short [OF assms(1) _ _ w2] w1(1) by (simp add: new_message_def plain_sock_def)
    then show "s_queue (socks w' s) \<noteq> []" using u(2) r(1) by (simp add: set_callback_def access) }
  assume "sends_whole E b" "s_queue (socks w s) = []"
  then have "\<not> moved" "s_queue (socks w2 s) = []"
    using write_whole [OF _ _ _ w2] w1(1) by (simp_all add: new_message_def plain_sock_def w1_def)
  then show "s_queue (socks w' s) = []" using u(2) by (simp split: if_splits)
qed

text \<open>Nothing else changes but what every write changes.\<close>

context write_frame begin

lemma upgrade_absorbed: "upgrade E True s k ext sub w = (pmd, w') \<Longrightarrow> Q w w'"
proof -
  assume u: "upgrade E True s k ext sub w = (pmd, w')"
  define b where "b = fst (upgrade_response (sha1 E) (extensionOptions (sock_group w s)) k ext sub)"
  define a w1 where "a = fst (allocMessage (length b) w)" and "w1 = snd (allocMessage (length b) w)"
  obtain ok moved w2 where w2: "sock_write E s (new_message a b) w1 = (ok, moved, w2)"
    by (cases "sock_write E s (new_message a b) w1") auto
  have "w' = freeMessage a w2 \<or> w' = set_callback s None 0 0 w2"
    using u w2 by (simp add: upgrade_def upgrade_message_def Let_def case_prod_beta b_def w1_def a_def split: if_splits)
  moreover have "Q w w2" using chain [OF allocs(2) wrote] w2 unfolding w1_def by (metis snd_conv)
  ultimately show "Q w w'" using chain allocs(4) queues(2) by metis
qed

end

definition lists_kept :: "world \<Rightarrow> world \<Rightarrow> bool" where
  "lists_kept w w' \<longleftrightarrow> (\<forall>t. (socks w' t)\<lparr>s_queue := [], s_poll := 0\<rparr> = (socks w t)\<lparr>s_queue := [], s_poll := 0\<rparr>) \<and>
     (\<forall>g. (groups w' g)\<lparr>changePollQueue := []\<rparr> = (groups w g)\<lparr>changePollQueue := []\<rparr>) \<and> fresh w' = fresh w"

interpretation lists_frame: write_frame lists_kept s
  by unfold_locales (auto simp: lists_kept_def access upd_pool_def)

section \<open>From one list to the other\<close>

text \<open>A socket without its place in a list.\<close>

definition unlinked :: "sock \<Rightarrow> sock" where
  "unlinked x = x\<lparr>s_next := None, s_prev := None\<rparr>"

lemma link_frame:
  "unlinked (socks (set_next a n w) t) = unlinked (socks w t)" "unlinked (socks (set_prev a n w) t) = unlinked (socks w t)"
  "t \<noteq> a \<Longrightarrow> socks (set_next a n w) t = socks w t" "t \<noteq> a \<Longrightarrow> socks (set_prev a n w) t = socks w t"
  "groups (set_next a n w) = groups w" "groups (set_prev a n w) = groups w"
  "trace (set_next a n w) = trace w" "trace (set_prev a n w) = trace w"
  "fresh (set_next a n w) = fresh w" "fresh (set_prev a n w) = fresh w"
  by (simp_all add: set_next_def set_prev_def access unlinked_def)

lemma timer_frame:
  "socks (timer_close i (timer_stop j w)) = socks w" "groups (timer_close i (timer_stop j w)) = groups w"
  "fresh (timer_close i (timer_stop j w)) = fresh w" "sent_on fd (trace (timer_close i (timer_stop j w))) = sent_on fd (trace w)"
  by (simp_all add: timer_close_def timer_stop_def access sent_ev_def)

lemma move_iterator_fresh: "fresh (move_iterator g n w) = fresh w" "g_maxPayload (groups (move_iterator g n w) k) = g_maxPayload (groups w k)"
  by (simp_all add: move_iterator_def access)

lemma removeHttpSocket_frame:
  "unlinked (socks (removeHttpSocket g s w) t) = unlinked (socks w t)"
  "webSocketHead (groups (removeHttpSocket g s w) k) = webSocketHead (groups w k)"
  "g_maxPayload (groups (removeHttpSocket g s w) k) = g_maxPayload (groups w k)"
  "fresh (removeHttpSocket g s w) = fresh w" "sent_on fd (trace (removeHttpSocket g s w)) = sent_on fd (trace w)"
  by (simp_all add: removeHttpSocket_def link_frame timer_frame move_iterator_fresh access Let_def split: option.split)

lemma removeHttpSocket_other:
  assumes "http_list w g hs" "s \<in> set hs" "t \<notin> set hs"
  shows "s_next (socks (removeHttpSocket g s w) t) = s_next (socks w t)" "s_prev (socks (removeHttpSocket g s w) t) = s_prev (socks w t)"
proof -
  obtain as bs where hs: "hs = as @ s # bs" using assms(2) by (meson split_list)
  have l: "linked_list (socks w) None (httpSocketHead (groups w g)) (as @ s # bs)" using assms(1) hs by (simp add: http_list_def)
  have ends: "s_prev (socks w s) \<noteq> Some s" "s_next (socks w s) \<noteq> Some s"
    using linked_ends(2,3) [OF l] assms(1) hs by (auto simp: http_list_def)
  have "s_prev (socks w s) \<noteq> Some t" "s_next (socks w s) \<noteq> Some t"
    using linked_list_prev [OF l] linked_list_next [OF l] assms(3) hs by (auto split: if_splits)
  then have "socks (removeHttpSocket g s w) t = socks w t"
    using ends by (auto simp: removeHttpSocket_def link_frame timer_frame access Let_def split: option.split)
  then show "s_next (socks (removeHttpSocket g s w) t) = s_next (socks w t)" "s_prev (socks (removeHttpSocket g s w) t) = s_prev (socks w t)"
    by simp_all
qed

lemma removeHttpSocket_ws_list:
  assumes "http_list w g hs" "s \<in> set hs" "ws_list w g xs" "set hs \<inter> set xs = {}"
  shows "ws_list (removeHttpSocket g s w) g xs"
proof -
  have "s_next (socks (removeHttpSocket g s w) t) = s_next (socks w t) \<and> s_prev (socks (removeHttpSocket g s w) t) = s_prev (socks w t)"
    if "t \<in> set xs" for t using removeHttpSocket_other [OF assms(1,2)] that assms(4) by blast
  then show ?thesis
    using assms(3) linked_list_cong [of xs "socks w" "socks (removeHttpSocket g s w)"]
    by (simp add: ws_list_def removeHttpSocket_frame(2))
qed

text \<open>The new object: the socket part is copied.\<close>

definition websocket_of :: "bool \<Rightarrow> sock \<Rightarrow> sock" where
  "websocket_of pmd x = x\<lparr>s_deleted := False, fragmentBuffer := [], compressionStatus := (if pmd then ENABLED else DISABLED),
     controlTipLength := 0, hasOutstandingPong := False, slidingDeflateWindow := None, s_ws := State_init (s_ws x)\<rparr>"

lemma ctor_frame:
  "fst (WebSocket_ctor E pmd s w) = fresh w" "groups (snd (WebSocket_ctor E pmd s w)) = groups w"
  "t \<noteq> fresh w \<Longrightarrow> socks (snd (WebSocket_ctor E pmd s w)) t = socks w t"
  "(socks (snd (WebSocket_ctor E pmd s w)) (fresh w))\<lparr>slidingDeflateWindow := None\<rparr> = websocket_of pmd (socks w s)"
  "trace (snd (WebSocket_ctor E pmd s w)) = trace w"
  by (simp_all add: WebSocket_ctor_def new_id_def Let_def allocateDefaultCompressor_def set_stream_def upd_sock_def websocket_of_def)

lemma addWebSocket_frame:
  "unlinked (socks (addWebSocket g s w) t) = unlinked (socks w t)"
  "httpSocketHead (groups (addWebSocket g s w) k) = httpSocketHead (groups w k)"
  "g_maxPayload (groups (addWebSocket g s w) k) = g_maxPayload (groups w k)" "trace (addWebSocket g s w) = trace w"
  by (simp_all add: addWebSocket_def link_frame access Let_def split: option.split)

lemma addWebSocket_other:
  "t \<noteq> s \<Longrightarrow> webSocketHead (groups w g) \<noteq> Some t \<Longrightarrow> socks (addWebSocket g s w) t = socks w t"
  by (auto simp: addWebSocket_def link_frame access Let_def split: option.split)

lemma state_frame:
  "t \<noteq> s \<Longrightarrow> socks (change_to s p (setState a b s w)) t = socks w t" "groups (change_to s p (setState a b s w)) = groups w"
  "s_ssl (socks w s) = None \<Longrightarrow> socks (change_to s p (setState True b s w)) s = (socks w s)\<lparr>s_cb := Io_ws b, s_poll := p\<rparr>"
  "sent_on fd (trace (change_to s p (setState a b s w))) = sent_on fd (trace w)"
  by (simp_all add: change_to_def setState_def set_cb_def setPoll_def poll_change_def access Let_def)

text \<open>The lists only depend on the links and the heads.\<close>

lemma list_frame:
  assumes "\<And>t. t \<in> set xs \<Longrightarrow> s_next (socks w' t) = s_next (socks w t) \<and> s_prev (socks w' t) = s_prev (socks w t)"
  shows "webSocketHead (groups w' g) = webSocketHead (groups w g) \<Longrightarrow> ws_list w g xs \<Longrightarrow> ws_list w' g xs"
    "httpSocketHead (groups w' g) = httpSocketHead (groups w g) \<Longrightarrow> http_list w g xs \<Longrightarrow> http_list w' g xs"
  using linked_list_cong [of xs "socks w" "socks w'"] assms by (simp_all add: ws_list_def http_list_def)

text \<open>What is done to the socket between the response and the application's connection handler.\<close>

definition become_websocket :: "env \<Rightarrow> bool \<Rightarrow> nat \<Rightarrow> world \<Rightarrow> nat \<times> world" where
  "become_websocket E pmd s w =
     (let (ws, w) = WebSocket_ctor E pmd s (removeHttpSocket (s_node (socks w s)) s w);
          w = change_to ws UV_READABLE (setState True True ws w)
      in (ws, cork ws True (addWebSocket (s_node (socks w ws)) ws w)))"

lemma become_websocket_eq:
  assumes "become_websocket E pmd s w = (ws, w')" "s_ssl (socks w s) = None"
  obtains v where "ws = fresh w" "w' = cork ws True (addWebSocket (s_node (socks w s)) ws v)"
    "\<And>t. t \<noteq> ws \<Longrightarrow> socks v t = socks (removeHttpSocket (s_node (socks w s)) s w) t"
    "groups v = groups (removeHttpSocket (s_node (socks w s)) s w)"
    "unlinked ((socks v ws)\<lparr>slidingDeflateWindow := None\<rparr>) =
      unlinked ((websocket_of pmd (socks w s))\<lparr>s_cb := Io_ws True, s_poll := UV_READABLE\<rparr>)"
    "\<And>fd. sent_on fd (trace v) = sent_on fd (trace w)"
proof -
  let ?g = "s_node (socks w s)"
  define r where "r = removeHttpSocket ?g s w"
  define c where "c = snd (WebSocket_ctor E pmd s r)"
  define v where "v = change_to (fresh w) UV_READABLE (setState True True (fresh w) c)"
  note rf = removeHttpSocket_frame [where g = ?g and s = s and w = w, folded r_def]
  note cf = ctor_frame [where E = E and pmd = pmd and s = s and w = r, folded c_def, unfolded rf(4)]
  have s_r: "unlinked (socks r s) = unlinked (socks w s)" by (rule rf(1))
  then have same: "s_ssl (socks r s) = None" "s_node (socks r s) = ?g"
    using assms(2) by (cases "socks r s"; cases "socks w s"; simp add: unlinked_def)+
  have "s_ssl (socks c (fresh w)) = s_ssl (socks r s)" "s_node (socks c (fresh w)) = s_node (socks r s)"
    using cf(4) by (cases "socks c (fresh w)"; cases "socks r s"; simp add: websocket_of_def)+
  with same have ssl: "s_ssl (socks c (fresh w)) = None" and node: "s_node (socks c (fresh w)) = ?g" by simp_all
  have vs: "socks v (fresh w) = (socks c (fresh w))\<lparr>s_cb := Io_ws True, s_poll := UV_READABLE\<rparr>"
    unfolding v_def by (rule state_frame(3) [OF ssl])
  have "become_websocket E pmd s w = (fresh w, cork (fresh w) True (addWebSocket (s_node (socks v (fresh w))) (fresh w) v))"
    using cf(1) by (simp add: become_websocket_def Let_def case_prod_beta r_def [symmetric] c_def [symmetric] v_def)
  moreover have "s_node (socks v (fresh w)) = ?g" using node by (simp add: vs)
  moreover have "unlinked ((socks v (fresh w))\<lparr>slidingDeflateWindow := None\<rparr>) =
      unlinked ((websocket_of pmd (socks w s))\<lparr>s_cb := Io_ws True, s_poll := UV_READABLE\<rparr>)"
    using cf(4) s_r unfolding vs
    by (cases "socks c (fresh w)"; cases "socks r s"; cases "socks w s"; simp add: unlinked_def websocket_of_def)
  ultimately show thesis
    using assms(1) cf(2,3,5) state_frame(1,2,4) rf(5)
    by (intro that [of v]) (simp_all add: v_def r_def [symmetric])
qed

lemma become_websocket_lists:
  assumes b: "become_websocket E pmd s w = (ws, w')" "s_ssl (socks w s) = None" and g: "s_node (socks w s) = g"
    and lists: "http_list w g hs" "s \<in> set hs" "ws_list w g xs" "set hs \<inter> set xs = {}" "list_all (\<lambda>x. x < fresh w) (hs @ xs)"
  shows "ws_list w' g (ws # xs)" "http_list w' g (removeAll s hs)"
proof -
  obtain v where v: "ws = fresh w" "w' = cork ws True (addWebSocket g ws v)"
    "\<And>t. t \<noteq> ws \<Longrightarrow> socks v t = socks (removeHttpSocket g s w) t" "groups v = groups (removeHttpSocket g s w)"
    using become_websocket_eq [OF b] g by metis
  have old: "t \<in> set hs \<union> set xs \<Longrightarrow> t \<noteq> ws" for t using lists(5) v(1) by (auto simp: list_all_iff)
  have vl: "ws_list v g xs" "http_list v g (removeAll s hs)"
    using list_frame(1) [of xs v "removeHttpSocket g s w" g] list_frame(2) [of "removeAll s hs" v "removeHttpSocket g s w" g]
      removeHttpSocket_ws_list [OF lists(1-4)] removeHttpSocket_list [OF lists(1,2)] v(3,4) old by simp_all
  have "ws_list (addWebSocket g ws v) g (ws # xs)" using vl(1) old by (intro addWebSocket_list) auto
  then show "ws_list w' g (ws # xs)" by (simp add: v(2) ws_list_def cork_def access)
  have "webSocketHead (groups v g) = (if xs = [] then None else Some (hd xs))"
    using vl(1) by (auto simp: ws_list_def dest: linked_list_head)
  then have "t \<in> set (removeAll s hs) \<Longrightarrow> socks (addWebSocket g ws v) t = socks v t" for t
    using old lists(4) by (intro addWebSocket_other) auto
  then have "http_list (addWebSocket g ws v) g (removeAll s hs)"
    by (intro list_frame(2) [OF _ _ vl(2)]) (simp_all add: addWebSocket_frame)
  then show "http_list w' g (removeAll s hs)" by (simp add: v(2) http_list_def cork_def access)
qed

lemma become_websocket_sock:
  assumes b: "become_websocket E pmd s w = (ws, w')" "s_ssl (socks w s) = None"
  shows "ws = fresh w" "s_fd (socks w' ws) = s_fd (socks w s)" "s_cb (socks w' ws) = Io_ws True" "s_poll (socks w' ws) = UV_READABLE"
    "s_queue (socks w' ws) = s_queue (socks w s)" "s_ssl (socks w' ws) = None" "s_shutting (socks w' ws) = s_shutting (socks w s)"
    "s_node (socks w' ws) = s_node (socks w s)" "s_ws (socks w' ws) = State_init (s_ws (socks w s))"
    "fragmentBuffer (socks w' ws) = []" "controlTipLength (socks w' ws) = 0" "compressionStatus (socks w' ws) = (if pmd then ENABLED else DISABLED)"
    "stream w' ws = stream w s" "g_maxPayload (groups w' g) = g_maxPayload (groups w g)"
proof -
  obtain v where v: "ws = fresh w" "w' = cork ws True (addWebSocket (s_node (socks w s)) ws v)"
    "groups v = groups (removeHttpSocket (s_node (socks w s)) s w)"
    "unlinked ((socks v ws)\<lparr>slidingDeflateWindow := None\<rparr>) =
      unlinked ((websocket_of pmd (socks w s))\<lparr>s_cb := Io_ws True, s_poll := UV_READABLE\<rparr>)"
    "\<And>fd. sent_on fd (trace v) = sent_on fd (trace w)"
    using become_websocket_eq [OF b] by metis
  have u: "unlinked (socks w' ws) = unlinked (socks v ws)" by (simp add: v(2) cork_def access addWebSocket_frame)
  have x: "unlinked ((socks w' ws)\<lparr>slidingDeflateWindow := None\<rparr>) =
      unlinked ((websocket_of pmd (socks w s))\<lparr>s_cb := Io_ws True, s_poll := UV_READABLE\<rparr>)"
  proof -
    have "unlinked (y\<lparr>slidingDeflateWindow := None\<rparr>) = (unlinked y)\<lparr>slidingDeflateWindow := None\<rparr>" for y by (simp add: unlinked_def)
    then show ?thesis using u v(4) by simp
  qed
  note field = arg_cong [OF x]
  show "ws = fresh w" by (rule v(1))
  show f: "s_fd (socks w' ws) = s_fd (socks w s)" "s_cb (socks w' ws) = Io_ws True" "s_poll (socks w' ws) = UV_READABLE"
    "s_queue (socks w' ws) = s_queue (socks w s)" "s_ssl (socks w' ws) = None" "s_shutting (socks w' ws) = s_shutting (socks w s)"
    "s_node (socks w' ws) = s_node (socks w s)" "s_ws (socks w' ws) = State_init (s_ws (socks w s))"
    "fragmentBuffer (socks w' ws) = []" "controlTipLength (socks w' ws) = 0" "compressionStatus (socks w' ws) = (if pmd then ENABLED else DISABLED)"
    using field [of s_fd] field [of s_cb] field [of s_poll] field [of s_queue] field [of s_ssl] field [of s_shutting]
      field [of s_node] field [of s_ws] field [of fragmentBuffer] field [of controlTipLength] field [of compressionStatus]
      assms(2) by (simp_all add: unlinked_def websocket_of_def)
  show "stream w' ws = stream w s"
    using v(5) by (simp add: stream_def queued_def f(1,4)) (simp add: v(2) cork_def access addWebSocket_frame)
  show "g_maxPayload (groups w' g) = g_maxPayload (groups w g)"
    by (simp add: v(2,3) cork_def access addWebSocket_frame removeHttpSocket_frame)
qed

section \<open>The request is answered\<close>

lemma http_upgrade_request_eq:
  assumes "httpUpgradeHandler E (s_node (socks w s)) = None" "valueLength (getHeader m req (ascii ''sec-websocket-key'')) = 24"
    "upgrade E True s (header_value m (getHeader m req (ascii ''sec-websocket-key'')))
       (header_value m (getHeader m req (ascii ''sec-websocket-extensions'')))
       (header_value m (getHeader m req (ascii ''sec-websocket-protocol''))) w = (pmd, w')"
    "s_node (socks w' s) = s_node (socks w s)" "become_websocket E pmd s w' = (ws, w2)"
  shows "http_upgrade_request E s m req w =
    map_option (\<lambda>v. (ws, delete_socket s (cork ws False v))) (connectionHandler E (s_node (socks w2 ws)) ws (m, req) w2)"
proof -
  define c where "c = WebSocket_ctor E pmd s (removeHttpSocket (s_node (socks w s)) s w')"
  define v where "v = change_to ws UV_READABLE (setState True True ws (snd c))"
  have ws: "fst c = ws" and w2: "w2 = cork ws True (addWebSocket (s_node (socks v ws)) ws v)"
    using assms(4,5) by (auto simp: become_websocket_def Let_def case_prod_beta c_def v_def)
  have "x \<bind> (\<lambda>w. Some (ws, f w)) = map_option (\<lambda>v. (ws, f v)) x" for x :: "world option" and f by (cases x) simp_all
  then show ?thesis
    using assms(1-3) ws
    by (simp add: http_upgrade_request_def Let_def case_prod_beta c_def [symmetric] v_def [symmetric] w2 del: ascii_simps)
qed

text \<open>The socket as the application sees it first, when the response was (or could not be) sent.\<close>

lemma request_upgrades:
  assumes E: "send_contract E" "httpUpgradeHandler E g = None"
    and s: "plain_sock (socks w s)" "s_node (socks w s) = g"
    and lists: "http_list w g hs" "s \<in> set hs" "ws_list w g xs" "set hs \<inter> set xs = {}" "list_all (\<lambda>x. x < fresh w) (hs @ xs)"
    and parsed: "list_all2 (header_of m e) ls req" "find (line_key_is (ascii ''upgrade'')) (tl ls) \<noteq> None"
      "length (field (ascii ''sec-websocket-key'') ls) = 24"
  obtains ws w2 w3 pmd where
    "request_parsed E True s m req e w =
       map_option (\<lambda>v. (ws, delete_socket s (cork ws False v))) (connectionHandler E g ws (m, Some (trim_version req)) w2)"
    "ws_list w2 g (ws # xs)" "http_list w2 g (removeAll s hs)" "become_websocket E pmd s w3 = (ws, w2)"
    "plain_sock (socks w3 s)" "lists_kept (upd_sock s (\<lambda>x. x\<lparr>missedDeadline := False\<rparr>) w) w3"
    "stream w3 s = stream w s @ fst (upgrade_response (sha1 E) (extensionOptions (groups w g)) (field (ascii ''sec-websocket-key'') ls)
       (field (ascii ''sec-websocket-extensions'') ls) (field (ascii ''sec-websocket-protocol'') ls))"
    "short_sends E (fst (upgrade_response (sha1 E) (extensionOptions (groups w g)) (field (ascii ''sec-websocket-key'') ls)
       (field (ascii ''sec-websocket-extensions'') ls) (field (ascii ''sec-websocket-protocol'') ls))) \<longrightarrow> s_queue (socks w3 s) \<noteq> []"
    "sends_whole E (fst (upgrade_response (sha1 E) (extensionOptions (groups w g)) (field (ascii ''sec-websocket-key'') ls)
       (field (ascii ''sec-websocket-extensions'') ls) (field (ascii ''sec-websocket-protocol'') ls))) \<longrightarrow>
       s_queue (socks w s) = [] \<longrightarrow> s_queue (socks w3 s) = []"
proof -
  define w0 where "w0 = upd_sock s (\<lambda>x. x\<lparr>missedDeadline := False\<rparr>) w"
  note hv = header_value_render [OF parsed(1)]
  let ?k = "field (ascii ''sec-websocket-key'') ls" and ?x = "field (ascii ''sec-websocket-extensions'') ls"
    and ?p = "field (ascii ''sec-websocket-protocol'') ls"
  obtain pmd w3 where u: "upgrade E True s ?k ?x ?p w0 = (pmd, w3)" by (cases "upgrade E True s ?k ?x ?p w0") auto
  obtain ws w2 where b: "become_websocket E pmd s w3 = (ws, w2)" by (cases "become_websocket E pmd s w3") auto
  have w0: "plain_sock (socks w0 s)" "s_node (socks w0 s) = g" "stream w0 s = stream w s" "groups w0 = groups w"
    "s_queue (socks w0 s) = s_queue (socks w s)"
    using s unfolding w0_def by (simp_all add: plain_sock_def stream_upd_sock access)
  note us = upgrade_stream [OF E(1) w0(1) u]
  have same: "lists_kept w0 w3" by (rule lists_frame.upgrade_absorbed [OF u])
  have "s_next (socks w3 t) = s_next (socks w0 t) \<and>
      s_prev (socks w3 t) = s_prev (socks w0 t) \<and> s_node (socks w3 t) = s_node (socks w0 t)" for t
  proof -
    have "(socks w3 t)\<lparr>s_queue := [], s_poll := 0\<rparr> = (socks w0 t)\<lparr>s_queue := [], s_poll := 0\<rparr>" using same by (simp add: lists_kept_def)
    from arg_cong [OF this, of s_next] arg_cong [OF this, of s_prev] arg_cong [OF this, of s_node] show ?thesis by simp
  qed
  moreover have "webSocketHead (groups w3 g) = webSocketHead (groups w0 g) \<and> httpSocketHead (groups w3 g) = httpSocketHead (groups w0 g)"
  proof -
    have "(groups w3 g)\<lparr>changePollQueue := []\<rparr> = (groups w0 g)\<lparr>changePollQueue := []\<rparr>" using same by (simp add: lists_kept_def)
    from arg_cong [OF this, of webSocketHead] arg_cong [OF this, of httpSocketHead] show ?thesis by simp
  qed
  moreover have "ws_list w0 g xs" "http_list w0 g hs" "fresh w3 = fresh w"
    using lists list_frame(1) [of xs w0 w g] list_frame(2) [of hs w0 w g] same by (simp_all add: w0_def access lists_kept_def)
  ultimately have l3: "http_list w3 g hs" "ws_list w3 g xs" "s_node (socks w3 s) = g" "list_all (\<lambda>x. x < fresh w3) (hs @ xs)"
    using list_frame(1) [of xs w3 w0 g] list_frame(2) [of hs w3 w0 g] w0(2) lists(5) by simp_all
  have ssl: "s_ssl (socks w3 s) = None" using us(1) by (simp add: plain_sock_def)
  note bl = become_websocket_lists [OF b ssl l3(3,1) lists(2) l3(2) lists(4) l3(4)]
  have node: "s_node (socks w2 ws) = g" using become_websocket_sock(8) [OF b ssl] l3(3) by simp
  have "request_parsed E True s m req e w = http_upgrade_request E s m (Some (trim_version req)) w0"
    using hv(3) parsed(2) by (simp add: request_parsed_def w0_def [symmetric] Let_def del: ascii_simps)
  also have "\<dots> = map_option (\<lambda>v. (ws, delete_socket s (cork ws False v))) (connectionHandler E g ws (m, Some (trim_version req)) w2)"
    using http_upgrade_request_eq [OF _ _ _ _ b, of w0 m "Some (trim_version req)"] E(2) w0(2) u parsed(3) l3(3) hv(1,2) node
    by (simp del: ascii_simps)
  finally show thesis
    using bl b us(1,3,5,6) same w0(3,4,5) s(2) w0(2) by (intro that [of ws w2 pmd w3]) (simp_all add: sock_group_def w0_def)
qed

lemma lists_kept_sock:
  assumes "lists_kept w w'"
  shows "s_fd (socks w' t) = s_fd (socks w t)" "s_shutting (socks w' t) = s_shutting (socks w t)"
    "s_node (socks w' t) = s_node (socks w t)" "s_ws (socks w' t) = s_ws (socks w t)"
    "g_maxPayload (groups w' g) = g_maxPayload (groups w g)"
proof -
  have s: "(socks w' t)\<lparr>s_queue := [], s_poll := 0\<rparr> = (socks w t)\<lparr>s_queue := [], s_poll := 0\<rparr>"
    and g: "(groups w' g)\<lparr>changePollQueue := []\<rparr> = (groups w g)\<lparr>changePollQueue := []\<rparr>"
    using assms by (simp_all add: lists_kept_def)
  show "s_fd (socks w' t) = s_fd (socks w t)" "s_shutting (socks w' t) = s_shutting (socks w t)"
    "s_node (socks w' t) = s_node (socks w t)" "s_ws (socks w' t) = s_ws (socks w t)"
    "g_maxPayload (groups w' g) = g_maxPayload (groups w g)"
    using arg_cong [OF s, of s_fd] arg_cong [OF s, of s_shutting] arg_cong [OF s, of s_node] arg_cong [OF s, of s_ws]
      arg_cong [OF g, of g_maxPayload] by simp_all
qed

text \<open>A server socket in its group, and a request that asks for the upgrade.\<close>

definition awaits_request :: "env \<Rightarrow> nat \<Rightarrow> nat \<Rightarrow> nat list \<Rightarrow> nat list \<Rightarrow> world \<Rightarrow> bool" where
  "awaits_request E g s hs xs w \<longleftrightarrow> httpUpgradeHandler E g = None \<and> plain_sock (socks w s) \<and> s_node (socks w s) = g \<and>
     \<not> isClosed w s \<and> \<not> isShuttingDown w s \<and> httpBuffer (socks w s) = [] \<and> contentLength (socks w s) = 0 \<and>
     http_list w g hs \<and> s \<in> set hs \<and> ws_list w g xs \<and> set hs \<inter> set xs = {} \<and> list_all (\<lambda>x. x < fresh w) (hs @ xs)"

definition upgrade_request :: "line list \<Rightarrow> bool" where
  "upgrade_request ls \<longleftrightarrow> list_all line_ok ls \<and> ls \<noteq> [] \<and> length ls < MAX_HEADERS \<and>
     length (request_text ls) \<le> MAX_HEADER_BUFFER_SIZE \<and> find (line_key_is (ascii ''upgrade'')) (tl ls) \<noteq> None \<and>
     length (field (ascii ''sec-websocket-key'') ls) = 24"

definition answer_to :: "env \<Rightarrow> 32 word \<Rightarrow> line list \<Rightarrow> byte list" where
  "answer_to E options ls = fst (upgrade_response (sha1 E) options (field (ascii ''sec-websocket-key'') ls)
     (field (ascii ''sec-websocket-extensions'') ls) (field (ascii ''sec-websocket-protocol'') ls))"

lemma collects_awaits:
  assumes "awaits_request E g s hs xs w" "collects s w v"
  shows "plain_sock (socks v s)" "s_node (socks v s) = g" "http_list v g hs" "ws_list v g xs" "list_all (\<lambda>x. x < fresh v) (hs @ xs)"
proof -
  note c = collects_frame [OF assms(2)]
  have l: "s_next (socks v t) = s_next (socks w t) \<and> s_prev (socks v t) = s_prev (socks w t)" for t
    by (subst (1 2) c(1)) simp
  show "plain_sock (socks v s)" "s_node (socks v s) = g"
    using assms(1) by (subst c(1), simp add: awaits_request_def plain_sock_def)+
  show "http_list v g hs" "ws_list v g xs" "list_all (\<lambda>x. x < fresh v) (hs @ xs)"
    using assms(1) list_frame(1) [of xs v w g] list_frame(2) [of hs v w g] l c(2,3) by (simp_all add: awaits_request_def)
qed

lemma upgrade_any_cut:
  assumes "send_contract E" "awaits_request E g s hs xs w" "upgrade_request ls" "concat (map snd reads) @ b = request_text ls" "b \<noteq> []"
  obtains w1 w2 w3 w4 ws m' req pmd where "http_reads E True s reads w = Some (s, w1)"
    "http_onData E True s (wr m (recv_buffer E) b) (recv_buffer E) (length b) w1 =
       map_option (\<lambda>v. (ws, delete_socket s (cork ws False v))) (connectionHandler E g ws (m', Some req) w2)"
    "ws_list w2 g (ws # xs)" "http_list w2 g (removeAll s hs)" "become_websocket E pmd s w3 = (ws, w2)" "plain_sock (socks w3 s)"
    "collects s w w4" "lists_kept (upd_sock s (\<lambda>x. x\<lparr>missedDeadline := False\<rparr>) w4) w3"
    "stream w3 s = stream w s @ answer_to E (extensionOptions (groups w g)) ls"
    "short_sends E (answer_to E (extensionOptions (groups w g)) ls) \<longrightarrow> s_queue (socks w3 s) \<noteq> []"
    "sends_whole E (answer_to E (extensionOptions (groups w g)) ls) \<longrightarrow> s_queue (socks w s) = [] \<longrightarrow> s_queue (socks w3 s) = []"
proof -
  have aw: "httpUpgradeHandler E g = None" "httpBuffer (socks w s) = []" "contentLength (socks w s) = 0" "s \<in> set hs" "set hs \<inter> set xs = {}"
    using assms(2) by (simp_all add: awaits_request_def)
  have ur: "list_all line_ok ls" "ls \<noteq> []" "length ls < MAX_HEADERS" "length (request_text ls) \<le> MAX_HEADER_BUFFER_SIZE"
    "find (line_key_is (ascii ''upgrade'')) (tl ls) \<noteq> None" "length (field (ascii ''sec-websocket-key'') ls) = 24"
    using assms(3) unfolding upgrade_request_def by blast+
  obtain w1 w4 m' hs' e where r: "http_reads E True s reads w = Some (s, w1)"
    "http_onData E True s (wr m (recv_buffer E) b) (recv_buffer E) (length b) w1 = request_parsed E True s m' hs' e w4"
    "collects s w w4" "list_all2 (header_of m' e) ls hs'"
    using parse_any_cut [OF ur(1-4) aw(2,3) assms(4,5)] .
  note c = collects_awaits [OF assms(2) r(3)]
  obtain ws w2 w3 pmd where "request_parsed E True s m' hs' e w4 =
       map_option (\<lambda>v. (ws, delete_socket s (cork ws False v))) (connectionHandler E g ws (m', Some (trim_version hs')) w2)"
    "ws_list w2 g (ws # xs)" "http_list w2 g (removeAll s hs)" "become_websocket E pmd s w3 = (ws, w2)"
    "plain_sock (socks w3 s)" "lists_kept (upd_sock s (\<lambda>x. x\<lparr>missedDeadline := False\<rparr>) w4) w3"
    "stream w3 s = stream w4 s @ fst (upgrade_response (sha1 E) (extensionOptions (groups w4 g)) (field (ascii ''sec-websocket-key'') ls)
       (field (ascii ''sec-websocket-extensions'') ls) (field (ascii ''sec-websocket-protocol'') ls))"
    "short_sends E (fst (upgrade_response (sha1 E) (extensionOptions (groups w4 g)) (field (ascii ''sec-websocket-key'') ls)
       (field (ascii ''sec-websocket-extensions'') ls) (field (ascii ''sec-websocket-protocol'') ls))) \<longrightarrow> s_queue (socks w3 s) \<noteq> []"
    "sends_whole E (fst (upgrade_response (sha1 E) (extensionOptions (groups w4 g)) (field (ascii ''sec-websocket-key'') ls)
       (field (ascii ''sec-websocket-extensions'') ls) (field (ascii ''sec-websocket-protocol'') ls))) \<longrightarrow>
       s_queue (socks w4 s) = [] \<longrightarrow> s_queue (socks w3 s) = []"
    using request_upgrades [OF assms(1) aw(1) c(1,2,3) aw(4) c(4) aw(5) c(5) r(4) ur(5,6)] .
  moreover have "s_queue (socks w4 s) = s_queue (socks w s)" by (subst collects_frame(1) [OF r(3)]) simp
  ultimately show thesis using that r collects_frame [OF r(3)] by (simp add: answer_to_def del: ascii_simps)
qed

section \<open>The new WebSocket\<close>

text \<open>What the WebSocket has of the HTTP socket it is made of.\<close>

lemma upgraded_socket:
  assumes "plain_sock (socks w3 s)" "become_websocket E pmd s w3 = (ws, w2)" "collects s w w4"
    and "lists_kept (upd_sock s (\<lambda>x. x\<lparr>missedDeadline := False\<rparr>) w4) w3" and w: "awaits_request E g s hs xs w"
  shows "s_fd (socks w2 ws) = s_fd (socks w s)" "s_cb (socks w2 ws) = Io_ws True" "s_node (socks w2 ws) = g"
    "stream w2 ws = stream w3 s" "s_ws (socks w2 ws) = State_init (s_ws (socks w s))"
    "fragmentBuffer (socks w2 ws) = []" "controlTipLength (socks w2 ws) = 0"
    "open_socket (g_maxPayload (groups w g)) ws w2" "s_queue (socks w2 ws) = s_queue (socks w3 s)"
    "s_poll (socks w2 ws) = UV_READABLE" "s_ssl (socks w2 ws) = None"
proof -
  let ?w0 = "upd_sock s (\<lambda>x. x\<lparr>missedDeadline := False\<rparr>) w4"
  have ssl: "s_ssl (socks w3 s) = None" using assms(1) by (simp add: plain_sock_def)
  note b = become_websocket_sock [OF assms(2) ssl]
  note c = collects_frame [OF assms(3)]
  have w0: "s_fd (socks ?w0 s) = s_fd (socks w s)" "s_shutting (socks ?w0 s) = s_shutting (socks w s)"
    "s_node (socks ?w0 s) = s_node (socks w s)" "s_ws (socks ?w0 s) = s_ws (socks w s)" "groups ?w0 = groups w"
    by (subst access, subst c(1), simp)+ (simp add: access c(2))
  note l = lists_kept_sock(1-4) [OF assms(4), of s, unfolded w0] lists_kept_sock(5) [OF assms(4), unfolded w0]
  show "s_fd (socks w2 ws) = s_fd (socks w s)" "s_cb (socks w2 ws) = Io_ws True" "s_node (socks w2 ws) = g"
    "stream w2 ws = stream w3 s" "s_ws (socks w2 ws) = State_init (s_ws (socks w s))"
    "fragmentBuffer (socks w2 ws) = []" "controlTipLength (socks w2 ws) = 0" "s_queue (socks w2 ws) = s_queue (socks w3 s)"
    "s_poll (socks w2 ws) = UV_READABLE" "s_ssl (socks w2 ws) = None"
    using b l w by (simp_all add: awaits_request_def)
  show "open_socket (g_maxPayload (groups w g)) ws w2"
    using b(2,7,8,12,14) l w
    by (simp add: open_socket_def isClosed_def isShuttingDown_def ws_maxPayload_def sock_group_def awaits_request_def)
qed

section \<open>Property\<close>

text \<open>
  C7: A server upgrades a connection, however the request is cut into reads. The request is well formed,
  has fewer than 100 lines, at most 4096 bytes, an upgrade header and a key of 24 bytes; the socket is
  plain, in its group's list of HTTP sockets, and the group has no handler of its own for upgrades; no
  \<open>send\<close> fails for good. Every read but the last collects. On the last read the response is
  appended to what the socket has to send; the socket leaves the list of HTTP sockets, and a new WebSocket
  heads the other list, with the same descriptor, the read callback of WebSockets and a fresh parser. It
  is this one the connection handler is called for, corked, and it is ready for frames if the response
  went out. What the socket had to send it still has to. The old object is deleted.
\<close>

theorem server_upgrades_connection:
  assumes "send_contract E" "awaits_request E g s hs xs w" "upgrade_request ls" "concat (map snd reads) @ b = request_text ls" "b \<noteq> []"
  shows "\<exists>w1 w2 ws m' req. http_reads E True s reads w = Some (s, w1) \<and>
    http_onData E True s (wr m (recv_buffer E) b) (recv_buffer E) (length b) w1 =
      map_option (\<lambda>v. (ws, delete_socket s (cork ws False v))) (connectionHandler E g ws (m', Some req) w2) \<and>
    ws_list w2 g (ws # xs) \<and> http_list w2 g (removeAll s hs) \<and>
    s_fd (socks w2 ws) = s_fd (socks w s) \<and> s_cb (socks w2 ws) = Io_ws True \<and> s_node (socks w2 ws) = g \<and>
    stream w2 ws = stream w s @ answer_to E (extensionOptions (groups w g)) ls \<and>
    s_ws (socks w2 ws) = State_init (s_ws (socks w s)) \<and> fragmentBuffer (socks w2 ws) = [] \<and> controlTipLength (socks w2 ws) = 0 \<and>
    (s_queue (socks w2 ws) = [] \<longrightarrow> serving (g_maxPayload (groups w g)) ws w2)"
proof -
  obtain w1 w2 w3 w4 ws m' req pmd where u: "http_reads E True s reads w = Some (s, w1)"
    "http_onData E True s (wr m (recv_buffer E) b) (recv_buffer E) (length b) w1 =
       map_option (\<lambda>v. (ws, delete_socket s (cork ws False v))) (connectionHandler E g ws (m', Some req) w2)"
    "ws_list w2 g (ws # xs)" "http_list w2 g (removeAll s hs)" "become_websocket E pmd s w3 = (ws, w2)" "plain_sock (socks w3 s)"
    "collects s w w4" "lists_kept (upd_sock s (\<lambda>x. x\<lparr>missedDeadline := False\<rparr>) w4) w3"
    "stream w3 s = stream w s @ answer_to E (extensionOptions (groups w g)) ls"
    using upgrade_any_cut [OF assms] .
  show ?thesis
    using u upgraded_socket [OF u(6,5,7,8) assms(2)]
    by (intro exI [of _ w1] exI [of _ w2] exI [of _ ws] exI [of _ m'] exI [of _ req]) (simp add: serving_def plain_sock_def)
qed

section \<open>A response that is not sent at once\<close>

lemma ws_send_queued:
  assumes "s_queue (socks w s) \<noteq> []"
  obtains w' where "ws_send E isServer s p opc cb d False w = Some w'" "s_queue (socks w' s) \<noteq> []"
    "s_poll (socks w' s) = s_poll (socks w s)" "sent_on fd (trace w') = sent_on fd (trace w)"
proof -
  note step = that
  define w1 where "w1 = snd (allocMessage (length p + LONG_MESSAGE_HEADER (\<not> isServer)) w)"
  define a where "a = fst (allocMessage (length p + LONG_MESSAGE_HEADER (\<not> isServer)) w)"
  obtain bytes w2 where f: "format_random E isServer p opc False w1 = (bytes, w2)" by (cases "format_random E isServer p opc False w1") auto
  have "ws_send E isServer s p opc cb d False w = Some (enqueue s ((new_message a bytes)\<lparr>m_cb := cb, m_cbdata := d\<rparr>) w2)"
    using assms f by (simp add: ws_send_def sendTransformed_def hasEmptyQueue_def ws_transform_def Let_def case_prod_beta w1_def a_def)
  moreover have "socks w2 = socks w1" "sent_on fd (trace w2) = sent_on fd (trace w1)"
    using f by (auto simp: format_random_def access sent_ev_def)
  moreover have "socks w1 = socks w" "trace w1 = trace w"
    by (simp_all add: w1_def allocMessage_def access case_prod_beta)
  ultimately show thesis
    by (intro step [of "enqueue s ((new_message a bytes)\<lparr>m_cb := cb, m_cbdata := d\<rparr>) w2"]) (simp_all add: enqueue_def access)
qed

lemma sends_queued:
  "Flush \<notin> set ops \<Longrightarrow> s_queue (socks w s) \<noteq> [] \<Longrightarrow> \<exists>w'. peer_run E isServer s ops w = Some w' \<and>
     s_queue (socks w' s) \<noteq> [] \<and> s_poll (socks w' s) = s_poll (socks w s) \<and> sent_on fd (trace w') = sent_on fd (trace w)"
proof (induction ops arbitrary: w)
  case (Cons op ops)
  then obtain opc p cb d where op: "op = Send opc p cb d" by (cases op) auto
  obtain w1 where w1: "ws_send E isServer s p opc (map_option User_cb cb) d False w = Some w1" "s_queue (socks w1 s) \<noteq> []"
    "s_poll (socks w1 s) = s_poll (socks w s)" "sent_on fd (trace w1) = sent_on fd (trace w)"
    using ws_send_queued [OF Cons.prems(2)] .
  then show ?case using Cons.IH [OF _ w1(2)] Cons.prems(1) op by simp
qed simp

text \<open>
  C37: A response that the system does not take at once is never completed. When the response to an upgrade
  is sent in part, its write asks to be told when the socket takes bytes again; but the new WebSocket is then
  polled for \<open>UV_READABLE\<close> alone, with the rest of the response still in its queue. Whatever the
  application sends on it from its connection handler on is put behind: no byte of it goes out, and
  the socket stays polled for reading only, so that nothing ever drains the queue.
\<close>

theorem upgrade_response_stalls:
  assumes "send_contract E" "awaits_request E g s hs xs w" "upgrade_request ls" "concat (map snd reads) @ b = request_text ls" "b \<noteq> []"
    and "short_sends E (answer_to E (extensionOptions (groups w g)) ls)"
  shows "\<exists>w1 w2 ws m' req. http_reads E True s reads w = Some (s, w1) \<and>
    http_onData E True s (wr m (recv_buffer E) b) (recv_buffer E) (length b) w1 =
      map_option (\<lambda>v. (ws, delete_socket s (cork ws False v))) (connectionHandler E g ws (m', Some req) w2) \<and>
    s_queue (socks w2 ws) \<noteq> [] \<and> s_poll (socks w2 ws) = UV_READABLE \<and>
    (\<forall>ops. Flush \<notin> set ops \<longrightarrow> (\<exists>w3. peer_run E True ws ops w2 = Some w3 \<and>
       sent_on (s_fd (socks w s)) (trace w3) = sent_on (s_fd (socks w s)) (trace w2) \<and>
       s_queue (socks w3 ws) \<noteq> [] \<and> s_poll (socks w3 ws) = UV_READABLE))"
proof -
  obtain w1 w2 w3 w4 ws m' req pmd where u: "http_reads E True s reads w = Some (s, w1)"
    "http_onData E True s (wr m (recv_buffer E) b) (recv_buffer E) (length b) w1 =
       map_option (\<lambda>v. (ws, delete_socket s (cork ws False v))) (connectionHandler E g ws (m', Some req) w2)"
    "become_websocket E pmd s w3 = (ws, w2)" "plain_sock (socks w3 s)"
    "collects s w w4" "lists_kept (upd_sock s (\<lambda>x. x\<lparr>missedDeadline := False\<rparr>) w4) w3"
    "short_sends E (answer_to E (extensionOptions (groups w g)) ls) \<longrightarrow> s_queue (socks w3 s) \<noteq> []"
    using upgrade_any_cut [OF assms(1-5)] .
  have q: "s_queue (socks w2 ws) \<noteq> []" "s_poll (socks w2 ws) = UV_READABLE"
    using upgraded_socket(9,10) [OF u(4,3,5,6) assms(2)] u(7) assms(6) by simp_all
  have all: "\<forall>ops. Flush \<notin> set ops \<longrightarrow> (\<exists>w3. peer_run E True ws ops w2 = Some w3 \<and>
       sent_on (s_fd (socks w s)) (trace w3) = sent_on (s_fd (socks w s)) (trace w2) \<and>
       s_queue (socks w3 ws) \<noteq> [] \<and> s_poll (socks w3 ws) = UV_READABLE)"
    using sends_queued [OF _ q(1), unfolded q(2)] by blast
  show ?thesis
    by (rule exI [of _ w1], rule exI [of _ w2], rule exI [of _ ws], rule exI [of _ m'], rule exI [of _ req])
       (intro conjI u(1,2) q all)
qed

section \<open>Example\<close>

text \<open>A server socket that has just been accepted, and the request of this library's client.\<close>

definition accepted_world :: world where
  "accepted_world = addHttpSocket env0 True 0 4 world0"

definition client_lines :: "line list" where
  "client_lines = request_lines (ascii ''chat'') (ascii ''a.b'') 80 []"

lemma accepted_awaits: "awaits_request env0 0 4 [4] [] accepted_world"
proof -
  have "http_list accepted_world 0 [4]"
    unfolding accepted_world_def by (rule addHttpSocket_list) (simp_all add: http_list_def world0_def group0_def)
  moreover have "httpUpgradeHandler env0 0 = None" "plain_sock (socks accepted_world 4)" "s_node (socks accepted_world 4) = 0"
    "\<not> isClosed accepted_world 4" "\<not> isShuttingDown accepted_world 4" "httpBuffer (socks accepted_world 4) = []"
    "contentLength (socks accepted_world 4) = 0" "ws_list accepted_world 0 []" "4 < fresh accepted_world"
    by (simp_all add: accepted_world_def addHttpSocket_def timer_new_def timer_start_def new_id_def Let_def set_next_def set_prev_def
        access plain_sock_def isClosed_def isShuttingDown_def ws_list_def env0_def world0_def sock0_def group0_def)
  ultimately show ?thesis by (simp add: awaits_request_def)
qed

lemma client_request: "upgrade_request client_lines" "4 < length (request_text client_lines)" "short_sends env0 (answer_to env0 opts ls)"
proof -
  have t: "request_text client_lines = connect_request (ascii ''chat'') (ascii ''a.b'') 80 []"
    by (simp only: request_text_def client_lines_def request_lines_text)
  have "4 < length (request_text client_lines) \<and> length (request_text client_lines) \<le> MAX_HEADER_BUFFER_SIZE"
    unfolding t by (simp add: connect_request_def crlf_def random_key_def to_string_def decimal.simps MAX_HEADER_BUFFER_SIZE_def)
  moreover have "list_all line_ok client_lines"
    unfolding client_lines_def by (rule request_lines_ok; code_simp)
  moreover have "client_lines \<noteq> []" "length client_lines < MAX_HEADERS" by (simp_all add: client_lines_def request_lines_def MAX_HEADERS_def)
  moreover have "find (line_key_is (ascii ''upgrade'')) (tl client_lines) \<noteq> None" "length (field (ascii ''sec-websocket-key'') client_lines) = 24"
    by (simp_all add: client_lines_def field_def request_lookup random_key_def del: ascii_simps)
  ultimately show "upgrade_request client_lines" "4 < length (request_text client_lines)" by (simp_all add: upgrade_request_def)
  have "2 < length (answer_to env0 opts ls)"
    by (simp add: answer_to_def upgrade_response_def accept_key_def Let_def case_prod_beta)
  then have "sys_send env0 tr fd d < int (length (answer_to env0 opts ls))" for tr fd d
    using order_le_less_trans [of "sys_send env0 tr fd d" 2] by (simp add: env0_def [THEN arg_cong, of sys_send])
  then show "short_sends env0 (answer_to env0 opts ls)" by (simp add: short_sends_def)
qed




text \<open>The request in two reads, of which the first has four bytes.\<close>

lemma client_cut:
  "concat (map snd [(\<lambda>i. 7 :: byte, take 4 (request_text client_lines))]) @ drop 4 (request_text client_lines) = request_text client_lines"
  "drop 4 (request_text client_lines) \<noteq> []"
  using client_request(2) by simp_all

lemma accepted_socket: "s_fd (socks accepted_world 4) = 7" "removeAll 4 [4::nat] = []" "recv_buffer env0 = 13"
  by (simp_all add: accepted_world_def addHttpSocket_def timer_new_def timer_start_def new_id_def Let_def set_next_def set_prev_def
      access env0_def world0_def sock0_def group0_def)

theorem server_upgrades_connection_witness:
  "\<exists>w1 w2 ws. http_reads env0 True 4 [(\<lambda>i. 7, take 4 (request_text client_lines))] accepted_world = Some (4, w1) \<and>
     http_onData env0 True 4 (wr (\<lambda>i. 0) 13 (drop 4 (request_text client_lines))) 13 (length (drop 4 (request_text client_lines))) w1 =
       Some (ws, delete_socket 4 (cork ws False w2)) \<and>
     ws_list w2 0 [ws] \<and> http_list w2 0 [] \<and> s_fd (socks w2 ws) = 7 \<and> s_cb (socks w2 ws) = Io_ws True"
proof -
  have c: "connectionHandler env0 g t r v = Some v" for g t r v by (simp add: env0_def)
  from server_upgrades_connection [OF env0_system(1) accepted_awaits client_request(1) client_cut, of "\<lambda>i. 0"]
  show ?thesis unfolding accepted_socket c option.map by blast
qed

theorem upgrade_response_stalls_witness:
  "\<exists>w1 w2 w3 ws. http_reads env0 True 4 [(\<lambda>i. 7, take 4 (request_text client_lines))] accepted_world = Some (4, w1) \<and>
     http_onData env0 True 4 (wr (\<lambda>i. 0) 13 (drop 4 (request_text client_lines))) 13 (length (drop 4 (request_text client_lines))) w1 =
       Some (ws, delete_socket 4 (cork ws False w2)) \<and>
     s_queue (socks w2 ws) \<noteq> [] \<and> peer_run env0 True ws [Send BINARY [1, 2] None 0] w2 = Some w3 \<and>
     sent_on 7 (trace w3) = sent_on 7 (trace w2) \<and> s_poll (socks w3 ws) = UV_READABLE"
proof -
  have c: "connectionHandler env0 g t r v = Some v" for g t r v by (simp add: env0_def)
  obtain w1 w2 ws m' req where w: "http_reads env0 True 4 [(\<lambda>i. 7, take 4 (request_text client_lines))] accepted_world = Some (4, w1)"
    "http_onData env0 True 4 (wr (\<lambda>i. 0) 13 (drop 4 (request_text client_lines))) 13 (length (drop 4 (request_text client_lines))) w1 =
       map_option (\<lambda>v. (ws, delete_socket 4 (cork ws False v))) (connectionHandler env0 0 ws (m', Some req) w2)"
    "s_queue (socks w2 ws) \<noteq> []" and all: "\<And>ops. Flush \<notin> set ops \<Longrightarrow> \<exists>w3. peer_run env0 True ws ops w2 = Some w3 \<and>
       sent_on 7 (trace w3) = sent_on 7 (trace w2) \<and> s_poll (socks w3 ws) = UV_READABLE"
    using upgrade_response_stalls [OF env0_system(1) accepted_awaits client_request(1) client_cut client_request(3), of "\<lambda>i. 0"]
    unfolding accepted_socket by metis
  have "Flush \<notin> set [Send BINARY [1, 2] None 0]" by simp
  from all [OF this] w show ?thesis unfolding c option.map by blast
qed

end
