(* ===== verification/ClientUpgrade.thy ===== *)
theory ClientUpgrade
  imports Upgrade
begin

text \<open>
  The handshake on the client: the HTTP socket that gets the response to its request becomes a
  WebSocket, and what follows the response in the same read is already read as frames.
\<close>

section \<open>The new WebSocket\<close>

text \<open>What is done to the socket between the response and the application's connection handler.\<close>

definition become_client :: "env \<Rightarrow> nat \<Rightarrow> world \<Rightarrow> nat \<times> world" where
  "become_client E s w =
     (let (ws, w) = WebSocket_ctor E False s w;
          w = cancelTimeout s w;
          w = setUserData ws (httpUser (socks w s)) w;
          w = change_to ws UV_READABLE (setState True False ws w)
      in (ws, cork ws True (addWebSocket (s_node (socks w ws)) ws w)))"

lemma http_answer_eq:
  assumes "key (getHeader m req (ascii ''upgrade'')) \<noteq> None" "become_client E s w = (ws, w')"
    and "connectionHandler E (s_node (socks w' ws)) ws (m, req) w' = Some v" "\<not> isClosed v ws" "\<not> isShuttingDown v ws"
  shows "http_answer E s m req cursor e w =
    map_option (\<lambda>v. (ws, delete_socket s (cork ws False v))) (ws_consume E False ws m cursor (e - cursor) v)"
proof -
  have "x \<bind> (\<lambda>w. Some (ws, f w)) = map_option (\<lambda>v. (ws, f v)) x" for x :: "world option" and f by (cases x) simp_all
  then show ?thesis
    using assms by (auto simp: http_answer_def become_client_def Let_def case_prod_beta simp del: ascii_simps)
qed

lemma cancelTimeout_frame:
  "t \<noteq> s \<Longrightarrow> socks (cancelTimeout s w) t = socks w t" "httpUser (socks (cancelTimeout s w) s) = httpUser (socks w s)"
  "groups (cancelTimeout s w) = groups w" "sent_on fd (trace (cancelTimeout s w)) = sent_on fd (trace w)"
  "s_next (socks (cancelTimeout s w) t) = s_next (socks w t)" "s_prev (socks (cancelTimeout s w) t) = s_prev (socks w t)"
  by (simp_all add: cancelTimeout_def setUserData_def access timer_frame split: option.split)

lemma become_client_eq:
  assumes "become_client E s w = (ws, w')" "s_ssl (socks w s) = None" "s < fresh w"
  obtains v where "ws = fresh w" "w' = cork ws True (addWebSocket (s_node (socks w s)) ws v)"
    "\<And>t. t \<noteq> ws \<Longrightarrow> s_next (socks v t) = s_next (socks w t) \<and> s_prev (socks v t) = s_prev (socks w t)" "groups v = groups w"
    "(socks v ws)\<lparr>slidingDeflateWindow := None\<rparr> =
      (websocket_of False (socks w s))\<lparr>s_user := httpUser (socks w s), s_cb := Io_ws False, s_poll := UV_READABLE\<rparr>"
    "\<And>fd. sent_on fd (trace v) = sent_on fd (trace w)"
proof -
  define c where "c = snd (WebSocket_ctor E False s w)"
  define u where "u = setUserData (fresh w) (httpUser (socks w s)) (cancelTimeout s c)"
  define v where "v = change_to (fresh w) UV_READABLE (setState True False (fresh w) u)"
  note cf = ctor_frame [where E = E and pmd = False and s = s and w = w, folded c_def]
  have ne: "s \<noteq> fresh w" "fresh w \<noteq> s" using assms(3) by auto
  have user: "httpUser (socks (cancelTimeout s c) s) = httpUser (socks w s)" using cf(3) ne(1) by (simp add: cancelTimeout_frame)
  have us: "socks u (fresh w) = (socks c (fresh w))\<lparr>s_user := httpUser (socks w s)\<rparr>"
    using ne(2) by (simp add: u_def setUserData_def access cancelTimeout_frame)
  have "s_ssl (socks c (fresh w)) = s_ssl (socks w s)" "s_node (socks c (fresh w)) = s_node (socks w s)"
    using cf(4) by (cases "socks c (fresh w)"; cases "socks w s"; simp add: websocket_of_def)+
  then have ssl: "s_ssl (socks u (fresh w)) = None" and node: "s_node (socks u (fresh w)) = s_node (socks w s)"
    using assms(2) by (simp_all add: us)
  have vs: "socks v (fresh w) = (socks u (fresh w))\<lparr>s_cb := Io_ws False, s_poll := UV_READABLE\<rparr>"
    unfolding v_def by (rule state_frame(3) [OF ssl])
  have "(fresh w, cork (fresh w) True (addWebSocket (s_node (socks v (fresh w))) (fresh w) v)) = become_client E s w"
    using cf(1) by (simp add: become_client_def Let_def case_prod_beta c_def [symmetric] v_def u_def user)
  moreover have "s_node (socks v (fresh w)) = s_node (socks w s)" using node by (simp add: vs)
  moreover have "(socks v (fresh w))\<lparr>slidingDeflateWindow := None\<rparr> =
      (websocket_of False (socks w s))\<lparr>s_user := httpUser (socks w s), s_cb := Io_ws False, s_poll := UV_READABLE\<rparr>"
    unfolding cf(4) [symmetric] by (simp add: vs us)
  moreover have "s_next (socks v t) = s_next (socks w t) \<and> s_prev (socks v t) = s_prev (socks w t)" if "t \<noteq> fresh w" for t
  proof -
    have "socks v t = socks (cancelTimeout s c) t" using that by (simp add: v_def u_def state_frame(1) setUserData_def access)
    then show ?thesis using cf(3) [OF that] by (simp add: cancelTimeout_frame)
  qed
  moreover have "groups v = groups w" "sent_on fd (trace v) = sent_on fd (trace w)" for fd
    using cf(2,5) by (simp_all add: v_def u_def state_frame setUserData_def access cancelTimeout_frame)
  ultimately show thesis using assms(1) by (intro that [of v]) (simp_all, metis prod.inject)+
qed

lemma become_client_sock:
  assumes b: "become_client E s w = (ws, w')" "s_ssl (socks w s) = None" "s < fresh w"
  shows "ws = fresh w" "s_fd (socks w' ws) = s_fd (socks w s)" "s_cb (socks w' ws) = Io_ws False" "s_queue (socks w' ws) = s_queue (socks w s)"
    "s_ssl (socks w' ws) = None" "s_shutting (socks w' ws) = s_shutting (socks w s)"
    "s_node (socks w' ws) = s_node (socks w s)" "s_ws (socks w' ws) = State_init (s_ws (socks w s))"
    "fragmentBuffer (socks w' ws) = []" "controlTipLength (socks w' ws) = 0" "compressionStatus (socks w' ws) = DISABLED"
    "stream w' ws = stream w s" "g_maxPayload (groups w' g) = g_maxPayload (groups w g)"
    "ws_list w (s_node (socks w s)) xs \<Longrightarrow> list_all (\<lambda>x. x < fresh w) xs \<Longrightarrow> ws_list w' (s_node (socks w s)) (ws # xs)"
proof -
  obtain v where v: "ws = fresh w" "w' = cork ws True (addWebSocket (s_node (socks w s)) ws v)"
    "\<And>t. t \<noteq> ws \<Longrightarrow> s_next (socks v t) = s_next (socks w t) \<and> s_prev (socks v t) = s_prev (socks w t)" "groups v = groups w"
    "(socks v ws)\<lparr>slidingDeflateWindow := None\<rparr> =
      (websocket_of False (socks w s))\<lparr>s_user := httpUser (socks w s), s_cb := Io_ws False, s_poll := UV_READABLE\<rparr>"
    "\<And>fd. sent_on fd (trace v) = sent_on fd (trace w)"
    using become_client_eq [OF b] by metis
  have u: "unlinked (socks w' ws) = unlinked (socks v ws)" by (simp add: v(2) cork_def access addWebSocket_frame)
  note same = arg_cong [OF u]
  note field = arg_cong [OF v(5)]
  show "ws = fresh w" by (rule v(1))
  show f: "s_fd (socks w' ws) = s_fd (socks w s)" "s_cb (socks w' ws) = Io_ws False" "s_queue (socks w' ws) = s_queue (socks w s)"
    "s_ssl (socks w' ws) = None" "s_shutting (socks w' ws) = s_shutting (socks w s)"
    "s_node (socks w' ws) = s_node (socks w s)" "s_ws (socks w' ws) = State_init (s_ws (socks w s))"
    "fragmentBuffer (socks w' ws) = []" "controlTipLength (socks w' ws) = 0" "compressionStatus (socks w' ws) = DISABLED"
    using same [of s_fd] same [of s_cb] same [of s_queue] same [of s_ssl] same [of s_shutting]
      same [of s_node] same [of s_ws] same [of fragmentBuffer] same [of controlTipLength] same [of compressionStatus]
      field [of s_fd] field [of s_cb] field [of s_queue] field [of s_ssl] field [of s_shutting]
      field [of s_node] field [of s_ws] field [of fragmentBuffer] field [of controlTipLength] field [of compressionStatus]
      assms(2) by (simp_all add: unlinked_def websocket_of_def)
  show "stream w' ws = stream w s"
    using v(6) by (simp add: stream_def queued_def f(1,3)) (simp add: v(2) cork_def access addWebSocket_frame)
  show "g_maxPayload (groups w' g) = g_maxPayload (groups w g)"
    by (simp add: v(2,4) cork_def access addWebSocket_frame)
  assume l: "ws_list w (s_node (socks w s)) xs" "list_all (\<lambda>x. x < fresh w) xs"
  then have new: "t \<in> set xs \<Longrightarrow> t \<noteq> ws" for t by (auto simp: v(1) list_all_iff)
  then have "ws_list v (s_node (socks w s)) xs" using v(3,4) by (intro list_frame(1) [OF _ _ l(1)]) simp_all
  from addWebSocket_list [OF this, of ws] new show "ws_list w' (s_node (socks w s)) (ws # xs)"
    by (auto simp: v(2) ws_list_def cork_def access)
qed

section \<open>The response and what follows it\<close>

text \<open>A client's HTTP socket whose request is sent.\<close>

definition awaits_answer :: "32 word \<Rightarrow> nat \<Rightarrow> world \<Rightarrow> bool" where
  "awaits_answer limit s w \<longleftrightarrow> plain_sock (socks w s) \<and> s_queue (socks w s) = [] \<and> \<not> isClosed w s \<and> \<not> isShuttingDown w s \<and>
     httpBuffer (socks w s) = [] \<and> contentLength (socks w s) = 0 \<and> s < fresh w \<and>
     length (opCode (s_ws (socks w s))) = 2 \<and> g_maxPayload (sock_group w s) = limit"

lemma collects_awaits_answer:
  assumes "awaits_answer limit s w" "collects s w v"
  shows "s_fd (socks v s) = s_fd (socks w s)" "s_ssl (socks v s) = None" "s_queue (socks v s) = []" "s_shutting (socks v s) = False"
    "s_ws (socks v s) = s_ws (socks w s)" "s_node (socks v s) = s_node (socks w s)" "s < fresh v" "fresh v = fresh w"
    "g_maxPayload (groups v (s_node (socks w s))) = limit" "stream v s = stream w s"
proof -
  note c = collects_frame [OF assms(2)]
  show "s_fd (socks v s) = s_fd (socks w s)" "s_ssl (socks v s) = None" "s_queue (socks v s) = []" "s_shutting (socks v s) = False"
    "s_ws (socks v s) = s_ws (socks w s)" "s_node (socks v s) = s_node (socks w s)"
    using assms(1) by (subst c(1), simp add: awaits_answer_def plain_sock_def isShuttingDown_def)+
  show "s < fresh v" "fresh v = fresh w" "g_maxPayload (groups v (s_node (socks w s))) = limit" "stream v s = stream w s"
    using assms(1) c(2-4) by (simp_all add: awaits_answer_def sock_group_def)
qed

lemma become_client_serving:
  assumes "awaits_answer limit s w" "collects s w v" "become_client E s v = (ws, v')"
  shows "ws = fresh w" "serving limit ws v'" "s_fd (socks v' ws) = s_fd (socks w s)" "s_cb (socks v' ws) = Io_ws False"
    "s_node (socks v' ws) = s_node (socks w s)" "s_ws (socks v' ws) = State_init (s_ws (socks w s))"
    "fragmentBuffer (socks v' ws) = []" "controlTipLength (socks v' ws) = 0" "stream v' ws = stream w s"
proof -
  note c = collects_awaits_answer [OF assms(1,2)]
  note b = become_client_sock [OF assms(3) c(2,7)]
  show "ws = fresh w" "s_fd (socks v' ws) = s_fd (socks w s)" "s_cb (socks v' ws) = Io_ws False"
    "s_node (socks v' ws) = s_node (socks w s)" "s_ws (socks v' ws) = State_init (s_ws (socks w s))"
    "fragmentBuffer (socks v' ws) = []" "controlTipLength (socks v' ws) = 0" "stream v' ws = stream w s"
    using b c by simp_all
  have "g_maxPayload (sock_group v' ws) = limit" using b(7,13) c(6,9) by (simp add: sock_group_def)
  then show "serving limit ws v'"
    using b(2,4-6,11) c(1,3,4) assms(1)
    by (simp add: serving_def open_socket_def plain_sock_def isClosed_def isShuttingDown_def ws_maxPayload_def awaits_answer_def)
qed

text \<open>
  The application: it starts its record when the connection opens, and may send a \<open>greeting\<close>; nothing
  of the record is in the old object.
\<close>

definition opens_connection ::
  "env \<Rightarrow> (world \<Rightarrow> (byte \<times> byte list) list) \<Rightarrow> 32 word \<Rightarrow> nat \<Rightarrow> (byte \<times> byte list) list \<Rightarrow> bool" where
  "opens_connection E obs limit ws greeting \<longleftrightarrow> (\<forall>t v. obs (delete_socket t v) = obs v) \<and>
     (\<forall>g r v. serving limit ws v \<longrightarrow> (\<exists>v' fs. connectionHandler E g ws r v = Some v' \<and> receives_same ws v v' \<and>
        plain_sock (socks v' ws) \<and> obs v' = [] \<and> map content fs = greeting \<and>
        stream v' ws = stream v ws @ concat (map (frame_of True) fs)))"

lemma upgrade_head_length:
  assumes "find (line_key_is (ascii ''upgrade'')) (tl ls) \<noteq> None" "list_all line_ok ls"
  shows "CONSUME_PRE_PADDING False \<le> length (request_text ls)"
proof -
  obtain l ls0 where ls: "ls = l # ls0" using assms(1) by (cases ls) auto
  obtain k sep v where l1: "(k, sep, v) \<in> set ls0" "line_key_is (ascii ''upgrade'') (k, sep, v)"
    using assms(1) by (auto simp: ls find_None_iff simp del: ascii_simps)
  have "length k = length (map to_lower k)" by simp
  also have "map to_lower k = ascii ''upgrade''" using l1(2) by (simp add: line_key_is_def del: ascii_simps)
  finally have "length k = 7" by simp
  then have "9 \<le> length (line_text (k, sep, v))" by (simp add: line_text_def)
  moreover have "length (line_text (k, sep, v)) \<le> length (concat (map line_text ls0))"
    using split_list [OF l1(1)] by auto
  ultimately show ?thesis by (simp add: ls request_text_def CONSUME_PRE_PADDING_def header_defs)
qed

lemma delete_other:
  assumes "s \<noteq> ws"
  shows "socks (delete_socket s w) ws = socks w ws" "groups (delete_socket s w) = groups w" "stream (delete_socket s w) ws = stream w ws"
    "serving limit ws (delete_socket s w) = serving limit ws w"
  using assms by (simp_all add: delete_socket_def access stream_def queued_def sent_ev_def serving_def open_socket_def isClosed_def
      isShuttingDown_def ws_maxPayload_def sock_group_def)

text \<open>The read with the end of the response: the socket is upgraded, and the frames behind the response are read.\<close>

lemma answer_and_frames:
  assumes app: "served_socket obs ws E False limit reply" "opens_connection E obs limit ws greeting"
    and v: "awaits_answer limit s w" "collects s w v" "ws = fresh w"
    and head: "list_all2 (header_of m c) ls hs" "find (line_key_is (ascii ''upgrade'')) (tl ls) \<noteq> None"
    and early: "rd m c (length early) = early" "length early < 2 ^ 32" "CONSUME_PRE_PADDING False \<le> c"
    and frames: "list_all (\<lambda>(opc, r, p). ok_frame opc p \<and> length p \<le> unat limit) ms" "early @ F = concat (map (frame_of False) ms)"
  obtains w' v0 fs where "http_answer E s m (Some hs) c (c + length early) v = Some (ws, w')"
    "reads_on limit ok_frame (served_ready limit ws False obs reply v0) (served_view ws obs) False ws (map content ms) w' F"
    "s_fd (socks v0 ws) = s_fd (socks w s)" "s_cb (socks v0 ws) = Io_ws False"
    "stream v0 ws = stream w s @ concat (map (frame_of True) fs)" "map content fs = greeting"
proof -
  note result = that
  obtain v1 where b: "become_client E s v = (ws, v1)" using become_client_serving(1) [OF v(1,2)] v(3) by (cases "become_client E s v") auto
  note n = become_client_serving [OF v(1,2) b]
  let ?g = "s_node (socks v1 ws)"
  obtain v0 fs where c: "connectionHandler E ?g ws (m, Some hs) v1 = Some v0" "receives_same ws v1 v0" "plain_sock (socks v0 ws)"
    "obs v0 = []" "map content fs = greeting" "stream v0 ws = stream v1 ws @ concat (map (frame_of True) fs)"
    using app(2) n(2) unfolding opens_connection_def by metis
  have obs_del: "obs (delete_socket t u) = obs u" for t u using app(2) by (simp add: opens_connection_def)
  note r = receives_same_fields [OF c(2)]
  have sv: "serving limit ws v0" using serving_same [OF c(2) n(2) c(3)] .
  let ?ready = "served_ready limit ws False obs reply v0" and ?view = "served_view ws obs"
  have "list_all (receivable limit ok_frame) ms"
    using frames(1) by (auto simp: list_all_iff receivable_def legal_def ok_frame_def ok_message_def)
  moreover have "?ready (Some v0)"
    using sv c(4) n(8) r(6) by (auto simp: served_ready_def control_fits_def answered_since_def same_channel_def answered_def intro: exI [of _ "[]"])
  moreover have "s_ws (socks v0 ws) = State_init (s_ws (socks w s))" "length (opCode (s_ws (socks w s))) = 2"
    "ap_buffer (?view (Some v0)) = []" "ap_messages (?view (Some v0)) = []"
    using n(6,7) r(5,8) c(4) v(1) by (simp_all add: served_view_def awaits_answer_def)
  ultimately have "reads_on limit ok_frame ?ready ?view False ws (map content ms) v0 (early @ F)"
    using served_socket.served_start [OF app(1), where w0 = v0] frames(2) by blast
  then obtain w1 where w1: "ws_consume E False ws m c (length early) v0 = Some w1"
    "reads_on limit ok_frame ?ready ?view False ws (map content ms) w1 F"
    using served_socket.consume_served [OF app(1) _ early(3,2,1)] by blast
  define w' where "w' = delete_socket s (cork ws False w1)"
  have ne: "s \<noteq> ws" using v(1,3) by (auto simp: awaits_answer_def)
  have up: "key (getHeader m (Some hs) (ascii ''upgrade'')) \<noteq> None" using header_value_render(3) [OF head(1)] head(2) by simp
  have opened: "\<not> isClosed v0 ws" "\<not> isShuttingDown v0 ws" using sv by (simp_all add: serving_def open_socket_def)
  have "http_answer E s m (Some hs) c (c + length early) v = Some (ws, w')"
    unfolding http_answer_eq [OF up b c(1) opened] by (simp add: w1(1) w'_def)
  moreover have "reads_on limit ok_frame ?ready ?view False ws (map content ms) w' F"
    using w1(2) by (rule served_socket.served_step_on [OF app(1)])
      (simp_all add: w'_def served_ready_def served_view_def delete_other [OF ne] serving_cork cork_sock answered_since_def same_channel_def
        obs_del served_socket.obs_cork [OF app(1)])
  ultimately show thesis using n(3,4,9) r(1,9) c(5,6) by (intro result [of w' v0 fs]) simp_all
qed

text \<open>
  A head in more than one read, with too much behind its end: the socket is ended although every part of the
  stream is legal.
\<close>

lemma oversized_head_ends:
  assumes "contentLength (socks w s) = 0" "httpBuffer (socks w s) \<noteq> []" "MAX_HEADER_BUFFER_SIZE < length (httpBuffer (socks w s)) + n"
  shows "http_onData E isServer s m a n w = map_option (Pair s) (http_onEnd E isServer s (cork s True w))"
  using assms by (simp add: http_onData_def http_body_def Let_def cork_sock)

text \<open>What holds when the stream has been read to its end.\<close>

lemma served_since:
  assumes "served_socket obs ws E False limit reply"
    "reads_on limit ok_frame (served_ready limit ws False obs reply v0) (served_view ws obs) False ws all w []"
  shows "\<exists>fs. stream w ws = stream v0 ws @ concat (map (frame_of True) fs) \<and> map content fs = concat (map (answers reply) all)"
    "same_channel ws v0 w" "open_socket limit ws w" "obs w = all" "fragmentBuffer (socks w ws) = []"
  using served_socket.served_end(1-3) [OF assms] by (auto simp: served_ready_def served_view_def serving_def answered_since_def answered_def)

text \<open>The reads up to the end of the head, the last of which may hold the beginning of the frames.\<close>

lemma client_opened:
  assumes "served_socket obs (fresh w) E False limit reply" "opens_connection E obs limit (fresh w) greeting" "awaits_answer limit s w"
    and "list_all line_ok ls" "length ls < MAX_HEADERS" "length (request_text ls) \<le> MAX_HEADER_BUFFER_SIZE"
      "find (line_key_is (ascii ''upgrade'')) (tl ls) \<noteq> None"
    and "concat (map snd first) @ b = request_text ls" "b \<noteq> []"
      "first = [] \<or> length (request_text ls) + length early \<le> MAX_HEADER_BUFFER_SIZE"
    and "early @ F = concat (map (frame_of False) ms)"
      "list_all (\<lambda>(opc, r, p). ok_frame opc p \<and> length p \<le> unat limit) ms"
    and "length early < 2 ^ 32"
  obtains w1 w2 v0 fs where "http_reads E False s first w = Some (s, w1)"
    "http_onData E False s (wr m (recv_buffer E) (b @ early)) (recv_buffer E) (length (b @ early)) w1 = Some (fresh w, w2)"
    "reads_on limit ok_frame (served_ready limit (fresh w) False obs reply v0) (served_view (fresh w) obs) False (fresh w) (map content ms) w2 F"
    "s_fd (socks v0 (fresh w)) = s_fd (socks w s)" "s_cb (socks v0 (fresh w)) = Io_ws False"
    "stream v0 (fresh w) = stream w s @ concat (map (frame_of True) fs)" "map content fs = greeting"
proof -
  note step = that
  have ls: "ls \<noteq> []" using assms(7) by auto
  have "partial_request s ls w (concat (map snd first) @ b)"
    using assms(3,8) lowered_refl [OF assms(4)] by (auto simp: partial_request_def awaits_answer_def)
  from http_reads_collect [OF assms(4,5,6,9) this]
  obtain w1 where w1: "http_reads E False s first w = Some (s, w1)" "partial_request s ls w1 b" "collects s w w1" by blast
  have "httpBuffer (socks w1 s) = [] \<or> length (request_text ls) + length early \<le> MAX_HEADER_BUFFER_SIZE"
    using assms(3,10) w1(1) by (auto simp: awaits_answer_def)
  then obtain v x c len m' hs v1 where h: "http_onData E False s (wr m (recv_buffer E) (b @ early)) (recv_buffer E) (length (b @ early)) w1 =
      http_loop E False s v x (c + length early) len v1"
    "getHeaders MAX_HEADERS True v x (c + length early) [] = Some (m', Some (c, hs))" "list_all2 (header_of m' c) ls hs"
    "rd m' c (length early) = early" "length (request_text ls) \<le> c" "collects s w1 (parsed_in_place s m' v1)"
    using complete_head_onData [OF assms(4,5) ls w1(2)] by metis
  have room: "CONSUME_PRE_PADDING False \<le> c" using upgrade_head_length [OF assms(7,4)] h(5) by simp
  obtain w2 v0 fs0 where a: "http_answer E s m' (Some hs) c (c + length early) (parsed_in_place s m' v1) = Some (fresh w, w2)"
    "reads_on limit ok_frame (served_ready limit (fresh w) False obs reply v0) (served_view (fresh w) obs) False (fresh w) (map content ms) w2 F"
    "s_fd (socks v0 (fresh w)) = s_fd (socks w s)" "s_cb (socks v0 (fresh w)) = Io_ws False"
    "stream v0 (fresh w) = stream w s @ concat (map (frame_of True) fs0)" "map content fs0 = greeting"
    using answer_and_frames [OF assms(1-3) collects_trans [OF w1(3) h(6)] refl h(3) assms(7) h(4) assms(13) room assms(12,11)] .
  have on: "http_onData E False s (wr m (recv_buffer E) (b @ early)) (recv_buffer E) (length (b @ early)) w1 = Some (fresh w, w2)"
    unfolding h(1) by (subst http_loop.simps) (simp add: h(2) a(1))
  show thesis using step [OF w1(1) on a(2-6)] .
qed

section \<open>Property\<close>

text \<open>
  C5: A client gets through the handshake and loses nothing of what follows it. Its request is sent; the
  peer answers with a well-formed head of fewer than 100 lines and at most 4096 bytes that has an upgrade
  header, followed at once by unfragmented frames: binary and UTF-8 text messages no longer than
  maxPayload, pings and pongs of at most 125 bytes. The stream is cut into reads anywhere. Then the reads
  up to the end of the head collect it, the next makes the socket a WebSocket on the same descriptor and
  calls the connection handler, and from there every message, ping and pong is handed over once and in
  order. What leaves the socket is what the connection handler sent (\<open>greeting\<close>), then the
  answers, one frame each. When the head came in more than one read, the read with its end must keep the
  buffer within 4096 bytes (\<open>oversized_head_ends\<close>). Assumed: a plain socket, handlers that
  only send and record, no \<open>send\<close> that fails for good.
\<close>

theorem client_connects:
  assumes "served_socket obs (fresh w) E False limit reply" "opens_connection E obs limit (fresh w) greeting" "awaits_answer limit s w"
    and "list_all line_ok ls" "length ls < MAX_HEADERS" "length (request_text ls) \<le> MAX_HEADER_BUFFER_SIZE"
      "find (line_key_is (ascii ''upgrade'')) (tl ls) \<noteq> None"
    and "concat (map snd first) @ b = request_text ls" "b \<noteq> []"
      "first = [] \<or> length (request_text ls) + length early \<le> MAX_HEADER_BUFFER_SIZE"
    and "early @ concat (map snd later) = concat (map (frame_of False) ms)"
      "list_all (\<lambda>(opc, r, p). ok_frame opc p \<and> length p \<le> unat limit) ms"
    and "length early < 2 ^ 32" "list_all (\<lambda>(m, b). length b < 2 ^ 32) later" "CONSUME_PRE_PADDING False \<le> recv_buffer E"
  shows "\<exists>w1 w2 w3 fs. http_reads E False s first w = Some (s, w1) \<and>
    http_onData E False s (wr m (recv_buffer E) (b @ early)) (recv_buffer E) (length (b @ early)) w1 = Some (fresh w, w2) \<and>
    ws_reads E False (fresh w) later w2 = Some w3 \<and> obs w3 = map content ms \<and>
    s_fd (socks w3 (fresh w)) = s_fd (socks w s) \<and> s_cb (socks w3 (fresh w)) = Io_ws False \<and>
    stream w3 (fresh w) = stream w s @ concat (map (frame_of True) fs) \<and>
    map content fs = greeting @ concat (map (answers reply) (map content ms)) \<and>
    open_socket limit (fresh w) w3 \<and> fragmentBuffer (socks w3 (fresh w)) = []"
proof -
  obtain w1 w2 v0 fs0 where a: "http_reads E False s first w = Some (s, w1)"
    "http_onData E False s (wr m (recv_buffer E) (b @ early)) (recv_buffer E) (length (b @ early)) w1 = Some (fresh w, w2)"
    "reads_on limit ok_frame (served_ready limit (fresh w) False obs reply v0) (served_view (fresh w) obs) False (fresh w) (map content ms) w2
      (concat (map snd later))"
    "s_fd (socks v0 (fresh w)) = s_fd (socks w s)" "s_cb (socks v0 (fresh w)) = Io_ws False"
    "stream v0 (fresh w) = stream w s @ concat (map (frame_of True) fs0)" "map content fs0 = greeting"
    using client_opened [OF assms(1-13)] .
  obtain w3 where w3: "ws_reads E False (fresh w) later w2 = Some w3"
    "reads_on limit ok_frame (served_ready limit (fresh w) False obs reply v0) (served_view (fresh w) obs) False (fresh w) (map content ms) w3 []"
    using served_socket.reads_served [OF assms(1) _ assms(15,14), where F = "[]", unfolded append_Nil2, OF a(3)] by blast
  note e = served_since [OF assms(1) w3(2)]
  obtain fs where "stream w3 (fresh w) = stream v0 (fresh w) @ concat (map (frame_of True) fs)"
    "map content fs = concat (map (answers reply) (map content ms))" using e(1) by blast
  with a(1,2,4-7) w3(1) e(2-5) show ?thesis
    by (intro exI [of _ w1] exI [of _ w2] exI [of _ w3] exI [of _ "fs0 @ fs"]) (simp add: same_channel_def)
qed

text \<open>
  An echo client. The head of the answer comes in two reads, the second of which already has the first byte of a
  frame; the rest of the frame comes in a third.
\<close>

definition answer_lines :: "line list" where
  "answer_lines = [(ascii ''HTTP/1.1'', [32], ascii ''101''), (ascii ''Upgrade'', colon, ascii ''websocket'')]"

lemma echo_opens: "opens_connection (echo_of E isServer) noted limit ws []"
proof -
  have "noted (delete_socket t v) = noted v" for t v by (simp add: delete_socket_def noted_log noted_event_def) (simp add: noted_def access)
  moreover have "connectionHandler (echo_of E isServer) g t r v = Some (note_connection v)" for g t r v by (simp add: echo_of_def)
  moreover have "serving limit ws v \<Longrightarrow> plain_sock (socks (note_connection v) ws)" for v by (simp add: note_facts serving_def)
  ultimately show ?thesis by (auto simp: opens_connection_def note_facts intro!: exI [of _ "[]"])
qed

lemma echo_client: "served_socket noted 100 (echo_env False) False 16777216 echo" "opens_connection (echo_env False) noted 16777216 100 []"
  unfolding echo_env_def by (rule echo_served [OF env0_system], rule echo_opens)

lemma answer_ok:
  "list_all line_ok answer_lines" "length answer_lines < MAX_HEADERS" "length (request_text answer_lines) + 1 \<le> MAX_HEADER_BUFFER_SIZE"
  "find (line_key_is (ascii ''upgrade'')) (tl answer_lines) \<noteq> None" "10 < length (request_text answer_lines)"
  by (code_simp, simp_all add: answer_lines_def MAX_HEADERS_def MAX_HEADER_BUFFER_SIZE_def request_text_def line_text_def colon_def
      line_key_is_def to_lower_def)

theorem client_connects_witness:
  "\<exists>w1 w2 w3 fs. http_reads (echo_env False) False 4 [(\<lambda>i. 9, take 10 (request_text answer_lines))] world0 = Some (4, w1) \<and>
    http_onData (echo_env False) False 4 (wr (\<lambda>i. 0) 13 (drop 10 (request_text answer_lines) @ [0x82])) 13
      (length (drop 10 (request_text answer_lines) @ [0x82])) w1 = Some (100, w2) \<and>
    ws_reads (echo_env False) False 100 [(\<lambda>i. 0, [1, 7])] w2 = Some w3 \<and> noted w3 = [(BINARY, [7])] \<and>
    stream w3 100 = concat (map (frame_of True) fs) \<and> map content fs = [(BINARY, [7])]"
proof -
  let ?t = "request_text answer_lines" and ?ms = "[(BINARY, 0, [7])] :: sent_frame list"
  have w: "fresh world0 = 100" "awaits_answer 16777216 4 world0" "recv_buffer (echo_env False) = 13" "CONSUME_PRE_PADDING False \<le> recv_buffer (echo_env False)"
    "stream world0 4 = []"
    by (simp_all add: awaits_answer_def world0_def sock0_def plain_sock_def isClosed_def isShuttingDown_def raw0_def sock_group_def group0_def
        echo_env_def echo_of_def env0_def State_init_def CONSUME_PRE_PADDING_def header_defs stream_def queued_def sent_on_def)
  have cut: "concat (map snd [(\<lambda>i. 9 :: byte, take 10 ?t)]) @ drop 10 ?t = ?t" "drop 10 ?t \<noteq> []" using answer_ok(5) by simp_all
  have frames: "[0x82] @ concat (map snd [(\<lambda>i. 0 :: byte, [1, 7])]) = concat (map (frame_of False) ?ms)"
    "list_all (\<lambda>(opc, r, p). ok_frame opc p \<and> length p \<le> unat (16777216 :: 32 word)) ?ms"
    by (simp_all add: frame_of_eq extended_def length_code_def body_def opcode_defs ok_frame_def ok_message_def)
  have sizes: "length (request_text answer_lines) \<le> MAX_HEADER_BUFFER_SIZE" "length [0x82 :: byte] < 2 ^ 32"
    "list_all (\<lambda>(m, b). length b < 2 ^ 32) [(\<lambda>i. 0 :: byte, [1, 7 :: byte])]"
    "[(\<lambda>i. 9 :: byte, take 10 ?t)] = [] \<or> length (request_text answer_lines) + length [0x82 :: byte] \<le> MAX_HEADER_BUFFER_SIZE"
    using answer_ok(3) by simp_all
  obtain w1 w2 w3 fs where "http_reads (echo_env False) False 4 [(\<lambda>i. 9, take 10 ?t)] world0 = Some (4, w1)"
    "http_onData (echo_env False) False 4 (wr (\<lambda>i. 0) 13 (drop 10 ?t @ [0x82])) 13 (length (drop 10 ?t @ [0x82])) w1 = Some (100, w2)"
    "ws_reads (echo_env False) False 100 [(\<lambda>i. 0, [1, 7])] w2 = Some w3" "noted w3 = map content ?ms"
    "stream w3 100 = concat (map (frame_of True) fs)" "map content fs = concat (map (answers echo) (map content ?ms))"
    using client_connects [of noted world0 "echo_env False", unfolded w(1), OF echo_client w(2) answer_ok(1,2) sizes(1) answer_ok(4) cut sizes(4)
      frames sizes(2,3) w(4), of "\<lambda>i. 0"] unfolding w(3,5) append_Nil by blast
  then show ?thesis by (auto simp: content_def answers_def echo_def opcode_defs)
qed

end
