(* ===== verification/HttpBody.thy ===== *)
theory HttpBody
  imports HttpChunks
begin

text \<open>
  An HTTP server at work: requests with and without a body on one connection, each cut into reads
  anywhere. What the application is handed is stated through the interface \<open>http_server\<close>.
\<close>

section \<open>The length of the body\<close>

lemma to_size_t_of_nat: "n < 2 ^ 31 \<Longrightarrow> to_size_t (word_of_int (int n)) = n"
proof -
  assume n: "n < 2 ^ 31"
  then have "sint (word_of_int (int n) :: 32 word) = int n"
    by (simp add: signed_of_nat signed_take_bit_int_eq_self)
  then show ?thesis using n by (simp add: to_size_t_def scast_eq unsigned_of_nat take_bit_nat_eq_self)
qed

lemma takeWhile_decimal: "takeWhile isdigit (decimal n @ 13 # bs) = decimal n"
  using decimal_isdigit by (subst takeWhile_append2) (auto simp: isdigit_iff)

lemma atoi_decimal: "atoi (decimal n @ 13 # bs) = (if n < 2 ^ 31 then Some (word_of_int (int n)) else None)"
proof -
  obtain b r where b: "decimal n = b # r" using decimal_nonempty by (cases "decimal n") auto
  then have "isdigit b" using decimal_isdigit [of b n] by simp
  then have c: "b \<noteq> 45" "b \<noteq> 43" "\<not> isspace b"
    by (auto simp: isdigit_iff isspace_def word_le_nat_alt)
  show ?thesis using b c takeWhile_decimal [of n bs] digits_value_decimal [of n] by (simp add: atoi_def Let_def)
qed

text \<open>
  A length that is no \<open>int\<close> is undefined behaviour (the \<open>None\<close> above), and a negative one becomes a huge \<open>size_t\<close>: all
  that follows on the connection is then taken for the body.
\<close>

lemma negative_content_length:
  assumes "0 < n" "n < 2 ^ 31"
  shows "map_option to_size_t (atoi (45 # decimal n @ 13 # bs)) = Some (2 ^ 64 - n)"
proof -
  have c: "\<not> isspace (45 :: byte)" by (simp add: isspace_def)
  have "atoi (45 # decimal n @ 13 # bs) = Some (word_of_int (- int n))"
    using assms c takeWhile_decimal [of n bs] digits_value_decimal [of n] by (simp add: atoi_def Let_def)
  moreover have "sint (word_of_int (- int n) :: 32 word) = - int n"
    using assms by (subst signed_of_int) (simp add: signed_take_bit_int_eq_self)
  moreover have "unat (word_of_int (- int n) :: 64 word) = 2 ^ 64 - n"
  proof -
    have "(- int n) mod 2 ^ 64 = 2 ^ 64 - int n" using assms by (simp add: zmod_zminus1_eq_if)
    then have "uint (word_of_int (- int n) :: 64 word) = 2 ^ 64 - int n"
      by (subst uint_word_of_int) simp
    then show ?thesis using assms by (simp add: unat_eq_nat_uint nat_diff_distrib)
  qed
  ultimately show ?thesis by (simp add: to_size_t_def scast_eq)
qed

lemma content_length_field:
  assumes "list_all2 (header_of m hi) ls hs" "find (line_key_is k) (tl ls) = Some (k', sep, v)" "v = decimal n" "n < 2 ^ 31" "hi \<le> e"
  shows "atoi (rd m (the (val (getHeader m (Some hs) k))) (e - the (val (getHeader m (Some hs) k)))) = Some (word_of_int (int n))"
proof -
  have "list_all2 (header_of m hi) (tl ls) (tl hs)" using assms(1) by (cases ls; cases hs) auto
  from find_header_of [OF this, of k] assms(2)
  obtain h where h: "find (key_is m k) (tl hs) = Some h" "header_of m hi (k', sep, v) h"
    by (cases "find (key_is m k) (tl hs)") auto
  then obtain a where a: "val h = Some a" "a + length v < hi" "rd m a (length v) = v" "m (a + length v) = 13"
    by (auto simp: header_of_def)
  have g: "getHeader m (Some hs) k = h" using h(1) by (simp add: getHeader_def)
  have "e - a = length v + Suc (e - a - length v - 1)" using a(2) assms(5) by simp
  then have "rd m a (e - a) = rd m a (length v + Suc (e - a - length v - 1))" by (rule arg_cong)
  also have "\<dots> = decimal n @ 13 # rd m (Suc (a + length v)) (e - a - length v - 1)"
    unfolding rd_add a(3) rd_Suc a(4) by (simp add: assms(3))
  finally show ?thesis using assms(4) by (simp add: g a(1) atoi_decimal)
qed

section \<open>What the application is handed\<close>

text \<open>A request with the first bytes of its body, or more of the body; the number is how many are still to come.\<close>

datatype 'a part = Head 'a "byte list" nat | Body "byte list" nat

fun body_parts :: "nat \<Rightarrow> byte list list \<Rightarrow> 'a part list" where
  "body_parts n [] = []"
| "body_parts n (d # ds) = Body d (n - length d) # body_parts (n - length d) ds"

definition request_parts :: "'a \<Rightarrow> byte list \<Rightarrow> 'a part list \<Rightarrow> bool" where
  "request_parts a body parts \<longleftrightarrow> (\<exists>d ds. d @ concat ds = body \<and>
     parts = Head a d (length body - length d) # body_parts (length body - length d) ds)"

text \<open>Handlers that leave the receiving side of the socket alone.\<close>

definition keeps_request :: "nat \<Rightarrow> world \<Rightarrow> world \<Rightarrow> bool" where
  "keeps_request s w w' \<longleftrightarrow> contentLength (socks w' s) = contentLength (socks w s) \<and> httpBuffer (socks w' s) = httpBuffer (socks w s) \<and>
     s_fd (socks w' s) = s_fd (socks w s) \<and> s_shutting (socks w' s) = s_shutting (socks w s) \<and> s_node (socks w' s) = s_node (socks w s)"

text \<open>
  The application: \<open>look\<close> is what it reads of the head of a request, \<open>obs\<close> its record of what it was
  handed. Its handlers return and do not close the socket (what they send is not restricted).
\<close>

locale http_server =
  fixes E :: env and s g :: nat and look :: "line list \<Rightarrow> 'a" and obs :: "world \<Rightarrow> 'a part list"
  assumes obs_steps: "obs (upd_sock t f w) = obs w" "obs (upd_resp r u w) = obs w" "obs (snd (new_id w)) = obs w"
      "obs (log (E_cork fd b) w) = obs w"
    and requests: "\<exists>h. httpRequestHandler E g = Some h \<and> (\<forall>m c ls hs res d n w. list_all2 (header_of m c) ls hs \<longrightarrow>
      (\<exists>w'. h res (m, Some (trim_version hs)) d n w = Some w' \<and> keeps_request s w w' \<and> obs w' = obs w @ [Head (look ls) d n]))"
    and data: "\<exists>w'. httpDataHandler E g q d n w = Some w' \<and> keeps_request s w w' \<and> obs w' = obs w @ [Body d n]"

section \<open>A request\<close>

definition has_body :: "line list \<Rightarrow> bool" where
  "has_body ls \<longleftrightarrow> \<not> line_key_is (ascii ''get'') (hd ls) \<and> find (line_key_is (ascii ''content-length'')) (tl ls) \<noteq> None"

definition plain_request :: "line list \<Rightarrow> byte list \<Rightarrow> bool" where
  "plain_request ls body \<longleftrightarrow> list_all line_ok ls \<and> ls \<noteq> [] \<and> length ls < MAX_HEADERS \<and>
     length (request_text ls) \<le> MAX_HEADER_BUFFER_SIZE \<and> find (line_key_is (ascii ''upgrade'')) (tl ls) = None \<and>
     (if has_body ls then field (ascii ''content-length'') ls = decimal (length body) \<and> length body < 2 ^ 31 else body = [])"

text \<open>Reads that hold one request: those before the one with the end of the head, this one, and those after it.\<close>

definition request_reads :: "line list \<Rightarrow> byte list \<Rightarrow> (mem \<times> byte list) list \<Rightarrow> bool" where
  "request_reads ls body reads \<longleftrightarrow> (\<exists>first m b early later. reads = first @ (m, b @ early) # later \<and>
     concat (map snd first) @ b = request_text ls \<and> b \<noteq> [] \<and> early @ concat (map snd later) = body \<and>
     (first = [] \<or> length (request_text ls) + length early \<le> MAX_HEADER_BUFFER_SIZE) \<and> list_all (\<lambda>(m, d). d \<noteq> []) later)"

lemma getMethod_render:
  assumes "list_all2 (header_of m c) ls hs" "ls \<noteq> []"
  shows "(getMethod m (Some (trim_version hs)) = METHOD_GET) = line_key_is (ascii ''get'') (hd ls)"
proof -
  obtain l ls' h hs' where l: "ls = l # ls'" "hs = h # hs'" "header_of m c l h" using assms by (cases ls; cases hs) auto
  have k: "key_is m k (h\<lparr>valueLength := n\<rparr>) = key_is m k h" for k n by (simp add: key_is_def)
  have "key_is m (ascii ''get'') h \<Longrightarrow> keyLength h = 3" by (simp add: key_is_def)
  then show ?thesis
    using key_is_header_of [OF l(3), of "ascii ''get''"] by (auto simp: l(1,2) getMethod_def trim_version_def k simp del: ascii_simps)
qed

lemma http_reads_append:
  "http_reads E b s (xs @ ys) w = do { (t, w) \<leftarrow> http_reads E b s xs w; http_reads E b t ys w }"
proof (induction xs arbitrary: s w)
  case (Cons x xs)
  obtain m d where x: "x = (m, d)" by (cases x)
  then show ?case using Cons by (cases "http_onData E b s (wr m (recv_buffer E) d) (recv_buffer E) (length d) w") (auto simp: x)
qed simp

text \<open>The socket with \<open>n\<close> bytes of a body still to come.\<close>

definition http_open :: "nat \<Rightarrow> nat \<Rightarrow> nat \<Rightarrow> world \<Rightarrow> bool" where
  "http_open g s n w \<longleftrightarrow> contentLength (socks w s) = n \<and> httpBuffer (socks w s) = [] \<and> \<not> isClosed w s \<and> \<not> isShuttingDown w s \<and>
     s_node (socks w s) = g"

lemma response_frame:
  "keeps_request s w (snd (allocateResponse s w))" "keeps_request s w (link_response s r w)"
  by (auto simp: keeps_request_def allocateResponse_def link_response_def new_id_def upd_resp_def Let_def access split: option.split)

lemma keeps_request_trans: "keeps_request s w w' \<Longrightarrow> keeps_request s w' w'' \<Longrightarrow> keeps_request s w w''"
  unfolding keeps_request_def by (elim conjE, intro conjI) (erule trans, assumption)+

context http_server begin

lemma obs_collects: "collects s w v \<Longrightarrow> obs v = obs w"
proof -
  assume "collects s w v"
  then obtain B bs where v: "v = w\<lparr>socks := (socks w)(s := (socks w s)\<lparr>httpBuffer := B\<rparr>),
     trace := trace w @ map (E_cork (s_fd (socks w s))) bs\<rparr>" by (auto simp: collects_def)
  have "obs (u\<lparr>trace := trace u @ map (E_cork fd) bs\<rparr>) = obs u" for u :: world and fd
  proof (induction bs rule: rev_induct)
    case (snoc b bs)
    have "u\<lparr>trace := trace u @ map (E_cork fd) (bs @ [b])\<rparr> = log (E_cork fd b) (u\<lparr>trace := trace u @ map (E_cork fd) bs\<rparr>)"
      by (simp add: log_def)
    then have "obs (u\<lparr>trace := trace u @ map (E_cork fd) (bs @ [b])\<rparr>) = obs (log (E_cork fd b) (u\<lparr>trace := trace u @ map (E_cork fd) bs\<rparr>))"
      by (rule arg_cong)
    also note obs_steps(4)
    also note snoc
    finally show ?case .
  qed simp
  from this [of "upd_sock s (\<lambda>x. x\<lparr>httpBuffer := B\<rparr>) w" "s_fd (socks w s)"]
  show ?thesis by (simp add: v upd_sock_def obs_steps(1) [unfolded upd_sock_def])
qed

lemma obs_response: "obs (snd (allocateResponse s w)) = obs w" "obs (link_response s r w) = obs w"
  by (simp_all add: allocateResponse_def link_response_def Let_def case_prod_beta obs_steps split: option.split)

lemma request_handled:
  assumes hs: "list_all2 (header_of m c) ls hs" and req: "plain_request ls body" "early @ rest = body" "rd m c (length early) = early"
    and w: "contentLength (socks w s) = 0" "\<not> isClosed w s" "\<not> isShuttingDown w s" "s_node (socks w s) = g"
  obtains w' where "http_request E s m (Some (trim_version hs)) c (c + length early) w = Some (False, c + length early, w')"
    "contentLength (socks w' s) = length rest" "\<not> isClosed w' s" "\<not> isShuttingDown w' s" "s_node (socks w' s) = g"
    "obs w' = obs w @ [Head (look ls) early (length rest)]"
proof -
  note result = that
  obtain h where h: "httpRequestHandler E g = Some h"
    and step: "list_all2 (header_of m c) ls hs \<longrightarrow>
      (\<exists>w'. h res (m, Some (trim_version hs)) d n w = Some w' \<and> keeps_request s w w' \<and> obs w' = obs w @ [Head (look ls) d n])" for res d n w
    using requests by (elim exE conjE) metis
  define res w1 where "res = fst (allocateResponse s w)" and "w1 = link_response s res (snd (allocateResponse s w))"
  have w1: "keeps_request s w w1" "obs w1 = obs w"
    unfolding w1_def by (rule keeps_request_trans [OF response_frame]) (simp only: obs_response)
  have ls: "ls \<noteq> []" using req(1) by (simp add: plain_request_def)
  have get: "getMethod m (Some (trim_version hs)) = METHOD_GET \<longleftrightarrow> line_key_is (ascii ''get'') (hd ls)"
    by (rule getMethod_render [OF hs ls])
  note cl = header_value_render(3) [OF hs, of "ascii ''content-length''"]
  have len: "length early + length rest = length body" using arg_cong [OF req(2), of length] by simp
  show thesis
  proof (cases "has_body ls")
    case True
    then have f: "field (ascii ''content-length'') ls = decimal (length body)" "length body < 2 ^ 31"
      using req(1) by (simp_all add: plain_request_def)
    obtain k' sep v where find: "find (line_key_is (ascii ''content-length'')) (tl ls) = Some (k', sep, v)"
      using True by (cases "find (line_key_is (ascii ''content-length'')) (tl ls)") (auto simp: has_body_def simp del: ascii_simps)
    then have "v = decimal (length body)" using f(1) by (simp add: field_def del: ascii_simps)
    note total = content_length_field [OF hs find this f(2), of "c + length early"] to_size_t_of_nat [OF f(2)]
    define w2 where "w2 = upd_sock s (\<lambda>x. x\<lparr>contentLength := length rest\<rparr>) w1"
    obtain w' where w': "h res (m, Some (trim_version hs)) early (length rest) w2 = Some w'" "keeps_request s w2 w'"
      "obs w' = obs w2 @ [Head (look ls) early (length rest)]" using step hs by blast
    have m: "min (length body) (length early) = length early" "length body - length early = length rest" using len by simp_all
    have open': "\<not> isClosed w' s" "\<not> isShuttingDown w' s" "contentLength (socks w' s) = length rest" "s_node (socks w' s) = g"
      using w w1(1) w'(2) by (simp_all add: keeps_request_def isClosed_def isShuttingDown_def w2_def access)
    have "http_request E s m (Some (trim_version hs)) c (c + length early) w = Some (False, c + length early, w')"
      using True get cl total h w(4) w'(1) open'(1,2) req(3)
      by (simp add: http_request_def Let_def case_prod_beta has_body_def res_def [symmetric] w1_def [symmetric] m w2_def del: ascii_simps)
    then show thesis using open' w1(2) w'(3) by (intro result [of w']) (simp_all add: w2_def obs_steps)
  next
    case False
    then have e: "early = []" "rest = []" using req(1,2) by (simp_all add: plain_request_def)
    obtain w' where w': "h res (m, Some (trim_version hs)) [] 0 w1 = Some w'" "keeps_request s w1 w'"
      "obs w' = obs w1 @ [Head (look ls) [] 0]" using step hs by blast
    have open': "\<not> isClosed w' s" "\<not> isShuttingDown w' s" "contentLength (socks w' s) = 0" "s_node (socks w' s) = g"
      using w w1(1) w'(2) by (simp_all add: keeps_request_def isClosed_def isShuttingDown_def)
    have "\<not> (getMethod m (Some (trim_version hs)) \<noteq> METHOD_GET \<and> key (getHeader m (Some (trim_version hs)) (ascii ''content-length'')) \<noteq> None)"
      using False get cl by (simp add: has_body_def)
    then have "http_request E s m (Some (trim_version hs)) c (c + length early) w = Some (False, c + length early, w')"
      using h w(4) w'(1) open'(1,2) e
      by (auto simp: http_request_def Let_def case_prod_beta res_def [symmetric] w1_def [symmetric] simp del: ascii_simps)
    then show thesis using open' w1(2) w'(3) e by (intro result [of w']) simp_all
  qed
qed

section \<open>The reads of a request\<close>

lemma head_read:
  assumes "partial_request s ls w b" "plain_request ls body" "early @ rest = body"
    and "httpBuffer (socks w s) = [] \<or> length (request_text ls) + length early \<le> MAX_HEADER_BUFFER_SIZE"
    and w: "\<not> isClosed w s" "\<not> isShuttingDown w s" "s_node (socks w s) = g"
  obtains w' where "http_onData E True s (wr m a (b @ early)) a (length (b @ early)) w = Some (s, w')"
    "http_open g s (length rest) w'" "obs w' = obs w @ [Head (look ls) early (length rest)]"
proof -
  have ls: "list_all line_ok ls" "length ls < MAX_HEADERS" "ls \<noteq> []" "find (line_key_is (ascii ''upgrade'')) (tl ls) = None"
    using assms(2) unfolding plain_request_def by blast+
  obtain v x c len m' hs w0 where h: "http_onData E True s (wr m a (b @ early)) a (length (b @ early)) w =
      http_loop E True s v x (c + length early) len w0"
    "getHeaders MAX_HEADERS True v x (c + length early) [] = Some (m', Some (c, hs))" "list_all2 (header_of m' c) ls hs"
    "rd m' c (length early) = early" "collects s w (parsed_in_place s m' w0)"
    using complete_head_onData [OF ls(1-3) assms(1,4)] by metis
  define w1 where "w1 = parsed_in_place s m' w0"
  define w2 where "w2 = upd_sock s (\<lambda>x. x\<lparr>missedDeadline := False\<rparr>) w1"
  note h = h(1-4) h(5) [folded w1_def]
  have c: "contentLength (socks w s) = 0" using assms(1) by (simp add: partial_request_def)
  have "s_fd (socks w1 s) = s_fd (socks w s)" "s_shutting (socks w1 s) = s_shutting (socks w s)" "s_node (socks w1 s) = s_node (socks w s)"
    by (subst collects_frame(1) [OF h(5)], simp)+
  then have w2: "contentLength (socks w2 s) = 0" "\<not> isClosed w2 s" "\<not> isShuttingDown w2 s" "s_node (socks w2 s) = g" "obs w2 = obs w"
    using w c collects_content [OF h(5)] obs_collects [OF h(5)]
    by (simp_all add: w2_def access isClosed_def isShuttingDown_def obs_steps)
  obtain w3 where w3: "http_request E s m' (Some (trim_version hs)) c (c + length early) w2 = Some (False, c + length early, w3)"
    "contentLength (socks w3 s) = length rest" "\<not> isClosed w3 s" "\<not> isShuttingDown w3 s" "s_node (socks w3 s) = g"
    "obs w3 = obs w2 @ [Head (look ls) early (length rest)]"
    using request_handled [OF h(3) assms(2,3) h(4) w2(1-4)] .
  have up: "key (getHeader m' (Some hs) (ascii ''upgrade'')) = None"
    using header_value_render(3) [OF h(3), of "ascii ''upgrade''"] ls(4) by simp
  let ?w = "upd_sock s (\<lambda>x. x\<lparr>httpBuffer := []\<rparr>) (cork s False w3)"
  have "http_onData E True s (wr m a (b @ early)) a (length (b @ early)) w = Some (s, ?w)"
    unfolding h(1) by (subst http_loop.simps) (simp add: h(2) up Let_def w1_def [symmetric] w2_def [symmetric] w3(1) del: ascii_simps)
  moreover have "http_open g s (length rest) ?w"
    using w3(2-5) by (simp add: http_open_def isClosed_def isShuttingDown_def access cork_def)
  moreover have "obs ?w = obs w3" by (simp add: obs_steps cork_def)
  ultimately show thesis using w3(6) w2(5) by (intro that [of ?w]) simp_all
qed

lemma body_read:
  assumes "http_open g s (length d + n) w" "d \<noteq> []"
  obtains w' where "http_onData E True s (wr m a d) a (length d) w = Some (s, w')" "http_open g s n w'" "obs w' = obs w @ [Body d n]"
proof -
  define w1 where "w1 = upd_sock s (\<lambda>x. x\<lparr>contentLength := n\<rparr>) (upd_sock s (\<lambda>x. x\<lparr>missedDeadline := False\<rparr>) (cork s True w))"
  have w1: "http_open g s n w1" "obs w1 = obs w"
    using assms(1) by (simp_all add: w1_def http_open_def isClosed_def isShuttingDown_def access cork_def obs_steps)
  obtain w' where w': "httpDataHandler E g (outstandingResponsesTail (socks w1 s)) d n w1 = Some w'" "keeps_request s w1 w'"
    "obs w' = obs w1 @ [Body d n]" using data by blast
  have cl: "upd_sock s (\<lambda>x. x\<lparr>contentLength := contentLength x - length d\<rparr>) (upd_sock s (\<lambda>x. x\<lparr>missedDeadline := False\<rparr>) (cork s True w)) = w1"
    using assms(1) by (simp add: w1_def upd_sock_def http_open_def cork_def log_def)
  have "http_onData E True s (wr m a d) a (length d) w = Some (s, w')"
    using assms w'(1) cl w1(1)
    by (simp add: http_onData_def http_body_def Let_def http_open_def cork_def access rd_wr)
  moreover have "http_open g s n w'" using w1(1) w'(2) by (simp add: http_open_def keeps_request_def isClosed_def isShuttingDown_def)
  ultimately show thesis using w1(2) w'(3) by (intro that [of w']) simp_all
qed

lemma body_reads:
  "http_open g s (length (concat (map snd reads))) w \<Longrightarrow> list_all (\<lambda>(m, d). d \<noteq> []) reads \<Longrightarrow>
    \<exists>w'. http_reads E True s reads w = Some (s, w') \<and> http_open g s 0 w' \<and>
      obs w' = obs w @ body_parts (length (concat (map snd reads))) (map snd reads)"
proof (induction reads arbitrary: w)
  case (Cons md reads)
  obtain m d where md: "md = (m, d)" by (cases md)
  let ?n = "length (concat (map snd reads))"
  have "http_open g s (length d + ?n) w" "d \<noteq> []" using Cons.prems by (simp_all add: md)
  then obtain w1 where w1: "http_onData E True s (wr m (recv_buffer E) d) (recv_buffer E) (length d) w = Some (s, w1)"
    "http_open g s ?n w1" "obs w1 = obs w @ [Body d ?n]" using body_read by blast
  from Cons.IH [OF w1(2)] Cons.prems(2) show ?case using w1(1,3) by (auto simp: md)
qed simp

lemma request_served:
  assumes "http_open g s 0 w" "plain_request ls body" "request_reads ls body reads"
  shows "\<exists>w' ps. http_reads E True s reads w = Some (s, w') \<and> http_open g s 0 w' \<and> request_parts (look ls) body ps \<and> obs w' = obs w @ ps"
proof -
  obtain first m b early later where r: "reads = first @ (m, b @ early) # later" "concat (map snd first) @ b = request_text ls" "b \<noteq> []"
    "early @ concat (map snd later) = body" "first = [] \<or> length (request_text ls) + length early \<le> MAX_HEADER_BUFFER_SIZE"
    "list_all (\<lambda>(m, d). d \<noteq> []) later"
    using assms(3) unfolding request_reads_def by blast
  have ls: "list_all line_ok ls" "length ls < MAX_HEADERS" "length (request_text ls) \<le> MAX_HEADER_BUFFER_SIZE"
    using assms(2) unfolding plain_request_def by blast+
  have "partial_request s ls w (concat (map snd first) @ b)"
    using assms(1) r(2) lowered_refl [OF ls(1)] by (auto simp: partial_request_def http_open_def)
  from http_reads_collect [OF ls r(3) this]
  obtain w1 where w1: "http_reads E True s first w = Some (s, w1)" "partial_request s ls w1 b" "collects s w w1" by blast
  have "s_fd (socks w1 s) = s_fd (socks w s)" "s_shutting (socks w1 s) = s_shutting (socks w s)" "s_node (socks w1 s) = s_node (socks w s)"
    by (subst collects_frame(1) [OF w1(3)], simp)+
  then have o: "\<not> isClosed w1 s" "\<not> isShuttingDown w1 s" "s_node (socks w1 s) = g"
    using assms(1) by (simp_all add: http_open_def isClosed_def isShuttingDown_def)
  have buf: "httpBuffer (socks w1 s) = [] \<or> length (request_text ls) + length early \<le> MAX_HEADER_BUFFER_SIZE"
    using r(5) w1(1) assms(1) by (auto simp: http_open_def)
  obtain w2 where w2: "http_onData E True s (wr m (recv_buffer E) (b @ early)) (recv_buffer E) (length (b @ early)) w1 = Some (s, w2)"
    "http_open g s (length (concat (map snd later))) w2" "obs w2 = obs w1 @ [Head (look ls) early (length (concat (map snd later)))]"
    using head_read [OF w1(2) assms(2) r(4) buf o] .
  obtain w3 where w3: "http_reads E True s later w2 = Some (s, w3)" "http_open g s 0 w3"
    "obs w3 = obs w2 @ body_parts (length (concat (map snd later))) (map snd later)"
    using body_reads [OF w2(2) r(6)] by blast
  let ?ps = "Head (look ls) early (length (concat (map snd later))) # body_parts (length (concat (map snd later))) (map snd later)"
  have "http_reads E True s reads w = Some (s, w3)" using w1(1) w2(1) w3(1) by (simp add: r(1) http_reads_append)
  moreover have "request_parts (look ls) body ?ps"
    unfolding request_parts_def using r(4) by (intro exI [of _ early] exI [of _ "map snd later"]) (auto simp flip: r(4))
  moreover have "obs w3 = obs w @ ?ps" using w3(3) w2(3) obs_collects [OF w1(3)] by simp
  ultimately show ?thesis using w3(2) by blast
qed

lemma requests_served:
  "http_open g s 0 w \<Longrightarrow> list_all2 (\<lambda>(ls, body) reads. plain_request ls body \<and> request_reads ls body reads) requests cuts \<Longrightarrow>
    \<exists>w' parts. http_reads E True s (concat cuts) w = Some (s, w') \<and> http_open g s 0 w' \<and>
      list_all2 (\<lambda>(ls, body) ps. request_parts (look ls) body ps) requests parts \<and> obs w' = obs w @ concat parts"
proof (induction requests arbitrary: cuts w)
  case Nil
  then show ?case by (intro exI [of _ w] exI [of _ "[]"]) simp
next
  case (Cons r requests)
  obtain ls body reads cuts' where c: "r = (ls, body)" "cuts = reads # cuts'" "plain_request ls body" "request_reads ls body reads"
    "list_all2 (\<lambda>(ls, body) reads. plain_request ls body \<and> request_reads ls body reads) requests cuts'"
    using Cons.prems(2) by (cases r) (auto simp: list_all2_Cons1)
  obtain w1 ps where w1: "http_reads E True s reads w = Some (s, w1)" "http_open g s 0 w1" "request_parts (look ls) body ps" "obs w1 = obs w @ ps"
    using request_served [OF Cons.prems(1) c(3,4)] by blast
  obtain w' parts where "http_reads E True s (concat cuts') w1 = Some (s, w')" "http_open g s 0 w'"
    "list_all2 (\<lambda>(ls, body) ps. request_parts (look ls) body ps) requests parts" "obs w' = obs w1 @ concat parts"
    using Cons.IH [OF w1(2) c(5)] by blast
  then show ?case using w1 c(1,2) by (intro exI [of _ w'] exI [of _ "ps # parts"]) (simp add: http_reads_append)
qed

end

section \<open>Property\<close>

text \<open>
  C8: A server hands over the requests of a connection as they were sent. One after the other, any
  well-formed requests of fewer than 100 lines and at most 4096 bytes of head that ask for no upgrade:
  with a body shorter than 2^31 bytes (the length is read by \<open>atoi\<close> into an
  \<open>int\<close>, see \<open>negative_content_length\<close>) whose length the head announces and a
  method other than GET, or without. Each is cut into reads anywhere, and no read holds bytes of two
  requests; when the head comes in more than one read, the read with its end fits into the buffer of 4096
  bytes. Then every call of \<open>onData\<close> returns the socket, the request handler is called once
  per request, in order, with its head and what is there of the body, and the data handler with the
  others, in order, each with the number of bytes still to come; together they are the body, and nothing
  of one request reaches the next. Assumed: handlers return, record, and leave the socket's request state
  alone.
\<close>

theorem http_requests_served:
  assumes "http_server E s g look obs" "http_open g s 0 w"
    and "list_all2 (\<lambda>(ls, body) reads. plain_request ls body \<and> request_reads ls body reads) requests cuts"
  shows "\<exists>w' parts. http_reads E True s (concat cuts) w = Some (s, w') \<and> http_open g s 0 w' \<and>
    list_all2 (\<lambda>(ls, body) ps. request_parts (look ls) body ps) requests parts \<and> obs w' = obs w @ concat parts"
  by (rule http_server.requests_served [OF assms])

text \<open>A server that keeps the host of each request, the parts of its body and their counts.\<close>

definition note_part :: "byte list part \<Rightarrow> world \<Rightarrow> world" where
  "note_part p w = (case p of
     Head a d n \<Rightarrow> log (E_send (-1) d 0) (log (E_resolve (Some a) (int n)) w)
   | Body d n \<Rightarrow> log (E_ssl_write 0 d (int n)) w)"

definition part_event :: "byte list part list \<Rightarrow> event \<Rightarrow> byte list part list" where
  "part_event ps e = (case e of
     E_resolve (Some a) n \<Rightarrow> ps @ [Head a [] (nat n)]
   | E_send fd d r \<Rightarrow> (case last ps of Head a x n \<Rightarrow> butlast ps @ [Head a d n] | Body x n \<Rightarrow> ps)
   | E_ssl_write i d n \<Rightarrow> ps @ [Body d (nat n)]
   | _ \<Rightarrow> ps)"

definition noted_parts :: "world \<Rightarrow> byte list part list" where
  "noted_parts w = foldl part_event [] (trace w)"

definition form_env :: env where
  "form_env = env0\<lparr>
     httpRequestHandler := (\<lambda>g. Some (\<lambda>res r d n w.
       Some (note_part (Head (header_value (fst r) (getHeader (fst r) (snd r) (ascii ''host''))) d n) w))),
     httpDataHandler := (\<lambda>g r d n w. Some (note_part (Body d n) w))\<rparr>"

lemma noted_parts_log: "noted_parts (log e w) = part_event (noted_parts w) e"
  by (simp add: noted_parts_def access)

lemma note_part_facts: "noted_parts (note_part p w) = noted_parts w @ [p]" "keeps_request s w (note_part p w)"
  by (cases p; simp add: note_part_def noted_parts_log part_event_def keeps_request_def access)+

interpretation form_server: http_server form_env s g "field (ascii ''host'')" noted_parts for s g
proof
  fix t f w r u fd b d n and q :: "nat option"
  show "noted_parts (upd_sock t f w) = noted_parts w" "noted_parts (upd_resp r u w) = noted_parts w"
    "noted_parts (snd (new_id w)) = noted_parts w"
    by (simp_all add: noted_parts_def access upd_resp_def new_id_def)
  show "noted_parts (log (E_cork fd b) w) = noted_parts w" by (simp add: noted_parts_log part_event_def)
  show "\<exists>w'. httpDataHandler form_env g q d n w = Some w' \<and> keeps_request s w w' \<and> noted_parts w' = noted_parts w @ [Body d n]"
    by (simp add: form_env_def note_part_facts)
  show "\<exists>h. httpRequestHandler form_env g = Some h \<and> (\<forall>m c ls hs res d n w. list_all2 (header_of m c) ls hs \<longrightarrow>
      (\<exists>w'. h res (m, Some (trim_version hs)) d n w = Some w' \<and> keeps_request s w w' \<and>
        noted_parts w' = noted_parts w @ [Head (field (ascii ''host'') ls) d n]))"
    by (simp add: form_env_def note_part_facts header_value_render(1) del: ascii_simps)
qed

text \<open>A POST whose body comes in two pieces, the first of them with the head; then a GET in two reads.\<close>

definition post_lines :: "line list" where
  "post_lines = [(ascii ''POST'', [32], ascii ''/ HTTP/1.1''), (ascii ''Host'', colon, [97]), (ascii ''Content-Length'', colon, [51])]"

definition get_lines :: "line list" where
  "get_lines = [(ascii ''GET'', [32], ascii ''/ HTTP/1.1''), (ascii ''Host'', colon, [98])]"

lemma example_requests: "plain_request post_lines [1, 2, 3]" "plain_request get_lines []"
proof -
  have ok: "list_all line_ok post_lines" "list_all line_ok get_lines" by code_simp+
  have d: "decimal (Suc (Suc (Suc 0))) = [51]" by (simp add: decimal.simps)
  show "plain_request post_lines [1, 2, 3]" "plain_request get_lines []"
    using ok d unfolding plain_request_def
    by (simp_all add: post_lines_def get_lines_def MAX_HEADERS_def MAX_HEADER_BUFFER_SIZE_def request_text_def line_text_def colon_def
        line_key_is_def to_lower_def has_body_def field_def)
qed

theorem http_requests_served_witness:
  "\<exists>w' p1 p2. http_reads form_env True 4 [(\<lambda>i. 5, request_text post_lines @ [1]), (\<lambda>i. 6, [2, 3]),
      (\<lambda>i. 7, take 4 (request_text get_lines)), (\<lambda>i. 8, drop 4 (request_text get_lines))] world0 = Some (4, w') \<and>
    noted_parts w' = p1 @ p2 \<and> request_parts [97] [1, 2, 3] p1 \<and> request_parts [98] [] p2"
proof -
  let ?r1 = "[(\<lambda>i. 5, request_text post_lines @ [1]), (\<lambda>i. 6, [2, 3])] :: (mem \<times> byte list) list"
    and ?r2 = "[(\<lambda>i. 7, take 4 (request_text get_lines)), (\<lambda>i. 8, drop 4 (request_text get_lines))] :: (mem \<times> byte list) list"
  have "request_reads post_lines [1, 2, 3] ?r1"
    unfolding request_reads_def
    by (rule exI [of _ "[]"], rule exI [of _ "\<lambda>i. 5"], rule exI [of _ "request_text post_lines"], rule exI [of _ "[1]"],
        rule exI [of _ "[(\<lambda>i. 6, [2, 3])]"]) (simp add: request_text_def)
  moreover have "request_reads get_lines [] ?r2"
    unfolding request_reads_def
    by (rule exI [of _ "[(\<lambda>i. 7, take 4 (request_text get_lines))]"], rule exI [of _ "\<lambda>i. 8"],
        rule exI [of _ "drop 4 (request_text get_lines)"], rule exI [of _ "[]"], rule exI [of _ "[]"]) (simp add: get_lines_def request_text_def line_text_def colon_def MAX_HEADER_BUFFER_SIZE_def)
  ultimately have "list_all2 (\<lambda>(ls, body) reads. plain_request ls body \<and> request_reads ls body reads)
      [(post_lines, [1, 2, 3]), (get_lines, [])] [?r1, ?r2]"
    using example_requests by simp
  moreover have "http_open 0 4 0 world0" "noted_parts world0 = []"
    by (simp_all add: http_open_def world0_def sock0_def isClosed_def isShuttingDown_def noted_parts_def)
  ultimately obtain w' parts where "http_reads form_env True 4 (concat [?r1, ?r2]) world0 = Some (4, w')" "noted_parts w' = concat parts"
    "list_all2 (\<lambda>(ls, body) ps. request_parts (field (ascii ''host'') ls) body ps) [(post_lines, [1, 2, 3]), (get_lines, [])] parts"
    using http_requests_served [OF form_server.http_server_axioms, of 0 4 world0 "[(post_lines, [1, 2, 3]), (get_lines, [])]" "[?r1, ?r2]"]
    by auto
  moreover have "field (ascii ''host'') post_lines = [97]" "field (ascii ''host'') get_lines = [98]"
    by (simp_all add: field_def post_lines_def get_lines_def line_key_is_def to_lower_def)
  moreover from calculation(3,4,5) obtain p1 p2 where "parts = [p1, p2]" "request_parts [97] [1, 2, 3] p1" "request_parts [98] [] p2"
    by (auto simp: list_all2_Cons1 simp del: ascii_simps)
  ultimately show ?thesis
    by (intro exI [of _ w'] exI [of _ p1] exI [of _ p2]) (simp del: http_reads.simps)
qed

end
