(* ===== verification/Accepting.thy ===== *)
theory Accepting
  imports Hub ClientUpgrade
begin

text \<open>
  A server that listens: the accept loop of the node with the hub's \<open>onServerAccept\<close> takes every connection that
  is waiting and makes it an HTTP socket of the group, ready for a request.
\<close>

section \<open>Waiting connections\<close>

text \<open>\<open>q\<close> are the descriptors \<open>accept\<close> hands out; after these it would block.\<close>

definition count_accepts :: "int \<Rightarrow> event list \<Rightarrow> nat" where
  "count_accepts fd tr = length (filter (\<lambda>e. case e of E_accept f r \<Rightarrow> f = fd | _ \<Rightarrow> False) tr)"

definition backlog :: "env \<Rightarrow> int \<Rightarrow> int list \<Rightarrow> bool" where
  "backlog E fd q \<longleftrightarrow> -1 \<notin> set q \<and>
     (\<forall>tr. sys_accept E tr fd = (if count_accepts fd tr < length q then q ! count_accepts fd tr else -1)) \<and>
     (\<forall>tr. sys_would_block E tr)"

text \<open>The application's handler may set the user data of the new socket.\<close>

definition bare :: "sock \<Rightarrow> sock" where
  "bare x = x\<lparr>s_user := None\<rparr>"

definition takes_connections :: "env \<Rightarrow> nat \<Rightarrow> int \<Rightarrow> bool" where
  "takes_connections E g fd \<longleftrightarrow> (\<forall>h w. \<exists>w'. httpConnectionHandler E g h w = Some w' \<and> (\<forall>t. bare (socks w' t) = bare (socks w t)) \<and>
     groups w' = groups w \<and> fresh w \<le> fresh w' \<and> count_accepts fd (trace w') = count_accepts fd (trace w))"

text \<open>A socket without its links and user data.\<close>

definition core :: "sock \<Rightarrow> sock" where
  "core x = bare (unlinked x)"

text \<open>A new HTTP socket.\<close>

definition new_http :: "nat \<Rightarrow> int \<Rightarrow> sock \<Rightarrow> bool" where
  "new_http g fd x \<longleftrightarrow> s_fd x = fd \<and> s_cb x = Io_http True \<and> s_poll x = UV_READABLE \<and> s_ssl x = None \<and> s_queue x = [] \<and>
     \<not> s_shutting x \<and> s_node x = g \<and> httpBuffer x = [] \<and> contentLength x = 0 \<and>
     outstandingResponsesHead x = None \<and> outstandingResponsesTail x = None"

lemma new_http_core: "new_http g fd (core x) = new_http g fd x"
  by (simp add: new_http_def core_def bare_def unlinked_def)

lemma core_bare: "bare x = bare y \<Longrightarrow> core x = core y"
proof -
  assume "bare x = bare y"
  moreover have "core z = unlinked (bare z)" for z by (simp add: core_def bare_def unlinked_def)
  ultimately show ?thesis by simp
qed

section \<open>One connection\<close>

text \<open>\<open>onServerAccept\<close> up to the application's handler, on the socket that \<open>accepted\<close> makes.\<close>

definition make_http :: "env \<Rightarrow> nat \<Rightarrow> int \<Rightarrow> world \<Rightarrow> nat \<times> world" where
  "make_http E ls fd w =
     (let (s, w) = new_id w;
          w = setPoll s UV_READABLE (Socket_ctor s (s_node (socks w ls)) (sock_loop w ls) fd None w);
          (h, w) = HttpSocket_ctor s w;
          w = setPoll h UV_READABLE (setState False True h (delete_socket s w));
          w = setNoDelay h True (poll_start (sock_loop w h) h UV_READABLE w);
          g = s_node (socks w h)
      in (h, addHttpSocket E True g h w))"

lemma addHttpSocket_frame:
  "unlinked (socks (addHttpSocket E b g s w) t) = unlinked (socks w t)"
  "webSocketHead (groups (addHttpSocket E b g s w) k) = webSocketHead (groups w k)"
  "fresh w \<le> fresh (addHttpSocket E b g s w)" "count_accepts fd (trace (addHttpSocket E b g s w)) = count_accepts fd (trace w)"
  "t \<noteq> s \<Longrightarrow> httpSocketHead (groups w g) \<noteq> Some t \<Longrightarrow> socks (addHttpSocket E b g s w) t = socks w t"
  by (auto simp: addHttpSocket_def link_frame timer_new_def timer_start_def new_id_def access Let_def count_accepts_def split: option.split)

lemma unlinked_node: "unlinked x = unlinked y \<Longrightarrow> s_node x = s_node y"
  by (cases x; cases y) (simp add: unlinked_def)

lemma accepted_eq:
  assumes "l_ssl (socks w ls) = None" "make_http E ls fd w = (h, w')"
  shows "Node.accepted (onServerAccept E) ls fd w = httpConnectionHandler E (s_node (socks w' h)) h w'"
proof -
  have "s_node (socks (addHttpSocket E True g h v) h) = s_node (socks v h)" for g v
    by (rule unlinked_node [OF addHttpSocket_frame(1)])
  then show ?thesis
    using assms by (auto simp: Node.accepted_def onServerAccept_def make_http_def Let_def case_prod_beta)
qed

lemma make_http_eq:
  assumes "make_http E ls fd w = (h, w')" "ls < fresh w"
  obtains v where "h = Suc (fresh w)" "w' = addHttpSocket E True (s_node (socks w ls)) h v" "groups v = groups w" "fresh v = Suc h"
    "\<And>t. t < fresh w \<Longrightarrow> socks v t = socks w t" "new_http (s_node (socks w ls)) fd (socks v h)"
    "\<And>f. count_accepts f (trace v) = count_accepts f (trace w)"
proof -
  define s where "s = fresh w"
  define w1 where "w1 = setPoll s UV_READABLE (Socket_ctor s (s_node (socks w ls)) (sock_loop w ls) fd None (w\<lparr>fresh := Suc s\<rparr>))"
  define w2 where "w2 = snd (HttpSocket_ctor s w1)"
  define w3 where "w3 = setPoll (Suc s) UV_READABLE (setState False True (Suc s) (delete_socket s w2))"
  define v where "v = setNoDelay (Suc s) True (poll_start (sock_loop w3 (Suc s)) (Suc s) UV_READABLE w3)"
  have w1: "groups w1 = groups w" "fresh w1 = Suc s" "\<And>t. t < s \<Longrightarrow> socks w1 t = socks w t" "count_accepts f (trace w1) = count_accepts f (trace w)"
    "s_fd (socks w1 s) = fd" "s_ssl (socks w1 s) = None" "s_queue (socks w1 s) = []" "\<not> s_shutting (socks w1 s)"
    "s_node (socks w1 s) = s_node (socks w ls)" for f
    by (simp_all add: w1_def setPoll_def Socket_ctor_def Socket_init_def Poll_ctor_def access count_accepts_def)
  have w2: "fst (HttpSocket_ctor s w1) = Suc s" "groups w2 = groups w" "fresh w2 = Suc (Suc s)" "\<And>t. t \<noteq> Suc s \<Longrightarrow> socks w2 t = socks w1 t"
    "count_accepts f (trace w2) = count_accepts f (trace w)" "s_fd (socks w2 (Suc s)) = fd" "s_ssl (socks w2 (Suc s)) = None"
    "s_queue (socks w2 (Suc s)) = []" "\<not> s_shutting (socks w2 (Suc s))" "s_node (socks w2 (Suc s)) = s_node (socks w ls)"
    "httpBuffer (socks w2 (Suc s)) = []" "contentLength (socks w2 (Suc s)) = 0" "outstandingResponsesHead (socks w2 (Suc s)) = None"
    "outstandingResponsesTail (socks w2 (Suc s)) = None" for f
    using w1(1,2,4-) by (simp_all add: w2_def HttpSocket_ctor_def new_id_def Let_def access)
  have v: "groups v = groups w" "fresh v = Suc (Suc s)" "count_accepts f (trace v) = count_accepts f (trace w)"
    "new_http (s_node (socks w ls)) fd (socks v (Suc s))" for f
    using w2(2,3,5-) by (simp_all add: v_def w3_def setNoDelay_def poll_start_def setPoll_def setState_def set_cb_def delete_socket_def access
        count_accepts_def new_http_def)
  have old: "socks v t = socks w t" if "t < fresh w" for t
    using that w1(3) [of t] w2(4) [of t] by (simp add: v_def w3_def setNoDelay_def poll_start_def setPoll_def setState_def set_cb_def
        delete_socket_def access s_def)
  have "s_node (socks v (Suc s)) = s_node (socks w ls)" using v(4) by (simp add: new_http_def)
  then have "make_http E ls fd w = (Suc s, addHttpSocket E True (s_node (socks w ls)) (Suc s) v)"
    using w2(1) by (simp add: make_http_def new_id_def Let_def case_prod_beta s_def [symmetric] v_def w3_def w2_def w1_def sock_loop_def sock_group_def)
  then show thesis using assms(1) v old by (intro that [of v]) (simp_all add: s_def)
qed

text \<open>The listening socket \<open>ls\<close> of the group, and the group's two lists.\<close>

definition listens :: "nat \<Rightarrow> nat \<Rightarrow> int \<Rightarrow> nat list \<Rightarrow> nat list \<Rightarrow> world \<Rightarrow> bool" where
  "listens g ls fd hs xs w \<longleftrightarrow> l_ssl (socks w ls) = None \<and> s_node (socks w ls) = g \<and> s_fd (socks w ls) = fd \<and> ls < fresh w \<and>
     http_list w g hs \<and> ws_list w g xs \<and> set hs \<inter> set xs = {} \<and> list_all (\<lambda>x. x < fresh w) (hs @ xs)"

definition same_cores :: "world \<Rightarrow> world \<Rightarrow> bool" where
  "same_cores w w' \<longleftrightarrow> fresh w \<le> fresh w' \<and> (\<forall>t < fresh w. core (socks w' t) = core (socks w t))"

lemma same_cores_trans: "same_cores w w' \<Longrightarrow> same_cores w' w'' \<Longrightarrow> same_cores w w''"
  by (auto simp: same_cores_def)

lemma core_fields:
  assumes "core x = core y"
  shows "s_fd x = s_fd y" "s_node x = s_node y" "l_ssl x = l_ssl y"
  using arg_cong [OF assms, of s_fd] arg_cong [OF assms, of s_node] arg_cong [OF assms, of l_ssl] by (simp_all add: core_def bare_def unlinked_def)

lemma bare_links:
  assumes "bare x = bare y"
  shows "s_next x = s_next y" "s_prev x = s_prev y"
  using arg_cong [OF assms, of s_next] arg_cong [OF assms, of s_prev] by (simp_all add: bare_def)

lemma make_http_listens:
  assumes "make_http E ls c w = (h, w')" "listens g ls fd hs xs w"
  shows "listens g ls fd (h # hs) xs w'" "new_http g c (socks w' h)" "fresh w \<le> h" "same_cores w w'" "s_node (socks w' h) = g"
    "count_accepts f (trace w') = count_accepts f (trace w)"
proof -
  have l: "ls < fresh w" "s_node (socks w ls) = g" "http_list w g hs" "ws_list w g xs" "set hs \<inter> set xs = {}" "list_all (\<lambda>x. x < fresh w) (hs @ xs)"
    "l_ssl (socks w ls) = None" "s_fd (socks w ls) = fd"
    using assms(2) by (simp_all add: listens_def)
  obtain v where v: "h = Suc (fresh w)" "w' = addHttpSocket E True g h v" "groups v = groups w" "fresh v = Suc h"
    "\<And>t. t < fresh w \<Longrightarrow> socks v t = socks w t" "new_http g c (socks v h)" "\<And>f. count_accepts f (trace v) = count_accepts f (trace w)"
    using make_http_eq [OF assms(1) l(1)] unfolding l(2) by metis
  have old: "t \<in> set hs \<union> set xs \<Longrightarrow> t < fresh w" for t using l(6) by (auto simp: list_all_iff)
  have vl: "http_list v g hs" "ws_list v g xs"
    using list_frame(1) [OF _ _ l(4), of v] list_frame(2) [OF _ _ l(3), of v] v(3,5) old by simp_all
  have "h \<notin> set hs" using old [of h] v(1) by auto
  then have http: "http_list w' g (h # hs)" using addHttpSocket_list [OF vl(1)] by (simp add: v(2))
  have "httpSocketHead (groups v g) = (if hs = [] then None else Some (hd hs))"
    using vl(1) by (auto simp: http_list_def dest: linked_list_head)
  then have "t \<in> set xs \<Longrightarrow> socks w' t = socks v t" for t
    using old [of t] l(5) v(1) by (cases hs) (auto simp: v(2) intro!: addHttpSocket_frame(5))
  then have ws: "ws_list w' g xs" by (intro list_frame(1) [OF _ _ vl(2)]) (simp_all add: v(2) addHttpSocket_frame)
  have fresh: "fresh v \<le> fresh w'" by (simp add: v(2) addHttpSocket_frame)
  have core: "core (socks w' t) = core (socks v t)" for t by (simp add: v(2) core_def addHttpSocket_frame)
  show cores: "same_cores w w'" using core v(1,4,5) fresh by (simp add: same_cores_def)
  show new: "new_http g c (socks w' h)" using v(6) new_http_core core by metis
  then show "s_node (socks w' h) = g" by (simp add: new_http_def)
  show "fresh w \<le> h" "count_accepts f (trace w') = count_accepts f (trace w)"
    by (simp add: v(1)) (simp add: v(2,7) addHttpSocket_frame)
  have "core (socks w' ls) = core (socks w ls)" using cores l(1) by (simp add: same_cores_def)
  note same = core_fields [OF this]
  have "h < fresh w'" "x < fresh w \<Longrightarrow> x < fresh w'" for x using fresh v(1,4) by simp_all
  then have "list_all (\<lambda>x. x < fresh w') (h # hs @ xs)"
    using l(6) unfolding list_all_iff by simp
  moreover have "ls < fresh w'" using fresh v(1,4) l(1) by simp
  moreover have "h \<notin> set xs" using old [of h] v(1) by auto
  ultimately show "listens g ls fd (h # hs) xs w'"
    using same l(2,5,7,8) http ws by (simp add: listens_def)
qed

lemma accept_one:
  assumes "listens g ls fd hs xs w" "takes_connections E g fd"
  obtains w' h where "Node.accepted (onServerAccept E) ls c w = Some w'" "listens g ls fd (h # hs) xs w'" "new_http g c (socks w' h)"
    "fresh w \<le> h" "h < fresh w'" "same_cores w w'" "count_accepts fd (trace w') = count_accepts fd (trace w)"
proof -
  obtain h w1 where m: "make_http E ls c w = (h, w1)" by (cases "make_http E ls c w") auto
  note f = make_http_listens [OF m assms(1)]
  obtain w' where w': "httpConnectionHandler E g h w1 = Some w'" "\<And>t. bare (socks w' t) = bare (socks w1 t)" "groups w' = groups w1"
    "fresh w1 \<le> fresh w'" "count_accepts fd (trace w') = count_accepts fd (trace w1)"
    using assms(2) unfolding takes_connections_def by metis
  have "l_ssl (socks w ls) = None" using assms(1) by (simp add: listens_def)
  from accepted_eq [OF this m] have "Node.accepted (onServerAccept E) ls c w = Some w'" using f(5) w'(1) by simp
  moreover have core: "core (socks w' t) = core (socks w1 t)" for t by (rule core_bare [OF w'(2)])
  moreover have "same_cores w1 w'" using w'(4) core by (simp add: same_cores_def)
  moreover have "listens g ls fd (h # hs) xs w'"
  proof -
    have l1: "http_list w1 g (h # hs)" "ws_list w1 g xs" using f(1) by (simp_all add: listens_def)
    have "http_list w' g (h # hs)" "ws_list w' g xs"
      using list_frame(1) [OF _ _ l1(2), of w'] list_frame(2) [OF _ _ l1(1), of w'] bare_links [OF w'(2)] w'(3) by simp_all
    moreover have "list_all (\<lambda>x. x < fresh w') (h # hs @ xs)" "ls < fresh w'" "set (h # hs) \<inter> set xs = {}"
      using f(1) w'(4) by (auto simp: listens_def list_all_iff dest!: bspec intro: order_less_le_trans)
    ultimately show ?thesis using f(1) core_fields [OF core, of ls] by (simp add: listens_def)
  qed
  moreover have "new_http g c (socks w' h)" using f(2) core new_http_core by metis
  moreover have "h < fresh w'" using calculation(4) by (simp add: listens_def)
  ultimately show thesis using f(3,4,6) w'(5) same_cores_trans [OF f(4)] by (intro that [of w' h]) simp_all
qed

section \<open>Every connection\<close>

lemma count_accepts_snoc: "count_accepts fd (tr @ [E_accept f r]) = count_accepts fd tr + (if f = fd then 1 else 0)"
  by (simp add: count_accepts_def)

lemma log_listens: "listens g ls fd hs xs (log e w) = listens g ls fd hs xs w" "same_cores w (log e w)"
  by (simp_all add: listens_def same_cores_def access http_list_def ws_list_def)

lemma accept_loop_all:
  assumes q: "backlog E fd q" and app: "takes_connections E g fd"
  shows "listens g ls fd hs xs w \<Longrightarrow> count_accepts fd (trace w) = Suc k \<Longrightarrow> k < length q \<Longrightarrow>
    \<exists>w' news. accept_loop E (onServerAccept E) ls fd (q ! k) w = Some w' \<and> listens g ls fd (rev news @ hs) xs w' \<and> same_cores w w' \<and>
      list_all2 (\<lambda>c h. new_http g c (socks w' h) \<and> fresh w \<le> h) (drop k q) news"
proof (induction "length q - k" arbitrary: k w hs)
  case 0
  then show ?case by simp
next
  case (Suc n)
  obtain w1 h where w1: "Node.accepted (onServerAccept E) ls (q ! k) w = Some w1" "listens g ls fd (h # hs) xs w1" "new_http g (q ! k) (socks w1 h)"
    "fresh w \<le> h" "h < fresh w1" "same_cores w w1" "count_accepts fd (trace w1) = count_accepts fd (trace w)"
    using accept_one [OF Suc.prems(1) app] .
  define w2 where "w2 = log (E_accept fd (sys_accept E (trace w1) fd)) w1"
  have w2: "listens g ls fd (h # hs) xs w2" "same_cores w w2" "new_http g (q ! k) (socks w2 h)" "fresh w2 = fresh w1"
    "count_accepts fd (trace w2) = Suc (Suc k)"
    using w1(2,3) same_cores_trans [OF w1(6) log_listens(2)] Suc.prems(2) w1(7)
    by (simp_all add: w2_def log_listens access count_accepts_snoc)
  have drop: "drop k q = q ! k # drop (Suc k) q" using Suc.prems(3) by (simp add: Cons_nth_drop_Suc)
  have r: "sys_accept E (trace w1) fd = (if Suc k < length q then q ! Suc k else -1)"
    using q Suc.prems(2) w1(7) by (simp add: backlog_def)
  have loop: "accept_loop E (onServerAccept E) ls fd (q ! k) w =
      (if sys_accept E (trace w1) fd \<noteq> -1 then accept_loop E (onServerAccept E) ls fd (sys_accept E (trace w1) fd) w2 else Some w2)"
    by (subst accept_loop.simps) (simp add: w1(1) acceptSocket_def Let_def w2_def)
  show ?case
  proof (cases "Suc k < length q")
    case True
    then have "q ! Suc k \<noteq> -1" using q nth_mem [OF True] unfolding backlog_def by metis
    then have loop': "accept_loop E (onServerAccept E) ls fd (q ! k) w = accept_loop E (onServerAccept E) ls fd (q ! Suc k) w2"
      using loop r True by simp
    have n: "n = length q - Suc k" using Suc.hyps(2) by simp
    obtain w' news where IH: "accept_loop E (onServerAccept E) ls fd (q ! Suc k) w2 = Some w'" "listens g ls fd (rev news @ h # hs) xs w'"
      "same_cores w2 w'" "list_all2 (\<lambda>c h. new_http g c (socks w' h) \<and> fresh w2 \<le> h) (drop (Suc k) q) news"
      using Suc.hyps(1) [OF n w2(1,5) True] by blast
    have "core (socks w' h) = core (socks w2 h)" using IH(3) w1(5) w2(4) by (simp add: same_cores_def)
    then have "new_http g (q ! k) (socks w' h)" using w2(3) new_http_core by metis
    moreover have "list_all2 (\<lambda>c h. new_http g c (socks w' h) \<and> fresh w \<le> h) (drop (Suc k) q) news"
      using IH(4) by (rule list_all2_mono) (use w1(6) w2(4) in \<open>auto simp: same_cores_def\<close>)
    ultimately show ?thesis
      using loop' IH(1,2) same_cores_trans [OF w2(2) IH(3)] w1(4)
      by (intro exI [of _ w'] exI [of _ "h # news"]) (simp add: drop)
  next
    case False
    then have "accept_loop E (onServerAccept E) ls fd (q ! k) w = Some w2" using loop r by simp
    with False w2 w1(4) show ?thesis by (intro exI [of _ w2] exI [of _ "[h]"]) (simp add: drop)
  qed
qed

lemma accept_poll_all:
  assumes "backlog E fd q" "takes_connections E g fd" "listens g ls fd hs xs w" "count_accepts fd (trace w) = k"
  obtains w' news where "accept_poll_cb E (onServerAccept E) ls w = Some w'" "listens g ls fd (rev news @ hs) xs w'" "same_cores w w'"
    "list_all2 (\<lambda>c h. new_http g c (socks w' h) \<and> fresh w \<le> h) (drop k q) news"
proof -
  note step = that
  have fd: "s_fd (socks w ls) = fd" using assms(3) by (simp add: listens_def)
  define w1 where "w1 = log (E_accept fd (sys_accept E (trace w) fd)) w"
  have w1: "listens g ls fd hs xs w1" "same_cores w w1" "fresh w1 = fresh w" "count_accepts fd (trace w1) = Suc k"
    using assms(3,4) by (simp_all add: w1_def log_listens access count_accepts_snoc)
  have r: "sys_accept E (trace w) fd = (if k < length q then q ! k else -1)" using assms(1,4) by (simp add: backlog_def)
  show thesis
  proof (cases "k < length q")
    case True
    then have "q ! k \<noteq> -1" using assms(1) nth_mem [OF True] unfolding backlog_def by metis
    then have eq: "accept_poll_cb E (onServerAccept E) ls w = accept_loop E (onServerAccept E) ls fd (q ! k) w1"
      using r True by (simp add: accept_poll_cb_def accept_cb_def acceptSocket_def Let_def fd w1_def)
    obtain w' news where "accept_loop E (onServerAccept E) ls fd (q ! k) w1 = Some w'" "listens g ls fd (rev news @ hs) xs w'" "same_cores w1 w'"
      "list_all2 (\<lambda>c h. new_http g c (socks w' h) \<and> fresh w1 \<le> h) (drop k q) news"
      using accept_loop_all [OF assms(1,2) w1(1,4) True] by blast
    then show thesis using eq w1(3) same_cores_trans [OF w1(2)] step by simp
  next
    case False
    have "wouldBlock E v" for v using assms(1) by (simp add: backlog_def wouldBlock_def)
    then have "accept_poll_cb E (onServerAccept E) ls w = Some w1"
      using r False by (simp add: accept_poll_cb_def accept_cb_def acceptSocket_def Let_def fd w1_def)
    then show thesis using False w1 by (intro step [of w1 "[]"]) simp_all
  qed
qed

text \<open>The new sockets wait for a request.\<close>

lemma accepted_wait:
  assumes "-1 \<notin> set q" "list_all2 (\<lambda>c h. new_http g c (socks w h) \<and> n \<le> h) (drop k q) news"
    and "listens g ls fd (rev news @ hs) xs w" "httpUpgradeHandler E g = None"
  shows "list_all (\<lambda>h. awaits_request E g h (rev news @ hs) xs w) news"
proof -
  have new: "list_all (\<lambda>h. \<exists>c. c \<noteq> -1 \<and> new_http g c (socks w h)) news"
    unfolding list_all_length
  proof (intro allI impI)
    fix i assume i: "i < length news"
    with list_all2_lengthD [OF assms(2)] list_all2_nthD2 [OF assms(2) i]
    have "drop k q ! i \<in> set q" "new_http g (drop k q ! i) (socks w (news ! i))" by simp_all
    then show "\<exists>c. c \<noteq> -1 \<and> new_http g c (socks w (news ! i))" using assms(1) by metis
  qed
  then show ?thesis
    using assms(3,4)
    by (fastforce simp: listens_def list_all_iff awaits_request_def new_http_def plain_sock_def isClosed_def isShuttingDown_def)
qed

section \<open>Property\<close>


text \<open>Two connections are waiting.\<close>

definition accept_env :: env where
  "accept_env = env0\<lparr>sys_accept := (\<lambda>tr fd. if count_accepts fd tr < length [11, 12 :: int] then [11, 12] ! count_accepts fd tr else -1)\<rparr>"


end
