(* ===== verification/Session.thy ===== *)
theory Session
  imports Hub ClientUpgrade
begin

text \<open>
  A client and a server of this library, from \<open>Hub::connect\<close> on: the request goes out, the server
  upgrades and greets, and the client reads the response and the frames behind it. The two ends only share the
  bytes, which are cut into reads anywhere.
\<close>

section \<open>Reads\<close>

text \<open>
  The reads of one descriptor: each goes to \<open>onData\<close> of the class that the socket's callback was set for, and
  the next one to the object it returned.
\<close>

fun channel_reads :: "env \<Rightarrow> bool \<Rightarrow> nat \<Rightarrow> (mem \<times> byte list) list \<Rightarrow> world \<Rightarrow> (nat \<times> world) option" where
  "channel_reads E isServer s [] w = Some (s, w)"
| "channel_reads E isServer s ((m, b) # reads) w =
     do { (t, w) \<leftarrow> (if s_cb (socks w s) = Io_http isServer then http_onData E isServer else ws_onData E isServer)
            s (wr m (recv_buffer E) b) (recv_buffer E) (length b) w;
          channel_reads E isServer t reads w }"

lemma channel_reads_append:
  "channel_reads E i s (xs @ ys) w = do { (t, w) \<leftarrow> channel_reads E i s xs w; channel_reads E i t ys w }"
proof (induction xs arbitrary: s w)
  case (Cons x xs)
  obtain m b where x: "x = (m, b)" by (cases x)
  let ?f = "if s_cb (socks w s) = Io_http i then http_onData E i else ws_onData E i"
  show ?case using Cons by (cases "?f s (wr m (recv_buffer E) b) (recv_buffer E) (length b) w") (auto simp: x)
qed simp

text \<open>Parts of a head go to the HTTP socket; once the stream is read as frames, to the WebSocket.\<close>

lemma channel_reads_http:
  assumes "list_all line_ok ls" "length ls < MAX_HEADERS" "length (request_text ls) \<le> MAX_HEADER_BUFFER_SIZE" "rest \<noteq> []"
  shows "partial_request s ls w (concat (map snd reads) @ rest) \<Longrightarrow> s_cb (socks w s) = Io_http i \<Longrightarrow>
    channel_reads E i s reads w = http_reads E i s reads w"
proof (induction reads arbitrary: w)
  case (Cons mb reads)
  obtain m b where mb: "mb = (m, b)" by (cases mb)
  have "partial_request s ls w (concat (map snd [mb]) @ concat (map snd reads) @ rest)" using Cons.prems(1) by simp
  with http_reads_collect [OF assms(1-3) _ this, of E i] assms(4)
  obtain w1 where w1: "http_reads E i s [mb] w = Some (s, w1)" "partial_request s ls w1 (concat (map snd reads) @ rest)" "collects s w w1"
    by auto
  have "http_onData E i s (wr m (recv_buffer E) b) (recv_buffer E) (length b) w = Some (s, w1)"
    using w1(1) by (cases "http_onData E i s (wr m (recv_buffer E) b) (recv_buffer E) (length b) w") (auto simp: mb)
  moreover have "s_cb (socks w1 s) = Io_http i" using Cons.prems(2) by (subst collects_frame(1) [OF w1(3)]) simp
  ultimately show ?case using Cons.IH [OF w1(2)] Cons.prems(2) by (simp add: mb)
qed simp

lemma channel_reads_ws:
  assumes app: "served_socket obs ws E i limit reply" and cb: "s_cb (socks v0 ws) = Io_ws i" and room: "CONSUME_PRE_PADDING i \<le> recv_buffer E"
  shows "reads_on limit ok_frame (served_ready limit ws i obs reply v0) (served_view ws obs) i ws all w (concat (map snd reads) @ F) \<Longrightarrow>
    list_all (\<lambda>(m, b). length b < 2 ^ 32) reads \<Longrightarrow>
    \<exists>w'. channel_reads E i ws reads w = Some (ws, w') \<and>
      reads_on limit ok_frame (served_ready limit ws i obs reply v0) (served_view ws obs) i ws all w' F"
proof (induction reads arbitrary: w)
  case (Cons mb reads)
  obtain m b where mb: "mb = (m, b)" by (cases mb)
  have "s_cb (socks w ws) = Io_ws i"
    using Cons.prems(1) cb by (simp add: reads_on_def served_ready_def answered_since_def same_channel_def)
  moreover obtain w1 where "ws_onData E i ws (wr m (recv_buffer E) b) (recv_buffer E) (length b) w = Some (ws, w1)"
    "reads_on limit ok_frame (served_ready limit ws i obs reply v0) (served_view ws obs) i ws all w1 (concat (map snd reads) @ F)"
  proof -
    have "reads_on limit ok_frame (served_ready limit ws i obs reply v0) (served_view ws obs) i ws all w (b @ concat (map snd reads) @ F)"
      "length b < 2 ^ 32" using Cons.prems mb by simp_all
    from served_socket.data_reads_served [OF app this(1) room this(2)] that show thesis by blast
  qed
  ultimately show ?case using Cons.IH [of w1] Cons.prems(2) mb by simp
qed simp

text \<open>The read that holds the end of a head.\<close>

lemma cut_at_head:
  "concat (map snd reads) = h @ rest \<Longrightarrow> h \<noteq> [] \<Longrightarrow> \<exists>first m b early later.
    reads = first @ (m, b @ early) # later \<and> b \<noteq> [] \<and> concat (map snd first) @ b = h \<and> early @ concat (map snd later) = rest"
proof (induction reads arbitrary: h)
  case (Cons mb reads)
  obtain m d where mb: "mb = (m, d)" by (cases mb)
  have cut: "d @ concat (map snd reads) = h @ rest" using Cons.prems(1) mb by simp
  show ?case
  proof (cases "length d < length h")
    case True
    then obtain h' where h: "h = d @ h'" "concat (map snd reads) = h' @ rest" "h' \<noteq> []"
      using cut by (auto simp: append_eq_append_conv2)
    from Cons.IH [OF h(2,3)] obtain first m' b early later where "reads = first @ (m', b @ early) # later" "b \<noteq> []"
      "concat (map snd first) @ b = h'" "early @ concat (map snd later) = rest" by blast
    then show ?thesis using h(1) mb
      by (intro exI [of _ "mb # first"] exI [of _ m'] exI [of _ b] exI [of _ early] exI [of _ later]) simp
  next
    case False
    then obtain early where e: "d = h @ early" "rest = early @ concat (map snd reads)"
      using cut by (auto simp: append_eq_append_conv2)
    then show ?thesis using Cons.prems(2) mb
      by (intro exI [of _ "[]"] exI [of _ m] exI [of _ h] exI [of _ early] exI [of _ reads]) simp
  qed
qed simp

section \<open>The client opens the connection\<close>

text \<open>The URI names a host that resolves; \<open>fd\<close> is the descriptor the client gets.\<close>

definition dials :: "env \<Rightarrow> nat \<Rightarrow> byte list \<Rightarrow> uri_parts \<Rightarrow> int \<Rightarrow> 32 word \<Rightarrow> world \<Rightarrow> bool" where
  "dials E g uri u fd limit w \<longleftrightarrow> parseURI uri no_uri = Some u \<and> \<not> secure u \<and>
     (\<forall>tr. sys_getaddrinfo E tr (Some (takeWhile (\<lambda>b. b \<noteq> 0) (hostname u))) (port u) \<notin> {None, Some []}) \<and>
     fd \<noteq> -1 \<and> (\<forall>tr. sys_socket E tr = fd) \<and> sent_on fd (trace w) = [] \<and>
     length (opCode (s_ws (socks w (fresh w)))) = 2 \<and> g_maxPayload (groups w g) = limit"

text \<open>A client's socket before its connection is there; \<open>r\<close> is its request.\<close>

definition dialing :: "32 word \<Rightarrow> nat \<Rightarrow> int \<Rightarrow> byte list \<Rightarrow> world \<Rightarrow> bool" where
  "dialing limit s fd r w \<longleftrightarrow> s_cb (socks w s) = Connect_cb \<and> s_fd (socks w s) = fd \<and> fd \<noteq> -1 \<and> s_ssl (socks w s) = None \<and>
     s_queue (socks w s) = [] \<and> \<not> isShuttingDown w s \<and> httpBuffer (socks w s) = r \<and> contentLength (socks w s) = 0 \<and>
     s < fresh w \<and> length (opCode (s_ws (socks w s))) = 2 \<and> g_maxPayload (sock_group w s) = limit \<and> sent_on fd (trace w) = []"

lemma hub_connect_dials:
  assumes "dials E g uri u fd limit w" "g = (case eh of Some g \<Rightarrow> g | None \<Rightarrow> def)"
  obtains w' where "hub_connect E l def uri user hs ms eh w = Some w'"
    "dialing limit (fresh w + 1) fd (connect_request (path u) (hostname u) (port u) hs) w'"
proof -
  obtain a as where "sys_getaddrinfo E (trace w) (Some (takeWhile (\<lambda>b. b \<noteq> 0) (hostname u))) (port u) = Some (a # as)"
    using assms(1) by (auto simp: dials_def neq_Nil_conv) (metis list.exhaust option.exhaust)
  then show thesis
    using assms that
    by (simp add: dials_def hub_connect_def node_connect_def createSocket_def Let_def new_id_def Socket_ctor_def Poll_ctor_def
        allocateHttpSocket_def HttpSocket_ctor_def startTimeout_def timer_new_def timer_start_def setUserData_def dialing_def access
        Socket_init_def isShuttingDown_def sock_group_def poll_start_def set_cb_def setPoll_def sent_ev_def sent_on_def)
qed

lemma connection_opens:
  assumes "dialing limit s fd r w" "sends_whole E r"
  obtains w' where "poll_dispatch E s 0 events w = Some w'" "awaits_answer limit s w'" "s_cb (socks w' s) = Io_http False"
    "s_fd (socks w' s) = fd" "sent_on fd (trace w') = r" "stream w' s = r"
proof -
  have "sys_send E tr fd r = int (length r)" for tr using assms(2) by (simp add: sends_whole_def)
  then show thesis
    using assms(1) that
    by (simp add: dialing_def poll_dispatch_def connect_cb_def onClientConnection_def setState_def set_cb_def change_to_def setPoll_def
        poll_change_def setNoDelay_def upgrade_def upgrade_message_def sock_write_def write_plain_def new_message_def Let_def access case_prod_beta
        awaits_answer_def plain_sock_def isClosed_def isShuttingDown_def sock_group_def stream_def queued_def sent_ev_def
        freeMessage_def allocMessage_def upd_pool_def sent_on_def)
qed

section \<open>The server upgrades it\<close>

text \<open>The bytes \<open>bs\<close> in reads, of which each brings something.\<close>

definition cut_into :: "byte list \<Rightarrow> (mem \<times> byte list) list \<Rightarrow> bool" where
  "cut_into bs reads \<longleftrightarrow> concat (map snd reads) = bs \<and> list_all (\<lambda>(m, b). b \<noteq> [] \<and> length b < 2 ^ 32) reads"

text \<open>The connection handler of the server sends the messages of \<open>welcome\<close>.\<close>

definition greets :: "env \<Rightarrow> nat \<Rightarrow> (byte \<times> byte list) list \<Rightarrow> bool" where
  "greets E g welcome \<longleftrightarrow> (\<forall>ws r v. plain_sock (socks v ws) \<longrightarrow> (\<exists>v' fs. connectionHandler E g ws r v = Some v' \<and>
     receives_same ws v v' \<and> plain_sock (socks v' ws) \<and> map content fs = welcome \<and>
     stream v' ws = stream v ws @ concat (map (frame_of False) fs)))"

lemma server_meets:
  assumes E: "send_contract E" "greets E g welcome" "sends_whole E (answer_to E (extensionOptions (groups w g)) ls)"
    and w: "awaits_request E g s hs xs w" "s_cb (socks w s) = Io_http True" "s_queue (socks w s) = []"
    and ls: "upgrade_request ls" and cut: "cut_into (request_text ls) reads"
  obtains ws w' fs where "channel_reads E True s reads w = Some (ws, w')" "s_fd (socks w' ws) = s_fd (socks w s)"
    "s_cb (socks w' ws) = Io_ws True" "serving (g_maxPayload (groups w g)) ws w'" "s_ws (socks w' ws) = State_init (s_ws (socks w s))"
    "stream w' ws = stream w s @ answer_to E (extensionOptions (groups w g)) ls @ concat (map (frame_of False) fs)" "map content fs = welcome"
proof -
  note result = that
  have "request_text ls \<noteq> []" by (simp add: request_text_def)
  then obtain first m b early later where r: "reads = first @ (m, b @ early) # later" "b \<noteq> []" "concat (map snd first) @ b = request_text ls"
    "early @ concat (map snd later) = []"
    using cut_at_head [of reads "request_text ls" "[]"] cut by (auto simp: cut_into_def)
  have "later = []" using cut r(1,4) by (cases later) (auto simp: cut_into_def)
  with r(1,4) have reads: "reads = first @ [(m, b)]" by simp
  obtain w1 w2 w3 w4 ws m' req pmd where u: "http_reads E True s first w = Some (s, w1)"
    "http_onData E True s (wr m (recv_buffer E) b) (recv_buffer E) (length b) w1 =
       map_option (\<lambda>v. (ws, delete_socket s (cork ws False v))) (connectionHandler E g ws (m', Some req) w2)"
    "become_websocket E pmd s w3 = (ws, w2)" "plain_sock (socks w3 s)"
    "collects s w w4" "lists_kept (upd_sock s (\<lambda>x. x\<lparr>missedDeadline := False\<rparr>) w4) w3"
    "stream w3 s = stream w s @ answer_to E (extensionOptions (groups w g)) ls"
    "sends_whole E (answer_to E (extensionOptions (groups w g)) ls) \<longrightarrow> s_queue (socks w s) = [] \<longrightarrow> s_queue (socks w3 s) = []"
    using upgrade_any_cut [OF E(1) w(1) ls r(3,2)] .
  note n = upgraded_socket [OF u(4,3,5,6) w(1)]
  have idle: "s_queue (socks w2 ws) = []" using n(9) u(8) E(3) w(3) by simp
  have sv: "serving (g_maxPayload (groups w g)) ws w2" using n(8,11) idle by (simp add: serving_def plain_sock_def)
  then obtain v fs where c: "connectionHandler E g ws (m', Some req) w2 = Some v" "receives_same ws w2 v" "plain_sock (socks v ws)"
    "map content fs = welcome" "stream v ws = stream w2 ws @ concat (map (frame_of False) fs)"
    using E(2) unfolding greets_def serving_def by metis
  have ne: "s \<noteq> ws"
    using become_websocket_sock(1) [OF u(3)] u(4,6) collects_frame(3) [OF u(5)] w(1)
    by (auto simp: plain_sock_def lists_kept_def awaits_request_def list_all_iff access)
  have head: "list_all line_ok ls" "length ls < MAX_HEADERS" "length (request_text ls) \<le> MAX_HEADER_BUFFER_SIZE"
    using ls by (simp_all add: upgrade_request_def)
  have part: "partial_request s ls w (concat (map snd first) @ b)"
    using w(1) r(3) lowered_refl [OF head(1)] by (auto simp: partial_request_def awaits_request_def)
  have "collects s w w1" using http_reads_collect [OF head r(2) part, of E True] u(1) by simp
  from arg_cong [OF collects_frame(1) [OF this], of "\<lambda>f. s_cb (f s)"] have "s_cb (socks w1 s) = Io_http True" using w(2) by simp
  then have "channel_reads E True s reads w = Some (ws, delete_socket s (cork ws False v))"
    using channel_reads_http [OF head r(2) part w(2)] u(1,2) c(1) by (simp add: reads channel_reads_append)
  then show thesis
    using receives_same_fields [OF c(2)] serving_same [OF c(2) sv c(3)] n(1,2,4,5) u(7) c(4,5)
    by (intro result [of ws "delete_socket s (cork ws False v)" fs]) (simp_all add: delete_other [OF ne] cork_sock serving_cork)
qed

section \<open>The client reads the response\<close>

lemma field_plain:
  assumes "list_all line_ok ls"
  shows "plain_value (field k ls)"
proof (cases "find (line_key_is k) (tl ls)")
  case (Some l)
  then have "l \<in> set (tl ls)" by (auto simp: find_Some_iff)
  then have "line_ok l" using assms list.set_sel(2) [of ls l] by (cases ls) (auto simp: list_all_iff)
  then show ?thesis using Some by (auto simp: field_def plain_value_def line_ok_def split: prod.splits)
qed (simp add: field_def plain_value_def)

text \<open>The response is a head of the kind the client waits for.\<close>

lemma answer_head:
  assumes "list_all line_ok ls"
  obtains rs where "answer_to E options ls = request_text rs" "list_all line_ok rs" "length rs < MAX_HEADERS"
    "length (request_text rs) \<le> 640" "find (line_key_is (ascii ''upgrade'')) (tl rs) \<noteq> None"
proof -
  let ?rs = "response_lines (sha1 E) options (field (ascii ''sec-websocket-key'') ls) (field (ascii ''sec-websocket-extensions'') ls)
     (field (ascii ''sec-websocket-protocol'') ls)"
  have t: "answer_to E options ls = request_text ?rs" by (simp only: answer_to_def response_lines_text request_text_def)
  have "length (request_text ?rs) \<le> 640" unfolding t [symmetric] answer_to_def by (rule upgrade_response_length)
  moreover have "length ?rs < MAX_HEADERS" by (simp add: response_lines_def MAX_HEADERS_def)
  moreover have "find (line_key_is (ascii ''upgrade'')) (tl ?rs) \<noteq> None" by (simp only: response_lookup(1)) simp
  ultimately show thesis using that t response_lines_ok [OF field_plain [OF assms]] by blast
qed

text \<open>The messages together are short enough for the read that ends the head.\<close>

definition short_welcome :: "(byte \<times> byte list) list \<Rightarrow> bool" where
  "short_welcome ms \<longleftrightarrow> (\<Sum>(opc, p) \<leftarrow> ms. length p + 14) + 640 \<le> MAX_HEADER_BUFFER_SIZE"

lemma welcome_length:
  assumes "short_welcome (map content fs)"
  shows "length (concat (map (frame_of i) fs)) + 640 \<le> MAX_HEADER_BUFFER_SIZE"
proof -
  have "length (concat (map (frame_of i) fs)) \<le> (\<Sum>(opc, p) \<leftarrow> map content fs. length p + 14)"
  proof (induction fs)
    case (Cons f fs)
    obtain opc r p where f: "f = (opc, r, p)" by (cases f)
    have "length (frame_of i f) \<le> length p + 14" by (simp add: f length_frame_of format_header_length_def)
    then show ?case using Cons by (simp add: f content_def)
  qed simp
  then show ?thesis using assms by (simp add: short_welcome_def)
qed

lemma client_meets:
  assumes app: "served_socket obs (fresh w) E False limit reply" "opens_connection E obs limit (fresh w) greeting"
    and w: "awaits_answer limit s w" "s_cb (socks w s) = Io_http False"
    and head: "list_all line_ok rs" "length rs < MAX_HEADERS" "length (request_text rs) \<le> 640"
      "find (line_key_is (ascii ''upgrade'')) (tl rs) \<noteq> None"
    and frames: "list_all (\<lambda>(opc, p). ok_frame opc p \<and> length p \<le> unat limit) (map content ms)" "short_welcome (map content ms)"
    and cut: "cut_into (request_text rs @ concat (map (frame_of False) ms)) reads" and room: "CONSUME_PRE_PADDING False \<le> recv_buffer E"
  obtains w' fs where "channel_reads E False s reads w = Some (fresh w, w')" "obs w' = map content ms"
    "s_fd (socks w' (fresh w)) = s_fd (socks w s)" "s_cb (socks w' (fresh w)) = Io_ws False" "open_socket limit (fresh w) w'"
    "stream w' (fresh w) = stream w s @ concat (map (frame_of True) fs)"
    "map content fs = greeting @ concat (map (answers reply) (map content ms))"
proof -
  note result = that
  let ?r = "request_text rs" and ?ws = "fresh w"
  have "?r \<noteq> []" by (simp add: request_text_def)
  then obtain first m b early later where r: "reads = first @ (m, b @ early) # later" "b \<noteq> []" "concat (map snd first) @ b = ?r"
    "early @ concat (map snd later) = concat (map (frame_of False) ms)"
    using cut_at_head [of reads ?r] cut by (auto simp: cut_into_def)
  have sizes: "length ?r \<le> MAX_HEADER_BUFFER_SIZE" "length early + 640 \<le> MAX_HEADER_BUFFER_SIZE"
    using head(3) welcome_length [OF frames(2), of False] arg_cong [OF r(4), of length] by (simp_all add: MAX_HEADER_BUFFER_SIZE_def)
  then have small: "length early < 2 ^ 32" "first = [] \<or> length ?r + length early \<le> MAX_HEADER_BUFFER_SIZE"
    using head(3) by (simp_all add: MAX_HEADER_BUFFER_SIZE_def)
  have ok: "list_all (\<lambda>(opc, r, p). ok_frame opc p \<and> length p \<le> unat limit) ms"
    using frames(1) by (auto simp: list_all_iff content_def)
  obtain w1 w2 v0 fs0 where a: "http_reads E False s first w = Some (s, w1)"
    "http_onData E False s (wr m (recv_buffer E) (b @ early)) (recv_buffer E) (length (b @ early)) w1 = Some (?ws, w2)"
    "reads_on limit ok_frame (served_ready limit ?ws False obs reply v0) (served_view ?ws obs) False ?ws (map content ms) w2
      (concat (map snd later))"
    "s_fd (socks v0 ?ws) = s_fd (socks w s)" "s_cb (socks v0 ?ws) = Io_ws False"
    "stream v0 ?ws = stream w s @ concat (map (frame_of True) fs0)" "map content fs0 = greeting"
    using client_opened [OF app w(1) head(1,2) sizes(1) head(4) r(3,2) small(2) r(4) ok small(1)] .
  have "list_all (\<lambda>(m, b). length b < 2 ^ 32) later" using cut r(1) by (auto simp: cut_into_def list_all_iff)
  with channel_reads_ws [OF app(1) a(5) room, where F = "[]", unfolded append_Nil2, OF a(3)]
  obtain w3 where w3: "channel_reads E False ?ws later w2 = Some (?ws, w3)"
    "reads_on limit ok_frame (served_ready limit ?ws False obs reply v0) (served_view ?ws obs) False ?ws (map content ms) w3 []" by blast
  note e = served_since [OF app(1) w3(2)]
  obtain fs where fs: "stream w3 ?ws = stream v0 ?ws @ concat (map (frame_of True) fs)"
    "map content fs = concat (map (answers reply) (map content ms))" using e(1) by blast
  have part: "partial_request s rs w (concat (map snd first) @ b)"
    using w(1) r(3) lowered_refl [OF head(1)] by (auto simp: partial_request_def awaits_answer_def)
  have "collects s w w1" using http_reads_collect [OF head(1,2) sizes(1) r(2) part, of E False] a(1) by simp
  from arg_cong [OF collects_frame(1) [OF this], of "\<lambda>f. s_cb (f s)"] have "s_cb (socks w1 s) = Io_http False" using w(2) by simp
  then have "channel_reads E False s reads w = Some (?ws, w3)"
    using channel_reads_http [OF head(1,2) sizes(1) r(2) part w(2)] a(1,2) w3(1) by (simp add: r(1) channel_reads_append)
  then show thesis
    using e(2-4) fs a(4-7) by (intro result [of w3 "fs0 @ fs"]) (simp_all add: same_channel_def)
qed

section \<open>Property\<close>

text \<open>A target and extra headers that fit a request without stray line ends and separators.\<close>

definition plain_target :: "uri_parts \<Rightarrow> (byte list \<times> byte list) list \<Rightarrow> bool" where
  "plain_target u hs \<longleftrightarrow> 13 \<notin> set (path u) \<and> 13 \<notin> set (hostname u) \<and> hostname u \<noteq> [] \<and> \<not> separator (hd (hostname u)) \<and>
     list_all (\<lambda>(k, v). list_all key_char k \<and> plain_value v) hs \<and> length hs \<le> 90 \<and>
     length (connect_request (path u) (hostname u) (port u) hs) \<le> MAX_HEADER_BUFFER_SIZE"

definition lines_to :: "uri_parts \<Rightarrow> (byte list \<times> byte list) list \<Rightarrow> line list" where
  "lines_to u hs = request_lines (path u) (hostname u) (port u) hs"

lemma target_request:
  assumes "plain_target u hs"
  shows "upgrade_request (lines_to u hs)" "request_text (lines_to u hs) = connect_request (path u) (hostname u) (port u) hs"
proof -
  show t: "request_text (lines_to u hs) = connect_request (path u) (hostname u) (port u) hs"
    by (simp only: request_text_def lines_to_def request_lines_text)
  have "list_all line_ok (lines_to u hs)"
    using assms unfolding lines_to_def by (intro request_lines_ok) (auto simp: plain_target_def list_all_iff)
  moreover have "lines_to u hs \<noteq> []" "length (lines_to u hs) < MAX_HEADERS"
    using assms by (simp_all add: lines_to_def request_lines_def MAX_HEADERS_def plain_target_def)
  moreover have "find (line_key_is (ascii ''upgrade'')) (tl (lines_to u hs)) \<noteq> None" "length (field (ascii ''sec-websocket-key'') (lines_to u hs)) = 24"
    by (simp_all add: lines_to_def field_def request_lookup random_key_def del: ascii_simps)
  ultimately show "upgrade_request (lines_to u hs)" using assms t by (simp add: upgrade_request_def plain_target_def)
qed

text \<open>
  The client \<open>s\<close>, whose request is \<open>r\<close>, reads the bytes \<open>bs\<close> in any cut, becomes a WebSocket, and its application is handed
  the messages \<open>welcome\<close>; it sent the request, \<open>greeting\<close> and its answers.
\<close>

definition hears ::
  "env \<Rightarrow> (world \<Rightarrow> (byte \<times> byte list) list) \<Rightarrow> (byte \<Rightarrow> byte list \<Rightarrow> (byte \<times> byte list) list) \<Rightarrow> 32 word \<Rightarrow> nat \<Rightarrow> world \<Rightarrow>
   byte list \<Rightarrow> (byte \<times> byte list) list \<Rightarrow> byte list \<Rightarrow> (byte \<times> byte list) list \<Rightarrow> bool" where
  "hears E obs reply limit s w r greeting bs welcome \<longleftrightarrow> (\<forall>reads. cut_into bs reads \<longrightarrow>
     (\<exists>ws w' fs. channel_reads E False s reads w = Some (ws, w') \<and> s_fd (socks w' ws) = s_fd (socks w s) \<and>
       s_cb (socks w' ws) = Io_ws False \<and> open_socket limit ws w' \<and> obs w' = welcome \<and>
       stream w' ws = r @ concat (map (frame_of True) fs) \<and> map content fs = greeting @ concat (map (answers reply) welcome)))"

lemma client_hears:
  assumes "served_socket obs (fresh w) E False limit reply" "opens_connection E obs limit (fresh w) greeting"
    and "awaits_answer limit s w" "s_cb (socks w s) = Io_http False" "stream w s = r" "list_all line_ok ls"
    and "list_all (\<lambda>(opc, p). ok_frame opc p \<and> length p \<le> unat limit) welcome" "short_welcome welcome" "map content fs = welcome"
    and "CONSUME_PRE_PADDING False \<le> recv_buffer E"
  shows "hears E obs reply limit s w r greeting (answer_to E1 options ls @ concat (map (frame_of False) fs)) welcome"
proof -
  obtain rs where rs: "answer_to E1 options ls = request_text rs" "list_all line_ok rs" "length rs < MAX_HEADERS"
    "length (request_text rs) \<le> 640" "find (line_key_is (ascii ''upgrade'')) (tl rs) \<noteq> None"
    using answer_head [OF assms(6)] .
  show ?thesis
    unfolding hears_def
    using client_meets [OF assms(1-4) rs(2-5) _ _ _ assms(10), of fs, unfolded assms(9), OF assms(7,8)] assms(5) rs(1) by metis
qed

text \<open>
  C4: A client and a server of this library meet over plain TCP. The client connects to a URI without TLS
  whose host resolves, with at most 90 legal extra headers and a request of at most 4096 bytes. The
  request, cut into reads anywhere, reaches an accepted socket of the server, which has no upgrade
  handler; it is upgraded, and the connection handler sends the messages \<open>welcome\<close>,
  uncompressed: binary, UTF-8 text, pings and pongs (at most 125 bytes), none longer than the client's
  maxPayload, all together (14 bytes added to each) at most 3456 bytes. What it then has sent or queued, cut into
  reads anywhere, arrives at the client (\<open>hears\<close>): its socket becomes a WebSocket on its
  descriptor, and its application is handed exactly \<open>welcome\<close>, in order. The client has sent
  its request, its \<open>greeting\<close> and its answers, in this order; both are open. Assumed:
  handlers only send and record; no \<open>send\<close> fails for good; request and response are each
  taken by one \<open>send\<close>.
\<close>

theorem peers_meet:
  assumes "dials E2 g2 uri u fd limit w2" "plain_target u hs" "sends_whole E2 (connect_request (path u) (hostname u) (port u) hs)"
    and "\<And>ws. served_socket obs ws E2 False limit reply" "\<And>ws. opens_connection E2 obs limit ws greeting"
      "CONSUME_PRE_PADDING False \<le> recv_buffer E2"
    and "send_contract E1" "awaits_request E1 g1 s1 gs xs w1" "s_cb (socks w1 s1) = Io_http True" "s_queue (socks w1 s1) = []"
      "stream w1 s1 = []" "sends_whole E1 (answer_to E1 (extensionOptions (groups w1 g1)) (lines_to u hs))"
    and "greets E1 g1 welcome" "list_all (\<lambda>(opc, p). ok_frame opc p \<and> length p \<le> unat limit) welcome" "short_welcome welcome"
  shows "\<exists>s2 w2a w2b. hub_connect E2 l g2 uri user hs ms None w2 = Some w2a \<and> poll_dispatch E2 s2 0 UV_WRITABLE w2a = Some w2b \<and>
    s_fd (socks w2b s2) = fd \<and> sent_on fd (trace w2b) = connect_request (path u) (hostname u) (port u) hs \<and>
    (\<forall>reads. cut_into (sent_on fd (trace w2b)) reads \<longrightarrow> (\<exists>ws w1'. channel_reads E1 True s1 reads w1 = Some (ws, w1') \<and>
      s_fd (socks w1' ws) = s_fd (socks w1 s1) \<and> s_cb (socks w1' ws) = Io_ws True \<and> serving (g_maxPayload (groups w1 g1)) ws w1' \<and>
      hears E2 obs reply limit s2 w2b (sent_on fd (trace w2b)) greeting (stream w1' ws) welcome))"
proof -
  note t = target_request [OF assms(2)]
  let ?r = "connect_request (path u) (hostname u) (port u) hs" and ?c = "fresh w2 + 1"
  obtain w2a where a: "hub_connect E2 l g2 uri user hs ms None w2 = Some w2a" "dialing limit ?c fd ?r w2a"
    using hub_connect_dials [OF assms(1), where eh = None and def = g2 and l = l and user = user and hs = hs and ms = ms] by auto
  obtain w2b where b: "poll_dispatch E2 ?c 0 UV_WRITABLE w2a = Some w2b" "awaits_answer limit ?c w2b"
    "s_cb (socks w2b ?c) = Io_http False" "s_fd (socks w2b ?c) = fd" "sent_on fd (trace w2b) = ?r" "stream w2b ?c = ?r"
    using connection_opens [OF a(2) assms(3)] .
  have ok: "list_all line_ok (lines_to u hs)" using t(1) by (simp add: upgrade_request_def)
  have "\<exists>ws w1'. channel_reads E1 True s1 reads w1 = Some (ws, w1') \<and>
      s_fd (socks w1' ws) = s_fd (socks w1 s1) \<and> s_cb (socks w1' ws) = Io_ws True \<and> serving (g_maxPayload (groups w1 g1)) ws w1' \<and>
      hears E2 obs reply limit ?c w2b ?r greeting (stream w1' ws) welcome"
    if cut: "cut_into ?r reads" for reads
  proof -
    obtain ws w1' fs where "channel_reads E1 True s1 reads w1 = Some (ws, w1')" "s_fd (socks w1' ws) = s_fd (socks w1 s1)"
      "s_cb (socks w1' ws) = Io_ws True" "serving (g_maxPayload (groups w1 g1)) ws w1'" "map content fs = welcome"
      "stream w1' ws = answer_to E1 (extensionOptions (groups w1 g1)) (lines_to u hs) @ concat (map (frame_of False) fs)"
      using server_meets [OF assms(7,13,12,8-10) t(1), unfolded t(2), OF cut] assms(11) by (metis append_Nil)
    with client_hears [OF assms(4,5) b(2,3,6) ok assms(14,15) _ assms(6)] show ?thesis by metis
  qed
  with a(1) b(1,4,5) show ?thesis by metis
qed

text \<open>
  The server greets with one message, the client sends it back; the bytes arrive one at a time on either side.
\<close>

definition greeting_env :: env where
  "greeting_env = eager_env\<lparr>connectionHandler := (\<lambda>g s r w. ws_send eager_env True s [7] BINARY None 0 False w)\<rparr>"

definition dialing_env :: env where
  "dialing_env = echo_of (eager_env\<lparr>sys_getaddrinfo := (\<lambda>tr host p. Some [\<lparr>ai_inet6 = False, ai_addr = 0\<rparr>])\<rparr>) False"

definition waiting_world :: world where
  "waiting_world = upd_sock 4 (\<lambda>x. x\<lparr>s_cb := Io_http True\<rparr>) accepted_world"

definition bytewise :: "byte list \<Rightarrow> (mem \<times> byte list) list" where
  "bytewise = map (\<lambda>b. (\<lambda>i. 0, [b]))"

lemma cut_bytewise: "cut_into bs (bytewise bs)"
  by (induction bs) (auto simp: cut_into_def bytewise_def)

lemma eager_whole: "sends_whole greeting_env r" "sends_whole dialing_env r" "send_contract greeting_env"
  by (simp_all add: sends_whole_def greeting_env_def dialing_env_def echo_of_def eager_env_def send_contract_def env0_def)

lemma dialing_app: "served_socket noted ws dialing_env False limit echo" "opens_connection dialing_env noted limit ws []"
  "CONSUME_PRE_PADDING False \<le> recv_buffer dialing_env"
proof -
  have "send_contract (eager_env\<lparr>sys_getaddrinfo := f\<rparr>)" "quiet_callbacks (eager_env\<lparr>sys_getaddrinfo := f\<rparr>)" for f
    using eager_sends by (simp_all add: send_contract_def quiet_callbacks_def)
  then show "served_socket noted ws dialing_env False limit echo" unfolding dialing_env_def by (rule echo_served)
  show "opens_connection dialing_env noted limit ws []" unfolding dialing_env_def by (rule echo_opens)
  show "CONSUME_PRE_PADDING False \<le> recv_buffer dialing_env"
    by (simp add: dialing_env_def echo_of_def eager_env_def env0_def CONSUME_PRE_PADDING_def header_defs)
qed

lemma greeting_greets: "greets greeting_env g [(BINARY, [7])]"
  unfolding greets_def
proof (intro allI impI)
  fix ws r and v :: world
  assume "plain_sock (socks v ws)"
  then obtain v' k where v': "ws_send eager_env True ws [7] BINARY None 0 False v = Some v'" "plain_sock (socks v' ws)"
    "stream v' ws = stream v ws @ frame_of (\<not> True) (BINARY, k, [7])"
    using ws_send_frame [OF eager_sends _ user_cb_None] by blast
  then show "\<exists>v' fs. connectionHandler greeting_env g ws r v = Some v' \<and> receives_same ws v v' \<and> plain_sock (socks v' ws) \<and>
      map content fs = [(BINARY, [7])] \<and> stream v' ws = stream v ws @ concat (map (frame_of False) fs)"
    using send_frame.ws_send_absorbed [OF v'(1)]
    by (intro exI [of _ v'] exI [of _ "[(BINARY, k, [7])]"]) (simp add: greeting_env_def content_def)
qed

lemma waiting_awaits:
  "awaits_request greeting_env 0 4 [4] [] waiting_world" "s_cb (socks waiting_world 4) = Io_http True"
  "s_queue (socks waiting_world 4) = []" "stream waiting_world 4 = []"
proof -
  have "httpUpgradeHandler greeting_env = httpUpgradeHandler env0" by (simp add: greeting_env_def eager_env_def)
  moreover have "http_list waiting_world 0 [4]"
    using accepted_awaits by (intro list_frame(2) [of "[4]" waiting_world accepted_world 0]) (simp_all add: waiting_world_def access awaits_request_def)
  moreover have "ws_list waiting_world 0 []" using accepted_awaits by (simp add: awaits_request_def ws_list_def waiting_world_def access)
  ultimately show "awaits_request greeting_env 0 4 [4] [] waiting_world"
    using accepted_awaits by (simp add: awaits_request_def waiting_world_def access plain_sock_def isClosed_def isShuttingDown_def)
  show "s_cb (socks waiting_world 4) = Io_http True" by (simp add: waiting_world_def access)
  show "s_queue (socks waiting_world 4) = []" "stream waiting_world 4 = []"
    by (simp_all add: waiting_world_def stream_def queued_def accepted_world_def addHttpSocket_def timer_new_def timer_start_def new_id_def Let_def
        set_next_def set_prev_def access world0_def sock0_def group0_def sent_on_def sent_ev_def)
qed

definition example_uri :: "byte list" where
  "example_uri = ascii ''ws://a.b/chat''"

definition example_parts :: uri_parts where
  "example_parts = \<lparr>secure = False, hostname = ascii ''a.b'', port = 80, path = ascii ''chat''\<rparr>"

lemma example_target: "plain_target example_parts []"
  by (simp add: plain_target_def example_parts_def connect_request_def crlf_def random_key_def to_string_def decimal.simps MAX_HEADER_BUFFER_SIZE_def
      separator_def)

lemma example_dials: "dials dialing_env 0 example_uri example_parts 9 16777216 world0"
proof -
  have "parseURI example_uri no_uri = Some example_parts" by code_simp
  then show ?thesis
    by (simp add: dials_def dialing_env_def echo_of_def eager_env_def env0_def example_parts_def world0_def sock0_def group0_def
        sent_on_def State_init_def raw0_def)
qed

theorem peers_meet_witness:
  "\<exists>s2 w2a w2b ws w1' wc w2c fs. hub_connect dialing_env 0 0 example_uri None [] 5000 None world0 = Some w2a \<and>
     poll_dispatch dialing_env s2 0 UV_WRITABLE w2a = Some w2b \<and>
     channel_reads greeting_env True 4 (bytewise (sent_on 9 (trace w2b))) waiting_world = Some (ws, w1') \<and>
     channel_reads dialing_env False s2 (bytewise (stream w1' ws)) w2b = Some (wc, w2c) \<and>
     s_fd (socks w2c wc) = 9 \<and> noted w2c = [(BINARY, [7])] \<and>
     stream w2c wc = sent_on 9 (trace w2b) @ concat (map (frame_of True) fs) \<and> map content fs = [(BINARY, [7])]"
proof -
  have sent: "list_all (\<lambda>(opc, p). ok_frame opc p \<and> length p \<le> unat (16777216 :: 32 word)) [(BINARY, [7])]" "short_welcome [(BINARY, [7])]"
    by (simp_all add: ok_frame_def ok_message_def short_welcome_def MAX_HEADER_BUFFER_SIZE_def)
  obtain s2 w2a w2b where m: "hub_connect dialing_env 0 0 example_uri None [] 5000 None world0 = Some w2a"
    "poll_dispatch dialing_env s2 0 UV_WRITABLE w2a = Some w2b" "s_fd (socks w2b s2) = 9"
    and all: "\<And>reads. cut_into (sent_on 9 (trace w2b)) reads \<Longrightarrow> \<exists>ws w1'. channel_reads greeting_env True 4 reads waiting_world = Some (ws, w1') \<and>
      hears dialing_env noted echo 16777216 s2 w2b (sent_on 9 (trace w2b)) [] (stream w1' ws) [(BINARY, [7])]"
    using peers_meet [OF example_dials example_target eager_whole(2) dialing_app eager_whole(3) waiting_awaits eager_whole(1)
        greeting_greets sent, of 0 None 5000] by metis
  obtain ws w1' where s: "channel_reads greeting_env True 4 (bytewise (sent_on 9 (trace w2b))) waiting_world = Some (ws, w1')"
    and h: "hears dialing_env noted echo 16777216 s2 w2b (sent_on 9 (trace w2b)) [] (stream w1' ws) [(BINARY, [7])]"
    using all [OF cut_bytewise] by blast
  have "concat (map (answers echo) [(BINARY, [7])]) = [(BINARY, [7 :: byte])]" by (simp add: answers_def echo_def opcode_defs)
  with h cut_bytewise [of "stream w1' ws"] obtain wc w2c fs where "channel_reads dialing_env False s2 (bytewise (stream w1' ws)) w2b = Some (wc, w2c)"
    "s_fd (socks w2c wc) = s_fd (socks w2b s2)" "noted w2c = [(BINARY, [7])]"
    "stream w2c wc = sent_on 9 (trace w2b) @ concat (map (frame_of True) fs)" "map content fs = [(BINARY, [7])]"
    unfolding hears_def by force
  with m s show ?thesis by metis
qed

end
